(* ===== verification/Prelude.thy ===== *)
theory Prelude
  imports Main "HOL-Library.Word" "HOL-Library.Monad_Syntax"
begin

text \<open>
  Shared types and lemmas of the development: the machine types of the C++ code as fixed
  width words, the object representation of an integer on the little endian targets the
  code is written for (\<open>sframe/integer_pack.hpp\<close> states that it relies on it), and the
  generic facts on lists, options and words that the component theories use.
\<close>

unbundle bit_operations_syntax

type_synonym byte = "8 word"
type_synonym u16 = "16 word"
type_synonym u32 = "32 word"
type_synonym u64 = "64 word"

text \<open>A \<open>std::string\<close> or \<open>std::vector<char>\<close> is a list of bytes.\<close>

type_synonym cstring = "byte list"

text \<open>How a call fails: a failed assertion, an I/O failure the code reports, undefined behaviour,
  cancellation by the user, and an exception thrown for a call that is not allowed.\<close>

datatype error = Assertion_Failed | Io_Failure | Undefined_Behaviour | Cancelled | Thrown

text \<open>Sequencing of calls that may throw.\<close>

definition result_bind :: "'e + 'a \<Rightarrow> ('a \<Rightarrow> 'e + 'b) \<Rightarrow> 'e + 'b" where
  "result_bind r f = (case r of Inl e \<Rightarrow> Inl e | Inr x \<Rightarrow> f x)"

lemma result_bind_simps [simp]: "result_bind (Inl e) f = Inl e" "result_bind (Inr x) f = f x"
  by (simp_all add: result_bind_def)

text \<open>Sequencing of calls that may also not return.\<close>

definition run_bind :: "('e + 'a) option \<Rightarrow> ('a \<Rightarrow> ('e + 'b) option) \<Rightarrow> ('e + 'b) option" where
  "run_bind r f = (case r of None \<Rightarrow> None | Some (Inl e) \<Rightarrow> Some (Inl e) | Some (Inr x) \<Rightarrow> f x)"

lemma run_bind_simps [simp]:
  "run_bind None f = None" "run_bind (Some (Inl e)) f = Some (Inl e)" "run_bind (Some (Inr x)) f = f x"
  by (simp_all add: run_bind_def)

definition defined_or :: "'a option \<Rightarrow> error + 'a" where
  "defined_or r = (case r of None \<Rightarrow> Inl Undefined_Behaviour | Some x \<Rightarrow> Inr x)"

lemma defined_or_simps [simp]: "defined_or None = Inl Undefined_Behaviour" "defined_or (Some x) = Inr x"
  by (simp_all add: defined_or_def)

named_theorems archive_simps \<open>effect of the output archive operations on the bytes written\<close>

subsection \<open>Object representation of integers\<close>

text \<open>
  \<open>le_bytes n w\<close> is the \<open>n\<close> lowest addressed bytes of an integer object with value \<open>w\<close>;
  \<open>le_word bs\<close> is the value of the integer object that holds the bytes \<open>bs\<close>.
\<close>

fun le_bytes :: "nat \<Rightarrow> 'a::len word \<Rightarrow> byte list" where
  "le_bytes 0 w = []"
| "le_bytes (Suc n) w = ucast w # le_bytes n (drop_bit 8 w)"

fun le_word :: "byte list \<Rightarrow> 'a::len word" where
  "le_word [] = 0"
| "le_word (b # bs) = ucast b OR push_bit 8 (le_word bs)"

definition bytes_of :: "'a::len word \<Rightarrow> byte list" where
  "bytes_of w = le_bytes (LENGTH('a) div 8) w"

lemma length_le_bytes [simp]: "length (le_bytes n w) = n"
  by (induction n arbitrary: w) auto

lemma length_bytes_of [simp]: "length (bytes_of (w :: 'a::len word)) = LENGTH('a) div 8"
  by (simp add: bytes_of_def)

lemma take_le_bytes: "k \<le> n \<Longrightarrow> take k (le_bytes n w) = le_bytes k w"
proof (induction n arbitrary: k w)
  case (Suc n)
  then show ?case by (cases k) auto
qed simp

lemma bit_le_word_le_bytes:
  fixes w :: "'a::len word"
  shows "bit (le_word (le_bytes n w) :: 'a word) k \<longleftrightarrow> k < 8 * n \<and> bit w k"
proof (induction n arbitrary: w k)
  case (Suc n)
  have "bit w k \<Longrightarrow> k < LENGTH('a)" by (simp add: bit_imp_le_length)
  then show ?case
    by (cases "k < 8") (auto simp: bit_simps Suc)
qed simp

lemma le_word_le_bytes: "(le_word (le_bytes n w) :: 'a::len word) = take_bit (8 * n) w"
  by (rule bit_word_eqI) (simp add: bit_le_word_le_bytes bit_simps)

lemma le_word_bytes_of:
  "LENGTH('a) mod 8 = 0 \<Longrightarrow> (le_word (bytes_of w) :: 'a::len word) = w"
  by (rule bit_word_eqI) (auto simp: bytes_of_def bit_le_word_le_bytes)

text \<open>A \<open>size_t\<close> that fits 64 bits survives the cast to \<open>uint64_t\<close>.\<close>

lemma unat_of_nat_u64: "n < 2 ^ 64 \<Longrightarrow> unat (of_nat n :: u64) = n"
  by (simp add: unsigned_of_nat take_bit_nat_eq_self)

lemma le_word_append_zeros: "le_word (bs @ replicate k 0) = le_word bs"
proof -
  have "le_word (replicate k 0) = (0 :: 'a::len word)" by (induction k) simp_all
  then show ?thesis by (induction bs) simp_all
qed

lemma le_bytes_ucast:
  "8 * n \<le> LENGTH('b) \<Longrightarrow> le_bytes n (ucast w :: 'b::len word) = le_bytes n w"
proof (induction n arbitrary: w)
  case (Suc n)
  have "drop_bit 8 (ucast w :: 'b word) = take_bit (LENGTH('b) - 8) (ucast (drop_bit 8 w))"
    by (rule bit_word_eqI) (auto simp: bit_simps)
  moreover have "le_bytes n (take_bit m v) = le_bytes n v" if "8 * n \<le> m" for m and v :: "'b word"
    using that
  proof (induction n arbitrary: m v)
    case (Suc n)
    have "drop_bit 8 (take_bit m v) = take_bit (m - 8) (drop_bit 8 v)" by (simp add: drop_bit_take_bit)
    moreover have "ucast (take_bit m v) = (ucast v :: byte)"
      by (rule bit_word_eqI) (use Suc.prems in \<open>auto simp: bit_simps\<close>)
    ultimately show ?case using Suc by simp
  qed simp
  moreover have "ucast (ucast w :: 'b word) = (ucast w :: byte)"
    by (rule bit_word_eqI) (use Suc.prems in \<open>auto simp: bit_simps\<close>)
  ultimately show ?case using Suc by simp
qed simp

text \<open>\<open>overwrite i bs arr\<close>: copy \<open>bs\<close> into the array \<open>arr\<close> at index \<open>i\<close>.\<close>

definition overwrite :: "nat \<Rightarrow> 'b list \<Rightarrow> 'b list \<Rightarrow> 'b list" where
  "overwrite i bs arr = take i arr @ bs @ drop (i + length bs) arr"

subsection \<open>Arrays of integers as byte arrays\<close>

text \<open>\<open>chunks sz n bs\<close> are the first \<open>n\<close> objects of size \<open>sz\<close> in the byte array \<open>bs\<close>.\<close>

fun chunks :: "nat \<Rightarrow> nat \<Rightarrow> 'b list \<Rightarrow> 'b list list" where
  "chunks sz 0 bs = []"
| "chunks sz (Suc n) bs = take sz bs # chunks sz n (drop sz bs)"

lemma chunks_concat:
  assumes "\<And>x. length (repr x) = sz"
  shows "chunks sz (length xs) (concat (map repr xs)) = map repr xs"
  by (induction xs) (simp_all add: assms)

definition words_bytes :: "'a::len word list \<Rightarrow> byte list" where
  "words_bytes ws = concat (map bytes_of ws)"

definition bytes_words :: "nat \<Rightarrow> byte list \<Rightarrow> 'a::len word list" where
  "bytes_words n bs = map le_word (chunks (LENGTH('a) div 8) n bs)"

lemma length_words_bytes: "length (words_bytes (ws :: 'a::len word list)) = LENGTH('a) div 8 * length ws"
  by (induction ws) (simp_all add: words_bytes_def)

lemma bytes_words_words_bytes:
  "LENGTH('a) mod 8 = 0 \<Longrightarrow> bytes_words (length ws) (words_bytes ws) = (ws :: 'a::len word list)"
  by (simp add: bytes_words_def words_bytes_def chunks_concat le_word_bytes_of comp_def)

subsection \<open>Single precision\<close>

text \<open>
  \<open>round24\<close> rounds to 24 significant bits, ties to even. \<open>float_div p q\<close> is \<open>p / q\<close> rounded to 24
  significant bits, as \<open>m / 2 ^ k\<close>: the quotient is taken with enough bits, and its last bit tells whether
  something was cut off.
\<close>

fun bit_length :: "nat \<Rightarrow> nat" where
  "bit_length n = (if n = 0 then 0 else Suc (bit_length (n div 2)))"

declare bit_length.simps [simp del]

definition round24 :: "nat \<Rightarrow> nat" where
  "round24 n =
     (if n < 2 ^ 24 then n
      else let k = bit_length n - 24; q = n div 2 ^ k; r = n mod 2 ^ k; half = 2 ^ (k - 1)
           in (if half < r \<or> r = half \<and> odd q then q + 1 else q) * 2 ^ k)"

definition float_div :: "nat \<Rightarrow> nat \<Rightarrow> nat \<times> nat" where
  "float_div p q =
     (let k = bit_length q + 25; n = p * 2 ^ k
      in (round24 (2 * (n div q) + (if n mod q = 0 then 0 else 1)), k + 1))"

end
