(* ===== verification/Archive.thy ===== *)
theory Archive
  imports Prelude
begin

text \<open>
  The serialization layer: \<open>oarchive\<close> and \<open>iarchive\<close> of \<open>serialization/oarchive.hpp\<close> and
  \<open>serialization/iarchive.hpp\<close> in their buffer mode (the mode the SFrame block code uses),
  and the serializers of the basic types, strings, pairs and vectors.

  The output archive owns a growing buffer: \<open>o_len\<close> bytes are allocated and the first
  \<open>o_off\<close> of them are written. The input archive is a cursor over a buffer of \<open>i_len\<close> bytes.
  The C++ read does not check the end of the buffer; a read that would leave the buffer is
  undefined behaviour there and is the value \<^const>\<open>None\<close> here.
\<close>

section \<open>Output archive\<close>

record oarchive =
  o_buf :: "byte list"
  o_off :: nat
  o_len :: nat

text \<open>The constructor \<open>oarchive(std::vector<char>&)\<close> starts at offset 0 of an existing vector.\<close>

definition oarchive_vec :: "byte list \<Rightarrow> oarchive" where
  "oarchive_vec vec = \<lparr>o_buf = vec, o_off = 0, o_len = length vec\<rparr>"

definition oarchive_new :: oarchive where
  "oarchive_new = \<lparr>o_buf = [], o_off = 0, o_len = 0\<rparr>"

definition expand_buf :: "nat \<Rightarrow> oarchive \<Rightarrow> oarchive" where
  "expand_buf s oarc =
     (if o_off oarc + s > o_len oarc
      then let len' = 2 * (s + o_len oarc)
           in oarc\<lparr>o_len := len',
                   o_buf := take len' (o_buf oarc) @ replicate (len' - length (o_buf oarc)) 0\<rparr>
      else oarc)"

text \<open>\<open>memcpy(buf + off, c, s); off += s\<close>.\<close>

definition store_bytes :: "byte list \<Rightarrow> oarchive \<Rightarrow> oarchive" where
  "store_bytes c oarc =
     oarc\<lparr>o_buf := overwrite (o_off oarc) c (o_buf oarc),
          o_off := o_off oarc + length c\<rparr>"

definition owrite :: "oarchive \<Rightarrow> byte list \<Rightarrow> oarchive" where
  "owrite oarc c = store_bytes c (expand_buf (length c) oarc)"

definition direct_assign :: "oarchive \<Rightarrow> 'a::len word \<Rightarrow> oarchive" where
  "direct_assign oarc t = store_bytes (bytes_of t) (expand_buf (LENGTH('a) div 8) oarc)"

definition advance :: "oarchive \<Rightarrow> nat \<Rightarrow> oarchive" where
  "advance oarc s = (let a = expand_buf s oarc in a\<lparr>o_off := o_off a + s\<rparr>)"

text \<open>Invariant of the output archive, and the bytes written so far.\<close>

definition o_wf :: "oarchive \<Rightarrow> bool" where
  "o_wf oarc \<longleftrightarrow> length (o_buf oarc) = o_len oarc \<and> o_off oarc \<le> o_len oarc"

definition o_data :: "oarchive \<Rightarrow> byte list" where
  "o_data oarc = take (o_off oarc) (o_buf oarc)"

lemma oarchive_vec_wf [simp]: "o_wf (oarchive_vec vec)" "o_data (oarchive_vec vec) = []"
  by (simp_all add: oarchive_vec_def o_wf_def o_data_def)

lemma oarchive_new_wf [simp]: "o_wf oarchive_new" "o_data oarchive_new = []"
  by (simp_all add: oarchive_new_def o_wf_def o_data_def)

lemma expand_buf_wf:
  assumes "o_wf oarc"
  shows "o_wf (expand_buf s oarc)" and "o_data (expand_buf s oarc) = o_data oarc"
    and "o_off (expand_buf s oarc) = o_off oarc"
    and "o_off oarc + s \<le> o_len (expand_buf s oarc)"
  using assms by (auto simp: expand_buf_def o_wf_def o_data_def Let_def)

lemma store_bytes_wf:
  assumes "o_wf oarc" and "o_off oarc + length c \<le> o_len oarc"
  shows "o_wf (store_bytes c oarc)" and "o_data (store_bytes c oarc) = o_data oarc @ c"
  using assms by (auto simp: store_bytes_def overwrite_def o_wf_def o_data_def)

lemma owrite_wf [simp]: "o_wf oarc \<Longrightarrow> o_wf (owrite oarc c)"
  and owrite_data [archive_simps]: "o_wf oarc \<Longrightarrow> o_data (owrite oarc c) = o_data oarc @ c"
  by (simp_all add: owrite_def expand_buf_wf store_bytes_wf)

lemma direct_assign_wf [simp]: "o_wf oarc \<Longrightarrow> o_wf (direct_assign oarc t)"
  and direct_assign_data [archive_simps]:
    "o_wf oarc \<Longrightarrow> o_data (direct_assign oarc t) = o_data oarc @ bytes_of t"
  by (simp_all add: direct_assign_def expand_buf_wf store_bytes_wf)

lemma advance_wf [simp]: "o_wf oarc \<Longrightarrow> o_wf (advance oarc s)"
  using expand_buf_wf [of oarc s] by (auto simp: advance_def Let_def o_wf_def)

lemma length_o_data: "o_wf oarc \<Longrightarrow> length (o_data oarc) = o_off oarc"
  by (simp add: o_wf_def o_data_def)

section \<open>Input archive\<close>

record iarchive =
  i_buf :: "byte list"
  i_off :: nat
  i_len :: nat

definition iarchive_new :: "byte list \<Rightarrow> nat \<Rightarrow> iarchive" where
  "iarchive_new buf len = \<lparr>i_buf = buf, i_off = 0, i_len = len\<rparr>"

definition iread :: "iarchive \<Rightarrow> nat \<Rightarrow> (byte list \<times> iarchive) option" where
  "iread iarc l =
     (if i_off iarc + l \<le> i_len iarc
      then Some (take l (drop (i_off iarc) (i_buf iarc)), iarc\<lparr>i_off := i_off iarc + l\<rparr>)
      else None)"

definition read_char :: "iarchive \<Rightarrow> (byte \<times> iarchive) option" where
  "read_char iarc =
     (if i_off iarc < i_len iarc
      then Some (i_buf iarc ! i_off iarc, iarc\<lparr>i_off := i_off iarc + 1\<rparr>)
      else None)"

definition read_into :: "iarchive \<Rightarrow> ('a::len word \<times> iarchive) option" where
  "read_into iarc =
     (case iread iarc (LENGTH('a) div 8) of
        None \<Rightarrow> None
      | Some (bs, iarc') \<Rightarrow> Some (le_word bs, iarc'))"

definition i_wf :: "iarchive \<Rightarrow> bool" where
  "i_wf iarc \<longleftrightarrow> length (i_buf iarc) = i_len iarc \<and> i_off iarc \<le> i_len iarc"

text \<open>The bytes not read yet, and the archive after \<open>n\<close> more bytes have been read.\<close>

definition i_rest :: "iarchive \<Rightarrow> byte list" where
  "i_rest iarc = drop (i_off iarc) (i_buf iarc)"

definition i_adv :: "nat \<Rightarrow> iarchive \<Rightarrow> iarchive" where
  "i_adv n iarc = iarc\<lparr>i_off := i_off iarc + n\<rparr>"

lemma iarchive_new_wf [simp]:
  "i_wf (iarchive_new buf (length buf))" "i_rest (iarchive_new buf len) = buf"
  by (simp_all add: iarchive_new_def i_wf_def i_rest_def)

lemma i_adv_simps [simp]: "i_adv 0 iarc = iarc" "i_adv m (i_adv n iarc) = i_adv (n + m) iarc"
  by (simp_all add: i_adv_def)

lemma i_adv_wf:
  assumes "i_wf iarc" and "i_rest iarc = bs @ r"
  shows "i_wf (i_adv (length bs) iarc)" and "i_rest (i_adv (length bs) iarc) = r"
proof -
  have "length bs \<le> i_len iarc - i_off iarc"
    using assms by (metis i_wf_def i_rest_def length_drop length_append le_add1)
  with assms show "i_wf (i_adv (length bs) iarc)"
    by (auto simp: i_wf_def i_adv_def)
  have "drop (length bs) (i_rest iarc) = r" by (simp add: assms)
  then show "i_rest (i_adv (length bs) iarc) = r"
    by (simp add: i_rest_def i_adv_def add.commute)
qed

lemma iread_app:
  assumes "i_wf iarc" and "i_rest iarc = bs @ r" and "length bs = n"
  shows "iread iarc n = Some (bs, i_adv n iarc)"
proof -
  have "n \<le> i_len iarc - i_off iarc"
    using assms by (metis i_wf_def i_rest_def length_drop length_append le_add1)
  moreover have "take n (drop (i_off iarc) (i_buf iarc)) = bs"
    using assms by (simp add: i_rest_def)
  ultimately show ?thesis
    using assms(1) by (auto simp: iread_def i_wf_def i_adv_def)
qed

lemma read_into_app:
  assumes "i_wf iarc" and "i_rest iarc = bytes_of (t :: 'a::len word) @ r" and "LENGTH('a) mod 8 = 0"
  shows "read_into iarc = Some (t, i_adv (LENGTH('a) div 8) iarc)"
  using iread_app [OF assms(1,2)] assms(3) by (simp add: read_into_def le_word_bytes_of)

section \<open>Serializers of the basic types\<close>

text \<open>\<open>std::string\<close> (\<open>basic_types.hpp\<close>): an 8 byte length, then the characters.\<close>

definition string_save :: "oarchive \<Rightarrow> cstring \<Rightarrow> oarchive" where
  "string_save oarc s = owrite (direct_assign oarc (of_nat (length s) :: u64)) s"

definition string_load :: "iarchive \<Rightarrow> (cstring \<times> iarchive) option" where
  "string_load iarc = do {
     (len :: u64, iarc) \<leftarrow> read_into iarc;
     iread iarc (unat len) }"

text \<open>\<open>std::pair\<close>: the first component, then the second.\<close>

definition pair_save ::
  "(oarchive \<Rightarrow> 'a \<Rightarrow> oarchive) \<Rightarrow> (oarchive \<Rightarrow> 'b \<Rightarrow> oarchive) \<Rightarrow> oarchive \<Rightarrow> 'a \<times> 'b \<Rightarrow> oarchive"
where
  "pair_save save1 save2 oarc s = save2 (save1 oarc (fst s)) (snd s)"

definition pair_load ::
  "(iarchive \<Rightarrow> ('a \<times> iarchive) option) \<Rightarrow> (iarchive \<Rightarrow> ('b \<times> iarchive) option) \<Rightarrow>
     iarchive \<Rightarrow> (('a \<times> 'b) \<times> iarchive) option"
where
  "pair_load load1 load2 iarc = do {
     (a, iarc) \<leftarrow> load1 iarc;
     (b, iarc) \<leftarrow> load2 iarc;
     Some ((a, b), iarc) }"

text \<open>
  \<open>std::vector\<close> (\<open>vector.hpp\<close>): an 8 byte element count, then the elements one by one, or,
  for an element type that is plain data, their object representations in one write.
\<close>

definition vector_save :: "(oarchive \<Rightarrow> 'a \<Rightarrow> oarchive) \<Rightarrow> oarchive \<Rightarrow> 'a list \<Rightarrow> oarchive" where
  "vector_save save oarc vec = foldl save (direct_assign oarc (of_nat (length vec) :: u64)) vec"

fun load_n :: "(iarchive \<Rightarrow> ('a \<times> iarchive) option) \<Rightarrow> nat \<Rightarrow> iarchive \<Rightarrow> ('a list \<times> iarchive) option"
where
  "load_n load 0 iarc = Some ([], iarc)"
| "load_n load (Suc n) iarc = do {
     (x, iarc) \<leftarrow> load iarc;
     (xs, iarc) \<leftarrow> load_n load n iarc;
     Some (x # xs, iarc) }"

definition vector_load ::
  "(iarchive \<Rightarrow> ('a \<times> iarchive) option) \<Rightarrow> iarchive \<Rightarrow> ('a list \<times> iarchive) option"
where
  "vector_load load iarc = do {
     (len :: u64, iarc) \<leftarrow> read_into iarc;
     load_n load (unat len) iarc }"

definition vector_pod_save :: "('a \<Rightarrow> byte list) \<Rightarrow> oarchive \<Rightarrow> 'a list \<Rightarrow> oarchive" where
  "vector_pod_save repr oarc vec =
     owrite (direct_assign oarc (of_nat (length vec) :: u64)) (concat (map repr vec))"

definition vector_pod_load ::
  "(byte list \<Rightarrow> 'a) \<Rightarrow> nat \<Rightarrow> iarchive \<Rightarrow> ('a list \<times> iarchive) option"
where
  "vector_pod_load rd sz iarc = do {
     (len :: u64, iarc) \<leftarrow> read_into iarc;
     (bs, iarc) \<leftarrow> iread iarc (sz * unat len);
     Some (map rd (chunks sz (unat len) bs), iarc) }"

section \<open>The contract between a serializer and its deserializer\<close>

text \<open>
  What every \<open>save\<close>/\<open>load\<close> pair of the code promises: saving appends the wire form of the
  value to the bytes written, and loading from an archive whose unread bytes start with
  that wire form yields the value and leaves the cursor right behind it. Values compose by
  writing one after the other, so pairs and vectors of such values keep the contract.
\<close>

locale codec =
  fixes save :: "oarchive \<Rightarrow> 'a \<Rightarrow> oarchive"
    and load :: "iarchive \<Rightarrow> ('a \<times> iarchive) option"
    and wire :: "'a \<Rightarrow> byte list"
    and ok :: "'a \<Rightarrow> bool"
  assumes save_wf: "o_wf oarc \<Longrightarrow> o_wf (save oarc x)"
    and save_data: "o_wf oarc \<Longrightarrow> o_data (save oarc x) = o_data oarc @ wire x"
    and load_wire: "i_wf iarc \<Longrightarrow> ok x \<Longrightarrow> i_rest iarc = wire x @ r \<Longrightarrow>
          load iarc = Some (x, i_adv (length (wire x)) iarc)"
begin

lemma load_save:
  assumes "ok x" and "o_wf oarc" and "o_data oarc = []"
  shows "load (iarchive_new (o_data (save oarc x)) (o_off (save oarc x)))
           = Some (x, i_adv (o_off (save oarc x)) (iarchive_new (o_data (save oarc x)) (o_off (save oarc x))))"
proof -
  have d: "o_data (save oarc x) = wire x" using assms by (simp add: save_data)
  have l: "o_off (save oarc x) = length (wire x)"
    using assms d by (metis length_o_data save_wf)
  show ?thesis
    using load_wire [of "iarchive_new (wire x) (length (wire x))" x "[]"] assms(1)
    by (simp add: d l)
qed

lemma foldl_save:
  "o_wf oarc \<Longrightarrow> o_wf (foldl save oarc xs) \<and>
     o_data (foldl save oarc xs) = o_data oarc @ concat (map wire xs)"
  by (induction xs arbitrary: oarc) (auto simp: save_wf save_data)

lemma load_n_wire:
  "i_wf iarc \<Longrightarrow> list_all ok xs \<Longrightarrow> i_rest iarc = concat (map wire xs) @ r \<Longrightarrow> n = length xs \<Longrightarrow>
     load_n load n iarc = Some (xs, i_adv (length (concat (map wire xs))) iarc)"
proof (induction xs arbitrary: iarc n)
  case (Cons x xs)
  let ?i = "i_adv (length (wire x)) iarc"
  have rest: "i_rest iarc = wire x @ (concat (map wire xs) @ r)" using Cons.prems by simp
  have "load iarc = Some (x, ?i)"
    using Cons.prems rest by (intro load_wire) auto
  moreover have "load_n load (length xs) ?i = Some (xs, i_adv (length (concat (map wire xs))) ?i)"
    using Cons.prems i_adv_wf [OF Cons.prems(1) rest] by (intro Cons.IH) auto
  ultimately show ?case by (simp add: Cons.prems(4))
qed simp

lemma vector_codec:
  "codec (vector_save save) (vector_load load)
     (\<lambda>xs. bytes_of (of_nat (length xs) :: u64) @ concat (map wire xs))
     (\<lambda>xs. length xs < 2 ^ 64 \<and> list_all ok xs)"
proof
  fix oarc :: oarchive and xs :: "'a list"
  assume "o_wf oarc"
  then show "o_wf (vector_save save oarc xs)"
    and "o_data (vector_save save oarc xs) =
      o_data oarc @ bytes_of (of_nat (length xs) :: u64) @ concat (map wire xs)"
    by (simp_all add: vector_save_def foldl_save archive_simps)
next
  fix iarc :: iarchive and xs :: "'a list" and r
  assume wf: "i_wf iarc" and ok: "length xs < 2 ^ 64 \<and> list_all ok xs"
    and rest: "i_rest iarc = (bytes_of (of_nat (length xs) :: u64) @ concat (map wire xs)) @ r"
  let ?n = "of_nat (length xs) :: u64"
  have rest': "i_rest iarc = bytes_of ?n @ (concat (map wire xs) @ r)" using rest by simp
  note adv = i_adv_wf [OF wf rest']
  have "read_into iarc = Some (?n, i_adv 8 iarc)"
    using read_into_app [OF wf rest'] by simp
  moreover have "unat ?n = length xs" using ok by (simp add: unat_of_nat_u64)
  ultimately show "vector_load load iarc = Some (xs, i_adv (length
      (bytes_of (of_nat (length xs) :: u64) @ concat (map wire xs))) iarc)"
    using load_n_wire [OF _ _ _ refl, of "i_adv 8 iarc" xs r] adv ok
    by (simp add: vector_load_def add.commute)
qed

end

text \<open>Plain integers of the sizes the code writes.\<close>

interpretation u8_codec: codec "direct_assign :: oarchive \<Rightarrow> byte \<Rightarrow> oarchive" read_into bytes_of "\<lambda>_. True"
  by unfold_locales (simp_all add: archive_simps read_into_app)

interpretation u16_codec: codec "direct_assign :: oarchive \<Rightarrow> u16 \<Rightarrow> oarchive" read_into bytes_of "\<lambda>_. True"
  by unfold_locales (simp_all add: archive_simps read_into_app)

interpretation u64_codec: codec "direct_assign :: oarchive \<Rightarrow> u64 \<Rightarrow> oarchive" read_into bytes_of "\<lambda>_. True"
  by unfold_locales (simp_all add: archive_simps read_into_app)

definition string_wire :: "cstring \<Rightarrow> byte list" where
  "string_wire s = bytes_of (of_nat (length s) :: u64) @ s"

interpretation string_codec: codec string_save string_load string_wire "\<lambda>s. length s < 2 ^ 64"
proof
  fix oarc :: oarchive and s
  assume "o_wf oarc"
  then show "o_wf (string_save oarc s)" and "o_data (string_save oarc s) = o_data oarc @ string_wire s"
    by (simp_all add: string_save_def string_wire_def archive_simps)
next
  fix iarc :: iarchive and s :: cstring and r
  assume wf: "i_wf iarc" and ok: "length s < 2 ^ 64" and rest: "i_rest iarc = string_wire s @ r"
  let ?n = "of_nat (length s) :: u64"
  have rest': "i_rest iarc = bytes_of ?n @ (s @ r)" using rest by (simp add: string_wire_def)
  note adv = i_adv_wf [OF wf rest']
  have "read_into iarc = Some (?n, i_adv 8 iarc)" using read_into_app [OF wf rest'] by simp
  moreover have "unat ?n = length s" using ok by (simp add: unat_of_nat_u64)
  ultimately show "string_load iarc = Some (s, i_adv (length (string_wire s)) iarc)"
    using iread_app [of "i_adv 8 iarc" s r] adv
    by (simp add: string_load_def string_wire_def add.commute)
qed

lemma pair_codec:
  assumes "codec save1 load1 wire1 ok1" and "codec save2 load2 wire2 ok2"
  shows "codec (pair_save save1 save2) (pair_load load1 load2)
           (\<lambda>(a, b). wire1 a @ wire2 b) (\<lambda>(a, b). ok1 a \<and> ok2 b)"
proof
  fix oarc :: oarchive and x :: "'a \<times> 'b"
  assume "o_wf oarc"
  then show "o_wf (pair_save save1 save2 oarc x)"
    and "o_data (pair_save save1 save2 oarc x) = o_data oarc @ (case x of (a, b) \<Rightarrow> wire1 a @ wire2 b)"
    using assms by (auto simp: pair_save_def codec.save_wf codec.save_data split: prod.split)
next
  fix iarc :: iarchive and x :: "'a \<times> 'b" and r
  assume wf: "i_wf iarc" and ok: "case x of (a, b) \<Rightarrow> ok1 a \<and> ok2 b"
    and rest: "i_rest iarc = (case x of (a, b) \<Rightarrow> wire1 a @ wire2 b) @ r"
  obtain a b where x: "x = (a, b)" by (cases x)
  have rest': "i_rest iarc = wire1 a @ (wire2 b @ r)" using rest x by simp
  note adv = i_adv_wf [OF wf rest']
  have "load1 iarc = Some (a, i_adv (length (wire1 a)) iarc)"
    using codec.load_wire [OF assms(1) wf _ rest'] ok x by simp
  moreover have "load2 (i_adv (length (wire1 a)) iarc)
      = Some (b, i_adv (length (wire2 b)) (i_adv (length (wire1 a)) iarc))"
    using codec.load_wire [OF assms(2) adv(1) _ adv(2)] ok x by simp
  ultimately show "pair_load load1 load2 iarc =
      Some (x, i_adv (length (case x of (a, b) \<Rightarrow> wire1 a @ wire2 b)) iarc)"
    by (simp add: pair_load_def x)
qed

lemma vector_pod_codec:
  assumes sz: "\<And>x. length (repr x) = sz" and rd: "\<And>x. rd (repr x) = x"
  shows "codec (vector_pod_save repr) (vector_pod_load rd sz)
           (\<lambda>xs. bytes_of (of_nat (length xs) :: u64) @ concat (map repr xs)) (\<lambda>xs. length xs < 2 ^ 64)"
proof
  fix oarc :: oarchive and xs
  assume "o_wf oarc"
  then show "o_wf (vector_pod_save repr oarc xs)"
    and "o_data (vector_pod_save repr oarc xs) =
      o_data oarc @ bytes_of (of_nat (length xs) :: u64) @ concat (map repr xs)"
    by (simp_all add: vector_pod_save_def archive_simps)
next
  fix iarc :: iarchive and xs r
  assume wf: "i_wf iarc" and ok: "length xs < 2 ^ 64"
    and rest: "i_rest iarc = (bytes_of (of_nat (length xs) :: u64) @ concat (map repr xs)) @ r"
  let ?n = "of_nat (length xs) :: u64"
  have rest': "i_rest iarc = bytes_of ?n @ (concat (map repr xs) @ r)" using rest by simp
  note adv = i_adv_wf [OF wf rest']
  have "read_into iarc = Some (?n, i_adv 8 iarc)" using read_into_app [OF wf rest'] by simp
  moreover have n: "unat ?n = length xs" using ok by (simp add: unat_of_nat_u64)
  moreover have len: "length (concat (map repr xs)) = sz * length xs"
    by (induction xs) (simp_all add: sz)
  ultimately show "vector_pod_load rd sz iarc = Some (xs, i_adv (length
      (bytes_of (of_nat (length xs) :: u64) @ concat (map repr xs))) iarc)"
    using iread_app [of "i_adv 8 iarc" "concat (map repr xs)" r "sz * length xs"] adv
    by (simp add: vector_pod_load_def chunks_concat sz rd comp_def add.commute)
qed

interpretation doubles_codec: codec "vector_pod_save (bytes_of :: u64 \<Rightarrow> byte list)"
  "vector_pod_load le_word 8"
  "\<lambda>xs. bytes_of (of_nat (length xs) :: u64) @ concat (map bytes_of xs)" "\<lambda>xs. length xs < 2 ^ 64"
  by (rule vector_pod_codec) (simp_all add: le_word_bytes_of)

end
