(* ===== verification/Bit_Pack.thy ===== *)
theory Bit_Pack
  imports Prelude
begin

text \<open>
  The fixed width packers and unpackers of \<open>sframe/integer_pack.cpp\<close> and the zig-zag
  mapping of \<open>sframe/integer_pack.hpp\<close>.

  \<open>pack_1\<close>, \<open>pack_2\<close>, \<open>pack_4\<close> and their inverses are Duff's devices: a \<open>switch\<close> on the
  number of values modulo 8 jumps into the middle of a \<open>do ... while\<close> loop whose body has
  one labelled statement per value. The body is modelled as the list of its statements in
  textual order, the jump as dropping the statements before the label, and the loop as a
  recursion on the counter \<open>n\<close>. A read past the end of the input is \<^const>\<open>None\<close>.
\<close>

section \<open>Packing\<close>

text \<open>
  A packing statement is \<open>c |= ((*src++)) << sh\<close>, followed by \<open>(*out++) = c; c = 0\<close> where
  the flag is set.
\<close>

type_synonym pack_stmt = "nat \<times> bool"

fun pack_stmts :: "pack_stmt list \<Rightarrow> u64 list \<Rightarrow> byte \<Rightarrow> (u64 list \<times> byte \<times> byte list) option" where
  "pack_stmts [] src c = Some (src, c, [])"
| "pack_stmts (st # sts) [] c = None"
| "pack_stmts ((sh, emit) # sts) (x # src) c =
     (let c = c OR ucast (push_bit sh x)
      in if emit
         then do { (src, c', out) \<leftarrow> pack_stmts sts src 0; Some (src, c', c # out) }
         else pack_stmts sts src c)"

text \<open>
  The loop \<open>do ... while(--n > 0)\<close> entered at the statements \<open>entry\<close>. With \<open>n = 0\<close> there is
  no input and the first statement reads past it.
\<close>

fun pack_loop :: "pack_stmt list \<Rightarrow> pack_stmt list \<Rightarrow> nat \<Rightarrow> u64 list \<Rightarrow> byte \<Rightarrow> byte list option" where
  "pack_loop body entry 0 src c = None"
| "pack_loop body entry (Suc n) src c = do {
     (src, c, out) \<leftarrow> pack_stmts entry src c;
     if n > 0
     then do { out' \<leftarrow> pack_loop body body n src c; Some (out @ out') }
     else Some out }"

definition duff_pack :: "pack_stmt list \<Rightarrow> u64 list \<Rightarrow> byte list option" where
  "duff_pack body src =
     (let srclen = length src;
          n = (srclen + 7) div 8
      in pack_loop body (drop ((8 - srclen mod 8) mod 8) body) n src 0)"

definition pack_1 :: "u64 list \<Rightarrow> byte list option" where
  "pack_1 = duff_pack
     [(0, False), (1, False), (2, False), (3, False), (4, False), (5, False), (6, False), (7, True)]"

definition pack_2 :: "u64 list \<Rightarrow> byte list option" where
  "pack_2 = duff_pack
     [(0, False), (2, False), (4, False), (6, True), (0, False), (2, False), (4, False), (6, True)]"

definition pack_4 :: "u64 list \<Rightarrow> byte list option" where
  "pack_4 = duff_pack
     [(0, False), (4, True), (0, False), (4, True), (0, False), (4, True), (0, False), (4, True)]"

text \<open>The whole byte packers copy with truncation; their result is the output array.\<close>

fun pack_8 :: "u64 list \<Rightarrow> byte list" where
  "pack_8 [] = []"
| "pack_8 (x # src) = ucast x # pack_8 src"

fun pack_16 :: "u64 list \<Rightarrow> u16 list" where
  "pack_16 [] = []"
| "pack_16 (x # src) = ucast x # pack_16 src"

fun pack_32 :: "u64 list \<Rightarrow> u32 list" where
  "pack_32 [] = []"
| "pack_32 (x # src) = ucast x # pack_32 src"

section \<open>Unpacking\<close>

text \<open>
  An unpacking statement is \<open>(*out++) = c & msk; c >>= sh\<close>, followed by \<open>c = (*src++)\<close>
  where the flag is set. The loop body starts with \<open>c = (*src++)\<close>, which the jump skips
  in the first round: there \<open>c\<close> is the first byte, shifted down past its unused low bits.
\<close>

fun unpack_stmts :: "byte \<Rightarrow> nat \<Rightarrow> bool list \<Rightarrow> byte list \<Rightarrow> byte \<Rightarrow> (byte list \<times> byte \<times> u64 list) option"
where
  "unpack_stmts msk sh [] src c = Some (src, c, [])"
| "unpack_stmts msk sh (reload # sts) src c =
     (let x = ucast (c AND msk); c = drop_bit sh c
      in if reload
         then (case src of
                 [] \<Rightarrow> None
               | c # src \<Rightarrow> do { (src, c, out) \<leftarrow> unpack_stmts msk sh sts src c; Some (src, c, x # out) })
         else do { (src, c, out) \<leftarrow> unpack_stmts msk sh sts src c; Some (src, c, x # out) })"

fun unpack_loop ::
  "byte \<Rightarrow> nat \<Rightarrow> bool list \<Rightarrow> bool list \<Rightarrow> nat \<Rightarrow> byte list \<Rightarrow> byte \<Rightarrow> u64 list option"
where
  "unpack_loop msk sh body entry 0 src c = None"
| "unpack_loop msk sh body entry (Suc n) src c = do {
     (src, c, out) \<leftarrow> unpack_stmts msk sh entry src c;
     if n > 0
     then (case src of
             [] \<Rightarrow> None
           | c # src \<Rightarrow> do { out' \<leftarrow> unpack_loop msk sh body body n src c; Some (out @ out') })
     else Some out }"

definition duff_unpack :: "byte \<Rightarrow> nat \<Rightarrow> bool list \<Rightarrow> byte list \<Rightarrow> nat \<Rightarrow> u64 list option" where
  "duff_unpack msk sh body src nout_values =
     (let n = (nout_values + 7) div 8
      in case src of
           [] \<Rightarrow> None
         | c # src \<Rightarrow>
             let c = drop_bit ((8 - sh * (nout_values mod (8 div sh))) mod 8) c
             in unpack_loop msk sh body (drop ((8 - nout_values mod 8) mod 8) body) n src c)"

definition unpack_1 :: "byte list \<Rightarrow> nat \<Rightarrow> u64 list option" where
  "unpack_1 = duff_unpack 1 1 [False, False, False, False, False, False, False, False]"

definition unpack_2 :: "byte list \<Rightarrow> nat \<Rightarrow> u64 list option" where
  "unpack_2 = duff_unpack 3 2 [False, False, False, True, False, False, False, False]"

definition unpack_4 :: "byte list \<Rightarrow> nat \<Rightarrow> u64 list option" where
  "unpack_4 = duff_unpack 15 4 [False, True, False, True, False, True, False, False]"

fun unpack_8 :: "byte list \<Rightarrow> nat \<Rightarrow> u64 list option" where
  "unpack_8 src 0 = Some []"
| "unpack_8 [] (Suc n) = None"
| "unpack_8 (x # src) (Suc n) = do { out \<leftarrow> unpack_8 src n; Some (ucast x # out) }"

fun unpack_16 :: "u16 list \<Rightarrow> nat \<Rightarrow> u64 list option" where
  "unpack_16 src 0 = Some []"
| "unpack_16 [] (Suc n) = None"
| "unpack_16 (x # src) (Suc n) = do { out \<leftarrow> unpack_16 src n; Some (ucast x # out) }"

fun unpack_32 :: "u32 list \<Rightarrow> nat \<Rightarrow> u64 list option" where
  "unpack_32 src 0 = Some []"
| "unpack_32 [] (Suc n) = None"
| "unpack_32 (x # src) (Suc n) = do { out \<leftarrow> unpack_32 src n; Some (ucast x # out) }"

section \<open>Zig-zag mapping of signed integers\<close>

text \<open>
  \<open>int64_t\<close> arithmetic is two's complement: \<open>val >> 63\<close> is the arithmetic shift, and the
  sums wrap where C++ leaves signed overflow undefined and the compiled code wraps.
\<close>

definition shifted_integer_encode :: "u64 \<Rightarrow> u64" where
  "shifted_integer_encode val =
     (let sign = signed_drop_bit 63 val;
          absval = (val + sign) XOR sign
      in push_bit 1 absval + sign)"

definition shifted_integer_decode :: "u64 \<Rightarrow> u64" where
  "shifted_integer_decode val =
     (let sign = - (val AND 1);
          absval = drop_bit 1 val - sign
      in (absval + sign) XOR sign)"

section \<open>Correctness of the packers\<close>

text \<open>
  Both devices are first brought into a form that follows the values instead of the
  statements: with \<open>m\<close> values left, the statement that runs is the one at \<open>entry_at m\<close>.
\<close>

fun pack_items :: "(nat \<Rightarrow> nat \<times> bool) \<Rightarrow> u64 list \<Rightarrow> byte \<Rightarrow> byte list" where
  "pack_items f [] c = []"
| "pack_items f (x # xs) c =
     (let c = c OR ucast (push_bit (fst (f (Suc (length xs)))) x)
      in if snd (f (Suc (length xs))) then c # pack_items f xs 0 else pack_items f xs c)"

lemma pack_stmts_items:
  assumes "length sts \<le> length src" and "\<And>j. j < length sts \<Longrightarrow> sts ! j = f (length src - j)"
  shows "\<exists>c' out. pack_stmts sts src c = Some (drop (length sts) src, c', out) \<and>
           pack_items f src c = out @ pack_items f (drop (length sts) src) c'"
  using assms
proof (induction sts src c rule: pack_stmts.induct)
  case (3 sh emit sts x src c)
  have st: "f (Suc (length src)) = (sh, emit)" using 3(4)[of 0] by simp
  have tl: "\<And>j. j < length sts \<Longrightarrow> sts ! j = f (length src - j)" using 3(4)[of "Suc _"] by simp
  show ?case
  proof (cases emit)
    case True
    then show ?thesis using 3(1)[OF refl True _ tl] 3(3) by (auto simp: st Let_def)
  next
    case False
    then show ?thesis using 3(2)[OF refl False _ tl] 3(3) by (auto simp: st Let_def)
  qed
qed auto

definition entry_at :: "nat \<Rightarrow> nat" where
  "entry_at m = (8 - m mod 8) mod 8"

lemma entry_at_if: "entry_at m = (if m mod 8 = 0 then 0 else 8 - m mod 8)"
  by (auto simp: entry_at_def)

lemma entry_at_split:
  obtains q r where "N = 8 * q + r" and "r < 8" and "entry_at N = (if r = 0 then 0 else 8 - r)"
  by (rule that[of "N div 8" "N mod 8"]) (simp_all add: entry_at_if)

lemma entry_at_diff:
  assumes "0 < N" and "j < 8 - entry_at N"
  shows "entry_at (N - j) = entry_at N + j"
proof -
  obtain q r where N: "N = 8 * q + r" "r < 8" "entry_at N = (if r = 0 then 0 else 8 - r)"
    by (rule entry_at_split)
  show ?thesis
  proof (cases "r = 0")
    case True
    with N assms have j: "N - j = 8 * (q - 1) + (8 - j)" "j < 8" by auto
    have "(N - j) mod 8 = (8 - j) mod 8" unfolding j(1) by (rule mod_mult_self4)
    then show ?thesis using N(3) True j(2) by (cases "j = 0") (simp_all add: entry_at_if)
  next
    case False
    with N assms have j: "N - j = 8 * q + (r - j)" "j < r" by auto
    have "(N - j) mod 8 = (r - j) mod 8" unfolding j(1) by (rule mod_mult_self4)
    then have "(N - j) mod 8 = r - j" using N(2) by simp
    then show ?thesis using N(3) False \<open>j < r\<close> N(2) by (simp add: entry_at_if)
  qed
qed

lemma entry_at_less: "entry_at m < 8"
  by (simp add: entry_at_def)

lemma entry_at_le:
  assumes "0 < N"
  shows "8 - entry_at N \<le> N" and "(N - (8 - entry_at N)) mod 8 = 0"
    and "(N + 7) div 8 = Suc ((N - (8 - entry_at N) + 7) div 8)"
proof -
  obtain q r where N: "N = 8 * q + r" "r < 8" "entry_at N = (if r = 0 then 0 else 8 - r)"
    by (rule entry_at_split)
  have k: "8 - entry_at N = (if r = 0 then 8 else r)" using N by simp
  show "8 - entry_at N \<le> N" unfolding k using N(1) assms by (cases q) auto
  have d: "N - (8 - entry_at N) = 8 * (if r = 0 then q - 1 else q)"
    unfolding k using N(1) by (simp add: right_diff_distrib')
  then show "(N - (8 - entry_at N)) mod 8 = 0" by simp
  show "(N + 7) div 8 = Suc ((N - (8 - entry_at N) + 7) div 8)"
  proof (cases "r = 0")
    case True
    then show ?thesis using d N(1) assms by (cases q) simp_all
  next
    case False
    then have "N + 7 = 8 * Suc q + (r - 1)" using N(1) by simp
    then have "(N + 7) div 8 = Suc q" using N(2) by (metis div_mult_self4 div_less add.right_neutral less_imp_diff_less zero_neq_numeral)
    then show ?thesis using d False by simp
  qed
qed

lemma entry_at_0: "m mod 8 = 0 \<Longrightarrow> entry_at m = 0"
  by (simp add: entry_at_def)

lemma pack_loop_items:
  assumes "length body = 8" and "src \<noteq> []" and "n = (length src + 7) div 8"
  shows "pack_loop body (drop (entry_at (length src)) body) n src c
           = Some (pack_items (\<lambda>m. body ! entry_at m) src c)"
  using assms(2,3)
proof (induction n arbitrary: src c)
  case 0
  then show ?case by (cases src) auto
next
  case (Suc n)
  let ?N = "length src" and ?f = "\<lambda>m. body ! entry_at m" and ?k = "8 - entry_at (length src)"
  have N: "0 < ?N" using Suc.prems by simp
  let ?sts = "drop (entry_at ?N) body"
  have len: "length ?sts = ?k" by (simp add: assms(1))
  have "\<exists>c' out. pack_stmts ?sts src c = Some (drop (length ?sts) src, c', out) \<and>
           pack_items ?f src c = out @ pack_items ?f (drop (length ?sts) src) c'"
    using N entry_at_le(1)[OF N] entry_at_less[of ?N]
    by (intro pack_stmts_items) (simp_all add: len assms(1) entry_at_diff add.commute)
  then obtain c' out where step: "pack_stmts ?sts src c = Some (drop ?k src, c', out)"
    and items: "pack_items ?f src c = out @ pack_items ?f (drop ?k src) c'"
    unfolding len by blast
  have n: "n = (length (drop ?k src) + 7) div 8"
    using Suc.prems(2) entry_at_le(3)[OF N] by simp
  show ?case
  proof (cases "n = 0")
    case True
    then have "drop ?k src = []" using n by simp
    then show ?thesis using step items True by simp
  next
    case False
    then have ne: "drop ?k src \<noteq> []" using n by auto
    have "entry_at (length (drop ?k src)) = 0"
      using entry_at_le(2)[OF N] by (simp add: entry_at_0)
    then have "pack_loop body body n (drop ?k src) c' = Some (pack_items ?f (drop ?k src) c')"
      using Suc.IH[OF ne n, of c'] by simp
    then show ?thesis using step items False by simp
  qed
qed

lemma duff_pack_items:
  "length body = 8 \<Longrightarrow> src \<noteq> [] \<Longrightarrow> duff_pack body src = Some (pack_items (\<lambda>m. body ! entry_at m) src 0)"
  using pack_loop_items[of body src _ 0] by (simp add: duff_pack_def entry_at_def)

fun unpack_items :: "byte \<Rightarrow> nat \<Rightarrow> (nat \<Rightarrow> bool) \<Rightarrow> nat \<Rightarrow> byte list \<Rightarrow> byte \<Rightarrow> u64 list option" where
  "unpack_items msk sh r 0 src c = Some []"
| "unpack_items msk sh r (Suc m) src c =
     (let x = ucast (c AND msk); c = drop_bit sh c
      in if m > 0 \<and> r m
         then (case src of [] \<Rightarrow> None
               | c # src \<Rightarrow> do { out \<leftarrow> unpack_items msk sh r m src c; Some (x # out) })
         else do { out \<leftarrow> unpack_items msk sh r m src c; Some (x # out) })"


lemma unpack_stmts_items:
  assumes "length sts \<le> m"
    and "\<And>j. Suc j < length sts \<Longrightarrow> sts ! j = r (m - Suc j)"
    and "sts \<noteq> [] \<Longrightarrow> \<not> last sts"
  shows "unpack_items msk sh r m src c = do {
           (src, c, out) \<leftarrow> unpack_stmts msk sh sts src c;
           out' \<leftarrow> (if sts \<noteq> [] \<and> m > length sts \<and> r (m - length sts)
                   then (case src of [] \<Rightarrow> None | c # src \<Rightarrow> unpack_items msk sh r (m - length sts) src c)
                   else unpack_items msk sh r (m - length sts) src c);
           Some (out @ out') }"
  using assms
proof (induction msk sh sts src c arbitrary: m rule: unpack_stmts.induct)
  case (2 msk sh reload sts src c)
  obtain m' where m: "m = Suc m'" using "2.prems"(1) by (cases m) auto
  have tl: "\<And>j. Suc j < length sts \<Longrightarrow> sts ! j = r (m' - Suc j)"
    "sts \<noteq> [] \<Longrightarrow> \<not> last sts"
    using "2.prems"(2)[of "Suc _"] "2.prems"(3) by (auto simp: m)
  show ?case
  proof (cases sts)
    case Nil
    then have "\<not> reload" using "2.prems"(3) by simp
    then show ?thesis using Nil by (cases src) (auto simp: m Let_def)
  next
    case (Cons s sts')
    have rl: "reload = r m'" using "2.prems"(2)[of 0] by (simp add: m Cons)
    have m0: "0 < m'" "length sts \<le> m'" using "2.prems"(1) Cons by (auto simp: m)
    have ne: "sts \<noteq> []" using Cons by simp
    show ?thesis
    proof (cases reload)
      case True
      then show ?thesis
        using "2.IH"(1)[OF refl refl True _ m0(2) tl] rl m0 ne
        unfolding m length_Cons diff_Suc_Suc
        by (cases src) (auto simp: Let_def split: bind_splits)
    next
      case False
      then show ?thesis
        using "2.IH"(2)[OF refl refl False m0(2) tl] rl m0 ne
        unfolding m length_Cons diff_Suc_Suc
        by (auto simp: Let_def split: bind_splits)
    qed
  qed
qed simp


lemma unpack_loop_items:
  assumes body: "length body = 8" "\<not> last body"
    and r: "\<And>m. entry_at (Suc m) \<noteq> 7 \<Longrightarrow> body ! entry_at (Suc m) = r m" "\<And>m. m mod 8 = 0 \<Longrightarrow> r m"
    and "0 < m" and "n = (m + 7) div 8"
  shows "unpack_loop msk sh body (drop (entry_at m) body) n src c = unpack_items msk sh r m src c"
  using assms(5,6)
proof (induction n arbitrary: m src c)
  case (Suc n)
  let ?k = "8 - entry_at m"
  let ?sts = "drop (entry_at m) body"
  have len: "length ?sts = ?k" by (simp add: body)
  have ne: "?sts \<noteq> []" using entry_at_less[of m] by (simp add: body)
  have lst: "\<not> last ?sts" using body entry_at_less[of m] by (simp add: last_drop)
  have st: "?sts ! j = r (m - Suc j)" if j: "Suc j < ?k" for j
  proof -
    have e: "entry_at (m - j) = entry_at m + j" using entry_at_diff[OF Suc.prems(1)] j by simp
    have m: "m - j = Suc (m - Suc j)" using entry_at_le(1)[OF Suc.prems(1)] j by simp
    have "body ! entry_at (Suc (m - Suc j)) = r (m - Suc j)"
      using j by (intro r(1)) (simp add: m[symmetric] e)
    then show ?thesis using j by (simp add: m[symmetric] e body)
  qed
  have items: "unpack_items msk sh r m src c = do {
           (src, c, out) \<leftarrow> unpack_stmts msk sh ?sts src c;
           out' \<leftarrow> (if ?sts \<noteq> [] \<and> m > length ?sts \<and> r (m - length ?sts)
                   then (case src of [] \<Rightarrow> None | c # src \<Rightarrow> unpack_items msk sh r (m - length ?sts) src c)
                   else unpack_items msk sh r (m - length ?sts) src c);
           Some (out @ out') }"
    using entry_at_le(1)[OF Suc.prems(1)] st lst
    by (intro unpack_stmts_items) (simp_all only: len simp_thms)
  have n: "n = ((m - ?k) + 7) div 8" using Suc.prems(2) entry_at_le(3)[OF Suc.prems(1)] by simp
  have md: "(m - ?k) mod 8 = 0" by (rule entry_at_le(2)[OF Suc.prems(1)])
  show ?case
  proof (cases "n = 0")
    case True
    then have "m - ?k = 0" using n by simp
    then show ?thesis using True by (simp add: items[unfolded len])
  next
    case False
    then have pos: "0 < m - ?k" using n by (cases "m - ?k") auto
    have "unpack_loop msk sh body body n src' c' = unpack_items msk sh r (m - ?k) src' c'" for src' c'
      using Suc.IH[OF pos n, of src' c'] by (simp add: entry_at_0[OF md])
    note loop = this
    have "?k < m" using pos by simp
    then show ?thesis using False r(2)[OF md] ne
      unfolding items[unfolded len] unpack_loop.simps loop
      by (auto intro!: Option.bind_cong[OF refl] split: list.splits)
  qed
qed simp

lemma duff_unpack_items:
  assumes "length body = 8" "\<not> last body"
    "\<And>m. entry_at (Suc m) \<noteq> 7 \<Longrightarrow> body ! entry_at (Suc m) = r m" "\<And>m. m mod 8 = 0 \<Longrightarrow> r m"
    "0 < m"
  shows "duff_unpack msk sh body (c # src) m =
     unpack_items msk sh r m src (drop_bit ((8 - sh * (m mod (8 div sh))) mod 8) c)"
  using unpack_loop_items[OF assms refl] by (simp add: duff_unpack_def entry_at_def)

text \<open>
  With \<open>p\<close> values of \<open>b\<close> bits per byte, the value with \<open>m\<close> values left goes to bit
  \<open>shift_at b p m\<close> of its byte; only the first byte may be filled partly, from the top.
\<close>

definition shift_at :: "nat \<Rightarrow> nat \<Rightarrow> nat \<Rightarrow> nat" where
  "shift_at b p m = b * ((p - m mod p) mod p)"

lemma shift_at_step:
  assumes "1 < p" "m mod p \<noteq> 0"
  shows "shift_at b p m = shift_at b p (Suc m) + b"
proof -
  have "m mod p < p" using assms(1) by simp
  then consider "Suc (m mod p) < p" | "Suc (m mod p) = p" by linarith
  then show ?thesis
  proof cases
    case 1
    then have s: "Suc m mod p = Suc (m mod p)" by (simp add: mod_Suc)
    have "p - m mod p = Suc (p - Suc m mod p)" using 1 by (simp add: s)
    then show ?thesis using 1 assms(2) by (simp add: shift_at_def s)
  next
    case 2
    then have s: "Suc m mod p = 0" by (simp add: mod_Suc)
    have "p - m mod p = 1" using 2 by simp
    then show ?thesis using assms(1) by (simp add: shift_at_def s)
  qed
qed

lemma shift_at_first: "1 < p \<Longrightarrow> m mod p = 1 \<Longrightarrow> shift_at b p m + b = b * p"
  by (cases p) (simp_all add: shift_at_def)

lemma shift_at_bound:
  assumes "1 < p" shows "shift_at b p m + b \<le> b * p"
proof -
  have "Suc ((p - m mod p) mod p) \<le> p" using assms by (simp add: Suc_leI)
  then have "b * Suc ((p - m mod p) mod p) \<le> b * p" by (rule mult_le_mono2)
  then show ?thesis by (simp add: shift_at_def)
qed

lemma pack_byte:
  fixes c :: byte and x :: u64
  assumes c: "take_bit s c = c" and x: "take_bit b x = x" and "s + b \<le> 8"
  defines "C \<equiv> c OR ucast (push_bit s x)"
  shows "take_bit s C = c" and "take_bit (s + b) C = C"
    and "ucast (take_bit b (drop_bit s C)) = x"
proof -
  have cb: "n < s" if "bit c n" for n using that by (metis bit_take_bit_iff c)
  have xb: "n < b" if "bit x n" for n using that by (metis bit_take_bit_iff x)
  show "take_bit s C = c"
    by (rule bit_word_eqI) (auto simp: C_def bit_simps dest: cb)
  show "take_bit (s + b) C = C"
    by (rule bit_word_eqI) (use assms(3) in \<open>auto simp: C_def bit_simps dest: cb xb\<close>)
  show "ucast (take_bit b (drop_bit s C)) = x"
    by (rule bit_word_eqI) (use assms(3) in \<open>auto simp: C_def bit_simps dest: cb xb\<close>)
qed

lemma unpack_pack_items:
  fixes xs :: "u64 list"
  assumes p: "b * p = 8" "1 < p"
    and f: "\<And>m. f m = (shift_at b p m, m mod p = 1)"
    and r: "\<And>m. r m = (m mod p = 0)"
    and xs: "xs \<noteq> []" "list_all (\<lambda>x. take_bit b x = x) xs"
    and c: "take_bit (shift_at b p (length xs)) c = c"
  shows "\<exists>B rest. pack_items f xs c = B # rest \<and> take_bit (shift_at b p (length xs)) B = c \<and>
           unpack_items (mask b) b r (length xs) rest (drop_bit (shift_at b p (length xs)) B) = Some xs"
  using xs c
proof (induction xs arbitrary: c)
  case (Cons x xs)
  let ?m = "Suc (length xs)"
  let ?s = "shift_at b p ?m"
  let ?C = "c OR ucast (push_bit ?s x)"
  have "?s + b \<le> 8" using shift_at_bound[OF p(2), of b ?m] p(1) by simp
  then have C: "take_bit ?s ?C = c" "take_bit (?s + b) ?C = ?C" "ucast (take_bit b (drop_bit ?s ?C)) = x"
    using pack_byte[of ?s c b x] Cons.prems by simp_all
  show ?case
  proof (cases "?m mod p = 1")
    case True
    then have m0: "length xs mod p = 0" using p(2) by (auto simp: mod_Suc split: if_splits)
    show ?thesis
    proof (cases "xs = []")
      case nil: True
      then show ?thesis using C p(2) by (simp add: f[of "Suc 0"] Let_def take_bit_eq_mask)
    next
      case False
      have s0: "shift_at b p (length xs) = 0" using m0 by (simp add: shift_at_def)
      obtain B rest where "pack_items f xs 0 = B # rest"
        "unpack_items (mask b) b r (length xs) rest B = Some xs"
        using Cons.IH[OF False, of 0] Cons.prems by (auto simp: s0)
      then show ?thesis using True C False m0 by (simp add: f[of ?m] r[of "length xs"] Let_def take_bit_eq_mask)
    qed
  next
    case False
    then have m0: "length xs mod p \<noteq> 0" using p(2) by (auto simp: mod_Suc split: if_splits)
    then have ne: "xs \<noteq> []" by auto
    have s: "shift_at b p (length xs) = ?s + b" using m0 p(2) by (rule shift_at_step[rotated])
    obtain B rest where B: "pack_items f xs ?C = B # rest" "take_bit (?s + b) B = ?C"
        "unpack_items (mask b) b r (length xs) rest (drop_bit (?s + b) B) = Some xs"
      using Cons.IH[OF ne, of ?C] Cons.prems C by (auto simp: s)
    have "take_bit ?s B = take_bit ?s (take_bit (?s + b) B)" by simp
    then have t: "take_bit ?s B = c" using B C by simp
    have "take_bit b (drop_bit ?s B) = take_bit b (drop_bit ?s (take_bit (?s + b) B))"
      by (simp add: take_bit_drop_bit)
    then have "ucast (take_bit b (drop_bit ?s B)) = x" using B(2) C(3) by simp
    then show ?thesis using False B t m0 by (simp add: f[of ?m] r[of "length xs"] Let_def take_bit_eq_mask add.commute)
  qed
qed simp

lemma length_pack_items:
  assumes "1 < p" and "\<And>m. snd (f m) = (m mod p = 1)"
  shows "length (pack_items f xs c) = (length xs + (p - 1)) div p"
proof (induction xs arbitrary: c)
  case (Cons x xs)
  let ?a = "length xs + (p - 1)"
  have "Suc ?a = length xs + p" using assms(1) by simp
  then have a: "Suc ?a mod p = length xs mod p" by (simp only: mod_add_self2)
  have "Suc (length xs) mod p = 1 \<longleftrightarrow> length xs mod p = 0"
    using assms(1) by (auto simp: mod_Suc)
  then have "Suc ?a div p = ?a div p + (if Suc (length xs) mod p = 1 then 1 else 0)"
    by (simp only: div_Suc a) simp
  then show ?case using Cons by (simp add: Let_def assms(2)[of "Suc (length xs)"])
qed (use assms(1) in simp)

text \<open>The contract of a packer and its unpacker at a given bit width.\<close>

locale bit_packer =
  fixes pack :: "u64 list \<Rightarrow> byte list option"
    and unpack :: "byte list \<Rightarrow> nat \<Rightarrow> u64 list option"
    and nbits :: nat
  assumes pack_unpack: "src \<noteq> [] \<Longrightarrow> list_all (\<lambda>x. take_bit nbits x = x) src \<Longrightarrow>
    \<exists>bs. pack src = Some bs \<and> length bs = (nbits * length src + 7) div 8 \<and>
         unpack bs (length src) = Some src"

lemma duff_packer:
  assumes p: "b * p = 8" "1 < p" "\<not> last rbody"
    and lens: "length body = 8" "length rbody = 8"
    and f: "\<And>m. body ! entry_at m = (shift_at b p m, m mod p = 1)"
    and r: "\<And>m. entry_at (Suc m) \<noteq> 7 \<Longrightarrow> rbody ! entry_at (Suc m) = (m mod p = 0)"
    and len: "\<And>n::nat. (n + (p - 1)) div p = (b * n + 7) div 8"
  shows "bit_packer (duff_pack body) (duff_unpack (mask b) b rbody) b"
proof
  fix src :: "u64 list"
  let ?f = "\<lambda>m. body ! entry_at m" and ?s = "shift_at b p (length src)"
  assume src: "src \<noteq> []" "list_all (\<lambda>x. take_bit b x = x) src"
  obtain B rest where B: "pack_items ?f src 0 = B # rest"
    "unpack_items (mask b) b (\<lambda>m. m mod p = 0) (length src) rest (drop_bit ?s B) = Some src"
    using unpack_pack_items[OF p(1,2) f refl src, of 0] by auto
  have b8: "8 div b = p" using p(1) by (metis nonzero_mult_div_cancel_left mult_zero_left zero_neq_numeral)
  have sh: "(8 - b * (length src mod p)) mod 8 = ?s"
    using mult_mod_right[of b "p - length src mod p" p] p(1)
    by (simp add: shift_at_def right_diff_distrib')
  have m8: "m mod p = 0" if "m mod 8 = 0" for m
    using that p(1) by (metis dvd_triv_right dvd_trans mod_eq_0_iff_dvd)
  have "duff_unpack (mask b) b rbody (B # rest) (length src) = Some src"
    using duff_unpack_items[OF lens(2) p(3) r m8, of "length src" "mask b" b B rest] src B(2)
    by (simp add: b8 sh)
  moreover have "length (B # rest) = (b * length src + 7) div 8"
  proof -
    have "snd (?f m) = (m mod p = 1)" for m by (simp add: f)
    from length_pack_items[OF p(2) this, of src 0] show ?thesis by (simp only: B(1) len)
  qed
  ultimately show "\<exists>bs. duff_pack body src = Some bs \<and> length bs = (b * length src + 7) div 8 \<and>
      duff_unpack (mask b) b rbody bs (length src) = Some src"
    using duff_pack_items[OF lens(1) src(1)] B(1) by auto
qed

lemma mod8_cases:
  fixes m :: nat
  obtains "m mod 8 = 0" "m mod 4 = 0" "m mod 2 = 0" | "m mod 8 = 1" "m mod 4 = 1" "m mod 2 = 1"
  | "m mod 8 = 2" "m mod 4 = 2" "m mod 2 = 0" | "m mod 8 = 3" "m mod 4 = 3" "m mod 2 = 1"
  | "m mod 8 = 4" "m mod 4 = 0" "m mod 2 = 0" | "m mod 8 = 5" "m mod 4 = 1" "m mod 2 = 1"
  | "m mod 8 = 6" "m mod 4 = 2" "m mod 2 = 0" | "m mod 8 = 7" "m mod 4 = 3" "m mod 2 = 1"
proof -
  have m: "m mod 4 = m mod 8 mod 4" "m mod 2 = m mod 8 mod 2" by (simp_all add: mod_mod_cancel)
  have "m mod 8 < 8" by simp
  then consider "m mod 8 = 0" | "m mod 8 = 1" | "m mod 8 = 2" | "m mod 8 = 3"
    | "m mod 8 = 4" | "m mod 8 = 5" | "m mod 8 = 6" | "m mod 8 = 7"
    by linarith
  then show thesis by cases (rule that, assumption, simp add: m, simp add: m)+
qed

interpretation pack1: bit_packer pack_1 unpack_1 1
proof -
  let ?b = "[(0, False), (1, False), (2, False), (3, False), (4, False), (5, False), (6, False), (7, True)] :: pack_stmt list"
  have f: "?b ! entry_at m = (shift_at 1 8 m, m mod 8 = 1)" for m
    by (rule mod8_cases[of m]) (simp_all add: entry_at_def shift_at_def)
  let ?r = "[False, False, False, False, False, False, False, False]"
  have r: "?r ! entry_at (Suc m) = (m mod 8 = 0)" if "entry_at (Suc m) \<noteq> 7" for m
    by (rule mod8_cases[of m]) (use that in \<open>simp_all add: entry_at_def mod_Suc\<close>)
  show "bit_packer pack_1 unpack_1 1"
    using duff_packer[of 1 8 ?r ?b, OF _ _ _ _ _ f r]
    by (simp add: pack_1_def unpack_1_def)
qed

interpretation pack2: bit_packer pack_2 unpack_2 2
proof -
  let ?b = "[(0, False), (2, False), (4, False), (6, True), (0, False), (2, False), (4, False), (6, True)] :: pack_stmt list"
  let ?r = "[False, False, False, True, False, False, False, False]"
  have f: "?b ! entry_at m = (shift_at 2 4 m, m mod 4 = 1)" for m
    by (rule mod8_cases[of m]) (simp_all add: entry_at_def shift_at_def)
  have r: "?r ! entry_at (Suc m) = (m mod 4 = 0)" if "entry_at (Suc m) \<noteq> 7" for m
    by (rule mod8_cases[of m]) (use that in \<open>simp_all add: entry_at_def mod_Suc\<close>)
  have "(n + (4 - 1)) div 4 = (2 * n + 7) div 8" for n :: nat by simp
  then show "bit_packer pack_2 unpack_2 2"
    using duff_packer[of 2 4 ?r ?b, OF _ _ _ _ _ f r]
    by (simp add: pack_2_def unpack_2_def mask_numeral)
qed

interpretation pack4: bit_packer pack_4 unpack_4 4
proof -
  let ?b = "[(0, False), (4, True), (0, False), (4, True), (0, False), (4, True), (0, False), (4, True)] :: pack_stmt list"
  let ?r = "[False, True, False, True, False, True, False, False]"
  have f: "?b ! entry_at m = (shift_at 4 2 m, m mod 2 = 1)" for m
    by (rule mod8_cases[of m]) (simp_all add: entry_at_def shift_at_def)
  have r: "?r ! entry_at (Suc m) = (m mod 2 = 0)" if "entry_at (Suc m) \<noteq> 7" for m
    by (rule mod8_cases[of m]) (use that in \<open>simp_all add: entry_at_def mod_Suc\<close>)
  have "(n + (2 - 1)) div 2 = (4 * n + 7) div 8" for n :: nat by simp
  then show "bit_packer pack_4 unpack_4 4"
    using duff_packer[of 4 2 ?r ?b, OF _ _ _ _ _ f r]
    by (simp add: pack_4_def unpack_4_def mask_numeral)
qed

text \<open>The whole byte packers, as the caller uses them: through a cast of the byte array.\<close>

lemma take_bit_ucast_ucast:
  fixes x :: u64
  assumes "take_bit n x = x" and "n \<le> LENGTH('a)"
  shows "ucast (ucast x :: 'a::len word) = x"
proof (rule bit_word_eqI)
  fix k
  have "k < n" if "bit x k" using that by (metis bit_take_bit_iff assms(1))
  then show "bit (ucast (ucast x :: 'a word) :: u64) k = bit x k"
    using assms(2) by (auto simp: bit_simps dest: bit_imp_le_length)
qed

interpretation pack8: bit_packer "\<lambda>src. Some (pack_8 src)" unpack_8 8
proof
  fix src :: "u64 list"
  assume "list_all (\<lambda>x. take_bit 8 x = x) src"
  then have "unpack_8 (pack_8 src) (length src) = Some src"
    by (induction src) (auto intro: take_bit_ucast_ucast[where n = 8])
  moreover have "length (pack_8 src) = length src" by (induction src) simp_all
  ultimately show "\<exists>bs. Some (pack_8 src) = Some bs \<and> length bs = (8 * length src + 7) div 8 \<and>
      unpack_8 bs (length src) = Some src" by simp
qed

interpretation pack16: bit_packer "\<lambda>src. Some (words_bytes (pack_16 src))"
  "\<lambda>bs n. unpack_16 (bytes_words n bs) n" 16
proof
  fix src :: "u64 list"
  assume "list_all (\<lambda>x. take_bit 16 x = x) src"
  then have "unpack_16 (pack_16 src) (length src) = Some src"
    by (induction src) (auto intro: take_bit_ucast_ucast[where n = 16])
  moreover have "length (pack_16 src) = length src" by (induction src) simp_all
  ultimately show "\<exists>bs. Some (words_bytes (pack_16 src)) = Some bs \<and>
      length bs = (16 * length src + 7) div 8 \<and> unpack_16 (bytes_words (length src) bs) (length src) = Some src"
    using bytes_words_words_bytes[of "pack_16 src"] by (simp add: length_words_bytes)
qed

interpretation pack32: bit_packer "\<lambda>src. Some (words_bytes (pack_32 src))"
  "\<lambda>bs n. unpack_32 (bytes_words n bs) n" 32
proof
  fix src :: "u64 list"
  assume "list_all (\<lambda>x. take_bit 32 x = x) src"
  then have "unpack_32 (pack_32 src) (length src) = Some src"
    by (induction src) (auto intro: take_bit_ucast_ucast[where n = 32])
  moreover have "length (pack_32 src) = length src" by (induction src) simp_all
  ultimately show "\<exists>bs. Some (words_bytes (pack_32 src)) = Some bs \<and>
      length bs = (32 * length src + 7) div 8 \<and> unpack_32 (bytes_words (length src) bs) (length src) = Some src"
    using bytes_words_words_bytes[of "pack_32 src"] by (simp add: length_words_bytes)
qed

interpretation pack64: bit_packer "\<lambda>src. Some (words_bytes src)" "\<lambda>bs n. Some (bytes_words n bs)" 64
  by unfold_locales (simp add: length_words_bytes bytes_words_words_bytes)

section \<open>Correctness of the zig-zag mapping\<close>

lemma sign_bit_iff: "bit (v :: u64) 63 \<longleftrightarrow> 2 ^ 63 \<le> uint v"
proof -
  have b: "0 \<le> uint v" "uint v < 2 ^ 64" using uint_lt2p[of v] by auto
  have "bit v 63 \<longleftrightarrow> bit (uint v) 63" by (simp add: bit_uint_iff)
  also have "\<dots> \<longleftrightarrow> odd (uint v div 2 ^ 63)" by (rule bit_iff_odd)
  also have "uint v div 2 ^ 63 = (if 2 ^ 63 \<le> uint v then 1 else 0)"
    using b by (auto intro: int_div_pos_eq[of _ _ _ "uint v - 2 ^ 63"])
  finally show ?thesis by auto
qed

lemma sint_eq: "sint (v :: u64) = uint v - (if bit v 63 then 2 ^ 64 else 0)"
proof -
  have "sint v = signed_take_bit 63 (uint v)" by (simp add: sint_uint)
  also have "\<dots> = take_bit 64 (uint v) - 2 ^ 64 * of_bool (bit (uint v) 63)"
    by (simp add: signed_take_bit_eq_take_bit_minus)
  also have "take_bit 64 (uint v) = uint v" by (simp add: bintr_uint)
  finally show ?thesis by (simp add: bit_uint_iff)
qed

lemma signed_drop_bit_sign: "signed_drop_bit 63 (v :: u64) = (if bit v 63 then - 1 else 0)"
proof (rule bit_word_eqI)
  fix n :: nat
  show "bit (signed_drop_bit 63 v) n = bit (if bit v 63 then - 1 else (0::u64)) n" if "n < LENGTH(64)"
    using that by (cases n) (auto simp: bit_signed_drop_bit_iff)
qed

lemma shifted_integer_encode_bits:
  "shifted_integer_encode v = (if bit v 63 then push_bit 1 (NOT v) OR 1 else push_bit 1 v)"
proof (cases "bit v 63")
  case True
  have "shifted_integer_encode v = push_bit 1 (NOT (v - 1)) - 1"
    using True by (simp add: shifted_integer_encode_def signed_drop_bit_sign)
  also have "\<dots> = push_bit 1 (NOT v) + 1"
    by (simp add: push_bit_eq_mult not_eq_complement algebra_simps)
  also have "\<dots> = push_bit 1 (NOT v) OR 1"
    by (rule disjunctive_add_eq_or) (rule bit_word_eqI, auto simp: bit_simps simp del: push_bit_Suc)
  finally show ?thesis using True by simp
qed (simp add: shifted_integer_encode_def signed_drop_bit_sign)

lemma shifted_integer_decode_bits:
  "shifted_integer_decode v = (if bit v 0 then NOT (drop_bit 1 v) else drop_bit 1 v)"
proof -
  have "v AND 1 = (if bit v 0 then 1 else 0)"
    by (simp add: and_one_eq mod2_eq_if bit_0)
  then show ?thesis by (simp add: shifted_integer_decode_def)
qed

lemma shifted_integer_roundtrip: "shifted_integer_decode (shifted_integer_encode v) = v"
proof (cases "bit v 63")
  case True
  have "drop_bit 1 (push_bit 1 (NOT v) OR 1) = NOT v"
    by (rule bit_word_eqI, case_tac "n = 63") (use True in \<open>auto simp: bit_simps simp del: push_bit_Suc drop_bit_Suc\<close>)
  then show ?thesis using True by (simp add: shifted_integer_encode_bits shifted_integer_decode_bits bit_simps del: push_bit_Suc drop_bit_Suc)
next
  case False
  have "drop_bit 1 (push_bit 1 v) = v"
    by (rule bit_word_eqI, case_tac "n = 63") (use False in \<open>auto simp: bit_simps simp del: push_bit_Suc drop_bit_Suc\<close>)
  then show ?thesis using False by (simp add: shifted_integer_encode_bits shifted_integer_decode_bits bit_simps del: push_bit_Suc drop_bit_Suc)
qed

lemma shifted_integer_encode_sint:
  "uint (shifted_integer_encode v) = (if sint v < 0 then - 2 * sint v - 1 else 2 * sint v)"
proof (cases "bit v 63")
  case True
  have b: "2 ^ 63 \<le> uint v" "uint v < 2 ^ 64" using True uint_lt2p[of v] by (auto simp: sign_bit_iff)
  have "push_bit 1 (NOT v) OR 1 = push_bit 1 (NOT v) + 1"
    by (rule disjunctive_add_eq_or[symmetric]) (rule bit_word_eqI, auto simp: bit_simps simp del: push_bit_Suc)
  moreover have n: "uint (NOT v) = 2 ^ 64 - 1 - uint v"
    using b by (simp add: not_eq_complement uint_word_ariths mod_pos_pos_trivial zmod_zminus1_eq_if)
  moreover have "uint (push_bit 1 (NOT v) + 1) = 2 * uint (NOT v) + 1"
    using b n by (simp add: push_bit_eq_mult uint_word_ariths)
  ultimately show ?thesis using True b by (simp add: shifted_integer_encode_bits sint_eq)
next
  case False
  then have b: "uint v < 2 ^ 63" by (simp add: sign_bit_iff)
  have "uint (push_bit 1 v) = 2 * uint v" 
    using b by (simp add: push_bit_eq_mult uint_word_ariths)
  then show ?thesis using False by (simp add: shifted_integer_encode_bits sint_eq)
qed

section \<open>Properties\<close>

text \<open>The zig-zag mapping of signed to unsigned numbers sends \<open>i\<close> to \<open>2i\<close> and a negative \<open>i\<close> to
  \<open>-2i - 1\<close>, on all 64 bits without overflow, and the decoder inverts it.\<close>

lemma shifted_integer_bijection:
  "shifted_integer_decode (shifted_integer_encode v) = v \<and>
   uint (shifted_integer_encode v) = (if sint v < 0 then - 2 * sint v - 1 else 2 * sint v)"
  by (simp add: shifted_integer_roundtrip shifted_integer_encode_sint)

end
