(* ===== verification/Integer_Pack.thy ===== *)
theory Integer_Pack
  imports Archive Bit_Pack
begin

text \<open>
  The integer codecs of \<open>sframe/integer_pack.hpp\<close>: the variable length code of a 64 bit
  number (\<open>variable_encode\<close>, \<open>variable_decode\<close>) and the frame of reference code of a
  group of up to 128 numbers (\<open>frame_of_reference_encode_128\<close> and its decoder).
\<close>

section \<open>Variable length code\<close>

definition variable_encode :: "oarchive \<Rightarrow> u64 \<Rightarrow> oarchive" where
  "variable_encode oarc s =
     (if drop_bit (8 - 1) s = 0 then
        direct_assign oarc (ucast (push_bit 1 s) :: byte)
      else if drop_bit (16 - 2) s = 0 then
        direct_assign oarc (push_bit 2 (ucast s :: u16) OR 1)
      else if drop_bit (24 - 3) s = 0 then
        owrite oarc (take 3 (bytes_of (push_bit 3 (ucast s :: u32) OR 3)))
      else if drop_bit (32 - 4) s = 0 then
        direct_assign oarc (push_bit 4 (ucast s :: u32) OR 7)
      else if drop_bit (40 - 5) s = 0 then
        owrite oarc (take 5 (bytes_of (push_bit 5 s OR 15)))
      else if drop_bit (48 - 6) s = 0 then
        owrite oarc (take 6 (bytes_of (push_bit 6 s OR 31)))
      else if drop_bit (56 - 7) s = 0 then
        owrite oarc (take 7 (bytes_of (push_bit 7 s OR 63)))
      else
        direct_assign (direct_assign oarc (127 :: byte)) s)"

text \<open>The union of the decoder is the array \<open>chars\<close>; its integer view is \<open>le_word chars\<close>.\<close>

definition variable_decode :: "iarchive \<Rightarrow> (u64 \<times> iarchive) option" where
  "variable_decode iarc = do {
     (bs, iarc) \<leftarrow> iread iarc 1;
     let chars = overwrite 0 bs (replicate 8 0);
         intval = (le_word chars :: u64)
     in if intval AND 1 = 0 then Some (drop_bit 1 intval, iarc)
        else if intval AND 3 = 1 then do {
          (bs, iarc) \<leftarrow> iread iarc 1;
          Some (drop_bit 2 (le_word (overwrite 1 bs chars)), iarc) }
        else if intval AND 7 = 3 then do {
          (bs, iarc) \<leftarrow> iread iarc 2;
          Some (drop_bit 3 (le_word (overwrite 1 bs chars)), iarc) }
        else if intval AND 15 = 7 then do {
          (bs, iarc) \<leftarrow> iread iarc 3;
          Some (drop_bit 4 (le_word (overwrite 1 bs chars)), iarc) }
        else if intval AND 31 = 15 then do {
          (bs, iarc) \<leftarrow> iread iarc 4;
          Some (drop_bit 5 (le_word (overwrite 1 bs chars)), iarc) }
        else if intval AND 63 = 31 then do {
          (bs, iarc) \<leftarrow> iread iarc 5;
          Some (drop_bit 6 (le_word (overwrite 1 bs chars)), iarc) }
        else if intval AND 127 = 63 then do {
          (bs, iarc) \<leftarrow> iread iarc 6;
          Some (drop_bit 7 (le_word (overwrite 1 bs chars)), iarc) }
        else do {
          (bs, iarc) \<leftarrow> iread iarc 8;
          Some (le_word (overwrite 0 bs chars), iarc) } }"

text \<open>
  The wire form: with \<open>n\<close> bytes, the number shifted up by \<open>n\<close> bits over a zero bit and
  \<open>n - 1\<close> one bits; the number of bytes is the least one whose \<open>7 * n\<close> bits hold it.
\<close>

definition variable_code :: "nat \<Rightarrow> u64 \<Rightarrow> byte list" where
  "variable_code n s = le_bytes n (push_bit n s OR mask (n - 1))"

definition variable_wire :: "u64 \<Rightarrow> byte list" where
  "variable_wire s =
     (if take_bit 7 s = s then variable_code 1 s
      else if take_bit 14 s = s then variable_code 2 s
      else if take_bit 21 s = s then variable_code 3 s
      else if take_bit 28 s = s then variable_code 4 s
      else if take_bit 35 s = s then variable_code 5 s
      else if take_bit 42 s = s then variable_code 6 s
      else if take_bit 49 s = s then variable_code 7 s
      else 127 # le_bytes 8 s)"

lemma drop_bit_0_iff: "drop_bit n (s :: u64) = 0 \<longleftrightarrow> take_bit n s = s"
proof
  show "take_bit n s = s" if "drop_bit n s = 0" using bits_ident[of n s] that by simp
  show "drop_bit n s = 0" if "take_bit n s = s"
    using drop_bit_take_bit[of n n s] that by simp
qed

lemma variable_encode_wf [simp]: "o_wf oarc \<Longrightarrow> o_wf (variable_encode oarc s)"
  by (simp add: variable_encode_def)

lemma ucast_code16: "push_bit 2 (ucast (s :: u64) :: u16) OR 1 = ucast (push_bit 2 s OR 1)"
  by (rule bit_word_eqI) (auto simp: bit_simps)

lemma ucast_code32: "push_bit n (ucast (s :: u64) :: u32) OR numeral k = ucast (push_bit n s OR numeral k)"
  by (rule bit_word_eqI) (auto simp: bit_simps)

lemma variable_encode_data [archive_simps]:
  "o_wf oarc \<Longrightarrow> o_data (variable_encode oarc s) = o_data oarc @ variable_wire s"
  by (simp add: variable_encode_def variable_wire_def variable_code_def archive_simps drop_bit_0_iff
      bytes_of_def take_le_bytes le_bytes_ucast ucast_code16 ucast_code32 mask_numeral)

lemma code_take_bit:
  fixes s :: u64
  assumes "j \<le> n" "n \<le> 8" "0 < j"
  shows "take_bit j (push_bit n s OR mask (n - 1)) = mask (j - 1) \<longleftrightarrow> j = n"
proof
  assume "j = n"
  then show "take_bit j (push_bit n s OR mask (n - 1)) = mask (j - 1)"
    using assms by (intro bit_word_eqI) (auto simp: bit_simps)
next
  assume eq: "take_bit j (push_bit n s OR mask (n - 1)) = mask (j - 1)"
  have "\<not> bit (mask (j - 1) :: u64) (j - 1)" by (simp add: bit_simps)
  then have "\<not> bit (take_bit j (push_bit n s OR mask (n - 1))) (j - 1)" by (simp only: eq) simp
  then show "j = n" using assms by (auto simp: bit_simps)
qed

lemma code_value:
  fixes s :: u64
  assumes "take_bit (7 * n) s = s" "n \<le> 8"
  shows "drop_bit n (take_bit (8 * n) (push_bit n s OR mask (n - 1))) = s"
proof (rule bit_word_eqI)
  fix k assume "k < LENGTH(64)"
  have "k < 7 * n" if "bit s k" using that by (metis bit_take_bit_iff assms(1))
  then show "bit (drop_bit n (take_bit (8 * n) (push_bit n s OR mask (n - 1)))) k = bit s k"
    using assms(2) by (auto simp: bit_simps)
qed

lemma variable_code_split:
  "0 < n \<Longrightarrow> variable_code n s = [ucast (push_bit n s OR mask (n - 1))] @ tl (variable_code n s)"
  by (cases n) (simp_all add: variable_code_def)

lemma overwrite_chars:
  assumes "length bs \<le> 7"
  shows "le_word (overwrite (Suc 0) bs (overwrite 0 [b] (replicate 8 0))) = (le_word (b # bs) :: u64)"
proof -
  have "overwrite 0 [b] (replicate 8 0) = b # replicate 7 0" by (simp add: overwrite_def)
  then have "overwrite (Suc 0) bs (overwrite 0 [b] (replicate 8 0)) = (b # bs) @ replicate (7 - length bs) 0"
    by (simp only:) (simp add: overwrite_def)
  then show ?thesis by (simp only: le_word_append_zeros)
qed

lemma first_char: "(le_word (overwrite 0 [ucast (w :: u64)] (replicate 8 0)) :: u64) = take_bit 8 w"
proof -
  have "overwrite 0 [ucast w] (replicate 8 0) = le_bytes 1 w @ replicate 7 0"
    by (simp add: overwrite_def numeral_eq_Suc)
  then show ?thesis by (simp only: le_word_append_zeros le_word_le_bytes) simp
qed

lemma variable_decode_code:
  assumes wf: "i_wf iarc" and rest: "i_rest iarc = variable_code n s @ r"
    and n: "0 < n" "n \<le> 7" and s: "take_bit (7 * n) s = s"
  shows "variable_decode iarc = Some (s, i_adv n iarc)"
proof -
  define w where "w = push_bit n s OR mask (n - 1)"
  define b where "b = (ucast w :: byte)"
  define t where "t = tl (variable_code n s)"
  have bt: "variable_code n s = b # t"
    using variable_code_split[OF n(1), of s] by (simp add: b_def t_def w_def)
  have len: "length t = n - 1" by (simp add: t_def variable_code_def)
  have rest1: "i_rest iarc = [b] @ (t @ r)" using rest bt by simp
  have rd1: "iread iarc 1 = Some ([b], i_adv 1 iarc)" using iread_app[OF wf rest1] by simp
  have rd2: "iread (i_adv 1 iarc) (n - 1) = Some (t, i_adv n iarc)"
    using iread_app[OF i_adv_wf[OF wf rest1], of "n - 1"] len n by simp
  have val: "drop_bit n (le_word (b # t)) = s"
    using code_value[OF s] n by (simp add: bt[symmetric] variable_code_def le_word_le_bytes)
  have iv: "le_word (overwrite 0 [b] (replicate 8 0)) = take_bit 8 w"
    by (simp only: b_def first_char)
  have ow: "le_word (overwrite 1 t (overwrite 0 [b] (replicate 8 0))) = (le_word (b # t) :: u64)"
    using overwrite_chars[of t b] len n by simp
  have val1: "drop_bit 1 (take_bit 8 w) = s" if "n = 1"
    using code_value[OF s] that by (simp add: w_def)
  have cond: "take_bit 8 w AND mask j = mask (j - 1) \<longleftrightarrow> j = n" if "0 < j" "j \<le> n" for j
    using code_take_bit[of j n s] that n by (simp add: w_def flip: take_bit_eq_mask)
  note c = cond[of 1] cond[of 2] cond[of 3] cond[of 4] cond[of 5] cond[of 6] cond[of 7]
  consider "n = 1" | "n = 2" | "n = 3" | "n = 4" | "n = 5" | "n = 6" | "n = 7"
    using n by linarith
  then show ?thesis
    unfolding variable_decode_def rd1
    by cases (use rd2 val val1 ow c in \<open>simp_all add: iv mask_eq_exp_minus_1 Let_def\<close>)
qed

lemma variable_decode_wide:
  assumes wf: "i_wf iarc" and rest: "i_rest iarc = (127 # le_bytes 8 s) @ r"
  shows "variable_decode iarc = Some (s, i_adv 9 iarc)"
proof -
  have rest1: "i_rest iarc = [127] @ (le_bytes 8 s @ r)" using rest by simp
  have rd1: "iread iarc 1 = Some ([127], i_adv 1 iarc)" using iread_app[OF wf rest1] by simp
  have rd2: "iread (i_adv 1 iarc) 8 = Some (le_bytes 8 s, i_adv 9 iarc)"
    using iread_app[OF i_adv_wf[OF wf rest1], of 8] by simp
  have iv: "le_word (overwrite 0 [127] (replicate 8 0)) = (127 :: u64)"
    using first_char[of 127] by simp
  have "overwrite 0 (le_bytes 8 s) (overwrite 0 [127] (replicate 8 0)) = le_bytes 8 s"
    by (simp add: overwrite_def)
  moreover have "le_word (le_bytes 8 s) = s" using le_word_bytes_of[of s] by (simp add: bytes_of_def)
  ultimately show ?thesis
    unfolding variable_decode_def rd1 by (simp add: iv Let_def rd2[simplified])
qed

interpretation variable_codec: codec variable_encode variable_decode variable_wire "\<lambda>_. True"
proof
  fix iarc :: iarchive and s :: u64 and r
  assume wf: "i_wf iarc" and rest: "i_rest iarc = variable_wire s @ r"
  show "variable_decode iarc = Some (s, i_adv (length (variable_wire s)) iarc)"
    using variable_decode_code[OF wf] variable_decode_wide[OF wf] rest
    by (auto simp: variable_wire_def variable_code_def split: if_splits)
qed (simp_all add: archive_simps)

lemma length_variable_wire: "1 \<le> length (variable_wire s) \<and> length (variable_wire s) \<le> 9"
  by (simp add: variable_wire_def variable_code_def)

section \<open>Properties\<close>

text \<open>C13. The variable length integer encoding appends one to nine bytes for every 64-bit number, and
  the decoder reads back the number and exactly these bytes, whatever follows them.\<close>

theorem variable_encode_roundtrip:
  assumes "o_wf oarc"
  shows "\<exists>bs. o_data (variable_encode oarc s) = o_data oarc @ bs \<and> 1 \<le> length bs \<and> length bs \<le> 9 \<and>
     (\<forall>iarc r. i_wf iarc \<longrightarrow> i_rest iarc = bs @ r \<longrightarrow> variable_decode iarc = Some (s, i_adv (length bs) iarc))"
  using assms variable_codec.save_data variable_codec.load_wire length_variable_wire by blast

theorem variable_encode_roundtrip_witness:
  "\<exists>bs. o_data (variable_encode oarchive_new 300) = o_data oarchive_new @ bs \<and> 1 \<le> length bs \<and> length bs \<le> 9 \<and>
     (\<forall>iarc r. i_wf iarc \<longrightarrow> i_rest iarc = bs @ r \<longrightarrow> variable_decode iarc = Some (300, i_adv (length bs) iarc))"
  by (rule variable_encode_roundtrip) simp

end
