(* ===== verification/Frame_Of_Reference.thy ===== *)
theory Frame_Of_Reference
  imports Integer_Pack
begin

text \<open>
  The group code of \<open>sframe/integer_pack.hpp\<close> for up to 128 integers
  (\<open>frame_of_reference_encode_128\<close> and \<open>frame_of_reference_decode_128\<close>): the choice between
  coding the distances to the minimum and coding the differences between neighbours, the
  header byte, and the bit packing at 1, 2, 4, 8, 16, 32 or 64 bits a value.
\<close>

section \<open>Frame of reference code\<close>

definition FRAME_OF_REFERENCE :: byte where "FRAME_OF_REFERENCE = 0"
definition FRAME_OF_REFERENCE_DELTA :: byte where "FRAME_OF_REFERENCE_DELTA = 1"
definition FRAME_OF_REFERENCE_DELTA_NEGATIVE :: byte where "FRAME_OF_REFERENCE_DELTA_NEGATIVE = 2"
definition FRAME_OF_REFERENCE_HEADER_NUM_BITS :: nat where "FRAME_OF_REFERENCE_HEADER_NUM_BITS = 2"
definition FRAME_OF_REFERENCE_HEADER_MASK :: byte where "FRAME_OF_REFERENCE_HEADER_MASK = 3"

lemmas for_consts = FRAME_OF_REFERENCE_def FRAME_OF_REFERENCE_DELTA_def
  FRAME_OF_REFERENCE_DELTA_NEGATIVE_def FRAME_OF_REFERENCE_HEADER_NUM_BITS_def
  FRAME_OF_REFERENCE_HEADER_MASK_def

text \<open>\<open>__builtin_clzl\<close>: the number of zero bits above the highest one bit.\<close>

definition clzl :: "u64 \<Rightarrow> nat" where
  "clzl x = length (takeWhile (\<lambda>i. \<not> bit x i) (rev [0..<64]))"

text \<open>The loops that raise an \<open>unsigned char\<close> to the width of the widest value.\<close>

definition max_bits :: "byte \<Rightarrow> u64 list \<Rightarrow> byte" where
  "max_bits nbits vals =
     foldl (\<lambda>nb x. if x \<noteq> 0 then max nb (of_nat (64 - clzl x)) else nb) nbits vals"

definition is_incremental :: "u64 list \<Rightarrow> bool" where
  "is_incremental input =
     list_all (\<lambda>i. \<not> (i > 0 \<and> input ! i < input ! (i - 1))) [0..<length input]"

definition frame_vals :: "u64 \<Rightarrow> u64 list \<Rightarrow> u64 list" where
  "frame_vals minvalue input = map (\<lambda>x. x - minvalue) input"

definition delta_vals :: "u64 list \<Rightarrow> u64 list" where
  "delta_vals input = map (\<lambda>i. input ! i - input ! (i - 1)) [1..<length input]"

definition delta_negative_vals :: "u64 list \<Rightarrow> u64 list" where
  "delta_negative_vals input =
     map (\<lambda>i. shifted_integer_encode (input ! i - input ! (i - 1))) [1..<length input]"

text \<open>
  The choice of the codec: bits per value, codec number, and the array that is coded. The
  array \<open>delta\<close> is filled when the input is incremental and \<open>delta_negative\<close> otherwise; an
  array that is not filled keeps the width 255. For the two delta codecs the first
  element of the array is the first input value.
\<close>

definition for_select :: "u64 list \<Rightarrow> byte \<times> byte \<times> u64 list" where
  "for_select input =
     (let minvalue = foldl min (hd input) input;
          frame = frame_vals minvalue input;
          nbits_frame = max_bits 0 frame;
          nbits_delta = (if is_incremental input then max_bits 255 (delta_vals input) else 255);
          nbits_delta_negative =
            (if is_incremental input then 255 else max_bits 0 (delta_negative_vals input))
      in if nbits_frame \<le> nbits_delta \<and> nbits_frame \<le> nbits_delta_negative
         then (nbits_frame, FRAME_OF_REFERENCE, frame)
         else if nbits_delta \<le> nbits_frame \<and> nbits_delta \<le> nbits_delta_negative
         then (nbits_delta, FRAME_OF_REFERENCE_DELTA, hd input # delta_vals input)
         else (nbits_delta_negative, FRAME_OF_REFERENCE_DELTA_NEGATIVE,
               hd input # delta_negative_vals input))"

text \<open>Rounding to the next power of two, on \<open>unsigned char\<close>.\<close>

definition round_nbits :: "byte \<Rightarrow> byte" where
  "round_nbits nbits =
     (let nbits = nbits - 1;
          nbits = nbits OR drop_bit 1 nbits;
          nbits = nbits OR drop_bit 2 nbits;
          nbits = nbits OR drop_bit 4 nbits
      in nbits + 1)"

definition for_header :: "byte \<Rightarrow> byte \<Rightarrow> byte" where
  "for_header nbits coding_technique =
     (if nbits > 0
      then coding_technique + push_bit 2 (of_nat (64 - clzl (ucast nbits)))
      else coding_technique)"

text \<open>The \<open>switch(nbits)\<close> of the encoder and of the decoder.\<close>

definition for_pack :: "byte \<Rightarrow> u64 list \<Rightarrow> byte list option" where
  "for_pack nbits vals =
     (if nbits = 1 then pack_1 vals
      else if nbits = 2 then pack_2 vals
      else if nbits = 4 then pack_4 vals
      else if nbits = 8 then Some (pack_8 vals)
      else if nbits = 16 then Some (words_bytes (pack_16 vals))
      else if nbits = 32 then Some (words_bytes (pack_32 vals))
      else if nbits = 64 then Some (words_bytes vals)
      else None)"

definition for_unpack :: "byte \<Rightarrow> nat \<Rightarrow> byte list \<Rightarrow> u64 list option" where
  "for_unpack nbits len pack =
     (if nbits = 1 then unpack_1 pack len
      else if nbits = 2 then unpack_2 pack len
      else if nbits = 4 then unpack_4 pack len
      else if nbits = 8 then unpack_8 pack len
      else if nbits = 16 then unpack_16 (bytes_words len pack) len
      else if nbits = 32 then unpack_32 (bytes_words len pack) len
      else if nbits = 64 then Some (bytes_words len pack)
      else None)"

text \<open>The stack arrays hold 128 values; a longer input writes past them and is \<^const>\<open>None\<close>.\<close>

definition frame_of_reference_encode_128 :: "u64 list \<Rightarrow> oarchive \<Rightarrow> oarchive option" where
  "frame_of_reference_encode_128 input oarc =
     (if input = [] then Some oarc
      else if length input > 128 then None
      else let (nbits, coding_technique, vals) = for_select input;
               nbits = round_nbits nbits;
               oarc = direct_assign oarc (for_header nbits coding_technique);
               (oarc, vals) =
                 (if coding_technique = FRAME_OF_REFERENCE
                  then (variable_encode oarc (foldl min (hd input) input), vals)
                  else (variable_encode oarc (hd vals), tl vals))
           in if nbits = 0 then Some oarc
              else do { packed \<leftarrow> for_pack nbits vals; Some (owrite oarc packed) })"

fun undelta :: "u64 \<Rightarrow> u64 list \<Rightarrow> u64 list" where
  "undelta prev [] = []"
| "undelta prev (d # ds) = (let v = d + prev in v # undelta v ds)"

fun undelta_negative :: "u64 \<Rightarrow> u64 list \<Rightarrow> u64 list" where
  "undelta_negative prev [] = []"
| "undelta_negative prev (d # ds) =
     (let v = shifted_integer_decode d + prev in v # undelta_negative v ds)"

definition frame_of_reference_decode_128 :: "iarchive \<Rightarrow> nat \<Rightarrow> (u64 list \<times> iarchive) option" where
  "frame_of_reference_decode_128 iarc len =
     (if len = 0 then Some ([], iarc)
      else if len > 128 then None
      else do {
        (header :: byte, iarc) \<leftarrow> read_into iarc;
        let shiftpos = drop_bit FRAME_OF_REFERENCE_HEADER_NUM_BITS header;
            coding_technique = header AND FRAME_OF_REFERENCE_HEADER_MASK;
            nbits = (if shiftpos > 0 then push_bit (unat (shiftpos - 1)) 1 else 0) :: byte
        in if nbits = 0 then do {
             (minvalue, iarc) \<leftarrow> variable_decode iarc;
             Some (replicate len minvalue, iarc) }
           else if coding_technique = FRAME_OF_REFERENCE then do {
             (minvalue, iarc) \<leftarrow> variable_decode iarc;
             (pack, iarc) \<leftarrow> iread iarc ((unat nbits * len + 7) div 8);
             vals \<leftarrow> for_unpack nbits len pack;
             Some (map (\<lambda>x. x + minvalue) vals, iarc) }
           else if coding_technique = FRAME_OF_REFERENCE_DELTA \<or>
                   coding_technique = FRAME_OF_REFERENCE_DELTA_NEGATIVE then do {
             (first, iarc) \<leftarrow> variable_decode iarc;
             (pack, iarc) \<leftarrow> iread iarc ((unat nbits * (len - 1) + 7) div 8);
             vals \<leftarrow> for_unpack nbits (len - 1) pack;
             Some (first # (if coding_technique = FRAME_OF_REFERENCE_DELTA
                            then undelta first vals else undelta_negative first vals), iarc) }
           else do {
             (pack, iarc) \<leftarrow> iread iarc ((unat nbits * len + 7) div 8);
             vals \<leftarrow> for_unpack nbits len pack;
             Some (vals, iarc) } })"

lemma takeWhile_rev_upt:
  "n - length (takeWhile P (rev [0..<n])) \<le> i \<Longrightarrow> i < n \<Longrightarrow> P i"
  by (induction n) (auto simp: less_Suc_eq split: if_splits)

lemma take_bit_clzl: 
  fixes x :: u64
  assumes "64 - clzl x \<le> k" shows "take_bit k x = x"
proof (rule bit_word_eqI)
  fix n assume n: "n < LENGTH(64)"
  have "\<not> bit x n" if "k \<le> n"
    using takeWhile_rev_upt[of 64 "\<lambda>i. \<not> bit x i" n] n that assms by (simp add: clzl_def)
  then show "bit (take_bit k x) n = bit x n" by (auto simp: bit_take_bit_iff not_less[symmetric])
qed

lemma unat_bits: "unat (of_nat (64 - n) :: byte) = 64 - n"
  by (simp add: unsigned_of_nat take_bit_nat_eq_self)

lemma max_bits_bounds:
  "nb \<le> max_bits nb vals" "max_bits nb vals \<le> max nb 64"
  "x \<in> set vals \<Longrightarrow> x \<noteq> 0 \<Longrightarrow> of_nat (64 - clzl x) \<le> max_bits nb vals"
proof (induction vals arbitrary: nb)
  case (Cons v vals)
  have s: "max_bits nb (v # vals) =
      max_bits (if v \<noteq> 0 then max nb (of_nat (64 - clzl v)) else nb) vals" for nb
    by (simp add: max_bits_def)
  have b: "(of_nat (64 - clzl v) :: byte) \<le> 64" by (simp add: word_le_nat_alt unat_bits)
  { case (1 nb) show ?case unfolding s
      using Cons(1)[of nb] Cons(1)[of "max nb (of_nat (64 - clzl v))"] by (auto split: if_splits) }
  { case (2 nb) show ?case unfolding s
      using Cons(2)[of nb] Cons(2)[of "max nb (of_nat (64 - clzl v))"] b
      by (auto simp: max_def split: if_splits) }
  { case (3 nb) then show ?case unfolding s
      using Cons(1)[of nb] Cons(1)[of "max nb (of_nat (64 - clzl v))"]
        Cons(3)[of nb] Cons(3)[of "max nb (of_nat (64 - clzl v))"] by (auto split: if_splits) }
qed (simp_all add: max_bits_def)

lemma max_bits_fit:
  assumes "max_bits nb vals \<le> n" "x \<in> set vals"
  shows "take_bit (unat n) x = x"
proof (cases "x = 0")
  case False
  then have "of_nat (64 - clzl x) \<le> n" using max_bits_bounds(3) assms by (meson order_trans)
  then have "64 - clzl x \<le> unat n" by (simp add: word_le_nat_alt unat_bits)
  then show ?thesis by (rule take_bit_clzl)
qed simp

lemma for_packer:
  assumes "nbits \<in> {1, 2, 4, 8, 16, 32, 64}"
  shows "bit_packer (for_pack nbits) (\<lambda>bs n. for_unpack nbits n bs) (unat nbits)"
  using assms pack1.bit_packer_axioms pack2.bit_packer_axioms pack4.bit_packer_axioms
    pack8.bit_packer_axioms pack16.bit_packer_axioms pack32.bit_packer_axioms
    pack64.bit_packer_axioms
  by (auto simp: for_pack_def[abs_def] for_unpack_def[abs_def])

lemma round_nbits:
  assumes "n \<le> 64"
  shows "round_nbits n \<in> {0, 1, 2, 4, 8, 16, 32, 64}" "n \<le> round_nbits n" "round_nbits n = 0 \<longleftrightarrow> n = 0"
proof -
  have k: "unat n \<in> set [0..<65]" "n = of_nat (unat n)" using assms by (simp_all add: word_le_nat_alt)
  have "list_all (\<lambda>k. let n = of_nat k in round_nbits n \<in> {0, 1, 2, 4, 8, 16, 32, 64} \<and>
      n \<le> round_nbits n \<and> (round_nbits n = 0 \<longleftrightarrow> n = 0)) [0..<65]"
    by code_simp
  then have "\<forall>k\<in>set [0..<65]. round_nbits (of_nat k) \<in> {0, 1, 2, 4, 8, 16, 32, 64} \<and>
      of_nat k \<le> round_nbits (of_nat k) \<and> (round_nbits (of_nat k) = 0 \<longleftrightarrow> (of_nat k :: byte) = 0)"
    by (simp only: list_all_iff Let_def)
  from bspec[OF this k(1)] show "round_nbits n \<in> {0, 1, 2, 4, 8, 16, 32, 64}" "n \<le> round_nbits n"
    "round_nbits n = 0 \<longleftrightarrow> n = 0"
    by (simp_all only: k(2)[symmetric])
qed

lemma clzl_power: "k < 64 \<Longrightarrow> clzl (2 ^ k) = 63 - k"
proof -
  assume k: "k < 64"
  have "[0..<64] = [0..<k] @ k # [Suc k..<64]"
    using k upt_add_eq_append[of 0 k "64 - k"] upt_conv_Cons[of k 64] by simp
  then have r: "rev [0..<64] = rev [Suc k..<64] @ k # rev [0..<k]" by simp
  show ?thesis unfolding clzl_def r using k by (subst takeWhile_append2) (auto simp: bit_exp_iff)
qed

lemma for_header_fields:
  assumes "nbits \<in> {0, 1, 2, 4, 8, 16, 32, 64}" "t \<in> {0, 1, 2}"
  defines "h \<equiv> for_header nbits t"
  shows "(if drop_bit 2 h > 0 then push_bit (unat (drop_bit 2 h - 1)) 1 else 0) = nbits" "h AND 3 = t"
  using assms(1,2) clzl_power[of 0] clzl_power[of 1] clzl_power[of 2] clzl_power[of 3]
    clzl_power[of 4] clzl_power[of 5] clzl_power[of 6]
  by (auto simp: h_def for_header_def)

lemma for_decode_frame:
  assumes wf: "i_wf iarc" and nb: "nbits \<in> {1, 2, 4, 8, 16, 32, 64}"
    and vals: "vals \<noteq> []" "length vals \<le> 128" "list_all (\<lambda>x. take_bit (unat nbits) x = x) vals"
    and bs: "for_pack nbits vals = Some bs"
    and rest: "i_rest iarc = bytes_of (for_header nbits FRAME_OF_REFERENCE) @ variable_wire m @ bs @ r"
  shows "frame_of_reference_decode_128 iarc (length vals) =
    Some (map (\<lambda>x. x + m) vals, i_adv (1 + length (variable_wire m) + length bs) iarc)"
proof -
  let ?h = "for_header nbits FRAME_OF_REFERENCE" and ?n = "length (variable_wire m)"
  note h = for_header_fields[of nbits FRAME_OF_REFERENCE, unfolded FRAME_OF_REFERENCE_def]
  have nz: "nbits \<noteq> 0" using nb by auto
  have pk: "length bs = (unat nbits * length vals + 7) div 8" "for_unpack nbits (length vals) bs = Some vals"
    using bit_packer.pack_unpack[OF for_packer[OF nb] vals(1,3)] bs by auto
  note a1 = i_adv_wf[OF wf rest]
  note a2 = i_adv_wf[OF a1]
  have "read_into iarc = Some (?h, i_adv 1 iarc)" using read_into_app[OF wf rest] by simp
  moreover have "variable_decode (i_adv 1 iarc) = Some (m, i_adv ?n (i_adv 1 iarc))"
    using variable_codec.load_wire[OF a1(1) _ a1(2)] by simp
  moreover have "iread (i_adv ?n (i_adv 1 iarc)) (length bs) = Some (bs, i_adv (length bs) (i_adv ?n (i_adv 1 iarc)))"
    using iread_app[OF a2 refl] by simp
  ultimately show ?thesis
    unfolding frame_of_reference_decode_128_def for_consts pk(1)
    using vals nz h nb pk(2) by (simp add: Let_def)
qed

lemma for_decode_delta:
  assumes wf: "i_wf iarc" and nb: "nbits \<in> {1, 2, 4, 8, 16, 32, 64}"
    and t: "t \<in> {FRAME_OF_REFERENCE_DELTA, FRAME_OF_REFERENCE_DELTA_NEGATIVE}"
    and vals: "vals \<noteq> []" "length vals < 128" "list_all (\<lambda>x. take_bit (unat nbits) x = x) vals"
    and bs: "for_pack nbits vals = Some bs"
    and rest: "i_rest iarc = bytes_of (for_header nbits t) @ variable_wire x @ bs @ r"
  shows "frame_of_reference_decode_128 iarc (Suc (length vals)) =
    Some (x # (if t = FRAME_OF_REFERENCE_DELTA then undelta x vals else undelta_negative x vals),
          i_adv (1 + length (variable_wire x) + length bs) iarc)"
proof -
  let ?h = "for_header nbits t" and ?n = "length (variable_wire x)"
  have t': "t \<in> {0, 1, 2}" using t by (auto simp: for_consts)
  note h = for_header_fields[of nbits t, OF _ t']
  have nz: "nbits \<noteq> 0" using nb by auto
  have pk: "length bs = (unat nbits * length vals + 7) div 8" "for_unpack nbits (length vals) bs = Some vals"
    using bit_packer.pack_unpack[OF for_packer[OF nb] vals(1,3)] bs by auto
  note a1 = i_adv_wf[OF wf rest]
  note a2 = i_adv_wf[OF a1]
  have "read_into iarc = Some (?h, i_adv 1 iarc)" using read_into_app[OF wf rest] by simp
  moreover have "variable_decode (i_adv 1 iarc) = Some (x, i_adv ?n (i_adv 1 iarc))"
    using variable_codec.load_wire[OF a1(1) _ a1(2)] by simp
  moreover have "iread (i_adv ?n (i_adv 1 iarc)) (length bs) = Some (bs, i_adv (length bs) (i_adv ?n (i_adv 1 iarc)))"
    using iread_app[OF a2 refl] by simp
  ultimately show ?thesis
    unfolding frame_of_reference_decode_128_def for_consts pk(1)
    using vals nz h nb pk(2) t[unfolded for_consts] by (auto simp add: Let_def)
qed

lemma for_decode_zero:
  assumes wf: "i_wf iarc" and t: "t \<in> {0, 1, 2}" and n: "0 < n" "n \<le> 128"
    and rest: "i_rest iarc = bytes_of (for_header 0 t) @ variable_wire x @ r"
  shows "frame_of_reference_decode_128 iarc n =
    Some (replicate n x, i_adv (1 + length (variable_wire x)) iarc)"
proof -
  note h = for_header_fields[of 0 t, OF _ t]
  note a1 = i_adv_wf[OF wf rest]
  have "read_into iarc = Some (for_header 0 t, i_adv 1 iarc)" using read_into_app[OF wf rest] by simp
  moreover have "variable_decode (i_adv 1 iarc) = Some (x, i_adv (length (variable_wire x)) (i_adv 1 iarc))"
    using variable_codec.load_wire[OF a1(1) _ a1(2)] by simp
  ultimately show ?thesis
    unfolding frame_of_reference_decode_128_def for_consts using n h by (simp add: Let_def)
qed

lemma delta_negative_vals_Cons:
  "delta_negative_vals (x # y # zs) = shifted_integer_encode (y - x) # delta_negative_vals (y # zs)"
proof -
  have "[1..<length (x # y # zs)] = 1 # map Suc [1..<length (y # zs)]"
    by (simp add: map_Suc_upt upt_conv_Cons del: upt_Suc)
  then show ?thesis by (simp add: delta_negative_vals_def comp_def nth_Cons' del: upt_Suc)
qed

lemma delta_vals_Cons: "delta_vals (x # y # zs) = (y - x) # delta_vals (y # zs)"
proof -
  have "[1..<length (x # y # zs)] = 1 # map Suc [1..<length (y # zs)]"
    by (simp add: map_Suc_upt upt_conv_Cons del: upt_Suc)
  then show ?thesis by (simp add: delta_vals_def comp_def nth_Cons' del: upt_Suc)
qed

lemma undelta_negative_vals: "undelta_negative x (delta_negative_vals (x # xs)) = xs"
  by (induction xs arbitrary: x)
    (simp_all add: delta_negative_vals_Cons shifted_integer_roundtrip Let_def, simp add: delta_negative_vals_def)

lemma undelta_vals: "undelta x (delta_vals (x # xs)) = xs"
  by (induction xs arbitrary: x) (simp_all add: delta_vals_Cons Let_def, simp add: delta_vals_def)

lemma length_vals [simp]:
  "length (frame_vals m input) = length input"
  "length (delta_vals input) = length input - 1"
  "length (delta_negative_vals input) = length input - 1"
  by (simp_all add: frame_vals_def delta_vals_def delta_negative_vals_def)

lemma undelta_negative_zeros: "list_all (\<lambda>v. v = 0) vals \<Longrightarrow> undelta_negative x vals = replicate (length vals) x"
  by (induction vals) (simp_all add: shifted_integer_decode_bits)

lemma for_select_codecs:
  assumes "input \<noteq> []"
  obtains (frame) "for_select input =
      (max_bits 0 (frame_vals (foldl min (hd input) input) input), FRAME_OF_REFERENCE,
       frame_vals (foldl min (hd input) input) input)"
  | (delta_negative) "\<not> is_incremental input"
      "for_select input =
        (max_bits 0 (delta_negative_vals input), FRAME_OF_REFERENCE_DELTA_NEGATIVE,
         hd input # delta_negative_vals input)"
proof -
  let ?f = "max_bits 0 (frame_vals (foldl min (hd input) input) input)"
  have f: "?f \<le> 64" using max_bits_bounds(2)[of 0] by simp
  have m: "max_bits 255 vals = 255" for vals
    using max_bits_bounds(1)[of 255 vals] max_bits_bounds(2)[of 255 vals] by (simp add: max_def)
  have le: "n \<le> 255" if "n \<le> 64" for n :: byte using that by (rule order_trans) simp
  show thesis
  proof (cases "is_incremental input")
    case True
    then show thesis by (intro frame) (simp add: for_select_def m le[OF f] Let_def)
  next
    case False
    have d: "\<not> 255 \<le> ?f"
    proof
      assume "255 \<le> ?f"
      from order_trans[OF this f] show False by simp
    qed
    show thesis
    proof (cases "?f \<le> max_bits 0 (delta_negative_vals input)")
      case True
      then show thesis using False le[OF f] by (intro frame) (simp add: for_select_def Let_def)
    next
      case le: False
      show thesis by (rule delta_negative[OF False]) (use False le d in \<open>simp add: for_select_def Let_def\<close>)
    qed
  qed
qed

text \<open>
  The contract of a group encoder and its decoder, which is told the number of values:
  every admissible group is encoded, and decoding its wire form gives the group back.
\<close>

locale group_codec =
  fixes encode :: "'a list \<Rightarrow> oarchive \<Rightarrow> oarchive option"
    and decode :: "iarchive \<Rightarrow> nat \<Rightarrow> ('a list \<times> iarchive) option"
    and wire :: "'a list \<Rightarrow> byte list"
    and ok :: "'a list \<Rightarrow> bool"
  assumes encode_data: "ok xs \<Longrightarrow> o_wf oarc \<Longrightarrow>
      \<exists>oarc'. encode xs oarc = Some oarc' \<and> o_wf oarc' \<and> o_data oarc' = o_data oarc @ wire xs"
    and decode_wire: "ok xs \<Longrightarrow> i_wf iarc \<Longrightarrow> i_rest iarc = wire xs @ r \<Longrightarrow>
      decode iarc (length xs) = Some (xs, i_adv (length (wire xs)) iarc)"

text \<open>The bytes of a group.\<close>

definition for_wire :: "u64 list \<Rightarrow> byte list" where
  "for_wire input =
     (if input = [] then []
      else case for_select input of (nbits, t, vals) \<Rightarrow>
        let (base, vals) = (if t = FRAME_OF_REFERENCE then (foldl min (hd input) input, vals)
                            else (hd vals, tl vals));
            nbits = round_nbits nbits
        in bytes_of (for_header nbits t) @ variable_wire base @
           (if nbits = 0 then [] else the (for_pack nbits vals)))"

lemma for_pack_total:
  assumes "max_bits 0 vals = n" "vals \<noteq> []" "n \<noteq> 0"
  shows "round_nbits n \<in> {1, 2, 4, 8, 16, 32, 64}"
    and "list_all (\<lambda>x. take_bit (unat (round_nbits n)) x = x) vals"
    and "for_pack (round_nbits n) vals = Some (the (for_pack (round_nbits n) vals))"
proof -
  have n: "n \<le> 64" using max_bits_bounds(2)[of 0 vals] assms(1) by simp
  show nb: "round_nbits n \<in> {1, 2, 4, 8, 16, 32, 64}" using round_nbits[OF n] assms(3) by auto
  show fit: "list_all (\<lambda>x. take_bit (unat (round_nbits n)) x = x) vals"
    using max_bits_fit[of 0 vals "round_nbits n"] round_nbits(2)[OF n] assms(1) by (auto simp: list_all_iff)
  show "for_pack (round_nbits n) vals = Some (the (for_pack (round_nbits n) vals))"
    using bit_packer.pack_unpack[OF for_packer[OF nb] assms(2) fit] by auto
qed

lemma max_bits_0: "max_bits 0 vals = 0 \<Longrightarrow> list_all (\<lambda>x. x = 0) vals"
  using max_bits_fit[of 0 vals 0] by (auto simp: list_all_iff)

lemma not_incremental_length: "\<not> is_incremental input \<Longrightarrow> 2 \<le> length input"
  by (cases input; cases "tl input") (auto simp: is_incremental_def)

lemma replicate_all: "list_all (\<lambda>x. x = a) xs \<Longrightarrow> replicate (length xs) a = xs"
  by (induction xs) auto

lemma for_encode_data:
  assumes "length xs \<le> 128" and wf: "o_wf oarc"
  shows "\<exists>oarc'. frame_of_reference_encode_128 xs oarc = Some oarc' \<and> o_wf oarc' \<and>
    o_data oarc' = o_data oarc @ for_wire xs"
proof (cases "xs = []")
  case False
  then show ?thesis
  proof (cases rule: for_select_codecs)
    case frame
    let ?m = "foldl min (hd xs) xs" and ?vals = "frame_vals (foldl min (hd xs) xs) xs"
    have ne: "?vals \<noteq> []" using False by (simp add: frame_vals_def)
    have rz: "round_nbits (max_bits 0 ?vals) = 0 \<longleftrightarrow> max_bits 0 ?vals = 0"
      using round_nbits(3)[of "max_bits 0 ?vals"] max_bits_bounds(2)[of 0 ?vals] by simp
    show ?thesis
    proof (cases "max_bits 0 ?vals = 0")
      case True
      then show ?thesis using False assms rz
        by (simp add: frame_of_reference_encode_128_def for_wire_def frame archive_simps)
    next
      case nz: False
      from for_pack_total(3)[OF refl ne nz] obtain bs where
        "for_pack (round_nbits (max_bits 0 ?vals)) ?vals = Some bs" by blast
      then show ?thesis using False assms rz nz
        by (simp add: frame_of_reference_encode_128_def for_wire_def frame archive_simps)
    qed
  next
    case delta_negative
    let ?vals = "delta_negative_vals xs"
    have ne: "?vals \<noteq> []" using not_incremental_length[OF delta_negative(1)]
      by (auto simp flip: length_0_conv)
    have rz: "round_nbits (max_bits 0 ?vals) = 0 \<longleftrightarrow> max_bits 0 ?vals = 0"
      using round_nbits(3)[of "max_bits 0 ?vals"] max_bits_bounds(2)[of 0 ?vals] by simp
    show ?thesis
    proof (cases "max_bits 0 ?vals = 0")
      case True
      then show ?thesis using False assms rz
        by (simp add: frame_of_reference_encode_128_def for_wire_def delta_negative for_consts archive_simps)
    next
      case nz: False
      from for_pack_total(3)[OF refl ne nz] obtain bs where
        "for_pack (round_nbits (max_bits 0 ?vals)) ?vals = Some bs" by blast
      then show ?thesis using False assms rz nz
        by (simp add: frame_of_reference_encode_128_def for_wire_def delta_negative for_consts archive_simps)
    qed
  qed
qed (simp add: frame_of_reference_encode_128_def for_wire_def wf)

lemma for_decode_wire:
  assumes len: "length xs \<le> 128" and wf: "i_wf iarc" and rest: "i_rest iarc = for_wire xs @ r"
  shows "frame_of_reference_decode_128 iarc (length xs) = Some (xs, i_adv (length (for_wire xs)) iarc)"
proof (cases "xs = []")
  case False
  then show ?thesis
  proof (cases rule: for_select_codecs)
    case frame
    let ?m = "foldl min (hd xs) xs" and ?vals = "frame_vals (foldl min (hd xs) xs) xs"
    have ne: "?vals \<noteq> []" using False by (simp add: frame_vals_def)
    have un: "map (\<lambda>x. x + ?m) ?vals = xs" by (simp add: frame_vals_def comp_def)
    have rz: "round_nbits (max_bits 0 ?vals) = 0 \<longleftrightarrow> max_bits 0 ?vals = 0"
      using round_nbits(3)[of "max_bits 0 ?vals"] max_bits_bounds(2)[of 0 ?vals] by simp
    show ?thesis
    proof (cases "max_bits 0 ?vals = 0")
      case True
      have "list_all (\<lambda>x. x = ?m) xs" using max_bits_0[OF True]
        by (simp add: frame_vals_def list_all_iff)
      then have "replicate (length xs) ?m = xs"
        by (rule replicate_all)
      note e = this
      have w: "for_wire xs = bytes_of (for_header 0 FRAME_OF_REFERENCE) @ variable_wire ?m"
        using False True rz by (simp add: for_wire_def frame Let_def)
      show ?thesis using for_decode_zero[OF wf, of FRAME_OF_REFERENCE "length xs" ?m r] rest False len
        unfolding w e by (simp add: FRAME_OF_REFERENCE_def)
    next
      case nz: False
      note p = for_pack_total[OF refl ne nz]
      show ?thesis
        using for_decode_frame[OF wf p(1) ne _ p(2,3), of ?m r] rest False len nz rz un
        by (simp add: for_wire_def frame Let_def)
    qed
  next
    case delta_negative
    let ?vals = "delta_negative_vals xs"
    have l2: "2 \<le> length xs" by (rule not_incremental_length[OF delta_negative(1)])
    then have ne: "?vals \<noteq> []" by (auto simp flip: length_0_conv)
    have un: "hd xs # undelta_negative (hd xs) ?vals = xs"
      using undelta_negative_vals[of "hd xs" "tl xs"] False by simp
    have sl: "Suc (length ?vals) = length xs" "length ?vals < 128" using l2 len by simp_all
    have rz: "round_nbits (max_bits 0 ?vals) = 0 \<longleftrightarrow> max_bits 0 ?vals = 0"
      using round_nbits(3)[of "max_bits 0 ?vals"] max_bits_bounds(2)[of 0 ?vals] by simp
    show ?thesis
    proof (cases "max_bits 0 ?vals = 0")
      case True
      have "hd xs # replicate (length ?vals) (hd xs) = xs"
        using un undelta_negative_zeros[OF max_bits_0[OF True], of "hd xs"] by simp
      then have "replicate (length xs) (hd xs) = xs" unfolding sl(1)[symmetric] by simp
      note e = this
      have w: "for_wire xs = bytes_of (for_header 0 FRAME_OF_REFERENCE_DELTA_NEGATIVE) @ variable_wire (hd xs)"
        using False True rz by (simp add: for_wire_def delta_negative for_consts Let_def)
      show ?thesis
        using for_decode_zero[OF wf, of FRAME_OF_REFERENCE_DELTA_NEGATIVE "length xs" "hd xs" r] rest False len
        unfolding w e by (simp add: for_consts)
    next
      case nz: False
      note p = for_pack_total[OF refl ne nz]
      show ?thesis
        using for_decode_delta[OF wf p(1) _ ne sl(2) p(2,3), of FRAME_OF_REFERENCE_DELTA_NEGATIVE "hd xs" r]
          rest False len nz rz un sl(1)
        by (simp add: for_wire_def delta_negative for_consts Let_def)
    qed
  qed
qed (simp add: frame_of_reference_decode_128_def for_wire_def)

interpretation for_codec: group_codec frame_of_reference_encode_128 frame_of_reference_decode_128
  for_wire "\<lambda>xs. length xs \<le> 128"
  by unfold_locales (rule for_encode_data for_decode_wire; assumption)+

section \<open>Properties\<close>

text \<open>C12. Each bit packer of widths 1 to 64 writes \<open>ceil(nbits * n / 8)\<close> bytes for \<open>n\<close> values of that
  width, and the unpacker of the width returns the values.\<close>

theorem bit_pack_roundtrip:
  assumes "src \<noteq> []" "nbits \<in> {1, 2, 4, 8, 16, 32, 64}" "list_all (\<lambda>x. take_bit (unat nbits) x = x) src"
  shows "\<exists>bs. for_pack nbits src = Some bs \<and> length bs = (unat nbits * length src + 7) div 8 \<and>
     for_unpack nbits (length src) bs = Some src"
  by (rule bit_packer.pack_unpack[OF for_packer[OF assms(2)] assms(1,3)])

theorem bit_pack_roundtrip_witness:
  "\<exists>bs. for_pack 2 [3, 1, 2, 0, 3] = Some bs \<and> length bs = (unat (2 :: byte) * length [3 :: u64, 1, 2, 0, 3] + 7) div 8 \<and>
     for_unpack 2 (length [3 :: u64, 1, 2, 0, 3]) bs = Some [3, 1, 2, 0, 3]"
  by (rule bit_pack_roundtrip) (simp_all add: take_bit_word_eq_self)

text \<open>C9. A group of up to 128 integers is always encoded, and decoding with the same count returns the
  integers and stops right after their bytes.\<close>

theorem frame_of_reference_roundtrip:
  assumes "length xs \<le> 128" "o_wf oarc"
  shows "\<exists>oarc' bs. frame_of_reference_encode_128 xs oarc = Some oarc' \<and> o_wf oarc' \<and>
     o_data oarc' = o_data oarc @ bs \<and>
     (\<forall>iarc r. i_wf iarc \<longrightarrow> i_rest iarc = bs @ r \<longrightarrow>
        frame_of_reference_decode_128 iarc (length xs) = Some (xs, i_adv (length bs) iarc))"
  using for_codec.encode_data[OF assms] for_codec.decode_wire[OF assms(1)] by blast

theorem frame_of_reference_roundtrip_witness:
  "\<exists>oarc' bs. frame_of_reference_encode_128 [10, 7, 300] oarchive_new = Some oarc' \<and> o_wf oarc' \<and>
     o_data oarc' = o_data oarchive_new @ bs \<and>
     (\<forall>iarc r. i_wf iarc \<longrightarrow> i_rest iarc = bs @ r \<longrightarrow>
        frame_of_reference_decode_128 iarc (length [10 :: u64, 7, 300]) = Some ([10, 7, 300], i_adv (length bs) iarc))"
  by (rule frame_of_reference_roundtrip) simp_all

text \<open>C19. The encoder never selects the codec \<open>FRAME_OF_REFERENCE_DELTA\<close>: an increasing group is written
  as differences to its minimum, however large, because \<open>nbits_delta\<close> starts at 255.\<close>

theorem delta_codec_never_selected:
  "for_select input = (nbits, technique, vals) \<Longrightarrow> input \<noteq> [] \<Longrightarrow> technique \<noteq> FRAME_OF_REFERENCE_DELTA"
  by (erule for_select_codecs[of input]) (auto simp: for_consts)

theorem delta_codec_never_selected_witness:
  "fst (snd (for_select [100, 101, 102])) \<noteq> FRAME_OF_REFERENCE_DELTA"
  using delta_codec_never_selected[of "[100, 101, 102]"] by (metis list.distinct(1) prod.collapse)

end
