(* ===== verification/Flexible_Type.thy ===== *)
theory Flexible_Type
  imports Archive
begin

text \<open>
  \<open>flexible_type\<close> (\<open>src/flexible_type\<close>): the tagged value an SFrame cell holds, its type
  enumeration and type tables (\<open>flexible_type_base_types.hpp\<close>), the typed getters, \<open>reset\<close>
  and the container operations (\<open>flexible_type.hpp\<close>), and its serialized form
  (\<open>serializer\<close> and \<open>deserializer\<close> of \<open>flexible_type_detail.hpp\<close>, \<open>image_type::save\<close> and
  \<open>image_type::load\<close>).

  An integer and a double share one 64-bit word of a union, so both are a \<^typ>\<open>u64\<close>: a double
  is its object representation. The assertion failure of a getter on the wrong type and an
  undefined read are the value \<^const>\<open>None\<close>.
\<close>

section \<open>Type enumeration\<close>

datatype flex_type_enum = INTEGER | FLOAT | STRING | VECTOR | LIST | DICT | DATETIME | UNDEFINED | IMAGE

fun flex_type_code :: "flex_type_enum \<Rightarrow> byte" where
  "flex_type_code INTEGER = 0"
| "flex_type_code FLOAT = 1"
| "flex_type_code STRING = 2"
| "flex_type_code VECTOR = 3"
| "flex_type_code LIST = 4"
| "flex_type_code DICT = 5"
| "flex_type_code DATETIME = 6"
| "flex_type_code UNDEFINED = 7"
| "flex_type_code IMAGE = 8"

definition all_flex_types :: "flex_type_enum list" where
  "all_flex_types = [INTEGER, FLOAT, STRING, VECTOR, LIST, DICT, DATETIME, UNDEFINED, IMAGE]"

text \<open>The cast of a byte to the enumeration; a byte that is no enumerator has no type.\<close>

definition flex_type_of_code :: "byte \<Rightarrow> flex_type_enum option" where
  "flex_type_of_code c = find (\<lambda>t. flex_type_code t = c) all_flex_types"

section \<open>Type tables\<close>

definition table_at :: "bool list list \<Rightarrow> flex_type_enum \<Rightarrow> flex_type_enum \<Rightarrow> bool" where
  "table_at tab l r = (tab ! unat (flex_type_code l) ! unat (flex_type_code r))"

definition castable :: "bool list list" where
  "castable = map (map (\<lambda>n. n = (1 :: nat)))
     [[1, 1, 1, 0, 0, 0, 1, 0, 0],
      [1, 1, 1, 0, 0, 0, 1, 0, 0],
      [0, 0, 1, 0, 0, 0, 0, 0, 0],
      [0, 0, 1, 1, 1, 0, 0, 0, 0],
      [0, 0, 1, 0, 1, 0, 0, 0, 0],
      [0, 0, 1, 0, 0, 1, 0, 0, 0],
      [1, 1, 1, 0, 0, 0, 1, 0, 0],
      [0, 0, 1, 0, 0, 0, 0, 1, 0],
      [0, 0, 1, 1, 0, 0, 0, 0, 1]]"

definition flex_type_is_convertible :: "flex_type_enum \<Rightarrow> flex_type_enum \<Rightarrow> bool" where
  "flex_type_is_convertible from to = table_at castable from to"

definition plus_operator :: "bool list list" where
  "plus_operator = map (map (\<lambda>n. n = (1 :: nat)))
     [[1, 1, 0, 0, 0, 0, 0, 0, 0],
      [1, 1, 0, 0, 0, 0, 0, 0, 0],
      [0, 0, 1, 0, 0, 0, 0, 0, 0],
      [1, 1, 0, 1, 0, 0, 0, 0, 0],
      [0, 0, 0, 0, 0, 0, 0, 0, 0],
      [0, 0, 0, 0, 0, 0, 0, 0, 0],
      [1, 0, 0, 0, 0, 0, 0, 0, 0],
      [0, 0, 0, 0, 0, 0, 0, 0, 0],
      [0, 0, 0, 0, 0, 0, 0, 0, 0]]"

definition other_numeric_operators :: "bool list list" where
  "other_numeric_operators = map (map (\<lambda>n. n = (1 :: nat)))
     [[1, 1, 0, 0, 0, 0, 0, 0, 0],
      [1, 1, 0, 0, 0, 0, 0, 0, 0],
      [0, 0, 0, 0, 0, 0, 0, 0, 0],
      [1, 1, 0, 1, 0, 0, 0, 0, 0],
      [0, 0, 0, 0, 0, 0, 0, 0, 0],
      [0, 0, 0, 0, 0, 0, 0, 0, 0],
      [0, 0, 0, 0, 0, 0, 0, 0, 0],
      [0, 0, 0, 0, 0, 0, 0, 0, 0],
      [0, 0, 0, 0, 0, 0, 0, 0, 0]]"

text \<open>The rows of this table list eight entries; the ninth is zero-initialised.\<close>

definition comparison_operators :: "bool list list" where
  "comparison_operators = map (\<lambda>row. map (\<lambda>n. n = (1 :: nat)) row @ [False])
     [[1, 1, 0, 0, 0, 0, 1, 0],
      [1, 1, 0, 0, 0, 0, 0, 0],
      [0, 0, 1, 0, 0, 0, 0, 0],
      [0, 0, 0, 0, 0, 0, 0, 0],
      [0, 0, 0, 0, 0, 0, 0, 0],
      [0, 0, 0, 0, 0, 0, 0, 0],
      [1, 0, 0, 0, 0, 0, 1, 0],
      [0, 0, 0, 0, 0, 0, 0, 0],
      [0, 0, 0, 0, 0, 0, 0, 0]]"

definition equality_operators :: "bool list list" where
  "equality_operators = map (map (\<lambda>n. n = (1 :: nat)))
     [[1, 1, 0, 0, 0, 0, 1, 1, 0],
      [1, 1, 0, 0, 0, 0, 0, 1, 0],
      [0, 0, 1, 0, 0, 0, 0, 1, 0],
      [0, 0, 0, 1, 0, 0, 0, 1, 0],
      [0, 0, 0, 0, 0, 0, 0, 1, 0],
      [0, 0, 0, 0, 0, 0, 0, 1, 0],
      [1, 0, 0, 0, 0, 0, 1, 1, 0],
      [1, 1, 1, 1, 1, 1, 1, 1, 1],
      [0, 0, 0, 0, 0, 0, 0, 1, 0]]"

definition flex_type_has_binary_op :: "flex_type_enum \<Rightarrow> flex_type_enum \<Rightarrow> char \<Rightarrow> bool" where
  "flex_type_has_binary_op left right op =
     (if op = CHR ''+'' then table_at plus_operator left right
      else if op \<in> set [CHR ''-'', CHR ''*'', CHR ''/'', CHR ''%'']
      then table_at other_numeric_operators left right
      else if op \<in> set [CHR ''<'', CHR ''>''] then table_at comparison_operators left right
      else if op = CHR ''='' then table_at equality_operators left right
      else False)"

fun flex_type_enum_to_name :: "flex_type_enum \<Rightarrow> string" where
  "flex_type_enum_to_name INTEGER = ''integer''"
| "flex_type_enum_to_name DATETIME = ''datetime''"
| "flex_type_enum_to_name FLOAT = ''float''"
| "flex_type_enum_to_name STRING = ''string''"
| "flex_type_enum_to_name VECTOR = ''array''"
| "flex_type_enum_to_name LIST = ''list''"
| "flex_type_enum_to_name DICT = ''dictionary''"
| "flex_type_enum_to_name IMAGE = ''image''"
| "flex_type_enum_to_name UNDEFINED = ''NoneType''"

text \<open>\<^const>\<open>None\<close> is the thrown \<open>Invalid flexible type name\<close>.\<close>

definition flex_type_enum_from_name :: "string \<Rightarrow> flex_type_enum option" where
  "flex_type_enum_from_name name =
     map_of [(''integer'', INTEGER), (''datetime'', DATETIME), (''float'', FLOAT),
             (''string'', STRING), (''array'', VECTOR), (''recursive'', LIST),
             (''dictionary'', DICT), (''image'', IMAGE), (''undefined'', UNDEFINED)] name"

section \<open>Values\<close>

text \<open>\<open>image_type\<close>; the format is the underlying \<open>size_t\<close> of the enumeration \<open>Format\<close>.\<close>

record image_type =
  m_image_data :: "byte list"
  m_height :: u64
  m_width :: u64
  m_channels :: u64
  m_image_data_size :: u64
  m_version :: byte
  m_format :: u64

definition image_new :: image_type where
  "image_new = \<lparr>m_image_data = [], m_height = 0, m_width = 0, m_channels = 0,
     m_image_data_size = 0, m_version = 0, m_format = 3\<rparr>"

datatype flexible_type =
    FlexInt u64
  | FlexFloat u64
  | FlexString cstring
  | FlexVec "u64 list"
  | FlexList "flexible_type list"
  | FlexDict "(flexible_type \<times> flexible_type) list"
  | FlexDateTime "56 word" "8 word"
  | FlexUndefined
  | FlexImage image_type

fun get_type :: "flexible_type \<Rightarrow> flex_type_enum" where
  "get_type (FlexInt _) = INTEGER"
| "get_type (FlexFloat _) = FLOAT"
| "get_type (FlexString _) = STRING"
| "get_type (FlexVec _) = VECTOR"
| "get_type (FlexList _) = LIST"
| "get_type (FlexDict _) = DICT"
| "get_type (FlexDateTime _ _) = DATETIME"
| "get_type FlexUndefined = UNDEFINED"
| "get_type (FlexImage _) = IMAGE"

text \<open>The value right after \<open>reset(target_type)\<close>, and the default constructed value.\<close>

fun flex_reset :: "flex_type_enum \<Rightarrow> flexible_type" where
  "flex_reset INTEGER = FlexInt 0"
| "flex_reset FLOAT = FlexFloat 0"
| "flex_reset STRING = FlexString []"
| "flex_reset VECTOR = FlexVec []"
| "flex_reset LIST = FlexList []"
| "flex_reset DICT = FlexDict []"
| "flex_reset DATETIME = FlexDateTime 0 0"
| "flex_reset UNDEFINED = FlexUndefined"
| "flex_reset IMAGE = FlexImage image_new"

definition flex_new :: flexible_type where
  "flex_new = FlexInt 0"

fun get_flex_int :: "flexible_type \<Rightarrow> u64 option" where
  "get_flex_int (FlexInt v) = Some v"
| "get_flex_int (FlexFloat v) = Some v"
| "get_flex_int _ = None"

fun get_flex_float :: "flexible_type \<Rightarrow> u64 option" where
  "get_flex_float (FlexInt v) = Some v"
| "get_flex_float (FlexFloat v) = Some v"
| "get_flex_float _ = None"

text \<open>\<open>mutable_get<flex_int>() = v\<close>: the word changes, the type stays.\<close>

fun set_flex_int :: "flexible_type \<Rightarrow> u64 \<Rightarrow> flexible_type option" where
  "set_flex_int (FlexInt _) v = Some (FlexInt v)"
| "set_flex_int (FlexFloat _) v = Some (FlexFloat v)"
| "set_flex_int _ v = None"

fun get_flex_string :: "flexible_type \<Rightarrow> cstring option" where
  "get_flex_string (FlexString s) = Some s"
| "get_flex_string _ = None"

fun get_flex_vec :: "flexible_type \<Rightarrow> u64 list option" where
  "get_flex_vec (FlexVec v) = Some v"
| "get_flex_vec _ = None"

section \<open>Container operations\<close>

text \<open>\<open>std::vector::resize\<close> with the value new elements get.\<close>

definition resize_to :: "'a \<Rightarrow> nat \<Rightarrow> 'a list \<Rightarrow> 'a list" where
  "resize_to x n xs = take n xs @ replicate (n - length xs) x"

fun flex_size :: "flexible_type \<Rightarrow> nat" where
  "flex_size (FlexVec v) = length v"
| "flex_size (FlexList v) = length v"
| "flex_size (FlexDict v) = length v"
| "flex_size _ = 1"

fun flex_resize :: "flexible_type \<Rightarrow> nat \<Rightarrow> flexible_type option" where
  "flex_resize (FlexVec v) s = Some (FlexVec (resize_to 0 s v))"
| "flex_resize (FlexList v) s = Some (FlexList (resize_to flex_new s v))"
| "flex_resize _ s = None"

fun flex_clear :: "flexible_type \<Rightarrow> flexible_type option" where
  "flex_clear (FlexVec v) = Some (flex_reset VECTOR)"
| "flex_clear (FlexList v) = Some (flex_reset LIST)"
| "flex_clear (FlexDict v) = Some (flex_reset DICT)"
| "flex_clear _ = None"

text \<open>\<open>push_back(flex_float)\<close>.\<close>

fun flex_push_back_float :: "flexible_type \<Rightarrow> u64 \<Rightarrow> flexible_type option" where
  "flex_push_back_float (FlexVec v) i = Some (FlexVec (v @ [i]))"
| "flex_push_back_float (FlexList v) i = Some (FlexList (v @ [FlexFloat i]))"
| "flex_push_back_float _ i = None"

text \<open>\<open>operator[]\<close>; an index outside the vector is undefined behaviour.\<close>

fun flex_index :: "flexible_type \<Rightarrow> nat \<Rightarrow> u64 option" where
  "flex_index (FlexVec v) i = (if i < length v then Some (v ! i) else None)"
| "flex_index (FlexFloat v) i = (if i = 0 then Some v else None)"
| "flex_index _ i = None"

fun flex_array_at :: "flexible_type \<Rightarrow> nat \<Rightarrow> flexible_type option" where
  "flex_array_at (FlexList v) i = (if i < length v then Some (v ! i) else None)"
| "flex_array_at _ i = None"

section \<open>Serialization\<close>

definition image_save :: "oarchive \<Rightarrow> image_type \<Rightarrow> oarchive" where
  "image_save oarc img =
     (let oarc = direct_assign oarc (m_version img);
          oarc = direct_assign oarc (m_height img);
          oarc = direct_assign oarc (m_width img);
          oarc = direct_assign oarc (m_channels img);
          oarc = direct_assign oarc (m_format img);
          oarc = direct_assign oarc (m_image_data_size img)
      in if m_image_data_size img > 0
         then owrite oarc (take (unat (m_image_data_size img)) (m_image_data img)) else oarc)"

definition image_load :: "iarchive \<Rightarrow> (image_type \<times> iarchive) option" where
  "image_load iarc = do {
     (version :: byte, iarc) \<leftarrow> read_into iarc;
     (height :: u64, iarc) \<leftarrow> read_into iarc;
     (width :: u64, iarc) \<leftarrow> read_into iarc;
     (channels :: u64, iarc) \<leftarrow> read_into iarc;
     (fmt :: u64, iarc) \<leftarrow> read_into iarc;
     (sz :: u64, iarc) \<leftarrow> read_into iarc;
     (dat, iarc) \<leftarrow> (if sz > 0 then iread iarc (unat sz) else Some ([], iarc));
     Some (\<lparr>m_image_data = dat, m_height = height, m_width = width, m_channels = channels,
             m_image_data_size = sz, m_version = version, m_format = fmt\<rparr>, iarc) }"

text \<open>The 64-bit representation of a \<open>flex_date_time\<close>: 56 bits of time stamp below 8 bits of time zone.\<close>

definition datetime_bits :: "56 word \<Rightarrow> 8 word \<Rightarrow> u64" where
  "datetime_bits t z = ucast t OR push_bit 56 (ucast z)"

definition datetime_of_bits :: "u64 \<Rightarrow> flexible_type" where
  "datetime_of_bits v = FlexDateTime (ucast v) (ucast (drop_bit 56 v))"

text \<open>
  The visitors \<open>serializer\<close> and \<open>deserializer\<close>, with the serialization of the values inside
  lists and dictionaries as an argument, and the recursive \<open>save\<close> and \<open>load\<close>.
\<close>

fun serializer :: "(oarchive \<Rightarrow> flexible_type \<Rightarrow> oarchive) \<Rightarrow> oarchive \<Rightarrow> flexible_type \<Rightarrow> oarchive" where
  "serializer save oarc (FlexInt v) = direct_assign oarc v"
| "serializer save oarc (FlexFloat v) = direct_assign oarc v"
| "serializer save oarc (FlexString s) = string_save oarc s"
| "serializer save oarc (FlexVec v) = vector_pod_save bytes_of oarc v"
| "serializer save oarc (FlexList v) = vector_save save oarc v"
| "serializer save oarc (FlexDict v) = vector_save (pair_save save save) oarc v"
| "serializer save oarc (FlexDateTime t z) = direct_assign oarc (datetime_bits t z)"
| "serializer save oarc FlexUndefined = oarc"
| "serializer save oarc (FlexImage img) = image_save oarc img"

fun deserializer ::
  "(iarchive \<Rightarrow> (flexible_type \<times> iarchive) option) \<Rightarrow> flex_type_enum \<Rightarrow> iarchive \<Rightarrow>
     (flexible_type \<times> iarchive) option"
where
  "deserializer load INTEGER iarc = do { (v, iarc) \<leftarrow> read_into iarc; Some (FlexInt v, iarc) }"
| "deserializer load FLOAT iarc = do { (v, iarc) \<leftarrow> read_into iarc; Some (FlexFloat v, iarc) }"
| "deserializer load STRING iarc = do { (s, iarc) \<leftarrow> string_load iarc; Some (FlexString s, iarc) }"
| "deserializer load VECTOR iarc = do { (v, iarc) \<leftarrow> vector_pod_load le_word 8 iarc; Some (FlexVec v, iarc) }"
| "deserializer load LIST iarc = do { (v, iarc) \<leftarrow> vector_load load iarc; Some (FlexList v, iarc) }"
| "deserializer load DICT iarc = do { (v, iarc) \<leftarrow> vector_load (pair_load load load) iarc; Some (FlexDict v, iarc) }"
| "deserializer load DATETIME iarc = do { (v, iarc) \<leftarrow> read_into iarc; Some (datetime_of_bits v, iarc) }"
| "deserializer load UNDEFINED iarc = Some (FlexUndefined, iarc)"
| "deserializer load IMAGE iarc = do { (v, iarc) \<leftarrow> image_load iarc; Some (FlexImage v, iarc) }"

lemma vector_save_cong [fundef_cong]:
  assumes "vec = vec'" "oarc = oarc'" "\<And>oarc x. x \<in> set vec' \<Longrightarrow> save oarc x = save' oarc x"
  shows "vector_save save oarc vec = vector_save save' oarc' vec'"
  unfolding vector_save_def using assms by (auto intro!: foldl_cong)

lemma pair_save_cong [fundef_cong]:
  assumes "s = s'" "oarc = oarc'" "\<And>oarc. save1 oarc (fst s') = save1' oarc (fst s')"
    "\<And>oarc. save2 oarc (snd s') = save2' oarc (snd s')"
  shows "pair_save save1 save2 oarc s = pair_save save1' save2' oarc' s'"
  using assms by (simp add: pair_save_def)

lemma size_flex_list: "x \<in> set xs \<Longrightarrow> size x < size (FlexList xs)"
  by (induction xs) auto

lemma size_flex_dict: "(a, b) \<in> set xs \<Longrightarrow> size a < size (FlexDict xs) \<and> size b < size (FlexDict xs)"
  by (induction xs) auto

lemma serializer_cong [fundef_cong]:
  assumes "oarc = oarc'" "v = v'" "\<And>oarc x. size x < size v' \<Longrightarrow> save oarc x = save' oarc x"
  shows "serializer save oarc v = serializer save' oarc' v'"
proof (cases v')
  case (FlexList xs)
  then show ?thesis using assms size_flex_list[of _ xs] by (auto intro!: vector_save_cong)
next
  case (FlexDict xs)
  then show ?thesis using assms size_flex_dict[of _ _ xs]
    by (auto intro!: vector_save_cong pair_save_cong)
qed (use assms in auto)

text \<open>\<open>flexible_type::save\<close> and \<open>flexible_type::load\<close>.\<close>

fun flex_save :: "oarchive \<Rightarrow> flexible_type \<Rightarrow> oarchive" where
  "flex_save oarc v = serializer flex_save (direct_assign oarc (128 + flex_type_code (get_type v))) v"

lemma case_prod_mono:
  assumes "\<And>a b. mono_option (\<lambda>f. F f a b)"
  shows "mono_option (\<lambda>f. case y of (a, b) \<Rightarrow> F f a b)"
  using assms by (cases y) simp

lemma load_n_mono [partial_function_mono]:
  assumes "\<And>iarc. mono_option (\<lambda>f. F f iarc)"
  shows "mono_option (\<lambda>f. load_n (F f) n iarc)"
proof (induction n arbitrary: iarc)
  case (Suc n)
  show ?case unfolding load_n.simps by (intro partial_function_mono case_prod_mono assms Suc)
qed (simp add: option.const_mono)

lemma vector_load_mono [partial_function_mono]:
  assumes "\<And>iarc. mono_option (\<lambda>f. F f iarc)"
  shows "mono_option (\<lambda>f. vector_load (F f) iarc)"
  unfolding vector_load_def by (intro partial_function_mono case_prod_mono assms)

lemma pair_load_mono [partial_function_mono]:
  assumes "\<And>iarc. mono_option (\<lambda>f. F f iarc)" "\<And>iarc. mono_option (\<lambda>f. G f iarc)"
  shows "mono_option (\<lambda>f. pair_load (F f) (G f) iarc)"
  unfolding pair_load_def by (intro partial_function_mono case_prod_mono assms)

lemma deserializer_mono [partial_function_mono]:
  assumes "\<And>iarc. mono_option (\<lambda>f. F f iarc)"
  shows "mono_option (\<lambda>f. deserializer (F f) t iarc)"
  by (cases t) (simp_all, (intro partial_function_mono case_prod_mono assms)+)

partial_function (option) flex_load :: "iarchive \<Rightarrow> (flexible_type \<times> iarchive) option" where
  "flex_load iarc = do {
     (c :: byte, iarc) \<leftarrow> read_into iarc;
     (c, iarc) \<leftarrow> (if c < 128
                   then do { (tag_value :: u32, iarc) \<leftarrow> read_into iarc; Some (c, iarc) }
                   else Some (c - 128, iarc));
     t \<leftarrow> flex_type_of_code c;
     deserializer flex_load t iarc }"

declare flex_load.simps [code]

section \<open>The serialized form\<close>

declare flex_save.simps [simp del]

definition flex_tag :: "flexible_type \<Rightarrow> byte" where
  "flex_tag v = 128 + flex_type_code (get_type v)"

definition image_wire :: "image_type \<Rightarrow> byte list" where
  "image_wire img = bytes_of (m_version img) @ bytes_of (m_height img) @ bytes_of (m_width img) @
     bytes_of (m_channels img) @ bytes_of (m_format img) @ bytes_of (m_image_data_size img) @
     take (unat (m_image_data_size img)) (m_image_data img)"

fun flex_payload :: "flexible_type \<Rightarrow> byte list" where
  "flex_payload (FlexInt v) = bytes_of v"
| "flex_payload (FlexFloat v) = bytes_of v"
| "flex_payload (FlexString s) = string_wire s"
| "flex_payload (FlexVec v) = bytes_of (of_nat (length v) :: u64) @ concat (map bytes_of v)"
| "flex_payload (FlexList v) =
     bytes_of (of_nat (length v) :: u64) @ concat (map (\<lambda>x. flex_tag x # flex_payload x) v)"
| "flex_payload (FlexDict v) =
     bytes_of (of_nat (length v) :: u64) @
       concat (map (\<lambda>(a, b). (flex_tag a # flex_payload a) @ (flex_tag b # flex_payload b)) v)"
| "flex_payload (FlexDateTime t z) = bytes_of (datetime_bits t z)"
| "flex_payload FlexUndefined = []"
| "flex_payload (FlexImage img) = image_wire img"

definition flex_wire :: "flexible_type \<Rightarrow> byte list" where
  "flex_wire v = flex_tag v # flex_payload v"

text \<open>The values a 64-bit program can hold: sizes fit in a word, image data has the stated size.\<close>

definition image_ok :: "image_type \<Rightarrow> bool" where
  "image_ok img \<longleftrightarrow> length (m_image_data img) = unat (m_image_data_size img)"

fun flex_ok :: "flexible_type \<Rightarrow> bool" where
  "flex_ok (FlexString s) \<longleftrightarrow> length s < 2 ^ 64"
| "flex_ok (FlexVec v) \<longleftrightarrow> length v < 2 ^ 64"
| "flex_ok (FlexList v) \<longleftrightarrow> length v < 2 ^ 64 \<and> list_all flex_ok v"
| "flex_ok (FlexDict v) \<longleftrightarrow> length v < 2 ^ 64 \<and> list_all (\<lambda>(a, b). flex_ok a \<and> flex_ok b) v"
| "flex_ok (FlexImage img) \<longleftrightarrow> image_ok img"
| "flex_ok _ \<longleftrightarrow> True"

lemma bytes_of_byte [simp]: "bytes_of (c :: byte) = [c]"
  by (simp add: bytes_of_def)

lemma flex_type_of_code [simp]: "flex_type_of_code (flex_type_code t) = Some t"
  by (cases t) (simp_all add: flex_type_of_code_def all_flex_types_def)

lemma flex_tag_code: "\<not> flex_tag v < 128" "flex_tag v - 128 = flex_type_code (get_type v)"
  by (cases v; simp add: flex_tag_def)+

lemma datetime_of_bits: "datetime_of_bits (datetime_bits t z) = FlexDateTime t z"
proof -
  have "ucast (datetime_bits t z) = t"
    by (rule bit_word_eqI) (auto simp: datetime_bits_def bit_simps)
  moreover have "ucast (drop_bit 56 (datetime_bits t z)) = z"
    by (rule bit_word_eqI) (auto simp: datetime_bits_def bit_simps dest: bit_imp_le_length)
  ultimately show ?thesis by (simp add: datetime_of_bits_def)
qed

lemma image_save_data:
  assumes "o_wf oarc"
  shows "o_wf (image_save oarc img)" "o_data (image_save oarc img) = o_data oarc @ image_wire img"
  using assms by (simp_all add: image_save_def image_wire_def archive_simps Let_def word_gt_0)

lemma foldl_save_on:
  assumes "\<And>x oarc. x \<in> set xs \<Longrightarrow> o_wf oarc \<Longrightarrow> o_wf (save oarc x) \<and> o_data (save oarc x) = o_data oarc @ wire x"
  shows "o_wf oarc \<Longrightarrow> o_wf (foldl save oarc xs) \<and> o_data (foldl save oarc xs) = o_data oarc @ concat (map wire xs)"
  using assms by (induction xs arbitrary: oarc) auto

lemma flex_save_data:
  "o_wf oarc \<Longrightarrow> o_wf (flex_save oarc v) \<and> o_data (flex_save oarc v) = o_data oarc @ flex_wire v"
proof (induction oarc v rule: flex_save.induct)
  case (1 oarc v)
  let ?o = "direct_assign oarc (128 + flex_type_code (get_type v))"
  have o: "o_wf ?o" "o_data ?o = o_data oarc @ [flex_tag v]" using 1(2)
    by (simp_all add: archive_simps flex_tag_def)
  have "o_wf (serializer flex_save ?o v) \<and> o_data (serializer flex_save ?o v) = o_data ?o @ flex_payload v"
  proof (cases v)
    case (FlexList xs)
    have "o_wf oarc \<Longrightarrow> o_wf (flex_save oarc x) \<and> o_data (flex_save oarc x) = o_data oarc @ flex_wire x"
      if "x \<in> set xs" for x oarc using 1(1) that size_flex_list[of x xs] FlexList by simp
    then show ?thesis using FlexList o
      foldl_save_on[of xs flex_save flex_wire "direct_assign ?o (of_nat (length xs) :: u64)"]
      by (auto simp: vector_save_def archive_simps flex_wire_def cong: map_cong)
  next
    case (FlexDict xs)
    have "o_wf oarc \<Longrightarrow> o_wf (pair_save flex_save flex_save oarc x) \<and>
      o_data (pair_save flex_save flex_save oarc x) = o_data oarc @ (case x of (a, b) \<Rightarrow> flex_wire a @ flex_wire b)"
      if "x \<in> set xs" for x oarc using 1(1) that size_flex_dict[of "fst x" "snd x" xs] FlexDict
      by (auto simp: pair_save_def split: prod.splits)
    then show ?thesis using FlexDict o
      foldl_save_on[of xs "pair_save flex_save flex_save" "\<lambda>(a, b). flex_wire a @ flex_wire b"
         "direct_assign ?o (of_nat (length xs) :: u64)"]
      by (auto simp: vector_save_def archive_simps flex_wire_def cong: map_cong)
  qed (use o image_save_data in \<open>auto simp: archive_simps string_codec.save_wf string_codec.save_data
          doubles_codec.save_wf doubles_codec.save_data\<close>)
  then show ?case using o by (simp add: flex_save.simps[of oarc v] flex_wire_def)
qed

lemma image_load_wire:
  assumes wf: "i_wf iarc" and ok: "image_ok img" and rest: "i_rest iarc = image_wire img @ r"
  shows "image_load iarc = Some (img, i_adv (length (image_wire img)) iarc)"
proof -
  let ?d = "m_image_data img"
  have d: "take (unat (m_image_data_size img)) ?d = ?d" using ok by (simp add: image_ok_def)
  have r0: "i_rest iarc = bytes_of (m_version img) @ bytes_of (m_height img) @ bytes_of (m_width img) @
     bytes_of (m_channels img) @ bytes_of (m_format img) @ bytes_of (m_image_data_size img) @ ?d @ r"
    using rest by (simp add: image_wire_def d)
  note a1 = i_adv_wf[OF wf r0]
  note a2 = i_adv_wf[OF a1]
  note a3 = i_adv_wf[OF a2]
  note a4 = i_adv_wf[OF a3]
  note a5 = i_adv_wf[OF a4]
  note a6 = i_adv_wf[OF a5]
  note reads = read_into_app[OF wf r0] read_into_app[OF a1] read_into_app[OF a2] read_into_app[OF a3]
    read_into_app[OF a4] read_into_app[OF a5] iread_app[OF a6]
  have l: "unat (m_image_data_size img) = length ?d" using ok by (simp add: image_ok_def)
  show ?thesis
  proof (cases "m_image_data_size img = 0")
    case True
    then have "?d = []" using ok by (simp add: image_ok_def)
    then show ?thesis using reads True by (simp add: image_load_def image_wire_def)
  next
    case False
    then show ?thesis using reads by (simp add: image_load_def image_wire_def l word_gt_0)
  qed
qed

interpretation image_codec: codec image_save image_load image_wire image_ok
  by unfold_locales (rule image_save_data image_load_wire; assumption)+

lemma flex_load_step:
  assumes "i_wf iarc" and "i_rest iarc = flex_wire v @ r"
  shows "flex_load iarc = deserializer flex_load (get_type v) (i_adv 1 iarc)"
    and "i_wf (i_adv 1 iarc)" and "i_rest (i_adv 1 iarc) = flex_payload v @ r"
proof -
  have rest: "i_rest iarc = bytes_of (flex_tag v) @ (flex_payload v @ r)"
    using assms(2) by (simp add: flex_wire_def)
  show "i_wf (i_adv 1 iarc)" and "i_rest (i_adv 1 iarc) = flex_payload v @ r"
    using i_adv_wf[OF assms(1) rest] by simp_all
  show "flex_load iarc = deserializer flex_load (get_type v) (i_adv 1 iarc)"
    using read_into_app[OF assms(1) rest] flex_tag_code[of v]
    by (simp add: flex_load.simps[of iarc])
qed

lemma deserializer_payload:
  assumes sub: "codec flex_save flex_load flex_wire (\<lambda>x. flex_ok x \<and> size x < size v)"
    and ok: "flex_ok v" and wf: "i_wf iarc" and rest: "i_rest iarc = flex_payload v @ r"
  shows "deserializer flex_load (get_type v) iarc = Some (v, i_adv (length (flex_payload v)) iarc)"
proof (cases v)
  case (FlexList xs)
  note codec.load_wire[OF codec.vector_codec[OF sub] wf, of xs r]
  then show ?thesis using FlexList ok rest size_flex_list[of _ xs]
    by (simp add: list_all_iff flex_wire_def cong: map_cong)
next
  case (FlexDict xs)
  note codec.load_wire[OF codec.vector_codec[OF pair_codec[OF sub sub]] wf, of xs r]
  moreover have "\<forall>x\<in>set xs. size (fst x) < size v \<and> size (snd x) < size v"
    using size_flex_dict[of _ _ xs] FlexDict by fastforce
  ultimately show ?thesis using FlexDict ok rest
    by (simp add: list_all_iff flex_wire_def case_prod_beta cong: map_cong)
next
  case (FlexInt x)
  then show ?thesis using u64_codec.load_wire[OF wf _, of x r] rest by simp
next
  case (FlexFloat x)
  then show ?thesis using u64_codec.load_wire[OF wf _, of x r] rest by simp
next
  case (FlexString s)
  then show ?thesis using string_codec.load_wire[OF wf, of s r] rest ok by simp
next
  case (FlexVec xs)
  then show ?thesis using doubles_codec.load_wire[OF wf, of xs r] rest ok by simp
next
  case (FlexDateTime t z)
  then show ?thesis
    using u64_codec.load_wire[OF wf _, of "datetime_bits t z" r] rest by (simp add: datetime_of_bits)
next
  case (FlexImage img)
  then show ?thesis using image_codec.load_wire[OF wf, of img r] rest ok by simp
qed simp

lemma flex_codec_size: "codec flex_save flex_load flex_wire (\<lambda>x. flex_ok x \<and> size x < n)"
proof (induction n)
  case 0
  show ?case by unfold_locales (simp_all add: flex_save_data)
next
  case (Suc n)
  show ?case
  proof
    fix iarc :: iarchive and v r
    assume wf: "i_wf iarc" and ok: "flex_ok v \<and> size v < Suc n" and rest: "i_rest iarc = flex_wire v @ r"
    have "codec flex_save flex_load flex_wire (\<lambda>x. flex_ok x \<and> size x < size v)"
      using Suc ok by (auto simp: codec_def)
    from deserializer_payload[OF this _ flex_load_step(2,3)[OF wf rest]] ok
    show "flex_load iarc = Some (v, i_adv (length (flex_wire v)) iarc)"
      by (simp add: flex_load_step(1)[OF wf rest] flex_wire_def)
  qed (simp_all add: flex_save_data)
qed

interpretation flex_codec: codec flex_save flex_load flex_wire flex_ok
proof
  fix iarc :: iarchive and v r
  assume "i_wf iarc" "flex_ok v" "i_rest iarc = flex_wire v @ r"
  then show "flex_load iarc = Some (v, i_adv (length (flex_wire v)) iarc)"
    using codec.load_wire[OF flex_codec_size[of "Suc (size v)"]] by simp
qed (simp_all add: flex_save_data)

interpretation flex_vector_codec: codec "vector_save flex_save" "vector_load flex_load"
  "\<lambda>xs. bytes_of (of_nat (length xs) :: u64) @ concat (map flex_wire xs)"
  "\<lambda>xs. length xs < 2 ^ 64 \<and> list_all flex_ok xs"
  by (rule flex_codec.vector_codec)

text \<open>The payload of a value whose type is known is read back by the deserializer of that type.\<close>

lemma deserializer_wire:
  assumes "flex_ok v" "i_wf iarc" "i_rest iarc = flex_payload v @ r"
  shows "deserializer flex_load (get_type v) iarc = Some (v, i_adv (length (flex_payload v)) iarc)"
  using deserializer_payload[OF flex_codec_size assms] .

lemma serializer_data:
  assumes "o_wf oarc"
  shows "o_wf (serializer flex_save oarc v)" "o_data (serializer flex_save oarc v) = o_data oarc @ flex_payload v"
proof -
  have "o_wf (serializer flex_save oarc v) \<and> o_data (serializer flex_save oarc v) = o_data oarc @ flex_payload v"
  proof (cases v)
    case (FlexList xs)
    then show ?thesis using flex_vector_codec.save_wf[OF assms] flex_vector_codec.save_data[OF assms]
      by (simp add: flex_wire_def[abs_def])
  next
    case (FlexDict xs)
    note p = codec.vector_codec[OF pair_codec[OF flex_codec.codec_axioms flex_codec.codec_axioms]]
    then show ?thesis using FlexDict codec.save_wf[OF p assms] codec.save_data[OF p assms]
      by (simp add: flex_wire_def[abs_def])
  qed (use assms image_save_data in \<open>auto simp: archive_simps string_codec.save_wf string_codec.save_data
          doubles_codec.save_wf doubles_codec.save_data\<close>)
  then show "o_wf (serializer flex_save oarc v)"
    "o_data (serializer flex_save oarc v) = o_data oarc @ flex_payload v" by simp_all
qed

section \<open>Properties\<close>

text \<open>C10. Saving a \<open>flexible_type\<close> of any type, nested lists and dictionaries included, appends bytes from
  which loading returns the same value, and loading consumes exactly these bytes.\<close>

theorem flexible_type_roundtrip:
  assumes "flex_ok v" "o_wf oarc"
  shows "\<exists>bs. o_data (flex_save oarc v) = o_data oarc @ bs \<and>
     (\<forall>iarc r. i_wf iarc \<longrightarrow> i_rest iarc = bs @ r \<longrightarrow> flex_load iarc = Some (v, i_adv (length bs) iarc))"
  using flex_codec.save_data[OF assms(2)] flex_codec.load_wire[OF _ assms(1)] by blast

theorem flexible_type_roundtrip_witness:
  defines "v \<equiv> FlexList [FlexInt 5, FlexDict [(FlexString [65, 66], FlexUndefined)], FlexVec [0]]"
  shows "\<exists>bs. o_data (flex_save oarchive_new v) = o_data oarchive_new @ bs \<and>
     (\<forall>iarc r. i_wf iarc \<longrightarrow> i_rest iarc = bs @ r \<longrightarrow> flex_load iarc = Some (v, i_adv (length bs) iarc))"
  by (rule flexible_type_roundtrip) (simp_all add: v_def)

text \<open>The printable names of the types are not inverted by \<open>flex_type_enum_from_name\<close>: exactly the
  types \<open>LIST\<close> and \<open>UNDEFINED\<close> are not read back from their names.\<close>

lemma flex_type_names:
  "flex_type_enum_from_name (flex_type_enum_to_name t) = (if t = LIST \<or> t = UNDEFINED then None else Some t)"
  by (cases t) (simp_all add: flex_type_enum_from_name_def)

end
