(* ===== verification/Dense_Bitset.thy ===== *)
theory Dense_Bitset
  imports Archive
begin

text \<open>
  \<open>dense_bitset\<close> and \<open>fixed_dense_bitset<len>\<close> of \<open>util/dense_bitset.hpp\<close>: arrays of 64-bit
  words, with the bit \<open>b\<close> in word \<open>b / 64\<close> at position \<open>b & 63\<close>.

  Both classes run the same code on their word array, so the code is modelled once on a list
  of words (the names starting with \<open>arr\<close>) and each class wraps it. An access to a word outside
  the array is undefined behaviour and is the value \<^const>\<open>None\<close>. The atomic operations act in one
  step, so their sequential effect is that of the \<open>unsync\<close> versions.
\<close>

section \<open>Code on the word array\<close>

definition bit_to_pos :: "nat \<Rightarrow> nat \<times> nat" where
  "bit_to_pos b = (b div (8 * 8), b AND (8 * 8 - 1))"

definition arr_word :: "u64 list \<Rightarrow> nat \<Rightarrow> u64 option" where
  "arr_word arr arrpos = (if arrpos < length arr then Some (arr ! arrpos) else None)"

definition arr_get :: "u64 list \<Rightarrow> nat \<Rightarrow> bool option" where
  "arr_get arr b = (let (arrpos, bitpos) = bit_to_pos b in do {
     w \<leftarrow> arr_word arr arrpos;
     Some (w AND push_bit bitpos 1 \<noteq> 0) })"

text \<open>Each returns the old value of the bit and the new array.\<close>

definition arr_set_bit :: "u64 list \<Rightarrow> nat \<Rightarrow> (bool \<times> u64 list) option" where
  "arr_set_bit arr b = (let (arrpos, bitpos) = bit_to_pos b; msk = push_bit bitpos 1 in do {
     w \<leftarrow> arr_word arr arrpos;
     Some (w AND msk \<noteq> 0, arr[arrpos := w OR msk]) })"

definition arr_xor_bit :: "u64 list \<Rightarrow> nat \<Rightarrow> (bool \<times> u64 list) option" where
  "arr_xor_bit arr b = (let (arrpos, bitpos) = bit_to_pos b; msk = push_bit bitpos 1 in do {
     w \<leftarrow> arr_word arr arrpos;
     Some (w AND msk \<noteq> 0, arr[arrpos := w XOR msk]) })"

definition arr_clear_bit :: "u64 list \<Rightarrow> nat \<Rightarrow> (bool \<times> u64 list) option" where
  "arr_clear_bit arr b =
     (let (arrpos, bitpos) = bit_to_pos b; test_mask = push_bit bitpos 1; clear_mask = NOT test_mask in do {
     w \<leftarrow> arr_word arr arrpos;
     Some (w AND test_mask \<noteq> 0, arr[arrpos := w AND clear_mask]) })"

definition arr_set :: "u64 list \<Rightarrow> nat \<Rightarrow> bool \<Rightarrow> (bool \<times> u64 list) option" where
  "arr_set arr b v = (if v then arr_set_bit arr b else arr_clear_bit arr b)"

definition arr_containing_word :: "u64 list \<Rightarrow> nat \<Rightarrow> u64 option" where
  "arr_containing_word arr b = (let (arrpos, bitpos) = bit_to_pos b in arr_word arr arrpos)"

definition arr_clear_word :: "u64 list \<Rightarrow> nat \<Rightarrow> (u64 \<times> u64 list) option" where
  "arr_clear_word arr b = (let (arrpos, bitpos) = bit_to_pos b in do {
     w \<leftarrow> arr_word arr arrpos;
     Some (w, arr[arrpos := 0]) })"

definition arr_empty :: "u64 list \<Rightarrow> bool" where
  "arr_empty arr = list_all (\<lambda>w. w = 0) arr"

text \<open>\<open>__builtin_ctzl\<close> and \<open>__builtin_popcountl\<close>.\<close>

definition ctzl :: "u64 \<Rightarrow> nat" where
  "ctzl x = length (takeWhile (\<lambda>i. \<not> bit x i) [0..<64])"

definition popcountl :: "u64 \<Rightarrow> nat" where
  "popcountl w = length (filter (bit w) [0..<64])"

definition first_bit_in_block :: "u64 \<Rightarrow> nat" where
  "first_bit_in_block block = (if block = 0 then 0 else ctzl block)"

definition next_bit_in_block :: "nat \<Rightarrow> u64 \<Rightarrow> nat" where
  "next_bit_in_block b block =
     (let belowselectedbit = - 1 - ((push_bit b 1 - 1) OR push_bit b 1);
          x = block AND belowselectedbit
      in if x = 0 then 0 else ctzl x)"

text \<open>The scan over the words from index \<open>i\<close> on, for the first word that is not zero.\<close>

fun first_bit_from :: "nat \<Rightarrow> u64 list \<Rightarrow> nat option" where
  "first_bit_from i [] = None"
| "first_bit_from i (w # ws) =
     (if w \<noteq> 0 then Some (i * (8 * 8) + first_bit_in_block w) else first_bit_from (Suc i) ws)"

definition arr_first_bit :: "u64 list \<Rightarrow> nat option" where
  "arr_first_bit arr = first_bit_from 0 arr"

definition arr_first_zero_bit :: "u64 list \<Rightarrow> nat option" where
  "arr_first_zero_bit arr = first_bit_from 0 (map NOT arr)"

text \<open>\<open>Some None\<close> is the return value false.\<close>

definition arr_next_bit :: "u64 list \<Rightarrow> nat \<Rightarrow> nat option option" where
  "arr_next_bit arr b = (let (arrpos, bitpos) = bit_to_pos b in do {
     w \<leftarrow> arr_word arr arrpos;
     let bitpos = next_bit_in_block bitpos w
     in Some (if bitpos \<noteq> 0 then Some (arrpos * (8 * 8) + bitpos)
              else first_bit_from (arrpos + 1) (drop (arrpos + 1) arr)) })"

definition arr_popcount :: "u64 list \<Rightarrow> nat" where
  "arr_popcount arr = foldl (\<lambda>ret w. ret + popcountl w) 0 arr"

text \<open>The iteration \<open>for (auto t: bitset)\<close> from the position \<open>pos\<close> on: the positions visited.\<close>

partial_function (option) arr_iterate_from :: "u64 list \<Rightarrow> nat option \<Rightarrow> nat list option" where
  "arr_iterate_from arr pos =
     (case pos of
        None \<Rightarrow> Some []
      | Some b \<Rightarrow> do {
          pos' \<leftarrow> arr_next_bit arr b;
          bs \<leftarrow> arr_iterate_from arr pos';
          Some (b # bs) })"

declare arr_iterate_from.simps [code]

definition arr_iterate :: "u64 list \<Rightarrow> nat list option" where
  "arr_iterate arr = arr_iterate_from arr (arr_first_bit arr)"

definition arr_words :: "nat \<Rightarrow> nat" where
  "arr_words n = n div (8 * 8) + (if n mod (8 * 8) > 0 then 1 else 0)"

text \<open>\<open>fix_trailing_bits\<close> for a bitset of \<open>n\<close> bits.\<close>

definition arr_fix_trailing :: "nat \<Rightarrow> u64 list \<Rightarrow> u64 list" where
  "arr_fix_trailing n arr =
     (let lastbits = n mod (8 * 8)
      in if lastbits = 0 then arr
         else arr[length arr - 1 := arr ! (length arr - 1) AND (push_bit lastbits 1 - 1)])"

definition arr_fill :: "nat \<Rightarrow> u64 list \<Rightarrow> u64 list" where
  "arr_fill n arr = arr_fix_trailing n (map (\<lambda>_. - 1) arr)"

definition arr_invert :: "nat \<Rightarrow> u64 list \<Rightarrow> u64 list" where
  "arr_invert n arr = arr_fix_trailing n (map NOT arr)"

definition arr_and :: "u64 list \<Rightarrow> u64 list \<Rightarrow> u64 list" where
  "arr_and arr other = map2 (AND) arr other"

definition arr_or :: "u64 list \<Rightarrow> u64 list \<Rightarrow> u64 list" where
  "arr_or arr other = map2 (OR) arr other"

definition arr_minus :: "u64 list \<Rightarrow> u64 list \<Rightarrow> u64 list" where
  "arr_minus arr other = map2 (\<lambda>a b. a - (a AND b)) arr other"

section \<open>The set of bits\<close>

definition arr_bits :: "u64 list \<Rightarrow> nat set" where
  "arr_bits arr = {b. b div 64 < length arr \<and> bit (arr ! (b div 64)) (b mod 64)}"

lemma bit_to_pos_eq: "bit_to_pos b = (b div 64, b mod 64)"
proof -
  have "b AND 63 = take_bit 6 b" by (simp add: take_bit_eq_mask mask_numeral)
  then show ?thesis by (simp add: bit_to_pos_def take_bit_eq_mod)
qed

lemma and_mask_bit: "(w AND 2 ^ q \<noteq> 0) = bit w q" for w :: u64
  by (simp add: bit_iff_and_push_bit_not_eq_0)

lemma finite_arr_bits [simp]: "finite (arr_bits arr)"
proof (rule finite_subset)
  show "arr_bits arr \<subseteq> {..< 64 * length arr}" by (auto simp: arr_bits_def) 
qed simp

lemma arr_bits_less: "b \<in> arr_bits arr \<Longrightarrow> b < 64 * length arr"
  by (auto simp: arr_bits_def) 

lemma arr_get: "arr_get arr b = (if b div 64 < length arr then Some (b \<in> arr_bits arr) else None)"
  by (simp add: arr_get_def arr_word_def bit_to_pos_eq and_mask_bit arr_bits_def)

lemma bit_word_iff: "bit (2 ^ q :: u64) n \<longleftrightarrow> n = q \<and> n < 64"
  by (auto simp: bit_simps)

lemma update_bits:
  assumes "b div 64 < length arr" and "\<And>n. n < 64 \<Longrightarrow> bit w' n \<longleftrightarrow> (if n = b mod 64 then v else bit (arr ! (b div 64)) n)"
  shows "arr_bits (arr[b div 64 := w']) = (if v then insert b (arr_bits arr) else arr_bits arr - {b})"
proof -
  have "c \<in> arr_bits (arr[b div 64 := w']) \<longleftrightarrow> (if c = b then v else c \<in> arr_bits arr)" for c
  proof (cases "c div 64 = b div 64")
    case True
    have "c = b" if e: "c mod 64 = b mod 64"
    proof -
      have "c = 64 * (c div 64) + c mod 64" by simp
      also have "\<dots> = 64 * (b div 64) + b mod 64" by (simp only: True e)
      finally show ?thesis by simp
    qed
    then have "c \<noteq> b \<Longrightarrow> c mod 64 \<noteq> b mod 64" by blast
    moreover have "bit w' (c mod 64) \<longleftrightarrow> (if c mod 64 = b mod 64 then v else bit (arr ! (b div 64)) (c mod 64))"
      by (rule assms(2)) simp
    ultimately show ?thesis using True assms(1) by (cases "c = b") (simp_all add: arr_bits_def)
  qed (auto simp: arr_bits_def)
  then show ?thesis by (cases v) (simp_all only: set_eq_iff, simp_all)
qed

lemma arr_set_bit:
  assumes "b div 64 < length arr"
  shows "\<exists>arr'. arr_set_bit arr b = Some (b \<in> arr_bits arr, arr') \<and> length arr' = length arr \<and>
    arr_bits arr' = insert b (arr_bits arr)"
  using assms update_bits[OF assms, of "arr ! (b div 64) OR 2 ^ (b mod 64)" True]
  by (simp add: arr_set_bit_def arr_word_def bit_to_pos_eq and_mask_bit bit_or_iff bit_word_iff Let_def arr_bits_def[of arr])

lemma arr_clear_bit:
  assumes "b div 64 < length arr"
  shows "\<exists>arr'. arr_clear_bit arr b = Some (b \<in> arr_bits arr, arr') \<and> length arr' = length arr \<and>
    arr_bits arr' = arr_bits arr - {b}"
  using assms update_bits[OF assms, of "arr ! (b div 64) AND NOT (2 ^ (b mod 64))" False]
  by (auto simp add: arr_clear_bit_def arr_word_def bit_to_pos_eq and_mask_bit bit_and_iff bit_not_iff bit_word_iff Let_def arr_bits_def[of arr])

lemma arr_xor_bit:
  assumes "b div 64 < length arr"
  shows "\<exists>arr'. arr_xor_bit arr b = Some (b \<in> arr_bits arr, arr') \<and> length arr' = length arr \<and>
    arr_bits arr' = (if b \<in> arr_bits arr then arr_bits arr - {b} else insert b (arr_bits arr))"
  using assms update_bits[OF assms, of "arr ! (b div 64) XOR 2 ^ (b mod 64)" "b \<notin> arr_bits arr"]
  by (auto simp add: arr_xor_bit_def arr_word_def bit_to_pos_eq and_mask_bit bit_xor_iff bit_word_iff Let_def arr_bits_def[of arr])

lemma arr_bits_Nil [simp]: "arr_bits [] = {}"
  by (simp add: arr_bits_def)

lemma arr_bits_Cons: "arr_bits (w # ws) = {b. bit w b} \<union> (\<lambda>b. b + 64) ` arr_bits ws"
proof -
  have "b \<in> arr_bits (w # ws) \<longleftrightarrow> bit w b" if "b < 64" for b
    using that by (simp add: arr_bits_def)
  moreover have "b \<in> arr_bits (w # ws) \<longleftrightarrow> b - 64 \<in> arr_bits ws" if ge: "64 \<le> b" for b
  proof -
    obtain d where d: "b = d + 64" using le_Suc_ex[OF ge] by (auto simp: add.commute)
    have "(d + 64) div 64 = Suc (d div 64)" "(d + 64) mod 64 = d mod 64" by simp_all
    then show ?thesis unfolding d arr_bits_def mem_Collect_eq by simp
  qed
  moreover have "b < 64" if "bit w b" for b using that bit_imp_le_length by fastforce
  ultimately have "b \<in> arr_bits (w # ws) \<longleftrightarrow> bit w b \<or> (\<exists>c\<in>arr_bits ws. b = c + 64)" for b
    by (cases "b < 64") (auto simp: not_less intro: bexI[of _ "b - 64"])
  then show ?thesis by auto
qed

lemma arr_bits_drop: "c \<in> arr_bits (drop k arr) \<longleftrightarrow> c + 64 * k \<in> arr_bits arr"
  by (auto simp: arr_bits_def algebra_simps)

lemma takeWhile_upt_Least:
  assumes "P n" "n < m" "\<And>i. i < n \<Longrightarrow> \<not> P i"
  shows "length (takeWhile (\<lambda>i. \<not> P i) [0..<m]) = n"
proof -
  have "[0..<m] = [0..<n] @ [n..<m]" using assms(2) upt_add_eq_append[of 0 n "m - n"] by simp
  moreover have "[n..<m] = n # [Suc n..<m]" using assms(2) by (simp add: upt_conv_Cons)
  ultimately have e: "[0..<m] = [0..<n] @ n # [Suc n..<m]" by simp
  show ?thesis unfolding e using assms by (subst takeWhile_append2) auto
qed

lemma ctzl:
  assumes "x \<noteq> 0"
  shows "bit x (ctzl x)" and "\<And>i. bit x i \<Longrightarrow> ctzl x \<le> i"
proof -
  obtain k where k: "bit x k" using assms by (metis bit_eqI bit_0_eq bot_apply bot_bool_def)
  let ?n = "LEAST n. bit x n"
  have n: "bit x ?n" using k by (rule LeastI)
  have m: "?n \<le> i" if "bit x i" for i using that by (rule Least_le)
  have "?n < 64" using n bit_imp_le_length by fastforce
  then have "ctzl x = ?n" unfolding ctzl_def using n m not_less_Least
    by (intro takeWhile_upt_Least) auto
  then show "bit x (ctzl x)" "\<And>i. bit x i \<Longrightarrow> ctzl x \<le> i" using n m by simp_all
qed

lemma first_bit_in_block:
  assumes "x \<noteq> 0"
  shows "bit x (first_bit_in_block x)" and "\<And>i. bit x i \<Longrightarrow> first_bit_in_block x \<le> i"
  using ctzl[OF assms] assms by (simp_all add: first_bit_in_block_def)

lemma below_selected:
  assumes "b < 64"
  shows "bit (- 1 - ((2 ^ b - 1) OR 2 ^ b) :: u64) n \<longleftrightarrow> b < n \<and> n < 64"
proof -
  have "(2 ^ b - 1) OR 2 ^ b = (mask (Suc b) :: u64)"
    by (rule bit_word_eqI) (auto simp: bit_simps simp flip: mask_eq_exp_minus_1)
  moreover have "- 1 - mask (Suc b) = (NOT (mask (Suc b)) :: u64)"
    by (simp add: not_eq_complement)
  ultimately show ?thesis by (auto simp: bit_simps)
qed

lemma next_bit_in_block:
  assumes "b < 64"
  shows "next_bit_in_block b w = 0 \<Longrightarrow> bit w i \<Longrightarrow> i \<le> b"
    and "next_bit_in_block b w \<noteq> 0 \<Longrightarrow> bit w (next_bit_in_block b w) \<and> b < next_bit_in_block b w"
    and "next_bit_in_block b w \<noteq> 0 \<Longrightarrow> bit w i \<Longrightarrow> b < i \<Longrightarrow> next_bit_in_block b w \<le> i"
proof -
  let ?x = "w AND (- 1 - ((2 ^ b - 1) OR 2 ^ b))"
  have x: "bit ?x n \<longleftrightarrow> bit w n \<and> b < n" for n
    using below_selected[OF assms, of n] bit_imp_le_length[of w n] by (auto simp: bit_and_iff)
  have nb: "next_bit_in_block b w = (if ?x = 0 then 0 else ctzl ?x)"
    by (simp add: next_bit_in_block_def)
  have c: "bit w (ctzl ?x) \<and> b < ctzl ?x" if "?x \<noteq> 0" using ctzl(1)[OF that] x by blast
  show "i \<le> b" if "next_bit_in_block b w = 0" "bit w i"
  proof (rule ccontr)
    assume "\<not> i \<le> b"
    then have "bit ?x i" using that x by simp
    then have "?x \<noteq> 0" by auto
    then show False using nb that(1) c by auto
  qed
  show "bit w (next_bit_in_block b w) \<and> b < next_bit_in_block b w" if "next_bit_in_block b w \<noteq> 0"
    using that c nb by (auto split: if_splits)
  show "next_bit_in_block b w \<le> i" if "next_bit_in_block b w \<noteq> 0" "bit w i" "b < i"
    using that nb ctzl(2)[of ?x i] x[of i] by (auto split: if_splits)
qed

lemma first_bit_from_None: "first_bit_from i ws = None \<longleftrightarrow> arr_bits ws = {}"
proof (induction ws arbitrary: i)
  case (Cons w ws)
  have "{b. bit w b} = {} \<longleftrightarrow> w = 0" by (auto intro: bit_eqI)
  then show ?case using Cons by (auto simp: arr_bits_Cons)
qed simp

lemma first_bit_from_Some:
  "first_bit_from i ws = Some n \<Longrightarrow> \<exists>m. n = 64 * i + m \<and> m \<in> arr_bits ws \<and> (\<forall>b\<in>arr_bits ws. m \<le> b)"
proof (induction ws arbitrary: i)
  case (Cons w ws)
  show ?case
  proof (cases "w = 0")
    case True
    then obtain m where "n = 64 * Suc i + m" "m \<in> arr_bits ws" "\<forall>b\<in>arr_bits ws. m \<le> b"
      using Cons.IH[of "Suc i"] Cons.prems by auto
    then show ?thesis using True by (intro exI[of _ "m + 64"]) (auto simp: arr_bits_Cons)
  next
    case False
    have "first_bit_in_block w < 64" using first_bit_in_block(1)[OF False] bit_imp_le_length by fastforce
    then show ?thesis using Cons.prems False first_bit_in_block[OF False]
      by (intro exI[of _ "first_bit_in_block w"]) (auto simp: arr_bits_Cons)
  qed
qed simp

lemma pos_less:
  fixes b c :: nat
  assumes "b < c"
  shows "c div 64 = b div 64 \<and> b mod 64 < c mod 64 \<or> b div 64 < c div 64"
proof (cases "b div 64 < c div 64")
  case False
  then have e: "c div 64 = b div 64" using assms by (simp add: div_le_mono le_antisym less_imp_le)
  have "64 * (b div 64) + b mod 64 < 64 * (c div 64) + c mod 64" using assms by simp
  then have "b mod 64 < c mod 64" unfolding e by (simp only: nat_add_left_cancel_less)
  then show ?thesis using e by simp
qed simp

text \<open>The next bit inside the word of \<open>b\<close>.\<close>

lemma next_in_word:
  assumes b: "b div 64 < length arr"
  defines "nb \<equiv> next_bit_in_block (b mod 64) (arr ! (b div 64))"
  defines "n \<equiv> b div 64 * 64 + nb"
  assumes nz: "nb \<noteq> 0"
  shows "n \<in> arr_bits arr" "b < n" "\<And>c. c \<in> arr_bits arr \<Longrightarrow> b < c \<Longrightarrow> n \<le> c"
proof -
  have q: "b mod 64 < 64" by simp
  have nb: "bit (arr ! (b div 64)) nb" "b mod 64 < nb"
    using next_bit_in_block(2)[OF q] nz by (simp_all add: nb_def)
  then have lt: "nb < 64" using bit_imp_le_length by fastforce
  have n: "n div 64 = b div 64" "n mod 64 = nb" using lt by (simp_all add: n_def)
  show "n \<in> arr_bits arr" unfolding arr_bits_def mem_Collect_eq n using b nb by simp
  have "b div 64 * 64 + b mod 64 < n" unfolding n_def using nb(2) by (rule add_strict_left_mono)
  then show "b < n" by simp
  show "n \<le> c" if c: "c \<in> arr_bits arr" "b < c" for c
    using pos_less[OF c(2)]
  proof
    assume h: "c div 64 = b div 64 \<and> b mod 64 < c mod 64"
    then have "nb \<le> c mod 64" using c(1) next_bit_in_block(3)[OF q, of "arr ! (b div 64)" "c mod 64"] nz
      by (simp add: arr_bits_def nb_def)
    then have "n \<le> c div 64 * 64 + c mod 64" using h unfolding n_def by (simp only: add_le_mono)
    then show ?thesis by simp
  next
    assume "b div 64 < c div 64"
    then have "Suc (b div 64) * 64 \<le> c div 64 * 64" by (intro mult_le_mono1) simp
    then show ?thesis using lt by (simp add: n_def)
  qed
qed

text \<open>No later bit in the word of \<open>b\<close>: later bits are bits of the words after it.\<close>

lemma next_after_word:
  assumes nz: "next_bit_in_block (b mod 64) (arr ! (b div 64)) = 0" and c: "c \<in> arr_bits arr" "b < c"
  shows "\<exists>m\<in>arr_bits (drop (b div 64 + 1) arr). c = 64 * (b div 64 + 1) + m"
proof -
  have "b mod 64 < 64" by simp
  then have "b div 64 < c div 64"
    using pos_less[OF c(2)] c(1) next_bit_in_block(1)[of "b mod 64" "arr ! (b div 64)" "c mod 64"] nz
    by (auto simp: arr_bits_def)
  then have "(b div 64 + 1) * 64 \<le> c div 64 * 64" by (intro mult_le_mono1) simp
  then have "64 * (b div 64 + 1) \<le> c" by simp
  then obtain m where "c = 64 * (b div 64 + 1) + m" by (metis le_iff_add)
  then show ?thesis using c(1) by (intro bexI[of _ m]) (simp_all add: arr_bits_drop add.commute)
qed

lemma arr_next_bit:
  assumes b: "b div 64 < length arr"
  obtains (none) "arr_next_bit arr b = Some None" "\<forall>c\<in>arr_bits arr. c \<le> b"
  | (found) n where "arr_next_bit arr b = Some (Some n)" "n \<in> arr_bits arr" "b < n"
      "\<forall>c\<in>arr_bits arr. b < c \<longrightarrow> n \<le> c"
proof (cases "next_bit_in_block (b mod 64) (arr ! (b div 64)) = 0")
  case False
  then show thesis using found next_in_word[OF b False] b
    by (simp add: arr_next_bit_def bit_to_pos_eq arr_word_def)
next
  case True
  let ?suf = "first_bit_from (b div 64 + 1) (drop (b div 64 + 1) arr)"
  note later = next_after_word[OF True]
  have nx: "arr_next_bit arr b = Some ?suf" using True b
    by (simp add: arr_next_bit_def bit_to_pos_eq arr_word_def)
  show thesis
  proof (cases ?suf)
    case None
    then have "\<forall>c\<in>arr_bits arr. c \<le> b" using later first_bit_from_None not_le by fastforce
    then show thesis using nx None none by simp
  next
    case (Some n)
    from first_bit_from_Some[OF this] obtain m where m: "n = 64 * (b div 64 + 1) + m"
      "m \<in> arr_bits (drop (b div 64 + 1) arr)" "\<forall>c\<in>arr_bits (drop (b div 64 + 1) arr). m \<le> c" by blast
    have "b mod 64 < 64" by simp
    then have "64 * (b div 64) + b mod 64 < n" unfolding m(1) distrib_left by linarith
    then have "b < n" by simp
    moreover have "n \<in> arr_bits arr" using m by (simp add: arr_bits_drop add.commute)
    moreover have "\<forall>c\<in>arr_bits arr. b < c \<longrightarrow> n \<le> c" using later m(1,3) by fastforce
    ultimately show thesis using found nx Some by simp
  qed
qed

lemma iterate_from:
  assumes "b \<in> arr_bits arr"
  shows "arr_iterate_from arr (Some b) = Some (sorted_list_of_set {c \<in> arr_bits arr. b \<le> c})"
  using assms
proof (induction "64 * length arr - b" arbitrary: b rule: less_induct)
  case less
  have fin: "finite {c \<in> arr_bits arr. b \<le> c}" by simp
  have "b div 64 < length arr" using less.prems by (simp add: arr_bits_def)
  then show ?case
  proof (cases rule: arr_next_bit)
    case none
    then have "{c \<in> arr_bits arr. b \<le> c} = {b}" using less.prems by auto
    then show ?thesis using none(1) by (simp add: arr_iterate_from.simps)
  next
    case (found n)
    let ?A = "{c \<in> arr_bits arr. n \<le> c}"
    have e: "{c \<in> arr_bits arr. b \<le> c} = insert b ?A" using found less.prems by force
    have "arr_iterate_from arr (Some n) = Some (sorted_list_of_set ?A)"
      using found arr_bits_less[OF found(2)] by (intro less.hyps) auto
    moreover have "sorted_list_of_set (insert b ?A) = b # sorted_list_of_set ?A"
    proof -
      have m: "Min (insert b ?A) = b" using found(3) by (intro Min_eqI) auto
      have "insert b ?A - {b} = ?A" using found(3) by auto
      then show ?thesis using sorted_list_of_set_nonempty[of "insert b ?A"] by (simp add: m)
    qed
    ultimately show ?thesis using found(1) by (simp add: arr_iterate_from.simps[of arr "Some b"] e)
  qed
qed

lemma arr_first_bit:
  "arr_first_bit arr = (if arr_bits arr = {} then None else Some (Min (arr_bits arr)))"
proof (cases "arr_first_bit arr")
  case None
  then show ?thesis using first_bit_from_None by (auto simp: arr_first_bit_def)
next
  case (Some n)
  then have "n \<in> arr_bits arr" "\<forall>b\<in>arr_bits arr. n \<le> b"
    using first_bit_from_Some[of 0 arr n] by (auto simp: arr_first_bit_def)
  moreover from this have "Min (arr_bits arr) = n" by (intro Min_eqI) auto
  ultimately show ?thesis using Some by auto
qed

lemma arr_iterate: "arr_iterate arr = Some (sorted_list_of_set (arr_bits arr))"
proof (cases "arr_bits arr = {}")
  case False
  then have "{c \<in> arr_bits arr. Min (arr_bits arr) \<le> c} = arr_bits arr" by auto
  then show ?thesis using False iterate_from[of "Min (arr_bits arr)" arr]
    by (simp add: arr_iterate_def arr_first_bit)
qed (simp add: arr_iterate_def arr_first_bit arr_iterate_from.simps)

lemma popcountl: "popcountl w = card {b. bit w b}"
proof -
  have "b < 64" if "bit w b" for b using that bit_imp_le_length by fastforce
  then have e: "{b. bit w b} = set (filter (bit w) [0..<64])" by auto
  show ?thesis unfolding e popcountl_def by (rule distinct_card[symmetric]) simp
qed

lemma foldl_popcount: "foldl (\<lambda>ret w. ret + popcountl w) n arr = n + card (arr_bits arr)"
proof (induction arr arbitrary: n)
  case (Cons w ws)
  have "b < 64" if "bit w b" for b using that bit_imp_le_length by fastforce
  then have "{b. bit w b} \<inter> (\<lambda>b. b + 64) ` arr_bits ws = {}" by force
  moreover have "finite {b. bit w b}" by (rule finite_subset[of _ "{..<64}"]) (use \<open>\<And>b. bit w b \<Longrightarrow> b < 64\<close> in auto)
  ultimately have "card (arr_bits (w # ws)) = popcountl w + card (arr_bits ws)"
    by (simp add: arr_bits_Cons card_Un_disjoint popcountl card_image)
  then show ?case using Cons by simp
qed simp

lemma arr_popcount: "arr_popcount arr = card (arr_bits arr)"
  by (simp add: arr_popcount_def foldl_popcount)

lemma arr_empty: "arr_empty arr \<longleftrightarrow> arr_bits arr = {}"
proof (induction arr)
  case (Cons w ws)
  have "w = 0 \<longleftrightarrow> {b. bit w b} = {}" by (auto intro: bit_eqI)
  then show ?case using Cons by (auto simp: arr_empty_def arr_bits_Cons)
qed (simp add: arr_empty_def)

lemma arr_ops:
  assumes "length other = length arr"
  shows "arr_bits (arr_and arr other) = arr_bits arr \<inter> arr_bits other"
    and "arr_bits (arr_or arr other) = arr_bits arr \<union> arr_bits other"
    and "arr_bits (arr_minus arr other) = arr_bits arr - arr_bits other"
    and "length (arr_and arr other) = length arr" "length (arr_or arr other) = length arr"
      "length (arr_minus arr other) = length arr"
proof -
  have m: "a - (a AND b) = a AND NOT b" for a b :: u64
    by (subst disjunctive_diff_eq_and_not) (auto intro!: bit_eqI simp: bit_simps)
  show "arr_bits (arr_and arr other) = arr_bits arr \<inter> arr_bits other"
    "arr_bits (arr_or arr other) = arr_bits arr \<union> arr_bits other"
    "arr_bits (arr_minus arr other) = arr_bits arr - arr_bits other"
    using assms by (auto simp: arr_bits_def arr_and_def arr_or_def arr_minus_def m bit_simps)
qed (use assms in \<open>simp_all add: arr_and_def arr_or_def arr_minus_def\<close>)

lemma less_pos_iff:
  fixes b n :: nat
  shows "b < n \<longleftrightarrow> b div 64 < n div 64 \<or> b div 64 = n div 64 \<and> b mod 64 < n mod 64"
proof
  show "b < n \<Longrightarrow> b div 64 < n div 64 \<or> b div 64 = n div 64 \<and> b mod 64 < n mod 64"
    using pos_less[of b n] by auto
  assume "b div 64 < n div 64 \<or> b div 64 = n div 64 \<and> b mod 64 < n mod 64"
  then show "b < n"
  proof
    assume "b div 64 < n div 64"
    then show "b < n" by (meson div_le_mono leD not_le)
  next
    assume h: "b div 64 = n div 64 \<and> b mod 64 < n mod 64"
    have "64 * (b div 64) + b mod 64 < 64 * (n div 64) + n mod 64"
      using h by (simp only: nat_add_left_cancel_less)
    then show "b < n" by simp
  qed
qed

lemma fix_trailing_bits:
  assumes "length arr = arr_words n"
  shows "arr_bits (arr_fix_trailing n arr) = {b \<in> arr_bits arr. b < n}"
    and "length (arr_fix_trailing n arr) = length arr"
proof -
  show "length (arr_fix_trailing n arr) = length arr" by (simp add: arr_fix_trailing_def Let_def)
  show "arr_bits (arr_fix_trailing n arr) = {b \<in> arr_bits arr. b < n}"
  proof (cases "n mod 64 = 0")
    case True
    then have "n = 64 * length arr" using assms mult_div_mod_eq[of 64 n] by (simp add: arr_words_def)
    then show ?thesis using True arr_bits_less by (auto simp: arr_fix_trailing_def)
  next
    case False
    then have l: "length arr = Suc (n div 64)" using assms by (simp add: arr_words_def)
    have r: "n mod 64 < 64" by simp
    have k: "bit (w AND (2 ^ (n mod 64) - 1)) i \<longleftrightarrow> bit w i \<and> i < n mod 64" for w :: u64 and i
      using r by (auto simp: bit_simps simp flip: mask_eq_exp_minus_1 dest: bit_imp_le_length)
    have f: "arr_fix_trailing n arr = arr[n div 64 := arr ! (n div 64) AND (2 ^ (n mod 64) - 1)]"
      using False by (simp add: arr_fix_trailing_def Let_def l)
    have "b \<in> arr_bits (arr_fix_trailing n arr) \<longleftrightarrow> b \<in> arr_bits arr \<and> b < n" for b
      unfolding f less_pos_iff[of b n] using k l
      by (cases "b div 64 = n div 64") (auto simp: arr_bits_def less_Suc_eq)
    then show ?thesis by (simp add: set_eq_iff)
  qed
qed

lemma arr_words_less: "b < n \<Longrightarrow> b div 64 < arr_words n"
  unfolding less_pos_iff[of b n] by (auto simp: arr_words_def)

lemma arr_fill:
  assumes "length arr = arr_words n"
  shows "arr_bits (arr_fill n arr) = {..<n}" "length (arr_fill n arr) = length arr"
  using fix_trailing_bits[of "map (\<lambda>_. - 1) arr" n] assms arr_words_less[of _ n]
  by (auto simp: arr_fill_def arr_bits_def[of "map _ arr"])

lemma arr_invert:
  assumes "length arr = arr_words n"
  shows "arr_bits (arr_invert n arr) = {..<n} - arr_bits arr" "length (arr_invert n arr) = length arr"
  using fix_trailing_bits[of "map NOT arr" n] assms arr_words_less[of _ n]
  by (auto simp: arr_invert_def arr_bits_def bit_simps)

section \<open>The class \<open>dense_bitset\<close>\<close>

record dense_bitset =
  db_array :: "u64 list"
  db_len :: nat
  db_arrlen :: nat

definition db_new :: dense_bitset where
  "db_new = \<lparr>db_array = [], db_len = 0, db_arrlen = 0\<rparr>"

text \<open>
  \<open>resize\<close>: the words \<open>realloc\<close> adds have arbitrary contents \<open>mem\<close> until they are filled with zeros,
  which happens after \<open>fix_trailing_bits\<close> has run on the new last word.
\<close>

definition db_resize :: "(nat \<Rightarrow> u64) \<Rightarrow> dense_bitset \<Rightarrow> nat \<Rightarrow> dense_bitset" where
  "db_resize mem db n =
     (let prev_arrlen = db_arrlen db;
          arrlen = arr_words n;
          arr = take arrlen (db_array db) @ map mem [length (db_array db)..<arrlen];
          arr = arr_fix_trailing n arr;
          arr = (if arrlen > prev_arrlen then take prev_arrlen arr @ replicate (arrlen - prev_arrlen) 0 else arr)
      in \<lparr>db_array = arr, db_len = n, db_arrlen = arrlen\<rparr>)"

definition db_make :: "(nat \<Rightarrow> u64) \<Rightarrow> nat \<Rightarrow> dense_bitset" where
  "db_make mem n = db_resize mem db_new n"

definition db_assign :: "(nat \<Rightarrow> u64) \<Rightarrow> dense_bitset \<Rightarrow> dense_bitset \<Rightarrow> dense_bitset" where
  "db_assign mem db other =
     (let db' = db_resize mem db (db_len other)
      in db'\<lparr>db_len := db_len other, db_arrlen := db_arrlen other, db_array := take (db_arrlen other) (db_array other)\<rparr>)"

definition db_clear :: "dense_bitset \<Rightarrow> dense_bitset" where
  "db_clear db = db\<lparr>db_array := map (\<lambda>_. 0) (db_array db)\<rparr>"

definition db_empty :: "dense_bitset \<Rightarrow> bool" where
  "db_empty db = arr_empty (db_array db)"

definition db_fill :: "dense_bitset \<Rightarrow> dense_bitset" where
  "db_fill db = db\<lparr>db_array := arr_fill (db_len db) (db_array db)\<rparr>"

definition db_get :: "dense_bitset \<Rightarrow> nat \<Rightarrow> bool option" where
  "db_get db b = arr_get (db_array db) b"

definition db_update :: "dense_bitset \<Rightarrow> ('a \<times> u64 list) option \<Rightarrow> ('a \<times> dense_bitset) option" where
  "db_update db r = do { (old, arr) \<leftarrow> r; Some (old, db\<lparr>db_array := arr\<rparr>) }"

definition db_set_bit :: "dense_bitset \<Rightarrow> nat \<Rightarrow> (bool \<times> dense_bitset) option" where
  "db_set_bit db b = db_update db (arr_set_bit (db_array db) b)"

definition db_set_bit_unsync :: "dense_bitset \<Rightarrow> nat \<Rightarrow> (bool \<times> dense_bitset) option" where
  "db_set_bit_unsync db b = db_update db (arr_set_bit (db_array db) b)"

definition db_xor_bit :: "dense_bitset \<Rightarrow> nat \<Rightarrow> (bool \<times> dense_bitset) option" where
  "db_xor_bit db b = db_update db (arr_xor_bit (db_array db) b)"

definition db_clear_bit :: "dense_bitset \<Rightarrow> nat \<Rightarrow> (bool \<times> dense_bitset) option" where
  "db_clear_bit db b = db_update db (arr_clear_bit (db_array db) b)"

definition db_clear_bit_unsync :: "dense_bitset \<Rightarrow> nat \<Rightarrow> (bool \<times> dense_bitset) option" where
  "db_clear_bit_unsync db b = db_update db (arr_clear_bit (db_array db) b)"

definition db_set :: "dense_bitset \<Rightarrow> nat \<Rightarrow> bool \<Rightarrow> (bool \<times> dense_bitset) option" where
  "db_set db b v = (if v then db_set_bit db b else db_clear_bit db b)"

definition db_set_unsync :: "dense_bitset \<Rightarrow> nat \<Rightarrow> bool \<Rightarrow> (bool \<times> dense_bitset) option" where
  "db_set_unsync db b v = (if v then db_set_bit_unsync db b else db_clear_bit_unsync db b)"

definition db_containing_word :: "dense_bitset \<Rightarrow> nat \<Rightarrow> u64 option" where
  "db_containing_word db b = arr_containing_word (db_array db) b"

definition db_get_containing_word_and_zero :: "dense_bitset \<Rightarrow> nat \<Rightarrow> (u64 \<times> dense_bitset) option" where
  "db_get_containing_word_and_zero db b = db_update db (arr_clear_word (db_array db) b)"

definition db_clear_word_unsync :: "dense_bitset \<Rightarrow> nat \<Rightarrow> dense_bitset option" where
  "db_clear_word_unsync db b = map_option snd (db_update db (arr_clear_word (db_array db) b))"

definition db_first_bit :: "dense_bitset \<Rightarrow> nat option" where
  "db_first_bit db = arr_first_bit (db_array db)"

definition db_first_zero_bit :: "dense_bitset \<Rightarrow> nat option" where
  "db_first_zero_bit db = arr_first_zero_bit (db_array db)"

definition db_next_bit :: "dense_bitset \<Rightarrow> nat \<Rightarrow> nat option option" where
  "db_next_bit db b = arr_next_bit (db_array db) b"

definition db_next_zero_bit :: "dense_bitset \<Rightarrow> nat \<Rightarrow> nat option option" where
  "db_next_zero_bit db b = do {
     r \<leftarrow> arr_next_bit (map NOT (db_array db)) b;
     let b' = (case r of None \<Rightarrow> db_len db | Some b' \<Rightarrow> b')
     in Some (if b' < db_len db then Some b' else None) }"

definition db_iterate :: "dense_bitset \<Rightarrow> nat list option" where
  "db_iterate db = arr_iterate (db_array db)"

definition db_size :: "dense_bitset \<Rightarrow> nat" where
  "db_size db = db_len db"

definition db_popcount :: "dense_bitset \<Rightarrow> nat" where
  "db_popcount db = arr_popcount (db_array db)"

definition db_binop ::
  "(u64 list \<Rightarrow> u64 list \<Rightarrow> u64 list) \<Rightarrow> dense_bitset \<Rightarrow> dense_bitset \<Rightarrow> dense_bitset option"
where
  "db_binop f db other =
     (if db_size db = db_size other then Some (db\<lparr>db_array := f (db_array db) (db_array other)\<rparr>) else None)"

definition db_and :: "dense_bitset \<Rightarrow> dense_bitset \<Rightarrow> dense_bitset option" where
  "db_and = db_binop arr_and"

definition db_or :: "dense_bitset \<Rightarrow> dense_bitset \<Rightarrow> dense_bitset option" where
  "db_or = db_binop arr_or"

definition db_minus :: "dense_bitset \<Rightarrow> dense_bitset \<Rightarrow> dense_bitset option" where
  "db_minus = db_binop arr_minus"

definition db_invert :: "dense_bitset \<Rightarrow> dense_bitset" where
  "db_invert db = db\<lparr>db_array := arr_invert (db_len db) (db_array db)\<rparr>"

definition db_save :: "oarchive \<Rightarrow> dense_bitset \<Rightarrow> oarchive" where
  "db_save oarc db =
     (let oarc = direct_assign oarc (of_nat (db_len db) :: u64);
          oarc = direct_assign oarc (of_nat (db_arrlen db) :: u64)
      in if db_arrlen db > 0 then owrite oarc (words_bytes (db_array db)) else oarc)"

definition db_load :: "iarchive \<Rightarrow> (dense_bitset \<times> iarchive) option" where
  "db_load iarc = do {
     (len :: u64, iarc) \<leftarrow> read_into iarc;
     (arrlen :: u64, iarc) \<leftarrow> read_into iarc;
     if arrlen > 0 then do {
       (bs, iarc) \<leftarrow> iread iarc (8 * unat arrlen);
       Some (\<lparr>db_array = bytes_words (unat arrlen) bs, db_len = unat len, db_arrlen = unat arrlen\<rparr>, iarc) }
     else Some (\<lparr>db_array = [], db_len = unat len, db_arrlen = 0\<rparr>, iarc) }"





section \<open>The class template \<open>fixed_dense_bitset<len>\<close>\<close>

type_synonym fixed_dense_bitset = "u64 list"

definition fb_new :: "nat \<Rightarrow> fixed_dense_bitset" where
  "fb_new n = replicate (arr_words n) 0"

definition fb_initialize_from_mem :: "fixed_dense_bitset \<Rightarrow> byte list \<Rightarrow> fixed_dense_bitset" where
  "fb_initialize_from_mem fb mem =
     bytes_words (length fb) (overwrite 0 mem (words_bytes fb))"

definition fb_clear :: "fixed_dense_bitset \<Rightarrow> fixed_dense_bitset" where
  "fb_clear fb = map (\<lambda>_. 0) fb"

definition fb_fill :: "nat \<Rightarrow> fixed_dense_bitset \<Rightarrow> fixed_dense_bitset" where
  "fb_fill n fb = arr_fill n fb"

definition fb_empty :: "fixed_dense_bitset \<Rightarrow> bool" where
  "fb_empty fb = arr_empty fb"

definition fb_get :: "fixed_dense_bitset \<Rightarrow> nat \<Rightarrow> bool option" where
  "fb_get fb b = arr_get fb b"

definition fb_set_bit :: "fixed_dense_bitset \<Rightarrow> nat \<Rightarrow> (bool \<times> fixed_dense_bitset) option" where
  "fb_set_bit fb b = arr_set_bit fb b"

definition fb_set_bit_unsync :: "fixed_dense_bitset \<Rightarrow> nat \<Rightarrow> (bool \<times> fixed_dense_bitset) option" where
  "fb_set_bit_unsync fb b = arr_set_bit fb b"

definition fb_clear_bit :: "fixed_dense_bitset \<Rightarrow> nat \<Rightarrow> (bool \<times> fixed_dense_bitset) option" where
  "fb_clear_bit fb b = arr_clear_bit fb b"

definition fb_clear_bit_unsync :: "fixed_dense_bitset \<Rightarrow> nat \<Rightarrow> (bool \<times> fixed_dense_bitset) option" where
  "fb_clear_bit_unsync fb b = arr_clear_bit fb b"

definition fb_set :: "fixed_dense_bitset \<Rightarrow> nat \<Rightarrow> bool \<Rightarrow> (bool \<times> fixed_dense_bitset) option" where
  "fb_set fb b v = (if v then fb_set_bit fb b else fb_clear_bit fb b)"

definition fb_containing_word :: "fixed_dense_bitset \<Rightarrow> nat \<Rightarrow> u64 option" where
  "fb_containing_word fb b = arr_containing_word fb b"

definition fb_first_bit :: "fixed_dense_bitset \<Rightarrow> nat option" where
  "fb_first_bit fb = arr_first_bit fb"

definition fb_first_zero_bit :: "fixed_dense_bitset \<Rightarrow> nat option" where
  "fb_first_zero_bit fb = arr_first_zero_bit fb"

definition fb_next_bit :: "fixed_dense_bitset \<Rightarrow> nat \<Rightarrow> nat option option" where
  "fb_next_bit fb b = arr_next_bit fb b"

definition fb_iterate :: "fixed_dense_bitset \<Rightarrow> nat list option" where
  "fb_iterate fb = arr_iterate fb"

definition fb_popcount :: "fixed_dense_bitset \<Rightarrow> nat" where
  "fb_popcount fb = arr_popcount fb"

definition fb_and_assign :: "fixed_dense_bitset \<Rightarrow> fixed_dense_bitset \<Rightarrow> fixed_dense_bitset" where
  "fb_and_assign fb other = arr_and fb other"

definition fb_or_assign :: "fixed_dense_bitset \<Rightarrow> fixed_dense_bitset \<Rightarrow> fixed_dense_bitset" where
  "fb_or_assign fb other = arr_or fb other"

definition fb_minus_assign :: "fixed_dense_bitset \<Rightarrow> fixed_dense_bitset \<Rightarrow> fixed_dense_bitset" where
  "fb_minus_assign fb other = arr_minus fb other"

definition fb_eq :: "fixed_dense_bitset \<Rightarrow> fixed_dense_bitset \<Rightarrow> bool" where
  "fb_eq fb other = foldl (\<lambda>ret (a, b). ret \<and> a = b) True (zip fb other)"

definition fb_save :: "oarchive \<Rightarrow> fixed_dense_bitset \<Rightarrow> oarchive" where
  "fb_save oarc fb = owrite oarc (words_bytes fb)"

definition fb_load :: "nat \<Rightarrow> iarchive \<Rightarrow> (fixed_dense_bitset \<times> iarchive) option" where
  "fb_load n iarc = do {
     (bs, iarc) \<leftarrow> iread iarc (arr_words n * 8);
     Some (bytes_words (arr_words n) bs, iarc) }"

section \<open>The contract of a bitset\<close>

text \<open>The loop that sets the bits of a list of positions.\<close>

fun set_each :: "('s \<Rightarrow> nat \<Rightarrow> (bool \<times> 's) option) \<Rightarrow> 's \<Rightarrow> nat list \<Rightarrow> 's option" where
  "set_each setb s [] = Some s"
| "set_each setb s (b # bs) = do { (old, s) \<leftarrow> setb s b; set_each setb s bs }"

text \<open>
  A bitset of \<open>sz s\<close> bits stands for a set of numbers below \<open>sz s\<close>, and its operations are the
  operations on that set.
\<close>

locale bitset =
  fixes bits :: "'s \<Rightarrow> nat set" and sz :: "'s \<Rightarrow> nat" and wf :: "'s \<Rightarrow> bool"
    and get :: "'s \<Rightarrow> nat \<Rightarrow> bool option"
    and setb :: "'s \<Rightarrow> nat \<Rightarrow> (bool \<times> 's) option"
    and clearb :: "'s \<Rightarrow> nat \<Rightarrow> (bool \<times> 's) option"
    and popcount :: "'s \<Rightarrow> nat" and iterate :: "'s \<Rightarrow> nat list option"
  assumes bits_less: "wf s \<Longrightarrow> bits s \<subseteq> {..<sz s}"
    and get: "wf s \<Longrightarrow> b < sz s \<Longrightarrow> get s b = Some (b \<in> bits s)"
    and set_law: "wf s \<Longrightarrow> b < sz s \<Longrightarrow> \<exists>s'. setb s b = Some (b \<in> bits s, s') \<and>
      wf s' \<and> sz s' = sz s \<and> bits s' = insert b (bits s)"
    and clear_law: "wf s \<Longrightarrow> b < sz s \<Longrightarrow> \<exists>s'. clearb s b = Some (b \<in> bits s, s') \<and>
      wf s' \<and> sz s' = sz s \<and> bits s' = bits s - {b}"
    and popcount: "wf s \<Longrightarrow> popcount s = card (bits s)"
    and iterate: "wf s \<Longrightarrow> iterate s = Some (sorted_list_of_set (bits s))"
begin

lemma set_each:
  "wf s \<Longrightarrow> list_all (\<lambda>b. b < sz s) bs \<Longrightarrow>
     \<exists>s'. set_each setb s bs = Some s' \<and> wf s' \<and> sz s' = sz s \<and> bits s' = bits s \<union> set bs"
proof (induction bs arbitrary: s)
  case (Cons b bs)
  then obtain s1 where s1: "setb s b = Some (b \<in> bits s, s1)" "wf s1" "sz s1 = sz s"
    "bits s1 = insert b (bits s)" using set_law[of s b] by auto
  with Cons.IH[of s1] Cons.prems show ?case by auto
qed simp

lemma get_after_set:
  assumes "wf s" "b < sz s" "c < sz s" "setb s b = Some (old, s')"
  shows "get s' c = (if c = b then Some True else get s c)"
  using set_law[OF assms(1,2)] get[of s' c] get[of s c] assms by auto

lemma get_after_clear:
  assumes "wf s" "b < sz s" "c < sz s" "clearb s b = Some (old, s')"
  shows "get s' c = (if c = b then Some False else get s c)"
  using clear_law[OF assms(1,2)] get[of s' c] get[of s c] assms by auto

end

text \<open>A bitset of \<open>n\<close> bits as a word array: the words needed, no bit at \<open>n\<close> or above.\<close>

definition arr_wf :: "nat \<Rightarrow> u64 list \<Rightarrow> bool" where
  "arr_wf n arr \<longleftrightarrow> length arr = arr_words n \<and> arr_bits arr \<subseteq> {..<n}"

lemma arr_bitset:
  "bitset arr_bits (\<lambda>_. n) (arr_wf n) arr_get arr_set_bit arr_clear_bit arr_popcount arr_iterate"
proof
  fix arr b assume wf: "arr_wf n arr" and b: "b < n"
  have r: "b div 64 < length arr" using wf arr_words_less[OF b] by (simp add: arr_wf_def)
  show "arr_get arr b = Some (b \<in> arr_bits arr)" using r by (simp add: arr_get)
  show "\<exists>s'. arr_set_bit arr b = Some (b \<in> arr_bits arr, s') \<and> arr_wf n s' \<and> n = n \<and>
      arr_bits s' = insert b (arr_bits arr)"
    using arr_set_bit[OF r] wf b by (auto simp: arr_wf_def)
  show "\<exists>s'. arr_clear_bit arr b = Some (b \<in> arr_bits arr, s') \<and> arr_wf n s' \<and> n = n \<and>
      arr_bits s' = arr_bits arr - {b}"
    using arr_clear_bit[OF r] wf b by (auto simp: arr_wf_def)
qed (auto simp: arr_popcount arr_iterate arr_wf_def)

text \<open>The bitset over the type codes of a block is a \<open>fixed_dense_bitset<16>\<close>.\<close>

interpretation fb16: bitset arr_bits "\<lambda>_. 16" "arr_wf 16" fb_get fb_set_bit_unsync fb_clear_bit_unsync
  fb_popcount fb_iterate
proof -
  have "fb_get = arr_get" "fb_set_bit_unsync = arr_set_bit" "fb_clear_bit_unsync = arr_clear_bit"
    "fb_popcount = arr_popcount" "fb_iterate = arr_iterate"
    by (simp_all add: fun_eq_iff fb_get_def fb_set_bit_unsync_def fb_clear_bit_unsync_def fb_popcount_def
        fb_iterate_def)
  then show "bitset arr_bits (\<lambda>_. 16) (arr_wf 16) fb_get fb_set_bit_unsync fb_clear_bit_unsync
      fb_popcount fb_iterate"
    using arr_bitset[of 16] by simp
qed

definition db_wf :: "dense_bitset \<Rightarrow> bool" where
  "db_wf db \<longleftrightarrow> db_arrlen db = arr_words (db_len db) \<and> arr_wf (db_len db) (db_array db)"

definition db_bits :: "dense_bitset \<Rightarrow> nat set" where
  "db_bits db = arr_bits (db_array db)"

interpretation db: bitset db_bits db_size db_wf db_get db_set_bit_unsync db_clear_bit_unsync db_popcount db_iterate
proof
  fix db b assume wf: "db_wf db" and b: "b < db_size db"
  note a = wf[unfolded db_wf_def, THEN conjunct2] b[unfolded db_size_def]
  show "db_get db b = Some (b \<in> db_bits db)"
    using bitset.get[OF arr_bitset a] by (simp add: db_get_def db_bits_def)
  show "\<exists>s'. db_set_bit_unsync db b = Some (b \<in> db_bits db, s') \<and> db_wf s' \<and> db_size s' = db_size db \<and>
      db_bits s' = insert b (db_bits db)"
    using bitset.set_law[OF arr_bitset a] wf
    by (auto simp: db_set_bit_unsync_def db_update_def db_bits_def db_wf_def db_size_def)
  show "\<exists>s'. db_clear_bit_unsync db b = Some (b \<in> db_bits db, s') \<and> db_wf s' \<and> db_size s' = db_size db \<and>
      db_bits s' = db_bits db - {b}"
    using bitset.clear_law[OF arr_bitset a] wf
    by (auto simp: db_clear_bit_unsync_def db_update_def db_bits_def db_wf_def db_size_def)
qed (auto simp: db_wf_def arr_wf_def db_bits_def db_size_def db_popcount_def db_iterate_def arr_popcount arr_iterate)

section \<open>Operations of \<open>dense_bitset\<close> on the set of bits\<close>

lemma arr_bits_append_zeros: "arr_bits (arr @ replicate k 0) = arr_bits arr"
proof -
  have "bit ((arr @ replicate k 0) ! i) j \<longleftrightarrow> i < length arr \<and> bit (arr ! i) j" if "i < length arr + k" for i j
    using that by (cases "i < length arr") (simp_all add: nth_append)
  then show ?thesis by (auto simp: arr_bits_def)
qed

lemma arr_bits_take: "arr_bits (take k arr) = {b \<in> arr_bits arr. b div 64 < k}"
  by (auto simp: arr_bits_def)

lemma arr_words_mono: "m \<le> n \<Longrightarrow> arr_words m \<le> arr_words n"
  unfolding le_less less_pos_iff[of m n] by (auto simp: arr_words_def)

lemma db_resize_wf:
  assumes wf: "db_wf db"
  shows "db_wf (db_resize mem db n)" "db_bits (db_resize mem db n) = db_bits db \<inter> {..<n}"
    "db_size (db_resize mem db n) = n"
proof -
  let ?arr = "db_array db" and ?m = "arr_words n"
  have l: "length ?arr = db_arrlen db" and b: "arr_bits ?arr \<subseteq> {..<db_len db}"
    and al: "db_arrlen db = arr_words (db_len db)" using wf by (simp_all add: db_wf_def arr_wf_def)
  have "arr_wf n (db_array (db_resize mem db n)) \<and>
    arr_bits (db_array (db_resize mem db n)) = arr_bits ?arr \<inter> {..<n}"
  proof (cases "?m > db_arrlen db")
    case True
    let ?a = "?arr @ map mem [length ?arr..<?m]"
    have "\<not> n \<le> db_len db" using True al arr_words_mono[of n "db_len db"] by linarith
    moreover have "take (db_arrlen db) (arr_fix_trailing n ?a) = ?arr"
      using True l by (simp add: arr_fix_trailing_def Let_def)
    ultimately show ?thesis using True l b
      by (auto simp: db_resize_def Let_def arr_wf_def arr_bits_append_zeros)
  next
    case False
    then have "length (take ?m ?arr) = ?m" using l by simp
    note f = fix_trailing_bits[OF this]
    have "{c \<in> arr_bits (take ?m ?arr). c < n} = arr_bits ?arr \<inter> {..<n}"
      using arr_words_less[of _ n] by (auto simp: arr_bits_take)
    then show ?thesis using False l f by (simp add: db_resize_def Let_def arr_wf_def)
  qed
  then show "db_wf (db_resize mem db n)" "db_bits (db_resize mem db n) = db_bits db \<inter> {..<n}"
    "db_size (db_resize mem db n) = n"
    by (simp_all add: db_wf_def db_bits_def db_size_def) (simp_all add: db_resize_def Let_def)
qed

lemma db_new_wf: "db_wf db_new" "db_bits db_new = {}"
  by (simp_all add: db_new_def db_wf_def arr_wf_def arr_words_def db_bits_def)

lemma db_make_wf:
  "db_wf (db_make mem n)" "db_bits (db_make mem n) = {}" "db_size (db_make mem n) = n"
  using db_resize_wf[OF db_new_wf(1)] by (simp_all add: db_make_def db_new_wf)

lemma db_assign:
  assumes "db_wf other" shows "db_assign mem db other = other"
  using assms by (simp add: db_assign_def db_resize_def Let_def db_wf_def arr_wf_def)

lemma db_clear_wf:
  assumes "db_wf db"
  shows "db_wf (db_clear db)" "db_bits (db_clear db) = {}" "db_size (db_clear db) = db_size db"
  using assms by (auto simp: db_clear_def db_wf_def arr_wf_def db_bits_def arr_bits_def db_size_def)

lemma db_fill_wf:
  assumes "db_wf db"
  shows "db_wf (db_fill db)" "db_bits (db_fill db) = {..<db_size db}"
  using assms arr_fill[of "db_array db" "db_len db"]
  by (simp_all add: db_fill_def db_wf_def arr_wf_def db_bits_def db_size_def)

lemma db_invert_wf:
  assumes "db_wf db"
  shows "db_wf (db_invert db)" "db_bits (db_invert db) = {..<db_size db} - db_bits db"
  using assms arr_invert[of "db_array db" "db_len db"]
  by (auto simp add: db_invert_def db_wf_def arr_wf_def db_bits_def db_size_def)

lemma db_binops:
  assumes wf: "db_wf db" "db_wf other" and sz: "db_size db = db_size other"
  shows "\<exists>r. db_and db other = Some r \<and> db_wf r \<and> db_bits r = db_bits db \<inter> db_bits other"
    and "\<exists>r. db_or db other = Some r \<and> db_wf r \<and> db_bits r = db_bits db \<union> db_bits other"
    and "\<exists>r. db_minus db other = Some r \<and> db_wf r \<and> db_bits r = db_bits db - db_bits other"
proof -
  have "length (db_array other) = length (db_array db)"
    using wf sz by (simp add: db_wf_def arr_wf_def db_size_def)
  note ops = arr_ops[OF this]
  show "\<exists>r. db_and db other = Some r \<and> db_wf r \<and> db_bits r = db_bits db \<inter> db_bits other"
    "\<exists>r. db_or db other = Some r \<and> db_wf r \<and> db_bits r = db_bits db \<union> db_bits other"
    "\<exists>r. db_minus db other = Some r \<and> db_wf r \<and> db_bits r = db_bits db - db_bits other"
    using wf sz ops by (auto simp: db_and_def db_or_def db_minus_def db_binop_def db_wf_def arr_wf_def
      db_bits_def db_size_def)
qed

lemma arr_bits_not: "arr_bits (map NOT arr) = {b. b div 64 < length arr} - arr_bits arr"
  by (auto simp: arr_bits_def bit_simps)

text \<open>The scan for zero bits covers whole words, so it does not stop at the size of the bitset.\<close>

lemma db_first_zero_bit:
  "db_first_zero_bit db =
     (let Z = {b. b div 64 < length (db_array db)} - db_bits db in if Z = {} then None else Some (Min Z))"
  using arr_first_bit[of "map NOT (db_array db)"]
  by (simp add: db_first_zero_bit_def arr_first_zero_bit_def arr_first_bit_def arr_bits_not db_bits_def)

lemma db_next_zero_bit:
  assumes wf: "db_wf db" and b: "b < db_size db"
  shows "\<exists>r. db_next_zero_bit db b = Some r \<and>
    (case r of None \<Rightarrow> \<forall>c. b < c \<and> c < db_size db \<longrightarrow> c \<in> db_bits db
     | Some n \<Rightarrow> b < n \<and> n < db_size db \<and> n \<notin> db_bits db \<and>
         (\<forall>c. b < c \<and> c < n \<longrightarrow> c \<in> db_bits db))"
proof -
  have r: "c div 64 < length (db_array db)" if "c < db_size db" for c
    using wf that arr_words_less[of c "db_len db"] by (simp add: db_wf_def arr_wf_def db_size_def)
  have "b div 64 < length (map NOT (db_array db))" using r[OF b] by simp
  then show ?thesis
  proof (cases rule: arr_next_bit)
    case none
    have "c \<in> db_bits db" if "b < c" "c < db_size db" for c
      using none(2) that r[of c] by (force simp: arr_bits_not db_bits_def)
    then show ?thesis using none(1) by (simp add: db_next_zero_bit_def)
  next
    case (found n)
    show ?thesis
    proof (cases "n < db_len db")
      case True
      have "c \<in> db_bits db" if "b < c" "c < n" for c
        using found(4) that True r[of c] by (force simp: arr_bits_not db_bits_def db_size_def)
      then show ?thesis using found True
        by (auto simp: db_next_zero_bit_def db_bits_def arr_bits_not db_size_def)
    next
      case False
      have "c \<in> db_bits db" if "b < c" "c < db_size db" for c
        using found(4) that False r[of c] by (force simp: arr_bits_not db_bits_def db_size_def)
      then show ?thesis using found False by (auto simp: db_next_zero_bit_def)
    qed
  qed
qed

lemma arr_words_le: "arr_words n \<le> n"
proof (cases "n mod 64 = 0")
  case False
  then have "0 < n mod 64" by simp
  then have "arr_words n \<le> 64 * (n div 64) + n mod 64" by (simp add: arr_words_def del: mult_div_mod_eq div_mult_mod_eq)
  then show ?thesis by simp
qed (simp add: arr_words_def)

definition db_wire :: "dense_bitset \<Rightarrow> byte list" where
  "db_wire db = bytes_of (of_nat (db_len db) :: u64) @ bytes_of (of_nat (db_arrlen db) :: u64) @
     (if db_arrlen db > 0 then words_bytes (db_array db) else [])"

interpretation db_codec: codec db_save db_load db_wire "\<lambda>db. db_wf db \<and> db_len db < 2 ^ 64"
proof
  fix iarc :: iarchive and db r
  assume wf: "i_wf iarc" and ok: "db_wf db \<and> db_len db < 2 ^ 64" and rest: "i_rest iarc = db_wire db @ r"
  let ?l = "of_nat (db_len db) :: u64" and ?a = "of_nat (db_arrlen db) :: u64" and ?w = "words_bytes (db_array db)"
  have arr: "length (db_array db) = db_arrlen db" "db_arrlen db < 2 ^ 64"
    using ok arr_words_le[of "db_len db"] by (simp_all add: db_wf_def arr_wf_def)
  then have e: "db_arrlen db = 0 \<Longrightarrow> ?w = []" by (simp add: words_bytes_def)
  have rest': "i_rest iarc = bytes_of ?l @ bytes_of ?a @ ?w @ r"
    using rest e by (auto simp: db_wire_def split: if_splits)
  note a1 = i_adv_wf[OF wf rest']
  note a2 = i_adv_wf[OF a1]
  have lw: "length ?w = 8 * db_arrlen db" by (simp add: length_words_bytes arr)
  have n: "unat ?l = db_len db" "unat ?a = db_arrlen db" using ok arr by (simp_all add: unat_of_nat_u64)
  have z: "?a > 0 \<longleftrightarrow> db_arrlen db > 0" using n by (metis unat_gt_0 word_gt_0)
  have bw: "bytes_words (db_arrlen db) ?w = db_array db"
    using bytes_words_words_bytes[of "db_array db"] by (simp add: arr)
  show "db_load iarc = Some (db, i_adv (length (db_wire db)) iarc)"
    using read_into_app[OF wf rest'] read_into_app[OF a1] iread_app[OF a2 refl] arr(1)
    by (cases "db_arrlen db > 0") (simp_all add: db_load_def db_wire_def n z lw bw)
qed (simp_all add: db_save_def db_wire_def archive_simps Let_def)

section \<open>Transfer between bitsets\<close>



text \<open>
  One visit to a word of the other bitset: what the two bitsets hold together stays, the
  other one shrinks, and the counter grows by the number of bits it lost.
\<close>

definition transferred_to ::
  "u64 list \<Rightarrow> u64 list \<Rightarrow> nat \<Rightarrow> u64 list \<Rightarrow> u64 list \<Rightarrow> nat \<Rightarrow> bool" where
  "transferred_to arr other t arr' other' t' \<longleftrightarrow>
     arr_bits arr' \<union> arr_bits other' = arr_bits arr \<union> arr_bits other \<and>
     arr_bits arr \<subseteq> arr_bits arr' \<and> arr_bits other' \<subseteq> arr_bits other \<and>
     t' + card (arr_bits other') = t + card (arr_bits other) \<and>
     length arr' = length arr \<and> length other' = length other"



lemma transferred_to_refl [simp]: "transferred_to a o1 t a o1 t"
  by (simp add: transferred_to_def)






section \<open>Properties\<close>

lemma db_fill_size [simp]: "db_size (db_fill db) = db_size db"
  by (simp add: db_fill_def db_size_def)

text \<open>C11. On a well-formed bitset and a position below its size, reading, setting and clearing a bit are
  membership, insertion and removal on the set of positions, keep the invariant and the size, and return
  the previous value of the bit.\<close>

theorem dense_bitset_refines_set:
  assumes "db_wf db" "b < db_size db"
  shows "db_get db b = Some (b \<in> db_bits db) \<and>
    (\<exists>db'. db_set_bit_unsync db b = Some (b \<in> db_bits db, db') \<and> db_wf db' \<and> db_size db' = db_size db \<and>
       db_bits db' = insert b (db_bits db)) \<and>
    (\<exists>db'. db_clear_bit_unsync db b = Some (b \<in> db_bits db, db') \<and> db_wf db' \<and> db_size db' = db_size db \<and>
       db_bits db' = db_bits db - {b})"
  using db.get[OF assms] db.set_law[OF assms] db.clear_law[OF assms] by blast

theorem dense_bitset_refines_set_witness:
  defines "db \<equiv> db_make (\<lambda>_. 0) 70"
  shows "db_get db 65 = Some (65 \<in> db_bits db) \<and>
    (\<exists>db'. db_set_bit_unsync db 65 = Some (65 \<in> db_bits db, db') \<and> db_wf db' \<and> db_size db' = db_size db \<and>
       db_bits db' = insert 65 (db_bits db)) \<and>
    (\<exists>db'. db_clear_bit_unsync db 65 = Some (65 \<in> db_bits db, db') \<and> db_wf db' \<and> db_size db' = db_size db \<and>
       db_bits db' = db_bits db - {65})"
  unfolding db_def by (rule dense_bitset_refines_set) (simp_all add: db_make_wf)

text \<open>C14. Iterating over a well-formed bitset yields its positions in increasing order without repetition,
  and \<open>popcount\<close> is their number.\<close>

theorem dense_bitset_iteration:
  assumes "db_wf db"
  shows "\<exists>ps. db_iterate db = Some ps \<and> sorted ps \<and> distinct ps \<and> set ps = db_bits db \<and> db_popcount db = length ps"
proof -
  have "finite (db_bits db)" using db.bits_less[OF assms] finite_subset by blast
  then show ?thesis using db.iterate[OF assms] db.popcount[OF assms] by simp
qed

theorem dense_bitset_iteration_witness:
  "\<exists>ps. db_iterate (db_fill (db_make (\<lambda>_. 0) 3)) = Some ps \<and> sorted ps \<and> distinct ps \<and>
     set ps = db_bits (db_fill (db_make (\<lambda>_. 0) 3)) \<and> db_popcount (db_fill (db_make (\<lambda>_. 0) 3)) = length ps"
  by (rule dense_bitset_iteration) (simp add: db_fill_wf db_make_wf)

text \<open>C17. Resizing keeps exactly the bits below the new size; a grown bitset has zeros in the new
  positions whatever \<open>realloc\<close> left there, and a shrunk one none of the deleted bits.\<close>

theorem dense_bitset_resize:
  assumes "db_wf db"
  shows "db_wf (db_resize mem db n) \<and> db_size (db_resize mem db n) = n \<and>
    db_bits (db_resize mem db n) = db_bits db \<inter> {..<n}"
  using db_resize_wf[OF assms] by blast

theorem dense_bitset_resize_witness:
  defines "db \<equiv> db_fill (db_make (\<lambda>_. 0) 100)"
  shows "db_wf (db_resize (\<lambda>_. 7) db 200) \<and> db_size (db_resize (\<lambda>_. 7) db 200) = 200 \<and>
    db_bits (db_resize (\<lambda>_. 7) db 200) = db_bits db \<inter> {..<200}"
  by (rule dense_bitset_resize) (simp add: db_def db_fill_wf db_make_wf)





text \<open>C18. Intersection, union, difference and complement of bitsets of equal size are those of the sets.\<close>

theorem dense_bitset_algebra:
  assumes "db_wf db" "db_wf other" "db_size db = db_size other"
  shows "(\<exists>r. db_and db other = Some r \<and> db_wf r \<and> db_bits r = db_bits db \<inter> db_bits other) \<and>
    (\<exists>r. db_or db other = Some r \<and> db_wf r \<and> db_bits r = db_bits db \<union> db_bits other) \<and>
    (\<exists>r. db_minus db other = Some r \<and> db_wf r \<and> db_bits r = db_bits db - db_bits other) \<and>
    db_wf (db_invert db) \<and> db_bits (db_invert db) = {..<db_size db} - db_bits db"
  using db_binops[OF assms] db_invert_wf[OF assms(1)] by blast

theorem dense_bitset_algebra_witness:
  defines "db \<equiv> db_make (\<lambda>_. 0) 10" and "other \<equiv> db_fill (db_make (\<lambda>_. 0) 10)"
  shows "(\<exists>r. db_and db other = Some r \<and> db_wf r \<and> db_bits r = db_bits db \<inter> db_bits other) \<and>
    (\<exists>r. db_or db other = Some r \<and> db_wf r \<and> db_bits r = db_bits db \<union> db_bits other) \<and>
    (\<exists>r. db_minus db other = Some r \<and> db_wf r \<and> db_bits r = db_bits db - db_bits other) \<and>
    db_wf (db_invert db) \<and> db_bits (db_invert db) = {..<db_size db} - db_bits db"
  by (rule dense_bitset_algebra) (simp_all add: db_def other_def db_fill_wf db_make_wf)

text \<open>A bitset written to an archive is read back from it.\<close>

lemma dense_bitset_save_load:
  assumes "db_wf db" "db_len db < 2 ^ 64" "o_wf oarc"
  shows "\<exists>bs. o_data (db_save oarc db) = o_data oarc @ bs \<and>
     (\<forall>iarc r. i_wf iarc \<longrightarrow> i_rest iarc = bs @ r \<longrightarrow> db_load iarc = Some (db, i_adv (length bs) iarc))"
  using db_codec.save_data[OF assms(3)] db_codec.load_wire[of _ db] assms(1,2) by blast

end
