(* ===== verification/Type_Encoding.thy ===== *)
theory Type_Encoding
  imports Frame_Of_Reference Flexible_Type Dense_Bitset
begin

text \<open>
  The typed column block codec (\<open>sframe/sarray_v2_type_encoding.cpp\<close> and \<open>.hpp\<close>,
  \<open>sframe/sarray_v2_block_types.hpp\<close>): \<open>typed_encode\<close> turns a vector of \<open>flexible_type\<close> into the bytes
  of a block and fills in the \<open>block_info\<close>; \<open>typed_decode\<close> fills a vector from such bytes, and
  \<open>typed_decode_stream_callback\<close> passes the values to a callback one by one.

  An operation whose result is \<^const>\<open>None\<close> fails an assertion or reads outside a buffer. The index
  counters of the decoders (\<open>unsigned int\<close> and \<open>int\<close>) are natural numbers: the blocks they run over
  have fewer than \<open>2^31\<close> elements.
\<close>

section \<open>Block information\<close>

record block_info =
  bi_offset :: u64
  bi_length :: u64
  bi_block_size :: u64
  bi_num_elem :: u64
  bi_flags :: u64
  bi_content_type :: u16

definition block_info_new :: block_info where
  "block_info_new = \<lparr>bi_offset = - 1, bi_length = 0, bi_block_size = 0, bi_num_elem = 0,
     bi_flags = 0, bi_content_type = 0\<rparr>"

definition LZ4_COMPRESSION :: u64 where "LZ4_COMPRESSION = 1"
definition IS_FLEXIBLE_TYPE :: u64 where "IS_FLEXIBLE_TYPE = 2"
definition MULTIPLE_TYPE_BLOCK :: u64 where "MULTIPLE_TYPE_BLOCK = 4"

lemmas block_flags = LZ4_COMPRESSION_def IS_FLEXIBLE_TYPE_def MULTIPLE_TYPE_BLOCK_def

section \<open>Numbers\<close>

definition MAX_INTEGERS_PER_BLOCK :: nat where "MAX_INTEGERS_PER_BLOCK = 128"

text \<open>The inner loop of the number encoders: collect up to \<open>room\<close> defined values.\<close>

fun collect_block :: "nat \<Rightarrow> flexible_type list \<Rightarrow> (u64 list \<times> flexible_type list) option" where
  "collect_block room [] = Some ([], [])"
| "collect_block room (f # fs) =
     (if room = 0 then Some ([], f # fs)
      else if get_type f \<noteq> UNDEFINED then do {
        v \<leftarrow> get_flex_int f;
        (vs, rest) \<leftarrow> collect_block (room - 1) fs;
        Some (v # vs, rest) }
      else collect_block room fs)"

lemma collect_block_length:
  "collect_block room data = Some (vs, rest) \<Longrightarrow> length rest \<le> length data \<and>
     (0 < room \<longrightarrow> data \<noteq> [] \<longrightarrow> length rest < length data)"
proof (induction room data arbitrary: vs rest rule: collect_block.induct)
  case (2 room f fs)
  then show ?case by (fastforce split: if_splits bind_splits)
qed simp

text \<open>The outer loop, for an encoder of one group of values.\<close>

function encode_groups ::
  "(u64 list \<Rightarrow> oarchive \<Rightarrow> oarchive option) \<Rightarrow> flexible_type list \<Rightarrow> oarchive \<Rightarrow> oarchive option"
where
  "encode_groups enc data oarc =
     (if data = [] then Some oarc
      else do {
        (encode_buf, rest) \<leftarrow> collect_block MAX_INTEGERS_PER_BLOCK data;
        if encode_buf = [] then Some oarc
        else do {
          oarc \<leftarrow> enc encode_buf oarc;
          encode_groups enc rest oarc } })"
  by pat_completeness auto
termination
  by (relation "measure (\<lambda>(enc, data, oarc). length data)")
    (auto simp: MAX_INTEGERS_PER_BLOCK_def dest!: collect_block_length)

declare encode_groups.simps [simp del]

definition encode_number :: "oarchive \<Rightarrow> flexible_type list \<Rightarrow> oarchive option" where
  "encode_number oarc data = encode_groups frame_of_reference_encode_128 data oarc"

text \<open>The left and right rotation by one bit that moves the sign bit of a double.\<close>

definition rotate_left :: "u64 \<Rightarrow> u64" where
  "rotate_left x = push_bit 1 x OR drop_bit 63 x"

definition rotate_right :: "u64 \<Rightarrow> u64" where
  "rotate_right x = drop_bit 1 x OR push_bit 63 x"

definition double_group_encode :: "u64 list \<Rightarrow> oarchive \<Rightarrow> oarchive option" where
  "double_group_encode buf oarc = frame_of_reference_encode_128 (map rotate_left buf) oarc"

definition encode_double :: "oarchive \<Rightarrow> flexible_type list \<Rightarrow> oarchive option" where
  "encode_double oarc data = encode_groups double_group_encode data oarc"

text \<open>
  The loop of the number decoders, for a decoder of one group: \<open>buf\<close> holds the decoded values
  that have not been stored yet and \<open>n\<close> is \<open>num_values_to_read\<close>.
\<close>

fun decode_groups ::
  "(iarchive \<Rightarrow> nat \<Rightarrow> (u64 list \<times> iarchive) option) \<Rightarrow> u64 list \<Rightarrow> nat \<Rightarrow> iarchive \<Rightarrow>
     flexible_type list \<Rightarrow> (flexible_type list \<times> iarchive) option"
where
  "decode_groups dec buf n iarc [] = Some ([], iarc)"
| "decode_groups dec buf n iarc (f # fs) =
     (if get_type f \<noteq> UNDEFINED then do {
        (buf, iarc) \<leftarrow> (if buf \<noteq> [] then Some (buf, iarc) else dec iarc (min n MAX_INTEGERS_PER_BLOCK));
        (case buf of
           [] \<Rightarrow> None
         | v # buf \<Rightarrow> do {
             f \<leftarrow> set_flex_int f v;
             (fs, iarc) \<leftarrow> decode_groups dec buf (n - 1) iarc fs;
             Some (f # fs, iarc) }) }
      else do {
        (fs, iarc) \<leftarrow> decode_groups dec buf n iarc fs;
        Some (f # fs, iarc) })"

definition decode_number ::
  "iarchive \<Rightarrow> flexible_type list \<Rightarrow> nat \<Rightarrow> (flexible_type list \<times> iarchive) option" where
  "decode_number iarc ret num_undefined =
     decode_groups frame_of_reference_decode_128 [] (length ret - num_undefined) iarc ret"

definition double_group_decode :: "iarchive \<Rightarrow> nat \<Rightarrow> (u64 list \<times> iarchive) option" where
  "double_group_decode iarc n = do {
     (buf, iarc) \<leftarrow> frame_of_reference_decode_128 iarc n;
     Some (map rotate_right buf, iarc) }"

definition decode_double ::
  "iarchive \<Rightarrow> flexible_type list \<Rightarrow> nat \<Rightarrow> (flexible_type list \<times> iarchive) option" where
  "decode_double iarc ret num_undefined =
     decode_groups double_group_decode [] (length ret - num_undefined) iarc ret"

text \<open>The stream decoders: the values passed to the callback, in order.\<close>

function decode_stream ::
  "(iarchive \<Rightarrow> nat \<Rightarrow> (u64 list \<times> iarchive) option) \<Rightarrow> nat \<Rightarrow> iarchive \<Rightarrow> (u64 list \<times> iarchive) option"
where
  "decode_stream dec num_elements iarc =
     (if num_elements > 0 then do {
        (buf, iarc) \<leftarrow> dec iarc (min num_elements MAX_INTEGERS_PER_BLOCK);
        (vals, iarc) \<leftarrow> decode_stream dec (num_elements - min num_elements MAX_INTEGERS_PER_BLOCK) iarc;
        Some (buf @ vals, iarc) }
      else Some ([], iarc))"
  by pat_completeness auto
termination
  by (relation "measure (\<lambda>(dec, n, iarc). n)") (auto simp: MAX_INTEGERS_PER_BLOCK_def)

declare decode_stream.simps [simp del]

definition decode_number_stream :: "nat \<Rightarrow> iarchive \<Rightarrow> (flexible_type list \<times> iarchive) option" where
  "decode_number_stream num_elements iarc = do {
     (vals, iarc) \<leftarrow> decode_stream frame_of_reference_decode_128 num_elements iarc;
     Some (map FlexInt vals, iarc) }"

definition decode_double_stream :: "nat \<Rightarrow> iarchive \<Rightarrow> (flexible_type list \<times> iarchive) option" where
  "decode_double_stream num_elements iarc = do {
     (vals, iarc) \<leftarrow> decode_stream double_group_decode num_elements iarc;
     Some (map FlexFloat vals, iarc) }"

section \<open>Strings\<close>

text \<open>The values that are not missing.\<close>

definition defined_values :: "flexible_type list \<Rightarrow> flexible_type list" where
  "defined_values data = filter (\<lambda>f. get_type f \<noteq> UNDEFINED) data"

text \<open>
  The loop that builds the dictionary: \<open>unique_values\<close> maps a string to its index, \<open>str_values\<close> are
  the strings in the order of their index, \<open>idx_values\<close> the index of every defined value.
\<close>

fun build_dictionary ::
  "flexible_type list \<Rightarrow> (cstring \<times> nat) list \<Rightarrow> cstring list \<Rightarrow> nat list \<Rightarrow>
     (bool \<times> cstring list \<times> nat list) option"
where
  "build_dictionary [] unique_values str_values idx_values = Some (True, str_values, idx_values)"
| "build_dictionary (f # fs) unique_values str_values idx_values =
     (if get_type f \<noteq> UNDEFINED then do {
        s \<leftarrow> get_flex_string f;
        (case map_of unique_values s of
           Some i \<Rightarrow> build_dictionary fs unique_values str_values (idx_values @ [i])
         | None \<Rightarrow>
             if length unique_values \<ge> 64 then Some (False, str_values, idx_values)
             else let newidx = length unique_values
                  in build_dictionary fs ((s, newidx) # unique_values) (str_values @ [s]) (idx_values @ [newidx])) }
      else build_dictionary fs unique_values str_values idx_values)"

definition write_entry :: "oarchive \<Rightarrow> cstring \<Rightarrow> oarchive" where
  "write_entry oarc str = owrite (variable_encode oarc (of_nat (length str))) str"

definition encode_string :: "oarchive \<Rightarrow> flexible_type list \<Rightarrow> oarchive option" where
  "encode_string oarc data = do {
     (use_dictionary_encoding, str_values, idx_values) \<leftarrow> build_dictionary data [] [] [];
     let oarc = direct_assign oarc (if use_dictionary_encoding then 1 else 0 :: byte)
     in if use_dictionary_encoding
        then let oarc = variable_encode oarc (of_nat (length str_values));
                 oarc = foldl write_entry oarc str_values
             in encode_number oarc (map (\<lambda>i. FlexInt (of_nat i)) idx_values)
        else do {
          strs \<leftarrow> those (map get_flex_string (defined_values data));
          oarc \<leftarrow> encode_number oarc (map (\<lambda>s. FlexInt (of_nat (length s))) strs);
          Some (foldl owrite oarc strs) } }"

definition read_entry :: "iarchive \<Rightarrow> (cstring \<times> iarchive) option" where
  "read_entry iarc = do {
     (str_len, iarc) \<leftarrow> variable_decode iarc;
     iread iarc (unat str_len) }"

fun read_strings :: "u64 list \<Rightarrow> iarchive \<Rightarrow> (cstring list \<times> iarchive) option" where
  "read_strings [] iarc = Some ([], iarc)"
| "read_strings (n # ns) iarc = do {
     (s, iarc) \<leftarrow> iread iarc (unat n);
     (ss, iarc) \<leftarrow> read_strings ns iarc;
     Some (s # ss, iarc) }"

definition decode_string_stream :: "nat \<Rightarrow> iarchive \<Rightarrow> (flexible_type list \<times> iarchive) option" where
  "decode_string_stream num_elements iarc =
     (let idx_values = replicate num_elements (flex_reset INTEGER) in do {
     (use_dictionary_encoding :: byte, iarc) \<leftarrow> read_into iarc;
     if use_dictionary_encoding \<noteq> 0 then do {
       (num_values, iarc) \<leftarrow> variable_decode iarc;
       (str_values, iarc) \<leftarrow> load_n read_entry (unat num_values) iarc;
       (idx_values, iarc) \<leftarrow> decode_number iarc idx_values 0;
       idx \<leftarrow> those (map get_flex_int idx_values);
       vals \<leftarrow> those (map (\<lambda>i. if unat i < length str_values then Some (str_values ! unat i) else None) idx);
       Some (map FlexString vals, iarc) }
     else do {
       (idx_values, iarc) \<leftarrow> decode_number iarc idx_values 0;
       lens \<leftarrow> those (map get_flex_int idx_values);
       (vals, iarc) \<leftarrow> read_strings lens iarc;
       Some (map FlexString vals, iarc) } })"

text \<open>The callback of \<open>decode_string\<close> and \<open>decode_vector\<close>: each value goes to the next defined place.\<close>

fun place_values :: "flexible_type list \<Rightarrow> flexible_type list \<Rightarrow> flexible_type list option" where
  "place_values ret [] = Some ret"
| "place_values [] (v # vs) = None"
| "place_values (r # rs) (v # vs) =
     (if get_type r = UNDEFINED then map_option ((#) r) (place_values rs (v # vs))
      else map_option ((#) v) (place_values rs vs))"

definition decode_string ::
  "iarchive \<Rightarrow> flexible_type list \<Rightarrow> nat \<Rightarrow> (flexible_type list \<times> iarchive) option" where
  "decode_string iarc ret num_undefined = do {
     (vals, iarc) \<leftarrow> decode_string_stream (length ret - num_undefined) iarc;
     ret \<leftarrow> place_values ret vals;
     Some (ret, iarc) }"

section \<open>Vectors\<close>

definition encode_vector :: "oarchive \<Rightarrow> flexible_type list \<Rightarrow> oarchive option" where
  "encode_vector oarc data = do {
     vecs \<leftarrow> those (map get_flex_vec (defined_values data));
     oarc \<leftarrow> encode_number oarc (map (\<lambda>v. FlexInt (of_nat (length v))) vecs);
     encode_double oarc (map FlexFloat (concat vecs)) }"

text \<open>The loop that cuts the values into vectors of the given lengths.\<close>

fun split_values :: "u64 list \<Rightarrow> u64 list \<Rightarrow> u64 list list option" where
  "split_values [] vals = Some []"
| "split_values (n # ns) vals =
     (if unat n \<le> length vals
      then map_option ((#) (take (unat n) vals)) (split_values ns (drop (unat n) vals)) else None)"

definition decode_vector_stream :: "nat \<Rightarrow> iarchive \<Rightarrow> (flexible_type list \<times> iarchive) option" where
  "decode_vector_stream num_elements iarc = do {
     (lengths, iarc) \<leftarrow> decode_number iarc (replicate num_elements flex_new) 0;
     lens \<leftarrow> those (map get_flex_int lengths);
     let total_num_values = foldl (+) 0 lens in do {
     (values, iarc) \<leftarrow> decode_double iarc (replicate (unat total_num_values) flex_new) 0;
     vals \<leftarrow> those (map get_flex_float values);
     vecs \<leftarrow> split_values lens vals;
     Some (map FlexVec vecs, iarc) } }"

definition decode_vector ::
  "iarchive \<Rightarrow> flexible_type list \<Rightarrow> nat \<Rightarrow> (flexible_type list \<times> iarchive) option" where
  "decode_vector iarc ret num_undefined = do {
     (vals, iarc) \<leftarrow> decode_vector_stream (length ret - num_undefined) iarc;
     ret \<leftarrow> place_values ret vals;
     Some (ret, iarc) }"

section \<open>Typed blocks\<close>

definition type_index :: "flexible_type \<Rightarrow> nat" where
  "type_index f = unat (flex_type_code (get_type f))"

text \<open>The visitor loop over the defined values for the types without an encoding of their own.\<close>

definition serialize_all :: "oarchive \<Rightarrow> flexible_type list \<Rightarrow> oarchive" where
  "serialize_all oarc data = foldl (serializer flex_save) oarc (defined_values data)"

fun deserialize_all :: "iarchive \<Rightarrow> flexible_type list \<Rightarrow> (flexible_type list \<times> iarchive) option" where
  "deserialize_all iarc [] = Some ([], iarc)"
| "deserialize_all iarc (r # rs) =
     (if get_type r \<noteq> UNDEFINED then do {
        (v, iarc) \<leftarrow> deserializer flex_load (get_type r) iarc;
        (vs, iarc) \<leftarrow> deserialize_all iarc rs;
        Some (v # vs, iarc) }
      else do {
        (vs, iarc) \<leftarrow> deserialize_all iarc rs;
        Some (r # vs, iarc) })"

text \<open>The type specific encoding, chosen by the types that appear in the block.\<close>

definition encode_content :: "fixed_dense_bitset \<Rightarrow> oarchive \<Rightarrow> flexible_type list \<Rightarrow> oarchive option" where
  "encode_content types_appeared oarc data = do {
     is_int \<leftarrow> fb_get types_appeared (unat (flex_type_code INTEGER));
     is_float \<leftarrow> fb_get types_appeared (unat (flex_type_code FLOAT));
     is_string \<leftarrow> fb_get types_appeared (unat (flex_type_code STRING));
     is_vector \<leftarrow> fb_get types_appeared (unat (flex_type_code VECTOR));
     if is_int then encode_number oarc data
     else if is_float then encode_double oarc data
     else if is_string then encode_string oarc data
     else if is_vector then encode_vector oarc data
     else Some (serialize_all oarc data) }"

text \<open>
  The bit field of the missing values: a bitset of \<open>n\<close> bits, cleared, with the bits of the missing
  positions set.
\<close>

definition undefined_bitset :: "flexible_type list \<Rightarrow> dense_bitset option" where
  "undefined_bitset data =
     set_each db_set_bit_unsync (db_clear (db_make (\<lambda>_. 0) (length data)))
       (filter (\<lambda>i. get_type (data ! i) = UNDEFINED) [0..<length data])"

definition typed_encode ::
  "flexible_type list \<Rightarrow> block_info \<Rightarrow> oarchive \<Rightarrow> (block_info \<times> oarchive) option"
where
  "typed_encode data block oarc =
     (let block = block\<lparr>bi_flags := bi_flags block OR IS_FLEXIBLE_TYPE, bi_num_elem := of_nat (length data)\<rparr>;
          finish = (\<lambda>block oarc. (block\<lparr>bi_block_size := of_nat (o_off oarc)\<rparr>, oarc)) in do {
     types_appeared \<leftarrow> set_each fb_set_bit_unsync (fb_clear (fb_new 16)) (map type_index data);
     has_undefined \<leftarrow> fb_get types_appeared (unat (flex_type_code UNDEFINED));
     let num_types = of_nat (fb_popcount types_appeared) :: byte;
         oarc = direct_assign oarc num_types
     in if num_types = 0 then Some (finish block oarc)
        else if num_types = 1 then
          (let oarc = direct_assign oarc (flex_type_code (get_type (hd data)))
           in if get_type (hd data) = UNDEFINED then Some (finish block oarc)
              else map_option (finish block) (encode_content types_appeared oarc data))
        else if num_types = 2 \<and> has_undefined then do {
          ts \<leftarrow> fb_iterate types_appeared;
          d \<leftarrow> undefined_bitset data;
          let oarc = (case find (\<lambda>t. t \<noteq> unat (flex_type_code UNDEFINED)) ts of
                        Some t \<Rightarrow> direct_assign oarc (of_nat t :: byte) | None \<Rightarrow> oarc);
              oarc = owrite oarc (words_bytes (db_array d))
          in map_option (finish block) (encode_content types_appeared oarc data) }
        else
          Some (finish (block\<lparr>bi_flags := bi_flags block OR MULTIPLE_TYPE_BLOCK\<rparr>)
                  (vector_save flex_save oarc data)) })"

text \<open>Reading the bit field into a bitset of \<open>n\<close> bits.\<close>

definition read_bitset :: "nat \<Rightarrow> iarchive \<Rightarrow> (dense_bitset \<times> iarchive) option" where
  "read_bitset n iarc =
     (let d = db_clear (db_make (\<lambda>_. 0) n) in do {
     (bs, iarc) \<leftarrow> iread iarc (8 * db_arrlen d);
     Some (d\<lparr>db_array := bytes_words (db_arrlen d) bs\<rparr>, iarc) })"

text \<open>\<open>ret[t].reset(UNDEFINED)\<close> for the positions of the bit field.\<close>

fun reset_undefined :: "flexible_type list \<Rightarrow> nat list \<Rightarrow> flexible_type list option" where
  "reset_undefined ret [] = Some ret"
| "reset_undefined ret (t # ts) =
     (if t < length ret then reset_undefined (ret[t := flex_reset UNDEFINED]) ts else None)"

definition decode_content ::
  "flex_type_enum \<Rightarrow> iarchive \<Rightarrow> flexible_type list \<Rightarrow> nat \<Rightarrow> (flexible_type list \<times> iarchive) option" where
  "decode_content column_type iarc ret num_undefined =
     (if column_type = INTEGER then decode_number iarc ret num_undefined
      else if column_type = FLOAT then decode_double iarc ret num_undefined
      else if column_type = STRING then decode_string iarc ret num_undefined
      else if column_type = VECTOR then decode_vector iarc ret num_undefined
      else deserialize_all iarc ret)"

text \<open>
  \<open>typed_decode\<close> on the buffer \<open>start\<close> of \<open>len\<close> bytes and the previous contents of \<open>ret\<close>: the
  return value and the contents of \<open>ret\<close>.
\<close>

definition typed_decode ::
  "block_info \<Rightarrow> byte list \<Rightarrow> nat \<Rightarrow> flexible_type list \<Rightarrow> (bool \<times> flexible_type list) option"
where
  "typed_decode info start len ret =
     (if bi_flags info AND IS_FLEXIBLE_TYPE = 0 then Some (False, ret)
      else let iarc = iarchive_new start len;
               dsize = unat (bi_num_elem info);
               ret = resize_to flex_new dsize ret;
               finish = (\<lambda>ret. Some (length ret = unat (bi_num_elem info), ret)) in do {
     (num_types :: byte, iarc) \<leftarrow> read_into iarc;
     if bi_flags info AND MULTIPLE_TYPE_BLOCK = 0 then
       (if num_types = 0 then Some (True, ret)
        else if num_types = 1 then do {
          (c :: byte, iarc) \<leftarrow> read_into iarc;
          column_type \<leftarrow> flex_type_of_code c;
          let ret = map (\<lambda>_. flex_reset column_type) ret
          in if column_type = UNDEFINED then Some (True, ret)
             else do {
               (ret, iarc) \<leftarrow> decode_content column_type iarc ret 0;
               finish ret } }
        else if num_types = 2 then do {
          (c :: byte, iarc) \<leftarrow> read_into iarc;
          column_type \<leftarrow> flex_type_of_code c;
          let ret = map (\<lambda>_. flex_reset column_type) ret in do {
          (d, iarc) \<leftarrow> read_bitset dsize iarc;
          ts \<leftarrow> db_iterate d;
          ret \<leftarrow> reset_undefined ret ts;
          (ret, iarc) \<leftarrow> decode_content column_type iarc ret (db_popcount d);
          finish ret } }
        else None)
     else do {
       (ret, iarc) \<leftarrow> vector_load flex_load iarc;
       finish ret } })"

text \<open>
  The stream decoder. \<open>skip_undefined\<close> is the loop that passes \<open>FLEX_UNDEFINED\<close> to the callback from
  \<open>last_id\<close> on: the number of calls. Without a bit field there are no missing values to report.
\<close>

function skip_undefined :: "dense_bitset \<Rightarrow> nat \<Rightarrow> nat \<Rightarrow> nat option" where
  "skip_undefined bitmap dsize last_id =
     (if last_id < dsize then do {
        u \<leftarrow> db_get bitmap last_id;
        if u then map_option Suc (skip_undefined bitmap dsize (last_id + 1)) else Some 0 }
      else Some 0)"
  by pat_completeness auto
termination
  by (relation "measure (\<lambda>(bitmap, dsize, last_id). dsize - last_id)") auto

declare skip_undefined.simps [simp del]

text \<open>The calls of \<open>stream_callback\<close> for a list of values: the output and the new \<open>last_id\<close>.\<close>

fun stream_values ::
  "dense_bitset \<Rightarrow> nat \<Rightarrow> nat \<Rightarrow> nat \<Rightarrow> flexible_type list \<Rightarrow> (flexible_type list \<times> nat) option" where
  "stream_values bitmap num_undefined dsize last_id [] = Some ([], last_id)"
| "stream_values bitmap num_undefined dsize last_id (v # vs) = do {
     k \<leftarrow> (if num_undefined > 0 then skip_undefined bitmap dsize last_id else Some 0);
     (out, last_id) \<leftarrow> stream_values bitmap num_undefined dsize (last_id + k + 1) vs;
     Some (replicate k FlexUndefined @ v # out, last_id) }"

text \<open>The loop of the other types, over all positions; it does not move \<open>last_id\<close>.\<close>

fun stream_others ::
  "dense_bitset \<Rightarrow> nat \<Rightarrow> flex_type_enum \<Rightarrow> iarchive \<Rightarrow> nat list \<Rightarrow> (flexible_type list \<times> iarchive) option" where
  "stream_others bitmap num_undefined column_type iarc [] = Some ([], iarc)"
| "stream_others bitmap num_undefined column_type iarc (i # is) = do {
     u \<leftarrow> (if num_undefined > 0 then db_get bitmap i else Some False);
     (v, iarc) \<leftarrow> (if u then Some (FlexUndefined, iarc) else deserializer flex_load column_type iarc);
     (vs, iarc) \<leftarrow> stream_others bitmap num_undefined column_type iarc is;
     Some (v # vs, iarc) }"

definition stream_content ::
  "flex_type_enum \<Rightarrow> nat \<Rightarrow> iarchive \<Rightarrow> dense_bitset \<Rightarrow> nat \<Rightarrow> flexible_type list option" where
  "stream_content column_type dsize iarc bitmap num_undefined =
     (let elements_to_decode = dsize - num_undefined;
          stream = (\<lambda>r. do { (vals, iarc) \<leftarrow> r; stream_values bitmap num_undefined dsize 0 vals }) in do {
     (out, last_id) \<leftarrow>
       (if column_type = INTEGER then stream (decode_number_stream elements_to_decode iarc)
        else if column_type = FLOAT then stream (decode_double_stream elements_to_decode iarc)
        else if column_type = STRING then stream (decode_string_stream elements_to_decode iarc)
        else if column_type = VECTOR then stream (decode_vector_stream elements_to_decode iarc)
        else do {
          (vs, iarc) \<leftarrow> stream_others bitmap num_undefined column_type iarc [0..<dsize];
          Some (vs, 0) });
     k \<leftarrow> (if num_undefined > 0 then skip_undefined bitmap dsize last_id else Some 0);
     Some (out @ replicate k FlexUndefined) })"

text \<open>The return value and the values passed to the callback.\<close>

definition typed_decode_stream_callback ::
  "block_info \<Rightarrow> byte list \<Rightarrow> nat \<Rightarrow> (bool \<times> flexible_type list) option"
where
  "typed_decode_stream_callback info start len =
     (if bi_flags info AND IS_FLEXIBLE_TYPE = 0 then Some (False, [])
      else let iarc = iarchive_new start len;
               dsize = unat (bi_num_elem info) in do {
     (num_types :: byte, iarc) \<leftarrow> read_into iarc;
     if bi_flags info AND MULTIPLE_TYPE_BLOCK = 0 then
       (if num_types = 0 then Some (True, [])
        else if num_types = 1 then do {
          (c :: byte, iarc) \<leftarrow> read_into iarc;
          column_type \<leftarrow> flex_type_of_code c;
          if column_type = UNDEFINED then Some (True, replicate dsize FlexUndefined)
          else do {
            out \<leftarrow> stream_content column_type dsize iarc db_new 0;
            Some (True, out) } }
        else if num_types = 2 then do {
          (c :: byte, iarc) \<leftarrow> read_into iarc;
          column_type \<leftarrow> flex_type_of_code c;
          (d, iarc) \<leftarrow> read_bitset dsize iarc;
          out \<leftarrow> stream_content column_type dsize iarc d (db_popcount d);
          Some (True, out) }
        else None)
     else do {
       (values, iarc) \<leftarrow> vector_load flex_load iarc;
       Some (True, values) } })"

section \<open>Number groups\<close>

lemma those_Cons: "those (x # xs) = (case x of None \<Rightarrow> None | Some y \<Rightarrow> map_option ((#) y) (those xs))"
  by simp

lemma those_eq_Some: "those xs = Some ys \<longleftrightarrow> xs = map Some ys"
  by (induction xs arbitrary: ys) (auto split: option.splits)

lemma defined_values_simps [simp]:
  "defined_values [] = []"
  "defined_values (f # fs) = (if get_type f \<noteq> UNDEFINED then f # defined_values fs else defined_values fs)"
  by (simp_all add: defined_values_def)

lemma collect_block:
  "map get_flex_int (defined_values data) = map Some vs \<Longrightarrow>
     \<exists>rest. collect_block room data = Some (take room vs, rest) \<and>
       map get_flex_int (defined_values rest) = map Some (drop room vs)"
proof (induction room data arbitrary: vs rule: collect_block.induct)
  case (2 room f fs)
  show ?case
  proof (cases "room = 0 \<or> get_type f = UNDEFINED")
    case True
    then show ?thesis using 2(2,3) by (cases "room = 0") auto
  next
    case False
    then obtain v vs' where v: "vs = v # vs'" "get_flex_int f = Some v"
      "map get_flex_int (defined_values fs) = map Some vs'"
      using 2(3) by (cases vs) auto
    then show ?thesis using 2(1)[of v vs'] False by (cases room) auto
  qed
qed simp

text \<open>The bytes of a sequence of values: its groups of 128 one after the other.\<close>

function groups_wire :: "('a list \<Rightarrow> byte list) \<Rightarrow> 'a list \<Rightarrow> byte list" where
  "groups_wire wire vs = (if vs = [] then [] else wire (take 128 vs) @ groups_wire wire (drop 128 vs))"
  by pat_completeness auto
termination by (relation "measure (\<lambda>(wire, vs). length vs)") auto

declare groups_wire.simps [simp del]

lemma groups_wire_Nil [simp]: "groups_wire wire [] = []"
  by (simp add: groups_wire.simps)

text \<open>The contract between the number encoders and decoders and the code of one group.\<close>

locale number_codec =
  group_codec encode decode wire "\<lambda>xs. length xs \<le> 128"
  for encode :: "u64 list \<Rightarrow> oarchive \<Rightarrow> oarchive option"
    and decode :: "iarchive \<Rightarrow> nat \<Rightarrow> (u64 list \<times> iarchive) option"
    and wire :: "u64 list \<Rightarrow> byte list"
begin

lemma encode_groups_data:
  "map get_flex_int (defined_values data) = map Some vs \<Longrightarrow> o_wf oarc \<Longrightarrow>
     \<exists>oarc'. encode_groups encode data oarc = Some oarc' \<and> o_wf oarc' \<and>
       o_data oarc' = o_data oarc @ groups_wire wire vs"
proof (induction data arbitrary: vs oarc rule: length_induct)
  case (1 data)
  obtain rest where rest: "collect_block 128 data = Some (take 128 vs, rest)"
    "map get_flex_int (defined_values rest) = map Some (drop 128 vs)"
    using collect_block[OF 1(2)] by blast
  show ?case
  proof (cases "data = [] \<or> vs = []")
    case True
    then show ?thesis using 1(2,3) rest(1)
      by (auto simp: encode_groups.simps[of encode data] MAX_INTEGERS_PER_BLOCK_def)
  next
    case False
    obtain o1 where o1: "encode (take 128 vs) oarc = Some o1" "o_wf o1"
      "o_data o1 = o_data oarc @ wire (take 128 vs)"
      using encode_data[of "take 128 vs" oarc] 1(3) by auto
    have "length rest < length data" using collect_block_length[OF rest(1)] False by simp
    then obtain o2 where "encode_groups encode rest o1 = Some o2" "o_wf o2"
      "o_data o2 = o_data o1 @ groups_wire wire (drop 128 vs)"
      using 1(1) rest(2) o1(2) by blast
    then show ?thesis using False rest(1) o1
      by (auto simp: encode_groups.simps[of encode data] MAX_INTEGERS_PER_BLOCK_def groups_wire.simps[of wire vs])
  qed
qed

lemma decode_stream_wire:
  "i_wf iarc \<Longrightarrow> i_rest iarc = groups_wire wire vs @ r \<Longrightarrow>
     decode_stream decode (length vs) iarc = Some (vs, i_adv (length (groups_wire wire vs)) iarc)"
proof (induction vs arbitrary: iarc rule: length_induct)
  case (1 vs)
  show ?case
  proof (cases "vs = []")
    case False
    let ?g = "take 128 vs" and ?i = "i_adv (length (wire (take 128 vs))) iarc"
    have rest: "i_rest iarc = wire ?g @ (groups_wire wire (drop 128 vs) @ r)"
      using 1(3) False by (simp add: groups_wire.simps[of wire vs])
    have d: "decode iarc (min (length vs) 128) = Some (?g, ?i)"
      using decode_wire[OF _ 1(2) rest] by (simp add: min.commute)
    have "decode_stream decode (length (drop 128 vs)) ?i =
        Some (drop 128 vs, i_adv (length (groups_wire wire (drop 128 vs))) ?i)"
      using 1(1)[rule_format, of "drop 128 vs" ?i] i_adv_wf[OF 1(2) rest] False by simp
    moreover have "length vs - min (length vs) 128 = length (drop 128 vs)" by simp
    ultimately show ?thesis using False d
      by (simp add: decode_stream.simps[of decode "length vs"] MAX_INTEGERS_PER_BLOCK_def
          groups_wire.simps[of wire vs])
  qed (simp add: decode_stream.simps)
qed

lemma decode_groups_wire:
  assumes c: "\<And>x v. set_flex_int (c x) v = Some (c v)" "\<And>x. get_type (c x) \<noteq> UNDEFINED"
  shows "list_all (\<lambda>f. get_type f = UNDEFINED \<or> (\<exists>x. f = c x)) ret \<Longrightarrow>
     length (defined_values ret) = length buf + length vs \<Longrightarrow>
     i_wf iarc \<Longrightarrow> i_rest iarc = groups_wire wire vs @ r \<Longrightarrow>
     \<exists>ret'. place_values ret (map c (buf @ vs)) = Some ret' \<and>
       decode_groups decode buf (length buf + length vs) iarc ret =
         Some (ret', i_adv (length (groups_wire wire vs)) iarc)"
proof (induction ret arbitrary: buf vs iarc)
  case (Cons f fs)
  show ?case
  proof (cases "get_type f = UNDEFINED")
    case True
    then show ?thesis using Cons.IH[of buf vs iarc] Cons.prems
      by (cases "map c (buf @ vs)") auto
  next
    case False
    then obtain x where f: "f = c x" using Cons.prems by auto
    show ?thesis
    proof (cases buf)
      case (Cons v buf')
      then show ?thesis using Cons.IH[of buf' vs iarc] Cons.prems c f by fastforce
    next
      case Nil
      let ?g = "take 128 vs" and ?i = "i_adv (length (wire (take 128 vs))) iarc"
      have ne: "vs \<noteq> []" using Cons.prems(2) False Nil by auto
      have rest: "i_rest iarc = wire ?g @ (groups_wire wire (drop 128 vs) @ r)"
        using Cons.prems(4) ne by (simp add: groups_wire.simps[of wire vs])
      have d: "decode iarc (min (length vs) 128) = Some (?g, ?i)"
        using decode_wire[OF _ Cons.prems(3) rest] by (simp add: min.commute)
      obtain v g where g: "?g = v # g" using ne by (cases vs) auto
      obtain D where D: "drop 128 vs = D" by blast
      have vs: "vs = v # g @ D" using append_take_drop_id[of 128 vs] g D by simp
      have "length (defined_values fs) = length g + length D" using Cons.prems(2) False Nil vs by simp
      then obtain ret' where "place_values fs (map c (g @ D)) = Some ret'"
        "decode_groups decode g (length g + length D) ?i fs = Some (ret', i_adv (length (groups_wire wire D)) ?i)"
        using Cons.IH[of g D ?i] Cons.prems(1) i_adv_wf[OF Cons.prems(3) rest] D by auto
      moreover have "groups_wire wire vs = wire ?g @ groups_wire wire D"
        using ne by (simp add: groups_wire.simps[of wire vs] D)
      moreover have "decode iarc (min (Suc (length g + length D)) 128) = Some (v # g, ?i)"
        using d unfolding g by (simp add: vs)
      moreover have "map c vs = c v # map c (g @ D)" "length vs = Suc (length g + length D)" by (simp_all add: vs)
      ultimately show ?thesis using False c(1) f Nil by (simp add: MAX_INTEGERS_PER_BLOCK_def)
    qed
  qed
qed simp
end

lemma rotate_right_left [simp]: "rotate_right (rotate_left x) = x"
proof (rule bit_word_eqI)
  fix n assume "n < LENGTH(64)"
  then show "bit (rotate_right (rotate_left x)) n = bit x n"
    by (cases "n = 63") (auto simp: rotate_right_def rotate_left_def bit_simps dest: bit_imp_le_length
      simp del: push_bit_Suc drop_bit_Suc)
qed

definition double_wire :: "u64 list \<Rightarrow> byte list" where
  "double_wire xs = for_wire (map rotate_left xs)"

interpretation num: number_codec frame_of_reference_encode_128 frame_of_reference_decode_128 for_wire
  by unfold_locales

interpretation dbl: number_codec double_group_encode double_group_decode double_wire
proof
  fix xs :: "u64 list" and oarc assume "length xs \<le> 128" "o_wf oarc"
  then show "\<exists>oarc'. double_group_encode xs oarc = Some oarc' \<and> o_wf oarc' \<and>
      o_data oarc' = o_data oarc @ double_wire xs"
    using for_codec.encode_data[of "map rotate_left xs" oarc]
    by (simp add: double_group_encode_def double_wire_def)
next
  fix xs :: "u64 list" and iarc r
  assume "length xs \<le> 128" "i_wf iarc" "i_rest iarc = double_wire xs @ r"
  then show "double_group_decode iarc (length xs) = Some (xs, i_adv (length (double_wire xs)) iarc)"
    using for_codec.decode_wire[of "map rotate_left xs" iarc r]
    by (simp add: double_group_decode_def double_wire_def comp_def)
qed

text \<open>A vector of \<open>c\<close> slots without missing values takes the decoded values as they are.\<close>

lemma place_values_all:
  "list_all (\<lambda>f. get_type f \<noteq> UNDEFINED) ret \<Longrightarrow> length ret = length vals \<Longrightarrow> place_values ret vals = Some vals"
proof (induction ret arbitrary: vals)
  case (Cons r ret)
  then show ?case by (cases vals) auto
qed simp

lemma defined_values_all: "list_all (\<lambda>f. get_type f \<noteq> UNDEFINED) ret \<Longrightarrow> defined_values ret = ret"
  by (induction ret) auto

lemma decode_number_all:
  assumes "i_wf iarc" "i_rest iarc = groups_wire for_wire vs @ r" "n = length vs"
  shows "decode_number iarc (replicate n (FlexInt x)) 0 =
    Some (map FlexInt vs, i_adv (length (groups_wire for_wire vs)) iarc)"
proof -
  have d: "list_all (\<lambda>f. get_type f \<noteq> UNDEFINED) (replicate n (FlexInt x))" by (induction n) auto
  have "list_all (\<lambda>f. get_type f = UNDEFINED \<or> (\<exists>y. f = FlexInt y)) (replicate n (FlexInt x))"
    by (induction n) auto
  from num.decode_groups_wire[of FlexInt, OF _ _ this, of "[]" vs iarc r] assms
    place_values_all[OF d, of "map FlexInt vs"] defined_values_all[OF d]
  show ?thesis by (simp add: decode_number_def)
qed

lemma decode_double_all:
  assumes "i_wf iarc" "i_rest iarc = groups_wire double_wire vs @ r" "n = length vs"
  shows "decode_double iarc (replicate n (FlexInt x)) 0 =
    Some (map FlexInt vs, i_adv (length (groups_wire double_wire vs)) iarc)"
proof -
  have d: "list_all (\<lambda>f. get_type f \<noteq> UNDEFINED) (replicate n (FlexInt x))" by (induction n) auto
  have "list_all (\<lambda>f. get_type f = UNDEFINED \<or> (\<exists>y. f = FlexInt y)) (replicate n (FlexInt x))"
    by (induction n) auto
  from dbl.decode_groups_wire[of FlexInt, OF _ _ this, of "[]" vs iarc r] assms
    place_values_all[OF d, of "map FlexInt vs"] defined_values_all[OF d]
  show ?thesis by (simp add: decode_double_def)
qed

lemma encode_number_all:
  assumes "o_wf oarc"
  shows "\<exists>oarc'. encode_number oarc (map (\<lambda>x. FlexInt (g x)) xs) = Some oarc' \<and> o_wf oarc' \<and>
    o_data oarc' = o_data oarc @ groups_wire for_wire (map g xs)"
proof -
  have "map get_flex_int (defined_values (map (\<lambda>x. FlexInt (g x)) xs)) = map Some (map g xs)"
    by (induction xs) auto
  from num.encode_groups_data[OF this assms] show ?thesis by (simp add: encode_number_def)
qed

lemma those_map_FlexInt [simp]:
  "those (map get_flex_int (map FlexInt vs)) = Some vs" "those (map get_flex_float (map FlexInt vs)) = Some vs"
  by (simp_all add: those_eq_Some comp_def)

section \<open>String blocks\<close>

definition entry_wire :: "cstring \<Rightarrow> byte list" where
  "entry_wire s = variable_wire (of_nat (length s)) @ s"

interpretation entry_codec: codec write_entry read_entry entry_wire "\<lambda>s. length s < 2 ^ 64"
proof
  fix iarc :: iarchive and s r
  assume wf: "i_wf iarc" and l: "length s < 2 ^ 64" and "i_rest iarc = entry_wire s @ r"
  then have rest: "i_rest iarc = variable_wire (of_nat (length s)) @ (s @ r)" by (simp add: entry_wire_def)
  note a = i_adv_wf[OF wf rest]
  show "read_entry iarc = Some (s, i_adv (length (entry_wire s)) iarc)"
    using variable_codec.load_wire[OF wf _ rest] iread_app[OF a] l
    by (simp add: read_entry_def entry_wire_def unat_of_nat_u64)
qed (simp_all add: write_entry_def entry_wire_def archive_simps)

lemma build_dictionary:
  assumes "map get_flex_string (defined_values data) = map Some ss"
    and "length u = length strs" "length strs \<le> 64"
    and "\<And>s i. map_of u s = Some i \<Longrightarrow> i < length strs \<and> strs ! i = s"
    and "list_all (\<lambda>i. i < length strs) idx" "set strs \<subseteq> S" "set ss \<subseteq> S"
  shows "\<exists>use strs' idx'. build_dictionary data u strs idx = Some (use, strs', idx') \<and>
     (use \<longrightarrow> length strs' \<le> 64 \<and> list_all (\<lambda>i. i < length strs') idx' \<and> set strs' \<subseteq> S \<and>
       map ((!) strs') idx' = map ((!) strs) idx @ ss)"
  using assms
proof (induction data arbitrary: u strs idx ss)
  case (Cons f fs)
  show ?case
  proof (cases "get_type f = UNDEFINED")
    case True
    then show ?thesis using Cons.IH[OF _ Cons.prems(2-)] Cons.prems(1) by simp
  next
    case False
    then obtain s ss' where s: "ss = s # ss'" "get_flex_string f = Some s"
      "map get_flex_string (defined_values fs) = map Some ss'"
      using Cons.prems(1) by (cases ss) auto
    show ?thesis
    proof (cases "map_of u s")
      case (Some i)
      then show ?thesis
        using Cons.IH[OF s(3) Cons.prems(2-4), of "idx @ [i]"] Cons.prems(4)[OF Some] Cons.prems(5-7) False s
        by simp
    next
      case None
      show ?thesis
      proof (cases "length u \<ge> 64")
        case lt: False
        have n: "(strs @ [s]) ! i = strs ! i" if "i < length strs" for i using that by (simp add: nth_append)
        then have m: "map ((!) (strs @ [s])) idx = map ((!) strs) idx"
          using Cons.prems(5) by (auto simp: list_all_iff)
        have "list_all (\<lambda>i. i < Suc (length strs)) idx" using Cons.prems(5) by (auto simp: list_all_iff)
        moreover have "i < length (strs @ [s]) \<and> (strs @ [s]) ! i = s'"
          if "map_of ((s, length u) # u) s' = Some i" for s' i
          using that Cons.prems(2) Cons.prems(4)[of s' i] n[of i] by (auto simp: nth_append split: if_splits)
        ultimately show ?thesis
          using Cons.IH[OF s(3), of "(s, length u) # u" "strs @ [s]" "idx @ [length u]"] s None lt False
            Cons.prems(2,3,6,7) m by (simp add: Let_def)
      qed (use None False s in \<open>auto intro: exI[of _ False]\<close>)
    qed
  qed
qed (auto intro: exI[of _ True])

lemma foldl_owrite:
  "o_wf oarc \<Longrightarrow> o_wf (foldl owrite oarc ss) \<and> o_data (foldl owrite oarc ss) = o_data oarc @ concat ss"
  by (induction ss arbitrary: oarc) (auto simp: archive_simps)

lemma read_strings:
  "i_wf iarc \<Longrightarrow> list_all (\<lambda>s. length s < 2 ^ 64) ss \<Longrightarrow> i_rest iarc = concat ss @ r \<Longrightarrow>
     read_strings (map (\<lambda>s. of_nat (length s)) ss) iarc = Some (ss, i_adv (length (concat ss)) iarc)"
proof (induction ss arbitrary: iarc)
  case (Cons s ss)
  have rest: "i_rest iarc = s @ (concat ss @ r)" using Cons.prems by simp
  show ?case
    using iread_app[OF Cons.prems(1) rest] Cons.IH[OF i_adv_wf(1)[OF Cons.prems(1) rest]] Cons.prems(2)
      i_adv_wf(2)[OF Cons.prems(1) rest] by (simp add: unat_of_nat_u64)
qed simp

definition dictionary_wire :: "cstring list \<Rightarrow> nat list \<Rightarrow> byte list" where
  "dictionary_wire strs idx = bytes_of (1 :: byte) @ variable_wire (of_nat (length strs)) @
     concat (map entry_wire strs) @ groups_wire for_wire (map of_nat idx)"

definition direct_wire :: "cstring list \<Rightarrow> byte list" where
  "direct_wire ss = bytes_of (0 :: byte) @ groups_wire for_wire (map (\<lambda>s. of_nat (length s)) ss) @ concat ss"

lemma decode_dictionary:
  assumes wf: "i_wf iarc" and rest: "i_rest iarc = dictionary_wire strs idx @ r"
    and strs: "length strs \<le> 64" "list_all (\<lambda>s. length s < 2 ^ 64) strs"
    and idx: "list_all (\<lambda>i. i < length strs) idx"
  shows "decode_string_stream (length idx) iarc =
    Some (map FlexString (map ((!) strs) idx), i_adv (length (dictionary_wire strs idx)) iarc)"
proof -
  let ?n = "of_nat (length strs) :: u64" and ?idx = "map of_nat idx :: u64 list"
  have n: "unat ?n = length strs" using strs(1) by (intro unat_of_nat_u64) simp
  have u: "unat (of_nat i :: u64) = i" if "i \<in> set idx" for i
    using that idx strs(1) by (intro unat_of_nat_u64) (auto simp: list_all_iff)
  have r0: "i_rest iarc = bytes_of (1 :: byte) @ variable_wire ?n @ concat (map entry_wire strs) @
      groups_wire for_wire ?idx @ r" using rest by (simp add: dictionary_wire_def)
  note a1 = i_adv_wf[OF wf r0]
  note a2 = i_adv_wf[OF a1]
  note a3 = i_adv_wf[OF a2]
  have "those (map (\<lambda>i. if unat i < length strs then Some (strs ! unat i) else None) ?idx) = Some (map ((!) strs) idx)"
    using u idx by (simp add: those_eq_Some list_all_iff)
  then show ?thesis
    using read_into_app[OF wf r0] variable_codec.load_wire[OF a1(1) _ a1(2)]
      entry_codec.load_n_wire[OF a2(1) strs(2) a2(2) refl] decode_number_all[OF a3, of "length idx" 0]
    by (simp add: decode_string_stream_def dictionary_wire_def n add.assoc del: map_map)
qed

lemma decode_direct:
  assumes wf: "i_wf iarc" and rest: "i_rest iarc = direct_wire ss @ r"
    and ss: "list_all (\<lambda>s. length s < 2 ^ 64) ss"
  shows "decode_string_stream (length ss) iarc = Some (map FlexString ss, i_adv (length (direct_wire ss)) iarc)"
proof -
  let ?l = "map (\<lambda>s. of_nat (length s)) ss :: u64 list"
  have r0: "i_rest iarc = bytes_of (0 :: byte) @ groups_wire for_wire ?l @ concat ss @ r"
    using rest by (simp add: direct_wire_def)
  note a1 = i_adv_wf[OF wf r0]
  note a2 = i_adv_wf[OF a1]
  show ?thesis
    using read_into_app[OF wf r0] decode_number_all[OF a1, of "length ss" 0] read_strings[OF a2(1) ss a2(2)]
    by (simp add: decode_string_stream_def direct_wire_def add.assoc del: map_map)
qed

lemma string_block:
  assumes ss: "map get_flex_string (defined_values data) = map Some ss" "list_all (\<lambda>s. length s < 2 ^ 64) ss"
  obtains ws where
    "\<And>oarc. o_wf oarc \<Longrightarrow> \<exists>oarc'. encode_string oarc data = Some oarc' \<and> o_wf oarc' \<and> o_data oarc' = o_data oarc @ ws"
    "\<And>iarc r. i_wf iarc \<Longrightarrow> i_rest iarc = ws @ r \<Longrightarrow>
       decode_string_stream (length ss) iarc = Some (map FlexString ss, i_adv (length ws) iarc)"
proof -
  obtain use strs idx where b: "build_dictionary data [] [] [] = Some (use, strs, idx)"
    "use \<longrightarrow> length strs \<le> 64 \<and> list_all (\<lambda>i. i < length strs) idx \<and> set strs \<subseteq> set ss \<and> map ((!) strs) idx = ss"
    using build_dictionary[OF ss(1), of "[]" "[]" "[]" "set ss"] by auto
  show thesis
  proof (cases use)
    case True
    then have d: "length strs \<le> 64" "list_all (\<lambda>i. i < length strs) idx" "list_all (\<lambda>s. length s < 2 ^ 64) strs"
      "map ((!) strs) idx = ss" "length idx = length ss" using b(2) ss(2) by (auto simp: list_all_iff)
    show thesis
    proof (rule that[of "dictionary_wire strs idx"])
      fix oarc assume wf: "o_wf oarc"
      let ?o = "foldl write_entry (variable_encode (direct_assign oarc (1 :: byte)) (of_nat (length strs))) strs"
      have "o_wf ?o \<and> o_data ?o = o_data oarc @ bytes_of (1 :: byte) @ variable_wire (of_nat (length strs)) @
          concat (map entry_wire strs)"
        using wf entry_codec.foldl_save[of "variable_encode (direct_assign oarc (1 :: byte)) (of_nat (length strs))" strs]
        by (simp add: archive_simps)
      then show "\<exists>oarc'. encode_string oarc data = Some oarc' \<and> o_wf oarc' \<and>
          o_data oarc' = o_data oarc @ dictionary_wire strs idx"
        using True b(1) encode_number_all[of ?o of_nat idx]
        by (simp add: encode_string_def dictionary_wire_def Let_def)
    qed (use decode_dictionary[of _ strs idx] d in auto)
  next
    case False
    show thesis
    proof (rule that[of "direct_wire ss"])
      fix oarc assume wf: "o_wf oarc"
      obtain o1 where "encode_number (direct_assign oarc (0 :: byte)) (map (\<lambda>s. FlexInt (of_nat (length s))) ss) = Some o1"
        "o_wf o1" "o_data o1 = o_data oarc @ bytes_of (0 :: byte) @ groups_wire for_wire (map (\<lambda>s. of_nat (length s)) ss)"
        using encode_number_all[of "direct_assign oarc (0 :: byte)" "\<lambda>s. of_nat (length s)" ss] wf
        by (auto simp: archive_simps)
      moreover have "those (map get_flex_string (defined_values data)) = Some ss"
        using ss(1) by (simp add: those_eq_Some)
      ultimately show "\<exists>oarc'. encode_string oarc data = Some oarc' \<and> o_wf oarc' \<and>
          o_data oarc' = o_data oarc @ direct_wire ss"
        using False b(1) foldl_owrite[of o1 ss] by (simp add: encode_string_def direct_wire_def Let_def)
    qed (use decode_direct[of _ ss] ss(2) in auto)
  qed
qed

section \<open>Vector blocks\<close>

lemma split_values:
  "list_all (\<lambda>v. length v < 2 ^ 64) vecs \<Longrightarrow>
     split_values (map (\<lambda>v. of_nat (length v)) vecs) (concat vecs) = Some vecs"
  by (induction vecs) (auto simp: unat_of_nat_u64)

lemma foldl_add_of_nat:
  "foldl (+) (of_nat n :: u64) (map (\<lambda>v. of_nat (length v)) vecs) = of_nat (n + length (concat vecs))"
  by (induction vecs arbitrary: n) (simp_all flip: of_nat_add add: add.assoc)

definition vectors_wire :: "u64 list list \<Rightarrow> byte list" where
  "vectors_wire vecs = groups_wire for_wire (map (\<lambda>v. of_nat (length v)) vecs) @ groups_wire double_wire (concat vecs)"

lemma those_map_Some [simp]: "those (map Some xs) = Some xs"
  by (simp add: those_eq_Some)

lemma encode_vector_data:
  assumes vecs: "map get_flex_vec (defined_values data) = map Some vecs" and wf: "o_wf oarc"
  shows "\<exists>oarc'. encode_vector oarc data = Some oarc' \<and> o_wf oarc' \<and> o_data oarc' = o_data oarc @ vectors_wire vecs"
proof -
  obtain o1 where o1: "encode_number oarc (map (\<lambda>v. FlexInt (of_nat (length v))) vecs) = Some o1" "o_wf o1"
    "o_data o1 = o_data oarc @ groups_wire for_wire (map (\<lambda>v. of_nat (length v)) vecs)"
    using encode_number_all[OF wf, of "\<lambda>v. of_nat (length v)" vecs] by blast
  have "map get_flex_int (defined_values (map FlexFloat (concat vecs))) = map Some (concat vecs)"
    by (simp add: defined_values_def filter_map comp_def)
  from dbl.encode_groups_data[OF this o1(2)] o1 show ?thesis
    using vecs by (auto simp: encode_vector_def encode_double_def vectors_wire_def)
qed

lemma decode_vector_wire:
  assumes wf: "i_wf iarc" and rest: "i_rest iarc = vectors_wire vecs @ r"
    and vecs: "length (concat vecs) < 2 ^ 64"
  shows "decode_vector_stream (length vecs) iarc = Some (map FlexVec vecs, i_adv (length (vectors_wire vecs)) iarc)"
proof -
  let ?l = "map (\<lambda>v. of_nat (length v)) vecs :: u64 list"
  have r0: "i_rest iarc = groups_wire for_wire ?l @ groups_wire double_wire (concat vecs) @ r"
    using rest by (simp add: vectors_wire_def)
  note a1 = i_adv_wf[OF wf r0]
  have "length v \<le> length (concat vecs)" if "v \<in> set vecs" for v
    using that by (induction vecs) auto
  then have ok: "list_all (\<lambda>v. length v < 2 ^ 64) vecs" using vecs by (fastforce simp: list_all_iff)
  have t: "unat (foldl (+) 0 ?l) = length (concat vecs)"
    using foldl_add_of_nat[of 0 vecs] vecs by (simp add: unat_of_nat_u64)
  show ?thesis
    using decode_number_all[OF wf r0, of "length vecs" 0] decode_double_all[OF a1 refl, of 0] split_values[OF ok]
    by (simp add: decode_vector_stream_def vectors_wire_def flex_new_def t add.assoc del: map_map)
qed

section \<open>Blocks of one type\<close>

text \<open>A vector right before its values are decoded: missing values stay, the others are reset.\<close>

definition block_template :: "flex_type_enum \<Rightarrow> flexible_type list \<Rightarrow> flexible_type list" where
  "block_template t data = map (\<lambda>f. if get_type f = UNDEFINED then FlexUndefined else flex_reset t) data"

definition one_type :: "flex_type_enum \<Rightarrow> flexible_type list \<Rightarrow> bool" where
  "one_type t data \<longleftrightarrow> t \<noteq> UNDEFINED \<and> list_all (\<lambda>f. get_type f = UNDEFINED \<or> get_type f = t) data"

lemma get_type_reset [simp]: "get_type (flex_reset t) = t"
  by (cases t) simp_all

lemma get_type_UNDEFINED: "get_type f = UNDEFINED \<longleftrightarrow> f = FlexUndefined"
  by (cases f) simp_all

lemma place_template:
  "t \<noteq> UNDEFINED \<Longrightarrow> place_values (block_template t data) (defined_values data) = Some data"
proof (induction data)
  case (Cons f fs)
  then show ?case
    by (cases "defined_values fs") (auto simp: block_template_def get_type_UNDEFINED)
qed (simp add: block_template_def)

lemma template_defined:
  "t \<noteq> UNDEFINED \<Longrightarrow> length (defined_values (block_template t data)) = length (defined_values data)"
  by (induction data) (auto simp: block_template_def)

lemma length_template [simp]: "length (block_template t data) = length data"
  by (simp add: block_template_def)

lemma decode_number_template:
  assumes c: "c = FlexInt \<and> t = INTEGER \<or> c = FlexFloat \<and> t = FLOAT"
    and vs: "defined_values data = map c vs"
  shows "\<lbrakk>i_wf iarc; i_rest iarc = groups_wire for_wire vs @ r\<rbrakk> \<Longrightarrow>
      decode_number iarc (block_template t data) (length data - length vs) =
        Some (data, i_adv (length (groups_wire for_wire vs)) iarc)"
    and "\<lbrakk>i_wf iarc; i_rest iarc = groups_wire double_wire vs @ r\<rbrakk> \<Longrightarrow>
      decode_double iarc (block_template t data) (length data - length vs) =
        Some (data, i_adv (length (groups_wire double_wire vs)) iarc)"
proof -
  have t: "t \<noteq> UNDEFINED" using c by auto
  have slots: "list_all (\<lambda>f. get_type f = UNDEFINED \<or> (\<exists>x. f = c x)) (block_template t data)"
    using c by (auto simp: block_template_def list_all_iff)
  have set: "set_flex_int (c x) v = Some (c v)" "get_type (c x) \<noteq> UNDEFINED" for x v using c by auto
  have le: "length vs \<le> length data" using vs by (metis defined_values_def length_filter_le length_map)
  have pl: "place_values (block_template t data) (map c vs) = Some data"
    using place_template[OF t, of data] by (simp add: vs)
  have n: "length (defined_values (block_template t data)) = length vs" by (simp add: template_defined[OF t] vs)
  show "decode_number iarc (block_template t data) (length data - length vs) =
        Some (data, i_adv (length (groups_wire for_wire vs)) iarc)"
    if "i_wf iarc" "i_rest iarc = groups_wire for_wire vs @ r"
    using num.decode_groups_wire[OF set slots, of "[]" vs iarc r] that pl n le by (simp add: decode_number_def)
  show "decode_double iarc (block_template t data) (length data - length vs) =
        Some (data, i_adv (length (groups_wire double_wire vs)) iarc)"
    if "i_wf iarc" "i_rest iarc = groups_wire double_wire vs @ r"
    using dbl.decode_groups_wire[OF set slots, of "[]" vs iarc r] that pl n le by (simp add: decode_double_def)
qed

lemma deserialize_all:
  "list_all (\<lambda>f. get_type f = UNDEFINED \<or> get_type f = t) data \<Longrightarrow> t \<noteq> UNDEFINED \<Longrightarrow> list_all flex_ok data \<Longrightarrow>
     i_wf iarc \<Longrightarrow> i_rest iarc = concat (map flex_payload (defined_values data)) @ r \<Longrightarrow>
     deserialize_all iarc (block_template t data) =
       Some (data, i_adv (length (concat (map flex_payload (defined_values data)))) iarc)"
proof (induction data arbitrary: iarc)
  case (Cons f fs)
  show ?case
  proof (cases "get_type f = UNDEFINED")
    case True
    then show ?thesis using Cons by (simp add: block_template_def get_type_UNDEFINED)
  next
    case False
    have rest: "i_rest iarc = flex_payload f @ (concat (map flex_payload (defined_values fs)) @ r)"
      using Cons.prems(5) False by simp
    have "deserializer flex_load (get_type f) iarc = Some (f, i_adv (length (flex_payload f)) iarc)"
      using Cons.prems rest by (intro deserializer_wire) auto
    moreover have "get_type f = t" using Cons.prems(1) False by simp
    ultimately show ?thesis using False Cons.IH[of "i_adv (length (flex_payload f)) iarc"] Cons.prems
        i_adv_wf[OF Cons.prems(4) rest] by (simp add: block_template_def)
  qed
qed (simp add: block_template_def)

lemma serialize_all_data:
  "o_wf oarc \<Longrightarrow> o_wf (serialize_all oarc data) \<and>
     o_data (serialize_all oarc data) = o_data oarc @ concat (map flex_payload (defined_values data))"
  unfolding serialize_all_def by (rule foldl_save_on) (auto simp: serializer_data)

text \<open>The type specific encoder of a column type, and the values its stream decoder produces.\<close>

definition encode_typed :: "flex_type_enum \<Rightarrow> oarchive \<Rightarrow> flexible_type list \<Rightarrow> oarchive option" where
  "encode_typed t oarc data =
     (if t = INTEGER then encode_number oarc data
      else if t = FLOAT then encode_double oarc data
      else if t = STRING then encode_string oarc data
      else if t = VECTOR then encode_vector oarc data
      else Some (serialize_all oarc data))"

definition stream_typed :: "flex_type_enum \<Rightarrow> nat \<Rightarrow> iarchive \<Rightarrow> (flexible_type list \<times> iarchive) option" where
  "stream_typed t n iarc =
     (if t = INTEGER then decode_number_stream n iarc
      else if t = FLOAT then decode_double_stream n iarc
      else if t = STRING then decode_string_stream n iarc
      else decode_vector_stream n iarc)"

definition streamed :: "flex_type_enum \<Rightarrow> bool" where
  "streamed t \<longleftrightarrow> t \<in> {INTEGER, FLOAT, STRING, VECTOR}"

definition vec_total :: "flexible_type list \<Rightarrow> nat" where
  "vec_total data = sum_list (map (\<lambda>f. case f of FlexVec v \<Rightarrow> length v | _ \<Rightarrow> 0) data)"

text \<open>
  What a block of one type promises: its bytes \<open>ws\<close> are what the encoder writes, and both decoders
  read the values back from them.
\<close>

definition content_wire :: "flex_type_enum \<Rightarrow> flexible_type list \<Rightarrow> byte list \<Rightarrow> bool" where
  "content_wire t data ws \<longleftrightarrow>
     (\<forall>oarc. o_wf oarc \<longrightarrow> (\<exists>oarc'. encode_typed t oarc data = Some oarc' \<and> o_wf oarc' \<and>
        o_data oarc' = o_data oarc @ ws)) \<and>
     (\<forall>iarc r. i_wf iarc \<longrightarrow> i_rest iarc = ws @ r \<longrightarrow>
        decode_content t iarc (block_template t data) (length data - length (defined_values data)) =
          Some (data, i_adv (length ws) iarc) \<and>
        (streamed t \<longrightarrow> stream_typed t (length (defined_values data)) iarc =
          Some (defined_values data, i_adv (length ws) iarc)))"

lemma defined_of_type:
  assumes "one_type t data" "f \<in> set (defined_values data)" shows "get_type f = t"
  using assms by (auto simp: one_type_def defined_values_def list_all_iff)

lemma defined_values_map:
  assumes "\<And>f. f \<in> set (defined_values data) \<Longrightarrow> \<exists>x. f = c x"
  obtains vs where "defined_values data = map c vs"
  using assms by (metis (no_types, lifting) ex_map_conv)

lemma content_number:
  assumes "one_type t data" "t = INTEGER \<or> t = FLOAT"
  shows "\<exists>ws. content_wire t data ws"
proof -
  let ?c = "if t = INTEGER then FlexInt else FlexFloat"
  have "\<exists>x. f = ?c x" if "f \<in> set (defined_values data)" for f
    using defined_of_type[OF assms(1) that] assms(2) by (cases f) auto
  then obtain vs where vs: "defined_values data = map ?c vs" by (rule defined_values_map)
  have g: "map get_flex_int (defined_values data) = map Some vs" by (simp add: vs)
  show ?thesis
  proof (cases "t = INTEGER")
    case True
    then have "content_wire t data (groups_wire for_wire vs)"
      using num.encode_groups_data[OF g] decode_number_template(1)[of FlexInt INTEGER data vs] vs
        num.decode_stream_wire[of _ vs]
      by (auto simp: content_wire_def encode_typed_def decode_content_def stream_typed_def encode_number_def
          decode_number_stream_def)
    then show ?thesis ..
  next
    case False
    then have "content_wire t data (groups_wire double_wire vs)"
      using assms(2) dbl.encode_groups_data[OF g] decode_number_template(2)[of FlexFloat FLOAT data vs] vs
        dbl.decode_stream_wire[of _ vs]
      by (auto simp: content_wire_def encode_typed_def decode_content_def stream_typed_def encode_double_def
          decode_double_stream_def)
    then show ?thesis ..
  qed
qed

lemma content_string:
  assumes "one_type STRING data" "list_all flex_ok data"
  shows "\<exists>ws. content_wire STRING data ws"
proof -
  have "\<exists>x. f = FlexString x" if "f \<in> set (defined_values data)" for f
    using defined_of_type[OF assms(1) that] by (cases f) auto
  then obtain ss where ss: "defined_values data = map FlexString ss" by (rule defined_values_map)
  have "set (map FlexString ss) \<subseteq> set data" unfolding ss[symmetric] by (auto simp: defined_values_def)
  then have ok: "list_all (\<lambda>s. length s < 2 ^ 64) ss" using assms(2) by (force simp: list_all_iff)
  have g: "map get_flex_string (defined_values data) = map Some ss" by (simp add: ss)
  have le: "length ss \<le> length data" using ss by (metis defined_values_def length_filter_le length_map)
  obtain ws where ws:
    "\<And>oarc. o_wf oarc \<Longrightarrow> \<exists>oarc'. encode_string oarc data = Some oarc' \<and> o_wf oarc' \<and> o_data oarc' = o_data oarc @ ws"
    "\<And>iarc r. i_wf iarc \<Longrightarrow> i_rest iarc = ws @ r \<Longrightarrow>
       decode_string_stream (length ss) iarc = Some (map FlexString ss, i_adv (length ws) iarc)"
    using string_block[OF g ok] by blast
  have "content_wire STRING data ws"
    using ws place_template[of STRING data] ss le
    by (simp add: content_wire_def encode_typed_def decode_content_def stream_typed_def decode_string_def)
  then show ?thesis ..
qed

lemma content_vector:
  assumes "one_type VECTOR data" "vec_total data < 2 ^ 64"
  shows "\<exists>ws. content_wire VECTOR data ws"
proof -
  have "\<exists>x. f = FlexVec x" if "f \<in> set (defined_values data)" for f
    using defined_of_type[OF assms(1) that] by (cases f) auto
  then obtain vecs where vecs: "defined_values data = map FlexVec vecs" by (rule defined_values_map)
  have "vec_total data = vec_total (defined_values data)"
    by (induction data) (auto simp: vec_total_def get_type_UNDEFINED)
  then have ok: "length (concat vecs) < 2 ^ 64" using assms(2) by (simp add: vecs vec_total_def length_concat comp_def)
  have g: "map get_flex_vec (defined_values data) = map Some vecs" by (simp add: vecs)
  have le: "length vecs \<le> length data" using vecs by (metis defined_values_def length_filter_le length_map)
  have "content_wire VECTOR data (vectors_wire vecs)"
    using encode_vector_data[OF g] decode_vector_wire[OF _ _ ok] place_template[of VECTOR data] vecs le
    by (simp add: content_wire_def encode_typed_def decode_content_def stream_typed_def decode_vector_def)
  then show ?thesis ..
qed

lemma content_other:
  assumes "one_type t data" "\<not> streamed t" "list_all flex_ok data"
  shows "content_wire t data (concat (map flex_payload (defined_values data)))"
  using serialize_all_data[of _ data] deserialize_all[of t data] assms
  by (auto simp: content_wire_def encode_typed_def decode_content_def one_type_def streamed_def)

end
