(* ===== verification/Typed_Block.thy ===== *)
theory Typed_Block
  imports Type_Encoding
begin

text \<open>
  Correctness of the typed column block: \<open>typed_decode\<close> and \<open>typed_decode_stream_callback\<close> applied to
  what \<open>typed_encode\<close> writes, over the shapes a block can have (no value, only missing values, one
  type, one type with missing values, several types).
\<close>

section \<open>The types of a block\<close>

lemma type_index_simps:
  "type_index f = 7 \<longleftrightarrow> get_type f = UNDEFINED" "type_index f < 16"
  "type_index f = type_index g \<longleftrightarrow> get_type f = get_type g"
proof -
  show "type_index f = 7 \<longleftrightarrow> get_type f = UNDEFINED" "type_index f < 16"
    by (cases f; simp add: type_index_def)+
  show "type_index f = type_index g \<longleftrightarrow> get_type f = get_type g"
    by (cases f; cases g; simp add: type_index_def)
qed

lemma types_appeared:
  "\<exists>types. set_each fb_set_bit_unsync (fb_clear (fb_new 16)) (map type_index data) = Some types \<and>
     arr_wf 16 types \<and> arr_bits types = type_index ` set data"
proof -
  have wf: "arr_wf 16 (fb_clear (fb_new 16))" and b: "arr_bits (fb_clear (fb_new 16)) = {}"
    by (auto simp: arr_wf_def fb_clear_def fb_new_def arr_words_def arr_bits_def)
  have "list_all (\<lambda>b. b < 16) (map type_index data)" by (simp add: list_all_iff type_index_simps)
  from fb16.set_each[OF wf this] b show ?thesis by auto
qed

lemma byte_of_nat_eq: "n < 256 \<Longrightarrow> m < 256 \<Longrightarrow> (of_nat n :: byte) = of_nat m \<longleftrightarrow> n = m"
proof -
  have "unat (of_nat k :: byte) = k" if "k < 256" for k
    using that by (simp add: unsigned_of_nat take_bit_nat_eq_self)
  then show "n < 256 \<Longrightarrow> m < 256 \<Longrightarrow> (of_nat n :: byte) = of_nat m \<longleftrightarrow> n = m" by metis
qed

lemma find_unique: "x \<in> set xs \<Longrightarrow> P x \<Longrightarrow> (\<And>y. y \<in> set xs \<Longrightarrow> P y \<Longrightarrow> y = x) \<Longrightarrow> find P xs = Some x"
proof (induction xs)
  case (Cons a xs)
  show ?case
  proof (cases "P a")
    case True
    then show ?thesis using Cons.prems(3)[of a] by simp
  next
    case False
    then have "x \<in> set xs" using Cons.prems(1,2) by auto
    then show ?thesis using False Cons.IH[OF _ Cons.prems(2)] Cons.prems(3) by simp
  qed
qed simp

text \<open>The four shapes of the set of types.\<close>

lemma types_cases:
  fixes data :: "flexible_type list"
  defines "T \<equiv> type_index ` set data"
  obtains (empty) "data = []" "T = {}"
  | (undefined) "data \<noteq> []" "\<forall>f\<in>set data. f = FlexUndefined" "T = {7}"
  | (single) t where "data \<noteq> []" "t \<noteq> UNDEFINED" "\<forall>f\<in>set data. get_type f = t" "T = {unat (flex_type_code t)}"
  | (missing) t where "t \<noteq> UNDEFINED" "\<forall>f\<in>set data. get_type f = UNDEFINED \<or> get_type f = t"
      "FlexUndefined \<in> set data" "\<exists>f\<in>set data. get_type f = t" "T = {unat (flex_type_code t), 7}"
  | (multiple) "2 \<le> card T" "\<not> (card T = 2 \<and> 7 \<in> T)"
proof -
  have fin: "finite T" by (simp add: T_def)
  consider "T = {}" | "card T = 1" | "card T = 2" "7 \<in> T" | "2 \<le> card T" "\<not> (card T = 2 \<and> 7 \<in> T)"
    using fin by (metis Suc_1 card_0_eq le_Suc_eq not_less_eq_eq One_nat_def nat_le_linear le_zero_eq)
  then show thesis
  proof cases
    case 1
    then show thesis using empty by (simp add: T_def)
  next
    case 2
    then obtain k where k: "T = {k}" by (rule card_1_singletonE)
    then have ne: "data \<noteq> []" by (auto simp: T_def)
    have all: "get_type f = get_type (hd data)" if "f \<in> set data" for f
    proof -
      have "type_index f \<in> T" "type_index (hd data) \<in> T" using that hd_in_set[OF ne] by (auto simp: T_def)
      then show ?thesis unfolding k using type_index_simps(3)[of f "hd data"] by simp
    qed
    have T: "T = {type_index (hd data)}" using k hd_in_set[OF ne] by (auto simp: T_def)
    show thesis
    proof (cases "get_type (hd data) = UNDEFINED")
      case True
      show thesis
      proof (rule undefined[OF ne])
        show "\<forall>f\<in>set data. f = FlexUndefined" using all True by (simp flip: get_type_UNDEFINED)
        show "T = {7}" by (simp add: T type_index_def True)
      qed
    next
      case False
      show thesis
      proof (rule single[OF ne False])
        show "\<forall>f\<in>set data. get_type f = get_type (hd data)" using all by blast
        show "T = {unat (flex_type_code (get_type (hd data)))}" by (simp add: T type_index_def)
      qed
    qed
  next
    case 3
    then obtain k where k: "T = {k, 7}" "k \<noteq> 7" by (metis card_2_iff doubleton_eq_iff insertE singletonD)
    then have "k \<in> type_index ` set data" by (simp flip: T_def)
    then obtain g where g: "g \<in> set data" "type_index g = k" by blast
    have u: "FlexUndefined \<in> set data" using 3(2) by (auto simp: T_def type_index_simps get_type_UNDEFINED)
    have all: "get_type f = UNDEFINED \<or> get_type f = get_type g" if "f \<in> set data" for f
    proof -
      have "type_index f \<in> {k, 7}" using that k(1) by (auto simp: T_def)
      then show ?thesis using g(2) type_index_simps(1)[of f] type_index_simps(3)[of f g] by auto
    qed
    have "get_type g \<noteq> UNDEFINED" using k(2) g(2) type_index_simps(1)[of g] by simp
    moreover have "T = {unat (flex_type_code (get_type g)), 7}" using k(1) g(2) by (simp add: type_index_def)
    ultimately show thesis using missing all u g(1) by blast
  next
    case 4
    then show thesis using multiple by simp
  qed
qed

section \<open>The bit field of missing values\<close>

definition missing_at :: "flexible_type list \<Rightarrow> nat set" where
  "missing_at data = {i. i < length data \<and> get_type (data ! i) = UNDEFINED}"

lemma undefined_bitset:
  obtains d where "undefined_bitset data = Some d" "db_wf d" "db_len d = length data" "db_bits d = missing_at data"
proof -
  let ?d = "db_clear (db_make (\<lambda>_. 0) (length data))"
  have d: "db_wf ?d" "db_bits ?d = {}" "db_size ?d = length data"
    using db_make_wf[of "\<lambda>_. 0" "length data"] db_clear_wf by auto
  have "list_all (\<lambda>b. b < db_size ?d) (filter (\<lambda>i. get_type (data ! i) = UNDEFINED) [0..<length data])"
    by (simp add: list_all_iff d)
  from db.set_each[OF d(1) this] d that show thesis
    by (auto simp: undefined_bitset_def missing_at_def db_size_def)
qed

lemma card_missing: "card (missing_at data) = length data - length (defined_values data)"
proof -
  have "card (missing_at data) = length (filter (\<lambda>f. get_type f = UNDEFINED) data)"
    by (simp add: missing_at_def length_filter_conv_card)
  also have "\<dots> = length data - length (defined_values data)"
    using sum_length_filter_compl[of "\<lambda>f. get_type f = UNDEFINED" data] by (simp add: defined_values_def)
  finally show ?thesis .
qed

lemma db_array_wf: "db_wf d \<Longrightarrow> length (db_array d) = arr_words (db_len d)"
  by (simp add: db_wf_def arr_wf_def)

lemma read_bitset:
  assumes wf: "i_wf iarc" and rest: "i_rest iarc = words_bytes (db_array d) @ r"
    and d: "db_wf d" "db_len d = n"
  shows "read_bitset n iarc = Some (d, i_adv (length (words_bytes (db_array d))) iarc)"
proof -
  let ?e = "db_clear (db_make (\<lambda>_. 0) n)"
  have e: "db_len ?e = n" "db_arrlen ?e = arr_words n"
    using db_make_wf[of "\<lambda>_. 0" n] db_clear_wf[of "db_make (\<lambda>_. 0) n"] by (simp_all add: db_size_def db_wf_def)
  have l: "length (db_array d) = arr_words n" using db_array_wf[OF d(1)] d(2) by simp
  have "length (words_bytes (db_array d)) = 8 * arr_words n" by (simp add: length_words_bytes l)
  moreover have "bytes_words (arr_words n) (words_bytes (db_array d)) = db_array d"
    using bytes_words_words_bytes[of "db_array d"] by (simp add: l)
  moreover have "?e\<lparr>db_array := db_array d\<rparr> = d"
    using e d by (cases d; cases ?e) (simp add: db_wf_def)
  ultimately show ?thesis using iread_app[OF wf rest refl] by (simp add: read_bitset_def e)
qed

lemma length_resize_to [simp]: "length (resize_to x n xs) = n"
  by (simp add: resize_to_def)

lemma reset_undefined_nth:
  "list_all (\<lambda>t. t < length ret) ts \<Longrightarrow> \<exists>ret'. reset_undefined ret ts = Some ret' \<and> length ret' = length ret \<and>
     (\<forall>i<length ret. ret' ! i = (if i \<in> set ts then FlexUndefined else ret ! i))"
proof (induction ts arbitrary: ret)
  case (Cons t ts)
  then show ?case using Cons.IH[of "ret[t := FlexUndefined]"]
    by (auto simp: nth_list_update list_all_iff)
qed simp

lemma reset_to_template:
  "reset_undefined (map (\<lambda>_. flex_reset t) (resize_to flex_new (length data) ret)) (sorted_list_of_set (missing_at data))
     = Some (block_template t data)"
proof -
  let ?r = "map (\<lambda>_. flex_reset t) (resize_to flex_new (length data) ret)"
  have l: "length ?r = length data" by simp
  have fin: "finite (missing_at data)" by (simp add: missing_at_def)
  have "list_all (\<lambda>t. t < length ?r) (sorted_list_of_set (missing_at data))"
    using fin by (simp add: list_all_iff missing_at_def)
  from reset_undefined_nth[OF this] obtain ret' where r: "reset_undefined ?r (sorted_list_of_set (missing_at data)) = Some ret'"
    "length ret' = length data" "\<forall>i<length data. ret' ! i = (if i \<in> missing_at data then FlexUndefined else ?r ! i)"
    using fin by (auto simp: l)
  have "ret' = block_template t data"
    using r(2,3) l by (intro nth_equalityI) (auto simp: block_template_def missing_at_def)
  then show ?thesis using r(1) by simp
qed

section \<open>The layout of a block\<close>

text \<open>The values a block may hold.\<close>

definition block_ok :: "flexible_type list \<Rightarrow> bool" where
  "block_ok data \<longleftrightarrow> length data < 2 ^ 31 \<and> list_all flex_ok data \<and> vec_total data < 2 ^ 64"

text \<open>How \<open>typed_encode\<close> lays out the values, given the flags of the block.\<close>

inductive block_layout :: "flexible_type list \<Rightarrow> u64 \<Rightarrow> byte list \<Rightarrow> bool" where
  no_values: "flags AND MULTIPLE_TYPE_BLOCK = 0 \<Longrightarrow> block_layout [] flags [0]"
| all_missing: "flags AND MULTIPLE_TYPE_BLOCK = 0 \<Longrightarrow> data \<noteq> [] \<Longrightarrow> \<forall>f\<in>set data. f = FlexUndefined \<Longrightarrow>
    block_layout data flags [1, flex_type_code UNDEFINED]"
| single_type: "flags AND MULTIPLE_TYPE_BLOCK = 0 \<Longrightarrow> data \<noteq> [] \<Longrightarrow> t \<noteq> UNDEFINED \<Longrightarrow>
    \<forall>f\<in>set data. get_type f = t \<Longrightarrow> content_wire t data cs \<Longrightarrow>
    block_layout data flags ([1, flex_type_code t] @ cs)"
| with_missing: "flags AND MULTIPLE_TYPE_BLOCK = 0 \<Longrightarrow> one_type t data \<Longrightarrow> FlexUndefined \<in> set data \<Longrightarrow>
    \<exists>f\<in>set data. get_type f = t \<Longrightarrow> undefined_bitset data = Some d \<Longrightarrow> content_wire t data cs \<Longrightarrow>
    block_layout data flags ([2, flex_type_code t] @ words_bytes (db_array d) @ cs)"
| several_types: "flags AND MULTIPLE_TYPE_BLOCK \<noteq> 0 \<Longrightarrow>
    block_layout data flags (k # bytes_of (of_nat (length data) :: u64) @ concat (map flex_wire data))"

lemma content_exists:
  assumes "one_type t data" "block_ok data"
  shows "\<exists>cs. content_wire t data cs"
proof -
  consider "t = INTEGER \<or> t = FLOAT" | "t = STRING" | "t = VECTOR" | "\<not> streamed t"
    by (auto simp: streamed_def)
  then show ?thesis
    using assms content_number content_string content_vector content_other[of t data]
    by cases (auto simp: block_ok_def)
qed

lemma encode_content_typed:
  assumes wf: "arr_wf 16 types" and b: "arr_bits types \<subseteq> {unat (flex_type_code t), 7}"
    "unat (flex_type_code t) \<in> arr_bits types" "t \<noteq> UNDEFINED"
  shows "encode_content types oarc data = encode_typed t oarc data"
proof -
  have g: "fb_get types n = Some (n = unat (flex_type_code t))" if "n < 7" for n
    using fb16.get[OF wf, of n] that b by auto
  show ?thesis using g[of 0] g[of 1] g[of 2] g[of 3] b(3)
    by (cases t) (simp_all add: encode_content_def encode_typed_def)
qed

lemma types_card:
  fixes types :: "u64 list"
  assumes "arr_wf 16 types" "m < 256"
  shows "(of_nat (fb_popcount types) :: byte) = of_nat m \<longleftrightarrow> card (arr_bits types) = m"
proof -
  have "card (arr_bits types) \<le> card {..<16::nat}"
    using fb16.bits_less[OF assms(1)] by (intro card_mono) auto
  then show ?thesis using byte_of_nat_eq[OF _ assms(2)] fb16.popcount[OF assms(1)] by simp
qed

lemma flag_masks:
  fixes flags :: u64
  shows "(flags OR IS_FLEXIBLE_TYPE) AND IS_FLEXIBLE_TYPE \<noteq> 0"
    "((flags OR IS_FLEXIBLE_TYPE) OR MULTIPLE_TYPE_BLOCK) AND IS_FLEXIBLE_TYPE \<noteq> 0"
    "(flags OR IS_FLEXIBLE_TYPE) AND MULTIPLE_TYPE_BLOCK = flags AND MULTIPLE_TYPE_BLOCK"
    "(flags OR MULTIPLE_TYPE_BLOCK) AND MULTIPLE_TYPE_BLOCK \<noteq> 0"
proof -
  have b: "bit ((flags OR 2) AND 2) 1" "bit (((flags OR 2) OR 4) AND 2) 1" "bit ((flags OR 4) AND 4) 2"
    by (simp_all add: bit_simps)
  show "(flags OR IS_FLEXIBLE_TYPE) AND IS_FLEXIBLE_TYPE \<noteq> 0"
    "((flags OR IS_FLEXIBLE_TYPE) OR MULTIPLE_TYPE_BLOCK) AND IS_FLEXIBLE_TYPE \<noteq> 0"
    "(flags OR MULTIPLE_TYPE_BLOCK) AND MULTIPLE_TYPE_BLOCK \<noteq> 0"
    unfolding block_flags using b by auto
  show "(flags OR IS_FLEXIBLE_TYPE) AND MULTIPLE_TYPE_BLOCK = flags AND MULTIPLE_TYPE_BLOCK"
    unfolding block_flags by (simp add: and.commute bit.conj_disj_distrib)
qed

section \<open>Encoding a block\<close>

text \<open>The values are of one type, some of them possibly missing.\<close>

definition single_column_type :: "flexible_type list \<Rightarrow> bool" where
  "single_column_type data \<longleftrightarrow> (\<exists>t. \<forall>f\<in>set data. get_type f = UNDEFINED \<or> get_type f = t)"

lemma not_single_column_type:
  assumes "2 \<le> card (type_index ` set data)" "\<not> (card (type_index ` set data) = 2 \<and> 7 \<in> type_index ` set data)"
  shows "\<not> single_column_type data"
proof
  assume "single_column_type data"
  then obtain t where t: "\<forall>f\<in>set data. get_type f = UNDEFINED \<or> get_type f = t"
    by (auto simp: single_column_type_def)
  let ?T = "type_index ` set data" and ?k = "unat (flex_type_code t)"
  have sub: "?T \<subseteq> {7, ?k}" using t by (auto simp: type_index_def)
  then have "card ?T \<le> card {7, ?k}" by (intro card_mono) auto
  moreover have "card {7, ?k} \<le> 2" by (simp add: card_insert_if)
  ultimately have c: "card ?T = 2" "card {7, ?k} = 2" using assms(1) by linarith+
  then have "?T = {7, ?k}" using sub by (intro card_subset_eq) auto
  then show False using assms(2) c by blast
qed

text \<open>The result \<open>r\<close> of \<open>typed_encode\<close>: the archive has grown by the bytes of the block, which the new
  block information describes.\<close>

definition block_written ::
  "flexible_type list \<Rightarrow> block_info \<Rightarrow> oarchive \<Rightarrow> (block_info \<times> oarchive) option \<Rightarrow> bool" where
  "block_written data info oarc r \<longleftrightarrow> (\<exists>flags oarc' ws.
     r = Some (info\<lparr>bi_flags := flags, bi_num_elem := of_nat (length data), bi_block_size := of_nat (o_off oarc')\<rparr>, oarc') \<and>
     o_wf oarc' \<and> o_data oarc' = o_data oarc @ ws \<and> ws \<noteq> [] \<and> flags AND IS_FLEXIBLE_TYPE \<noteq> 0 \<and>
     flags AND LZ4_COMPRESSION = bi_flags info AND LZ4_COMPRESSION \<and>
     (flags AND MULTIPLE_TYPE_BLOCK = 0 \<longleftrightarrow> single_column_type data) \<and> block_layout data flags ws)"

lemma block_writtenI:
  assumes "r = Some (info\<lparr>bi_flags := flags, bi_num_elem := of_nat (length data), bi_block_size := of_nat (o_off oarc')\<rparr>, oarc')"
    and "o_wf oarc'" "o_data oarc' = o_data oarc @ ws" "block_layout data flags ws"
    and "flags AND IS_FLEXIBLE_TYPE \<noteq> 0" "flags AND LZ4_COMPRESSION = bi_flags info AND LZ4_COMPRESSION"
    and "flags AND MULTIPLE_TYPE_BLOCK = 0 \<longleftrightarrow> single_column_type data"
  shows "block_written data info oarc r"
proof -
  have "ws \<noteq> []" using assms(4) by cases simp_all
  then show ?thesis using assms unfolding block_written_def by blast
qed

lemma flag_lz4:
  "(flags OR IS_FLEXIBLE_TYPE) AND LZ4_COMPRESSION = flags AND LZ4_COMPRESSION"
  "((flags OR IS_FLEXIBLE_TYPE) OR MULTIPLE_TYPE_BLOCK) AND LZ4_COMPRESSION = flags AND LZ4_COMPRESSION"
  unfolding block_flags by (simp_all add: and.commute bit.conj_disj_distrib)

lemma typed_encode_layout:
  assumes ok: "block_ok data" and wf: "o_wf oarc" and fl: "bi_flags info AND MULTIPLE_TYPE_BLOCK = 0"
  shows "block_written data info oarc (typed_encode data info oarc)"
proof -
  obtain types where ty: "set_each fb_set_bit_unsync (fb_clear (fb_new 16)) (map type_index data) = Some types"
    and tw: "arr_wf 16 types" and tb: "arr_bits types = type_index ` set data"
    using types_appeared by blast
  let ?n = "of_nat (fb_popcount types) :: byte" and ?fl = "bi_flags info OR IS_FLEXIBLE_TYPE"
  have g: "fb_get types 7 = Some (7 \<in> arr_bits types)"
    using fb16.get[OF tw, of 7] by simp
  have n: "?n = 0 \<longleftrightarrow> card (arr_bits types) = 0" "?n = 1 \<longleftrightarrow> card (arr_bits types) = 1"
    "?n = 2 \<longleftrightarrow> card (arr_bits types) = 2"
    using types_card[OF tw, of 0] types_card[OF tw, of 1] types_card[OF tw, of 2] by simp_all
  note enc = typed_encode_def ty g n Let_def
  have m: "?fl AND MULTIPLE_TYPE_BLOCK = 0" using fl by (simp add: flag_masks(3))
  note written = block_writtenI[where flags = ?fl, OF _ _ _ _ flag_masks(1) flag_lz4(1)]
  have sct: "?fl AND MULTIPLE_TYPE_BLOCK = 0 \<longleftrightarrow> single_column_type data" if "single_column_type data"
    using m that by blast
  let ?oarc = "direct_assign oarc ?n"
  show ?thesis
  proof (cases rule: types_cases[of data])
    case empty
    then have "?n = 0" using n(1) by (simp add: tb)
    moreover from this have "typed_encode data info oarc = Some (info\<lparr>bi_flags := ?fl,
        bi_num_elem := of_nat (length data), bi_block_size := of_nat (o_off ?oarc)\<rparr>, ?oarc)"
      by (simp add: enc)
    ultimately show ?thesis using wf m empty(1)
      by (auto intro!: written no_values simp: archive_simps single_column_type_def)
  next
    case undefined
    then have n1: "?n = 1" using n(2) by (simp add: tb)
    have "get_type (hd data) = UNDEFINED" using undefined(1,2) hd_in_set[of data] by fastforce
    with n1 have "typed_encode data info oarc = Some (info\<lparr>bi_flags := ?fl,
        bi_num_elem := of_nat (length data), bi_block_size := of_nat (o_off (direct_assign ?oarc (flex_type_code UNDEFINED)))\<rparr>,
        direct_assign ?oarc (flex_type_code UNDEFINED))"
      by (simp add: enc)
    then show ?thesis
    proof (rule written)
      show "block_layout data ?fl [1, flex_type_code UNDEFINED]" by (rule all_missing[OF m undefined(1,2)])
      show "?fl AND MULTIPLE_TYPE_BLOCK = 0 \<longleftrightarrow> single_column_type data"
        using undefined(2) by (intro sct) (auto simp: single_column_type_def)
    qed (use wf n1 in \<open>simp_all add: archive_simps\<close>)
  next
    case (single t)
    then have n1: "?n = 1" using n(2) by (simp add: tb)
    have h: "get_type (hd data) = t" using single(1,3) hd_in_set[of data] by blast
    have "one_type t data" using single(2,3) by (simp add: one_type_def list_all_iff)
    from content_exists[OF this ok] obtain cs where cs: "content_wire t data cs" ..
    have e: "encode_content types o' data = encode_typed t o' data" for o'
      using single(4) by (intro encode_content_typed[OF tw]) (auto simp: tb single(2))
    have "o_wf (direct_assign ?oarc (flex_type_code t))" using wf by simp
    then obtain oarc' where r: "encode_typed t (direct_assign ?oarc (flex_type_code t)) data = Some oarc'"
      "o_wf oarc'" "o_data oarc' = o_data (direct_assign ?oarc (flex_type_code t)) @ cs"
      using cs unfolding content_wire_def by blast
    show ?thesis
    proof (rule written)
      show "typed_encode data info oarc = Some (info\<lparr>bi_flags := ?fl, bi_num_elem := of_nat (length data),
          bi_block_size := of_nat (o_off oarc')\<rparr>, oarc')"
        using r(1) n1[unfolded n] h single(2) by (simp add: enc e)
      show "block_layout data ?fl ([1, flex_type_code t] @ cs)" by (rule single_type[OF m single(1-3) cs])
      show "?fl AND MULTIPLE_TYPE_BLOCK = 0 \<longleftrightarrow> single_column_type data"
        using single(3) by (intro sct) (auto simp: single_column_type_def)
    qed (use r(2,3) wf n1 in \<open>simp_all add: archive_simps\<close>)
  next
    case (missing t)
    have c: "card (arr_bits types) = 2" "7 \<in> arr_bits types"
      using missing(1,5) by (cases t; simp add: tb)+
    then have n2: "?n = 2" using n(3) by simp
    have o: "one_type t data" using missing(1,2) by (simp add: one_type_def list_all_iff)
    from content_exists[OF this ok] obtain cs where cs: "content_wire t data cs" ..
    obtain d where d: "undefined_bitset data = Some d" using undefined_bitset by blast
    have e: "encode_content types o' data = encode_typed t o' data" for o'
      using missing(5) by (intro encode_content_typed[OF tw]) (auto simp: tb missing(1))
    have it: "fb_iterate types = Some (sorted_list_of_set (arr_bits types))" by (rule fb16.iterate[OF tw])
    have fi: "find (\<lambda>t. t \<noteq> 7) (sorted_list_of_set (arr_bits types)) = Some (unat (flex_type_code t))"
      using missing(1,5) by (intro find_unique) (cases t; auto simp: tb)+
    let ?o1 = "owrite (direct_assign ?oarc (flex_type_code t)) (words_bytes (db_array d))"
    have "o_wf ?o1" using wf by simp
    then obtain oarc' where r: "encode_typed t ?o1 data = Some oarc'" "o_wf oarc'" "o_data oarc' = o_data ?o1 @ cs"
      using cs unfolding content_wire_def by blast
    show ?thesis
    proof (rule written)
      show "typed_encode data info oarc = Some (info\<lparr>bi_flags := ?fl, bi_num_elem := of_nat (length data),
          bi_block_size := of_nat (o_off oarc')\<rparr>, oarc')"
        using r(1) c by (simp add: enc e d it fi)
      show "block_layout data ?fl ([2, flex_type_code t] @ words_bytes (db_array d) @ cs)"
        by (rule with_missing[OF m o missing(3,4) d cs])
      show "?fl AND MULTIPLE_TYPE_BLOCK = 0 \<longleftrightarrow> single_column_type data"
        using missing(2) by (intro sct) (auto simp: single_column_type_def)
    qed (use r(2,3) wf n2 in \<open>simp_all add: archive_simps\<close>)
  next
    case multiple
    have c: "card (arr_bits types) \<noteq> 0" "card (arr_bits types) \<noteq> 1"
      "\<not> (card (arr_bits types) = 2 \<and> 7 \<in> arr_bits types)"
      using multiple unfolding tb by auto
    have "o_wf ?oarc" using wf by simp
    note s = flex_vector_codec.save_wf[OF this, of data] flex_vector_codec.save_data[OF this, of data]
    show ?thesis
    proof (rule block_writtenI[OF _ _ _ _ flag_masks(2) flag_lz4(2)])
      show "typed_encode data info oarc = Some (info\<lparr>bi_flags := ?fl OR MULTIPLE_TYPE_BLOCK,
          bi_num_elem := of_nat (length data), bi_block_size := of_nat (o_off (vector_save flex_save ?oarc data))\<rparr>,
          vector_save flex_save ?oarc data)"
        using c by (auto simp: enc)
      show "block_layout data (?fl OR MULTIPLE_TYPE_BLOCK)
          (?n # bytes_of (of_nat (length data) :: u64) @ concat (map flex_wire data))"
        by (rule several_types[OF flag_masks(4)])
      show "(?fl OR MULTIPLE_TYPE_BLOCK) AND MULTIPLE_TYPE_BLOCK = 0 \<longleftrightarrow> single_column_type data"
        using flag_masks(4)[of ?fl] not_single_column_type[OF multiple] by simp
    qed (use s wf in \<open>simp_all add: archive_simps\<close>)
  qed
qed

section \<open>Decoding a block\<close>

lemma read_byte:
  assumes "i_wf iarc" "i_rest iarc = b # r"
  shows "read_into iarc = Some (b :: byte, i_adv 1 iarc)" "i_wf (i_adv 1 iarc)" "i_rest (i_adv 1 iarc) = r"
  using read_into_app[of iarc b r] i_adv_wf[of iarc "[b]" r] assms by simp_all

lemma read_head:
  assumes "ws = b # r"
  shows "read_into (iarchive_new ws (length ws)) = Some (b :: byte, i_adv 1 (iarchive_new ws (length ws)))"
    "i_wf (i_adv 1 (iarchive_new ws (length ws)))" "i_rest (i_adv 1 (iarchive_new ws (length ws))) = r"
proof -
  have "i_rest (iarchive_new ws (length ws)) = b # r" using assms by simp
  note b = read_byte[OF iarchive_new_wf(1) this]
  show "read_into (iarchive_new ws (length ws)) = Some (b :: byte, i_adv 1 (iarchive_new ws (length ws)))"
    "i_wf (i_adv 1 (iarchive_new ws (length ws)))" "i_rest (i_adv 1 (iarchive_new ws (length ws))) = r"
    by (rule b)+
qed

lemma flex_type_of_code_code [simp]: "flex_type_of_code (flex_type_code t) = Some t"
  by (cases t) (simp_all add: flex_type_of_code_def all_flex_types_def)

lemma single_template:
  assumes "\<forall>f\<in>set data. get_type f = t" "t \<noteq> UNDEFINED"
  shows "map (\<lambda>_. flex_reset t) (resize_to flex_new (length data) ret) = block_template t data"
    "defined_values data = data"
proof -
  have "block_template t data = map (\<lambda>_. flex_reset t) data"
    using assms by (simp add: block_template_def)
  then show "map (\<lambda>_. flex_reset t) (resize_to flex_new (length data) ret) = block_template t data"
    by (simp add: map_replicate_const)
  show "defined_values data = data" using assms by (simp add: defined_values_def filter_id_conv)
qed

lemma typed_decode_layout:
  assumes lay: "block_layout data (bi_flags info) ws" and ok: "block_ok data"
    and info: "bi_flags info AND IS_FLEXIBLE_TYPE \<noteq> 0" "bi_num_elem info = of_nat (length data)"
  shows "typed_decode info ws (length ws) ret = Some (True, data)"
proof -
  have len: "length data < 2 ^ 64" and fok: "list_all flex_ok data" using ok by (auto simp: block_ok_def)
  have n: "unat (bi_num_elem info) = length data" using info(2) unat_of_nat_u64[OF len] by simp
  let ?i = "iarchive_new ws (length ws)"
  note dec = typed_decode_def info(1) n Let_def
  from lay show ?thesis
  proof cases
    case no_values
    from read_head(1)[OF no_values(2)] show ?thesis
      using no_values(1,3) by (simp add: dec resize_to_def)
  next
    case all_missing
    have d: "data = replicate (length data) FlexUndefined" using all_missing(4) by (simp add: replicate_eqI)
    note b = read_head[OF all_missing(1)]
    show ?thesis using b(1) read_byte(1)[OF b(2,3)] all_missing(2) flex_type_of_code_code[of UNDEFINED]
      by (simp add: dec map_replicate_const d[symmetric])
  next
    case (single_type t cs)
    have "ws = 1 # flex_type_code t # cs" using single_type(1) by simp
    note b = read_head[OF this]
    note c = read_byte[OF b(2,3)]
    have "decode_content t (i_adv 1 (i_adv 1 ?i)) (block_template t data) 0 = Some (data, i_adv (length cs) (i_adv 1 (i_adv 1 ?i)))"
      using single_type(6) c(2,3) single_template(2)[OF single_type(5,4)] unfolding content_wire_def
      by (metis append_Nil2 diff_self_eq_0)
    then show ?thesis using b(1) c(1) single_type(2,4) n by (simp add: dec single_template(1)[OF single_type(5,4)])
  next
    case (with_missing t d cs)
    have d: "db_wf d" "db_len d = length data" "db_bits d = missing_at data"
      using undefined_bitset[of data] with_missing(6) by auto
    have "ws = 2 # flex_type_code t # words_bytes (db_array d) @ cs" using with_missing(1) by simp
    note b = read_head[OF this]
    note c = read_byte[OF b(2,3)]
    let ?j = "i_adv 1 (i_adv 1 ?i)" and ?l = "length (words_bytes (db_array d))"
    have bs: "read_bitset (length data) ?j = Some (d, i_adv ?l ?j)" by (rule read_bitset[OF c(2,3) d(1,2)])
    note j = i_adv_wf[OF c(2,3)]
    have "decode_content t (i_adv ?l ?j) (block_template t data) (db_popcount d) =
        Some (data, i_adv (length cs) (i_adv ?l ?j))"
      using with_missing(7) j db.popcount[OF d(1)] d(3) card_missing[of data] unfolding content_wire_def
      by (metis append_Nil2)
    then show ?thesis using b(1) c(1) bs with_missing(2) n db.iterate[OF d(1)] reset_to_template[of t data ret] d(3)
      by (simp add: dec)
  next
    case (several_types k)
    let ?w = "bytes_of (of_nat (length data) :: u64) @ concat (map flex_wire data)"
    have "ws = k # ?w @ []" using several_types(1) by simp
    note b = read_head[OF this]
    have "length data < 2 ^ 64 \<and> list_all flex_ok data" using len fok by blast
    from flex_vector_codec.load_wire[OF b(2) this b(3)] show ?thesis
      using b(1) several_types(2) n by (simp add: dec)
  qed
qed

section \<open>Streaming a block\<close>

abbreviation missing :: "flexible_type \<Rightarrow> bool" where
  "missing f \<equiv> f = FlexUndefined"

lemma skip_undefined:
  assumes d: "db_wf d" "db_len d = length data" "db_bits d = missing_at data"
  shows "skip_undefined d (length data) i = Some (length (takeWhile missing (drop i data)))"
proof (induction "length data - i" arbitrary: i)
  case 0
  then show ?case by (simp add: skip_undefined.simps)
next
  case (Suc n)
  then have i: "i < length data" "n = length data - Suc i" by auto
  then have "db_get d i = Some (missing (data ! i))"
    using db.get[OF d(1), of i] d(2,3) by (simp add: db_size_def missing_at_def get_type_UNDEFINED)
  then show ?case using i Suc.hyps(1)[OF i(2)] Cons_nth_drop_Suc[OF i(1), symmetric]
    by (subst skip_undefined.simps) simp
qed

lemma defined_split:
  "defined_values xs = v # vs \<Longrightarrow> \<exists>rest. xs = takeWhile missing xs @ v # rest \<and> defined_values rest = vs"
proof (induction xs)
  case (Cons f fs)
  then show ?case by (cases "missing f") (auto split: if_splits simp: get_type_UNDEFINED)
qed simp

lemma takeWhile_missing: "takeWhile missing xs = replicate (length (takeWhile missing xs)) FlexUndefined"
  by (induction xs) auto

lemma stream_values_missing:
  assumes d: "db_wf d" "db_len d = length data" "db_bits d = missing_at data" and n: "0 < n"
  shows "vs = defined_values (drop i data) \<Longrightarrow>
    \<exists>out last_id k. stream_values d n (length data) i vs = Some (out, last_id) \<and>
      skip_undefined d (length data) last_id = Some k \<and> out @ replicate k FlexUndefined = drop i data"
proof (induction vs arbitrary: i)
  case Nil
  have "\<forall>f\<in>set (drop i data). missing f" using Nil[symmetric]
    by (auto simp: defined_values_def filter_empty_conv get_type_UNDEFINED)
  then have "takeWhile missing (drop i data) = drop i data" by (simp add: takeWhile_eq_all_conv)
  then show ?case using skip_undefined[OF d, of i] takeWhile_missing[of "drop i data"] by simp
next
  case (Cons v vs)
  let ?k = "length (takeWhile missing (drop i data))"
  from defined_split[OF Cons.prems[symmetric]] obtain rest where
    r: "drop i data = takeWhile missing (drop i data) @ v # rest" "defined_values rest = vs" by blast
  have "drop (i + ?k + 1) data = drop (?k + 1) (drop i data)" by (simp add: add.commute)
  also have "\<dots> = rest" by (subst r(1)) simp
  finally have "drop (i + ?k + 1) data = rest" .
  with Cons.IH[of "i + ?k + 1"] r(2) obtain out last_id k where
    s: "stream_values d n (length data) (i + ?k + 1) vs = Some (out, last_id)"
    "skip_undefined d (length data) last_id = Some k" "out @ replicate k FlexUndefined = rest" by auto
  have "stream_values d n (length data) i (v # vs) = Some (replicate ?k FlexUndefined @ v # out, last_id)"
    using s(1) skip_undefined[OF d, of i] n by simp
  then show ?case using s(2,3) r(1) takeWhile_missing[of "drop i data"] by auto
qed

lemma stream_values_all: "stream_values d 0 n i vs = Some (vs, i + length vs)"
  by (induction vs arbitrary: i) simp_all

lemma stream_others_wire:
  assumes t: "one_type t data" and ok: "list_all flex_ok data"
    and get: "\<And>i. i < length data \<Longrightarrow> (if 0 < n then db_get d i else Some False) = Some (missing (data ! i))"
  shows "i \<le> length data \<Longrightarrow> i_wf iarc \<Longrightarrow>
    i_rest iarc = concat (map flex_payload (defined_values (drop i data))) @ r \<Longrightarrow>
    \<exists>iarc'. stream_others d n t iarc [i..<length data] = Some (drop i data, iarc')"
proof (induction "length data - i" arbitrary: i iarc)
  case (Suc m)
  then have i: "i < length data" "m = length data - Suc i" by auto
  have dr: "drop i data = data ! i # drop (Suc i) data" using Cons_nth_drop_Suc[OF i(1)] by simp
  have u: "[i..<length data] = i # [Suc i..<length data]" using i(1) by (simp add: upt_conv_Cons)
  show ?case
  proof (cases "missing (data ! i)")
    case True
    then show ?thesis using Suc.hyps(1)[OF i(2), of iarc] Suc.prems i(1) get[OF i(1)] by (auto simp: dr u)
  next
    case False
    have f: "get_type (data ! i) = t" "flex_ok (data ! i)"
      using t ok i(1) False by (auto simp: one_type_def list_all_length get_type_UNDEFINED)
    have rest: "i_rest iarc = flex_payload (data ! i) @
        (concat (map flex_payload (defined_values (drop (Suc i) data))) @ r)"
      using Suc.prems(3) f(1) t by (simp add: dr one_type_def)
    note w = i_adv_wf[OF Suc.prems(2) rest]
    from Suc.hyps(1)[OF i(2) _ w] i(1) deserializer_wire[OF f(2) Suc.prems(2) rest] get[OF i(1)] False
    show ?thesis by (auto simp: dr u f(1))
  qed
qed simp

lemma content_wire_unique: "content_wire t data cs \<Longrightarrow> content_wire t data cs' \<Longrightarrow> cs = cs'"
  unfolding content_wire_def using oarchive_new_wf by (metis append_Nil option.inject)

lemma stream_content_streamed:
  "streamed t \<Longrightarrow> stream_content t dsize iarc bitmap n = do {
     (vals, iarc) \<leftarrow> stream_typed t (dsize - n) iarc;
     (out, last_id) \<leftarrow> stream_values bitmap n dsize 0 vals;
     k \<leftarrow> (if n > 0 then skip_undefined bitmap dsize last_id else Some 0);
     Some (out @ replicate k FlexUndefined) }"
  by (cases t) (simp_all add: streamed_def stream_content_def stream_typed_def Let_def case_prod_unfold)

lemma stream_content_wire:
  assumes t: "one_type t data" and ok: "list_all flex_ok data" and c: "content_wire t data cs"
    and wf: "i_wf iarc" and rest: "i_rest iarc = cs @ r"
    and d: "if n = 0 then \<forall>f\<in>set data. \<not> missing f
      else db_wf d \<and> db_len d = length data \<and> db_bits d = missing_at data \<and> n = card (missing_at data)"
  shows "stream_content t (length data) iarc d n =
    Some (data @ (if streamed t then [] else takeWhile missing data))"
proof -
  have cm: "length data - card (missing_at data) = length (defined_values data)"
    using card_missing[of data] by (simp add: defined_values_def)
  have n: "length data - n = length (defined_values data)"
    "n = 0 \<Longrightarrow> defined_values data = data" "n = 0 \<Longrightarrow> takeWhile missing data = []"
    using d cm by (auto simp: defined_values_def filter_id_conv get_type_UNDEFINED split: if_splits intro: takeWhile_eq_Nil_iff[THEN iffD2])
  show ?thesis
  proof (cases "streamed t")
    case True
    have "stream_typed t (length data - n) iarc = Some (defined_values data, i_adv (length cs) iarc)"
      using c wf rest True unfolding n(1) content_wire_def by blast
    then show ?thesis using True stream_values_missing[of d data n "defined_values data" 0] d n(2)
      by (auto simp: stream_content_streamed stream_values_all split: if_splits)
  next
    case False
    have cs: "cs = concat (map flex_payload (defined_values data))"
      by (rule content_wire_unique[OF c content_other[OF t False ok]])
    have get: "(if 0 < n then db_get d i else Some False) = Some (missing (data ! i))" if "i < length data" for i
      using d db.get[of d i] that
      by (auto simp: db_size_def missing_at_def get_type_UNDEFINED split: if_splits)
    from stream_others_wire[OF t ok get, of 0 iarc r] obtain iarc' where
      "stream_others d n t iarc [0..<length data] = Some (data, iarc')"
      using wf rest cs by auto
    then show ?thesis using False d n(3) skip_undefined[of d data 0] takeWhile_missing[of data]
      by (auto simp: stream_content_def streamed_def split: if_splits)
  qed
qed

text \<open>
  The values passed to the callback after those of the block: the stream decoder reports the missing
  values at the start of a block of lists, dictionaries, dates or images a second time at its end.
\<close>

definition repeated_values :: "u64 \<Rightarrow> flexible_type list \<Rightarrow> flexible_type list" where
  "repeated_values flags data =
     (if flags AND MULTIPLE_TYPE_BLOCK = 0 \<and> list_ex (\<lambda>f. \<not> missing f \<and> \<not> streamed (get_type f)) data
      then takeWhile missing data else [])"

lemma repeated_values_one_type:
  assumes "flags AND MULTIPLE_TYPE_BLOCK = 0" "one_type t data" "\<exists>f\<in>set data. get_type f = t"
  shows "repeated_values flags data = (if streamed t then [] else takeWhile missing data)"
  using assms by (auto simp: repeated_values_def one_type_def list_all_iff list_ex_iff get_type_UNDEFINED)

lemma typed_stream_layout:
  assumes lay: "block_layout data (bi_flags info) ws" and ok: "block_ok data"
    and info: "bi_flags info AND IS_FLEXIBLE_TYPE \<noteq> 0" "bi_num_elem info = of_nat (length data)"
  shows "typed_decode_stream_callback info ws (length ws) =
    Some (True, data @ repeated_values (bi_flags info) data)"
proof -
  have len: "length data < 2 ^ 64" and fok: "list_all flex_ok data" using ok by (auto simp: block_ok_def)
  have n: "unat (bi_num_elem info) = length data" using info(2) unat_of_nat_u64[OF len] by simp
  let ?i = "iarchive_new ws (length ws)"
  note dec = typed_decode_stream_callback_def info(1) n Let_def
  from lay show ?thesis
  proof cases
    case no_values
    from read_head(1)[OF no_values(2)] show ?thesis
      using no_values(1,3) by (simp add: dec repeated_values_def)
  next
    case all_missing
    have d: "data = replicate (length data) FlexUndefined" using all_missing(4) by (simp add: replicate_eqI)
    have "repeated_values (bi_flags info) data = []"
      using all_missing(4) by (auto simp: repeated_values_def list_ex_iff)
    moreover note b = read_head[OF all_missing(1)]
    ultimately show ?thesis using read_byte(1)[OF b(2,3)] all_missing(2) flex_type_of_code_code[of UNDEFINED]
      by (simp add: dec d[symmetric])
  next
    case (single_type t cs)
    have "ws = 1 # flex_type_code t # cs" using single_type(1) by simp
    note b = read_head[OF this]
    note c = read_byte[OF b(2,3)]
    have t: "one_type t data" "\<exists>f\<in>set data. get_type f = t" "\<forall>f\<in>set data. \<not> missing f"
      using single_type(3-5) by (cases data; auto simp: one_type_def list_all_iff)+
    from stream_content_wire[OF t(1) fok single_type(6) c(2), of "[]" 0 db_new] c(3) t(3)
    have "stream_content t (length data) (i_adv 1 (i_adv 1 ?i)) db_new 0 =
        Some (data @ repeated_values (bi_flags info) data)"
      by (simp add: repeated_values_one_type[OF single_type(2) t(1,2)])
    then show ?thesis using b(1) c(1) single_type(2,4) by (simp add: dec)
  next
    case (with_missing t d cs)
    have d: "db_wf d" "db_len d = length data" "db_bits d = missing_at data"
      using undefined_bitset[of data] with_missing(6) by auto
    have "ws = 2 # flex_type_code t # words_bytes (db_array d) @ cs" using with_missing(1) by simp
    note b = read_head[OF this]
    note c = read_byte[OF b(2,3)]
    let ?j = "i_adv 1 (i_adv 1 ?i)" and ?l = "length (words_bytes (db_array d))"
    have bs: "read_bitset (length data) ?j = Some (d, i_adv ?l ?j)" by (rule read_bitset[OF c(2,3) d(1,2)])
    note j = i_adv_wf[OF c(2,3)]
    have "card (missing_at data) \<noteq> 0"
      using with_missing(4) by (auto simp: missing_at_def in_set_conv_nth)
    then have "stream_content t (length data) (i_adv ?l ?j) d (db_popcount d) =
        Some (data @ repeated_values (bi_flags info) data)"
      using stream_content_wire[OF with_missing(3) fok with_missing(7) j(1), of "[]" "db_popcount d" d] j(2) d
        db.popcount[OF d(1)]
      by (simp add: repeated_values_one_type[OF with_missing(2,3,5)])
    then show ?thesis using b(1) c(1) bs with_missing(2) by (simp add: dec)
  next
    case (several_types k)
    let ?w = "bytes_of (of_nat (length data) :: u64) @ concat (map flex_wire data)"
    have "ws = k # ?w @ []" using several_types(1) by simp
    note b = read_head[OF this]
    have "length data < 2 ^ 64 \<and> list_all flex_ok data" using len fok by blast
    from flex_vector_codec.load_wire[OF b(2) this b(3)] show ?thesis
      using b(1) several_types(2) by (simp add: dec repeated_values_def)
  qed
qed

section \<open>Properties\<close>

lemma typed_block_decoders:
  assumes "block_ok data" "o_wf oarc" "o_data oarc = []" "bi_flags info AND MULTIPLE_TYPE_BLOCK = 0"
  obtains info' oarc' where "typed_encode data info oarc = Some (info', oarc')"
    "bi_num_elem info' = of_nat (length data)" "bi_block_size info' = of_nat (o_off oarc')"
    "bi_flags info' AND MULTIPLE_TYPE_BLOCK = 0 \<longleftrightarrow> single_column_type data"
    "\<And>ret. typed_decode info' (o_data oarc') (o_off oarc') ret = Some (True, data)"
    "typed_decode_stream_callback info' (o_data oarc') (o_off oarc') =
       Some (True, data @ repeated_values (bi_flags info') data)"
proof -
  from typed_encode_layout[OF assms(1,2,4)] obtain flags oarc' ws where
    e: "typed_encode data info oarc = Some (info\<lparr>bi_flags := flags, bi_num_elem := of_nat (length data),
        bi_block_size := of_nat (o_off oarc')\<rparr>, oarc')" (is "_ = Some (?info, _)")
    and w: "o_wf oarc'" "o_data oarc' = ws" and f: "flags AND IS_FLEXIBLE_TYPE \<noteq> 0"
      "flags AND MULTIPLE_TYPE_BLOCK = 0 \<longleftrightarrow> single_column_type data" and l: "block_layout data flags ws"
    using assms(3) by (auto simp: block_written_def)
  have "o_off oarc' = length ws" using length_o_data[OF w(1)] w(2) by simp
  then show thesis
    using that[OF e] w(2) f typed_decode_layout[of data ?info ws, OF _ assms(1)]
      typed_stream_layout[of data ?info ws, OF _ assms(1)] l by simp
qed

text \<open>C5. Every vector of values, of one type, with missing values or of several types, is encoded, and
  decoding the bytes with the block information the encoder filled in succeeds and gives the vector,
  whatever the vector passed in held before.\<close>

theorem typed_block_roundtrip:
  assumes "block_ok data" "o_wf oarc" "o_data oarc = []" "bi_flags info AND MULTIPLE_TYPE_BLOCK = 0"
  shows "\<exists>info' oarc'. typed_encode data info oarc = Some (info', oarc') \<and>
    bi_num_elem info' = of_nat (length data) \<and> bi_block_size info' = of_nat (o_off oarc') \<and>
    typed_decode info' (o_data oarc') (o_off oarc') ret = Some (True, data)"
  using typed_block_decoders[OF assms] by metis

theorem typed_block_roundtrip_witness:
  defines "data \<equiv> [FlexUndefined, FlexString [72, 105], FlexUndefined, FlexString []]"
  shows "\<exists>info' oarc'. typed_encode data block_info_new oarchive_new = Some (info', oarc') \<and>
    bi_num_elem info' = of_nat (length data) \<and> bi_block_size info' = of_nat (o_off oarc') \<and>
    typed_decode info' (o_data oarc') (o_off oarc') [] = Some (True, data)"
  by (rule typed_block_roundtrip) (simp_all add: data_def block_ok_def vec_total_def block_info_new_def)

text \<open>C20. The stream decoder passes the values of the block to the callback in their order, when the
  block has no list, dictionary, date or image, or does not start with a missing value.\<close>

theorem typed_block_stream:
  assumes "block_ok data" "o_wf oarc" "o_data oarc = []" "bi_flags info AND MULTIPLE_TYPE_BLOCK = 0"
    and "list_all (\<lambda>f. f = FlexUndefined \<or> streamed (get_type f)) data \<or> hd data \<noteq> FlexUndefined"
  shows "\<exists>info' oarc'. typed_encode data info oarc = Some (info', oarc') \<and>
    typed_decode_stream_callback info' (o_data oarc') (o_off oarc') = Some (True, data)"
proof -
  have "repeated_values flags data = []" for flags
    using assms(5) by (cases data) (auto simp: repeated_values_def list_ex_iff list_all_iff)
  then show ?thesis using typed_block_decoders[OF assms(1-4)] by (metis append_Nil2)
qed

theorem typed_block_stream_witness:
  defines "data \<equiv> [FlexUndefined, FlexInt 3, FlexInt 4]"
  shows "\<exists>info' oarc'. typed_encode data block_info_new oarchive_new = Some (info', oarc') \<and>
    typed_decode_stream_callback info' (o_data oarc') (o_off oarc') = Some (True, data)"
  by (rule typed_block_stream)
    (simp_all add: data_def block_ok_def vec_total_def block_info_new_def streamed_def)

text \<open>C21. On a column of lists, dictionaries, dates or images, the stream decoder reports the missing
  values at the start of the block a second time after the last value, so that it passes more values to
  the callback than the block has.\<close>

theorem typed_block_stream_repeats:
  assumes "block_ok data" "o_wf oarc" "o_data oarc = []" "bi_flags info AND MULTIPLE_TYPE_BLOCK = 0"
    and t: "one_type t data" "\<not> streamed t" "\<exists>f\<in>set data. get_type f = t"
  shows "\<exists>info' oarc'. typed_encode data info oarc = Some (info', oarc') \<and>
    typed_decode_stream_callback info' (o_data oarc') (o_off oarc') =
      Some (True, data @ takeWhile (\<lambda>f. f = FlexUndefined) data)"
proof -
  have "single_column_type data" using t(1) by (auto simp: single_column_type_def one_type_def list_all_iff)
  then show ?thesis
    using typed_block_decoders[OF assms(1-4)] repeated_values_one_type[OF _ t(1,3)] t(2) by metis
qed

theorem typed_block_stream_repeats_witness:
  defines "data \<equiv> [FlexUndefined, FlexDateTime 5 0]"
  shows "\<exists>info' oarc'. typed_encode data block_info_new oarchive_new = Some (info', oarc') \<and>
    typed_decode_stream_callback info' (o_data oarc') (o_off oarc') =
      Some (True, data @ takeWhile (\<lambda>f. f = FlexUndefined) data)"
  by (rule typed_block_stream_repeats[where t = DATETIME])
    (simp_all add: data_def block_ok_def vec_total_def block_info_new_def streamed_def one_type_def)

text \<open>Neither decoder touches a block without the flag of typed blocks: both report failure.\<close>

lemma untyped_block_rejected:
  assumes "bi_flags info AND IS_FLEXIBLE_TYPE = 0"
  shows "typed_decode info start len ret = Some (False, ret)"
    "typed_decode_stream_callback info start len = Some (False, [])"
  using assms by (simp_all add: typed_decode_def typed_decode_stream_callback_def)

end
