(* ===== verification/Block_Writer.thy ===== *)
theory Block_Writer
  imports Typed_Block
begin

text \<open>
  The writer of segment files (\<open>sframe/sarray_v2_block_writer.cpp\<close>) and the index information it fills
  in (\<open>sframe/sarray_index_file.hpp\<close>).

  The file system is a map from names to contents. A stream opened for writing truncates its file, and
  every write appends to it; whether the stream is still good is a parameter \<open>good f n\<close>, for the file
  \<open>f\<close> of length \<open>n\<close>. The compressor is a parameter too. The buffers taken from the buffer pool may hold
  old bytes: the archive starts on a buffer \<open>stale\<close> of arbitrary contents.
\<close>

section \<open>Index information\<close>

type_synonym files = "cstring \<Rightarrow> byte list option"

record index_file_information =
  ifi_index_file :: cstring
  ifi_version :: int
  ifi_nsegments :: nat
  ifi_block_size :: nat
  ifi_content_type :: cstring
  ifi_segment_sizes :: "u64 list"
  ifi_segment_files :: "cstring list"
  ifi_metadata :: "(cstring \<times> cstring) list"

definition index_file_information_new :: index_file_information where
  "index_file_information_new = \<lparr>ifi_index_file = [], ifi_version = - 1, ifi_nsegments = 0,
     ifi_block_size = 0, ifi_content_type = [], ifi_segment_sizes = [], ifi_segment_files = [],
     ifi_metadata = []\<rparr>"

record group_index_file_information =
  gi_group_index_file :: cstring
  gi_version :: int
  gi_nsegments :: nat
  gi_segment_files :: "cstring list"
  gi_columns :: "index_file_information list"

text \<open>\<open>std::to_string\<close> of an unsigned number, and \<open>name + ":" + std::to_string(col)\<close>.\<close>

fun to_string :: "nat \<Rightarrow> cstring" where
  "to_string n = (if n < 10 then [of_nat (48 + n)] else to_string (n div 10) @ [of_nat (48 + n mod 10)])"

declare to_string.simps [simp del]

definition column_name :: "cstring \<Rightarrow> nat \<Rightarrow> cstring" where
  "column_name f col = f @ [58] @ to_string col"

section \<open>The writer\<close>

record block_writer =
  bw_output_files :: "cstring option list"
  bw_output_bytes_written :: "u64 list"
  bw_blocks :: "block_info list list list"
  bw_index_info :: group_index_file_information

definition writer_init :: "cstring \<Rightarrow> nat \<Rightarrow> nat \<Rightarrow> block_writer" where
  "writer_init group_index_file num_segments num_columns =
     (let segment_files = replicate num_segments [] in
     \<lparr>bw_output_files = replicate num_segments None,
      bw_output_bytes_written = replicate num_segments 0,
      bw_blocks = replicate num_segments (replicate num_columns []),
      bw_index_info = \<lparr>gi_group_index_file = group_index_file, gi_version = 2,
        gi_nsegments = num_segments, gi_segment_files = segment_files,
        gi_columns = map (\<lambda>col. index_file_information_new\<lparr>
            ifi_index_file := column_name group_index_file col,
            ifi_version := 2, ifi_nsegments := num_segments,
            ifi_segment_files := map (\<lambda>segf. column_name segf col) segment_files,
            ifi_segment_sizes := replicate num_segments 0\<rparr>) [0..<num_columns]\<rparr>\<rparr>)"

definition open_segment ::
  "(cstring \<Rightarrow> nat \<Rightarrow> bool) \<Rightarrow> nat \<Rightarrow> cstring \<Rightarrow> block_writer \<Rightarrow> files \<Rightarrow> (error + unit) \<times> block_writer \<times> files"
where
  "open_segment good segmentid filename bw fs =
     (if \<not> segmentid < gi_nsegments (bw_index_info bw) \<or> bw_output_files bw ! segmentid \<noteq> None
      then (Inl Assertion_Failed, bw, fs)
      else if \<not> good filename 0 then (Inl Io_Failure, bw, fs)
      else let info = bw_index_info bw;
               fs = fs(filename \<mapsto> []);
               info = info\<lparr>gi_segment_files := (gi_segment_files info)[segmentid := filename]\<rparr>;
               info = info\<lparr>gi_columns := map (\<lambda>(col, c). c\<lparr>ifi_segment_files :=
                   (ifi_segment_files c)[segmentid := column_name filename col]\<rparr>)
                 (List.enumerate 0 (gi_columns info))\<rparr>;
               bw = bw\<lparr>bw_output_files := (bw_output_files bw)[segmentid := Some filename],
                       bw_index_info := info\<rparr>
           in (Inr (), bw, fs))"

text \<open>
  The test \<open>clen < COMPRESSION_DISABLE_THRESHOLD * block_size\<close> in single precision; the threshold \<open>0.9f\<close> is \<open>15099494 / 2^24\<close>.
\<close>

definition COMPRESSION_DISABLE_THRESHOLD :: nat where
  "COMPRESSION_DISABLE_THRESHOLD = 15099494"

definition compression_pays :: "nat \<Rightarrow> nat \<Rightarrow> bool" where
  "compression_pays clen block_size \<longleftrightarrow>
     round24 clen * 2 ^ 24 < round24 (COMPRESSION_DISABLE_THRESHOLD * round24 block_size)"

definition padding_for :: "nat \<Rightarrow> nat" where
  "padding_for len = ((len + 4095) div 4096) * 4096 - len"

text \<open>The bytes written for a block, and its information: compressed only if that pays.\<close>

definition compress_block ::
  "(byte list \<Rightarrow> byte list) \<Rightarrow> byte list \<Rightarrow> block_info \<Rightarrow> block_info \<times> byte list" where
  "compress_block lz4 data block =
     (let cbuffer = lz4 (take (unat (bi_block_size block)) data)
      in if compression_pays (length cbuffer) (unat (bi_block_size block))
         then (block\<lparr>bi_flags := bi_flags block OR LZ4_COMPRESSION, bi_length := of_nat (length cbuffer)\<rparr>, cbuffer)
         else (block\<lparr>bi_flags := bi_flags block AND NOT LZ4_COMPRESSION, bi_length := bi_block_size block\<rparr>,
               take (unat (bi_block_size block)) data))"

text \<open>A write to the stream of a segment.\<close>

definition append_file :: "cstring \<Rightarrow> byte list \<Rightarrow> files \<Rightarrow> files" where
  "append_file f bs fs = fs(f \<mapsto> (case fs f of Some c \<Rightarrow> c @ bs | None \<Rightarrow> bs))"

definition stream_good :: "(cstring \<Rightarrow> nat \<Rightarrow> bool) \<Rightarrow> cstring \<Rightarrow> files \<Rightarrow> bool" where
  "stream_good good f fs \<longleftrightarrow> (case fs f of Some c \<Rightarrow> good f (length c) | None \<Rightarrow> False)"

definition write_block ::
  "(byte list \<Rightarrow> byte list) \<Rightarrow> (cstring \<Rightarrow> nat \<Rightarrow> bool) \<Rightarrow> nat \<Rightarrow> nat \<Rightarrow> byte list \<Rightarrow> block_info \<Rightarrow>
     block_writer \<Rightarrow> files \<Rightarrow> (error + nat) \<times> block_writer \<times> files"
where
  "write_block lz4 good segment_id column_id data block bw fs =
     (let info = bw_index_info bw in
      if \<not> segment_id < gi_nsegments info \<or> \<not> column_id < length (gi_columns info)
      then (Inl Assertion_Failed, bw, fs)
      else case bw_output_files bw ! segment_id of
        None \<Rightarrow> (Inl Assertion_Failed, bw, fs)
      | Some f \<Rightarrow>
          let (block, buffer_to_write) = compress_block lz4 data block;
              buffer_to_write_len = length buffer_to_write;
              padding = padding_for buffer_to_write_len;
              offset = bw_output_bytes_written bw ! segment_id;
              block = block\<lparr>bi_offset := offset\<rparr>;
              c = gi_columns info ! column_id;
              c = c\<lparr>ifi_segment_sizes := (ifi_segment_sizes c)
                [segment_id := ifi_segment_sizes c ! segment_id + bi_num_elem block]\<rparr>;
              blocks = bw_blocks bw ! segment_id;
              bw = bw\<lparr>bw_output_bytes_written := (bw_output_bytes_written bw)
                       [segment_id := offset + of_nat (buffer_to_write_len + padding)],
                      bw_index_info := info\<lparr>gi_columns := (gi_columns info)[column_id := c]\<rparr>,
                      bw_blocks := (bw_blocks bw)
                       [segment_id := blocks[column_id := blocks ! column_id @ [block]]]\<rparr>;
              fs = append_file f (replicate padding 0) (append_file f buffer_to_write fs)
          in (if stream_good good f fs then Inr buffer_to_write_len else Inl Io_Failure, bw, fs))"

definition write_typed_block ::
  "(byte list \<Rightarrow> byte list) \<Rightarrow> (cstring \<Rightarrow> nat \<Rightarrow> bool) \<Rightarrow> byte list \<Rightarrow> nat \<Rightarrow> nat \<Rightarrow> flexible_type list \<Rightarrow>
     block_info \<Rightarrow> block_writer \<Rightarrow> files \<Rightarrow> (error + nat) \<times> block_writer \<times> files"
where
  "write_typed_block lz4 good stale segment_id column_id data block bw fs =
     (case typed_encode data block (oarchive_vec stale) of
        None \<Rightarrow> (Inl Undefined_Behaviour, bw, fs)
      | Some (block, oarc) \<Rightarrow> write_block lz4 good segment_id column_id (o_buf oarc) block bw fs)"

text \<open>The template for vectors of other types; \<open>save\<close> is the serializer of their elements.\<close>

definition write_vector_block ::
  "(oarchive \<Rightarrow> 'a \<Rightarrow> oarchive) \<Rightarrow> (byte list \<Rightarrow> byte list) \<Rightarrow> (cstring \<Rightarrow> nat \<Rightarrow> bool) \<Rightarrow> byte list \<Rightarrow>
     nat \<Rightarrow> nat \<Rightarrow> 'a list \<Rightarrow> block_info \<Rightarrow> block_writer \<Rightarrow> files \<Rightarrow> (error + nat) \<times> block_writer \<times> files"
where
  "write_vector_block save lz4 good stale segment_id column_id data block bw fs =
     (let oarc = vector_save save (oarchive_vec stale) data;
          block = block\<lparr>bi_block_size := of_nat (o_off oarc), bi_num_elem := of_nat (length data)\<rparr>
      in write_block lz4 good segment_id column_id (o_buf oarc) block bw fs)"

text \<open>
  The footer: the blocks of the segment and the number of bytes they take. \<open>block_info\<close> is written as
  the 48 bytes of the struct, the last six of them padding.
\<close>

definition block_info_bytes :: "block_info \<Rightarrow> byte list" where
  "block_info_bytes b = bytes_of (bi_offset b) @ bytes_of (bi_length b) @ bytes_of (bi_block_size b) @
     bytes_of (bi_num_elem b) @ bytes_of (bi_flags b) @ bytes_of (bi_content_type b) @ replicate 6 0"

definition emit_footer ::
  "(cstring \<Rightarrow> nat \<Rightarrow> bool) \<Rightarrow> nat \<Rightarrow> block_writer \<Rightarrow> files \<Rightarrow> (error + unit) \<times> files"
where
  "emit_footer good segment_id bw fs =
     (case (if segment_id < length (bw_output_files bw) then bw_output_files bw ! segment_id else None) of
        None \<Rightarrow> (Inl Undefined_Behaviour, fs)
      | Some f \<Rightarrow>
          let oarc = vector_save (vector_pod_save block_info_bytes) oarchive_new (bw_blocks bw ! segment_id);
              footer_size = of_nat (o_off oarc) :: u64;
              fs = append_file f (bytes_of footer_size) (append_file f (take (o_off oarc) (o_buf oarc)) fs)
          in (if stream_good good f fs then Inr () else Inl Io_Failure, fs))"

definition close_segment ::
  "(cstring \<Rightarrow> nat \<Rightarrow> bool) \<Rightarrow> nat \<Rightarrow> block_writer \<Rightarrow> files \<Rightarrow> (error + unit) \<times> block_writer \<times> files"
where
  "close_segment good segment_id bw fs =
     (case emit_footer good segment_id bw fs of
        (Inl e, fs) \<Rightarrow> (Inl e, bw, fs)
      | (Inr _, fs) \<Rightarrow>
          (Inr (), bw\<lparr>bw_output_files := (bw_output_files bw)[segment_id := None]\<rparr>, fs))"

section \<open>What the file of a segment holds\<close>

text \<open>
  The documented behaviour of the compressor, as relied upon: decompression inverts it on inputs of the
  supported size, and the output is not longer than \<open>LZ4_compressBound\<close>.
\<close>

definition LZ4_MAX_INPUT_SIZE :: nat where "LZ4_MAX_INPUT_SIZE = 2113929216"

definition lz4_inverse :: "(byte list \<Rightarrow> byte list) \<Rightarrow> (byte list \<Rightarrow> nat \<Rightarrow> byte list) \<Rightarrow> bool" where
  "lz4_inverse lz4 unlz4 \<longleftrightarrow> (\<forall>d. length d \<le> LZ4_MAX_INPUT_SIZE \<longrightarrow>
     unlz4 (lz4 d) (length d) = d \<and> length (lz4 d) \<le> length d + length d div 255 + 16)"

text \<open>
  The block of information \<open>info\<close> in the file holds the bytes \<open>raw\<close>, written on behalf of \<open>req\<close>: the
  request's fields are kept, but for the offset, the length and the compression flag.
\<close>

definition block_at :: "(byte list \<Rightarrow> nat \<Rightarrow> byte list) \<Rightarrow> byte list \<Rightarrow> block_info \<Rightarrow> block_info \<times> byte list \<Rightarrow> bool"
where
  "block_at unlz4 content info = (\<lambda>(req, raw).
     unat (bi_offset info) + unat (bi_length info) \<le> length content \<and> unat (bi_offset info) mod 4096 = 0 \<and>
     unat (bi_block_size info) = length raw \<and> bi_num_elem info = bi_num_elem req \<and>
     bi_flags info AND NOT LZ4_COMPRESSION = bi_flags req AND NOT LZ4_COMPRESSION \<and>
     (let bs = take (unat (bi_length info)) (drop (unat (bi_offset info)) content)
      in (if bi_flags info AND LZ4_COMPRESSION \<noteq> 0 then unlz4 bs (length raw) else bs) = raw))"

definition segment_inv ::
  "(byte list \<Rightarrow> nat \<Rightarrow> byte list) \<Rightarrow> nat \<Rightarrow> block_writer \<Rightarrow> byte list \<Rightarrow> (nat \<Rightarrow> (block_info \<times> byte list) list) \<Rightarrow> bool"
where
  "segment_inv unlz4 seg bw content spec \<longleftrightarrow>
     unat (bw_output_bytes_written bw ! seg) = length content \<and> length content mod 4096 = 0 \<and>
     length (bw_blocks bw ! seg) = length (gi_columns (bw_index_info bw)) \<and>
     (\<forall>c<length (gi_columns (bw_index_info bw)).
        list_all2 (block_at unlz4 content) (bw_blocks bw ! seg ! c) (spec c) \<and>
        seg < length (ifi_segment_sizes (gi_columns (bw_index_info bw) ! c)) \<and>
        ifi_segment_sizes (gi_columns (bw_index_info bw) ! c) ! seg = sum_list (map (bi_num_elem \<circ> fst) (spec c)))"

definition bw_wf :: "block_writer \<Rightarrow> bool" where
  "bw_wf bw \<longleftrightarrow> length (bw_output_files bw) = gi_nsegments (bw_index_info bw) \<and>
     length (bw_output_bytes_written bw) = gi_nsegments (bw_index_info bw) \<and>
     length (bw_blocks bw) = gi_nsegments (bw_index_info bw)"

lemma block_at_append: "block_at unlz4 content info s \<Longrightarrow> block_at unlz4 (content @ bs) info s"
  by (auto simp: block_at_def Let_def)

lemma padding: "(n + padding_for n) mod 4096 = 0" "padding_for n < 4096"
proof -
  define q where "q = (n + 4095) div 4096"
  have q: "4096 * q + (n + 4095) mod 4096 = n + 4095" unfolding q_def by simp
  have m: "(n + 4095) mod 4096 < 4096" by simp
  have "n \<le> 4096 * q" "4096 * q < n + 4096" using q m by linarith+
  moreover have "padding_for n = 4096 * q - n" by (simp add: padding_for_def q_def)
  ultimately show "padding_for n < 4096" and "(n + padding_for n) mod 4096 = 0" by auto
qed

lemma flag_lz4_bits:
  fixes flags :: u64
  shows "(flags OR LZ4_COMPRESSION) AND LZ4_COMPRESSION \<noteq> 0"
    "(flags AND NOT LZ4_COMPRESSION) AND LZ4_COMPRESSION = 0"
    "(flags OR LZ4_COMPRESSION) AND NOT LZ4_COMPRESSION = flags AND NOT LZ4_COMPRESSION"
    "(flags AND NOT LZ4_COMPRESSION) AND NOT LZ4_COMPRESSION = flags AND NOT LZ4_COMPRESSION"
proof -
  have "bit ((flags OR 1) AND 1) 0" by (simp add: bit_simps)
  then show "(flags OR LZ4_COMPRESSION) AND LZ4_COMPRESSION \<noteq> 0" unfolding block_flags by auto
  show "(flags AND NOT LZ4_COMPRESSION) AND LZ4_COMPRESSION = 0"
    "(flags OR LZ4_COMPRESSION) AND NOT LZ4_COMPRESSION = flags AND NOT LZ4_COMPRESSION"
    "(flags AND NOT LZ4_COMPRESSION) AND NOT LZ4_COMPRESSION = flags AND NOT LZ4_COMPRESSION"
    by (rule bit_word_eqI, auto simp: bit_simps)+
qed

lemma lz4_flag: "LZ4_COMPRESSION \<noteq> 0"
  by (simp add: block_flags)

text \<open>Whichever bytes \<open>compress_block\<close> chooses, they stand for the block.\<close>

lemma compress_block:
  assumes law: "lz4_inverse lz4 unlz4" and size: "unat (bi_block_size block) \<le> length data"
    "unat (bi_block_size block) \<le> LZ4_MAX_INPUT_SIZE"
    and off: "unat off = length content" "length content mod 4096 = 0"
  obtains block' out where "compress_block lz4 data block = (block', out)" "length out < 2 ^ 32"
    "bi_num_elem block' = bi_num_elem block"
    "\<And>pad. block_at unlz4 (content @ out @ pad) (block'\<lparr>bi_offset := off\<rparr>) (block, take (unat (bi_block_size block)) data)"
proof -
  let ?raw = "take (unat (bi_block_size block)) data"
  have l: "length ?raw = unat (bi_block_size block)" using size by simp
  have "length ?raw \<le> LZ4_MAX_INPUT_SIZE" using size(2) l by linarith
  then have b: "unlz4 (lz4 ?raw) (length ?raw) = ?raw" "length (lz4 ?raw) \<le> length ?raw + length ?raw div 255 + 16"
    using law unfolding lz4_inverse_def by blast+
  have m: "length ?raw < 2 ^ 32" "length (lz4 ?raw) < 2 ^ 32"
    using size(2) l b(2) by (auto simp: LZ4_MAX_INPUT_SIZE_def)
  have u: "unat (of_nat (length (lz4 ?raw)) :: u64) = length (lz4 ?raw)"
    using m(2) by (intro unat_of_nat_u64) simp
  show thesis
  proof (cases "compression_pays (length (lz4 ?raw)) (unat (bi_block_size block))")
    case True
    then have "compress_block lz4 data block = (block\<lparr>bi_flags := bi_flags block OR LZ4_COMPRESSION,
        bi_length := of_nat (length (lz4 ?raw))\<rparr>, lz4 ?raw)"
      by (simp add: compress_block_def Let_def)
    then show thesis
      by (rule that[OF _ m(2)]) (use b l u off size(1) in \<open>simp_all add: block_at_def flag_lz4_bits lz4_flag\<close>)
  next
    case False
    then have "compress_block lz4 data block = (block\<lparr>bi_flags := bi_flags block AND NOT LZ4_COMPRESSION,
        bi_length := bi_block_size block\<rparr>, ?raw)"
      by (simp add: compress_block_def Let_def)
    then show thesis
      by (rule that[OF _ m(1)]) (use l off size(1) in \<open>simp_all add: block_at_def flag_lz4_bits\<close>)
  qed
qed

section \<open>Writing a block\<close>

text \<open>The streams are good only while the sizes of the files fit \<open>size_t\<close>.\<close>

definition fs_sound :: "(cstring \<Rightarrow> nat \<Rightarrow> bool) \<Rightarrow> bool" where
  "fs_sound good \<longleftrightarrow> (\<forall>f n. good f n \<longrightarrow> n < 2 ^ 64)"

text \<open>The writer has segment \<open>seg\<close> open on the file \<open>f\<close>, which holds the blocks \<open>spec\<close>.\<close>

definition writing ::
  "(byte list \<Rightarrow> nat \<Rightarrow> byte list) \<Rightarrow> nat \<Rightarrow> nat \<Rightarrow> cstring \<Rightarrow> (nat \<Rightarrow> (block_info \<times> byte list) list) \<Rightarrow>
     block_writer \<Rightarrow> files \<Rightarrow> bool"
where
  "writing unlz4 ncols seg f spec bw fs \<longleftrightarrow>
     bw_wf bw \<and> seg < gi_nsegments (bw_index_info bw) \<and> length (gi_columns (bw_index_info bw)) = ncols \<and>
     bw_output_files bw ! seg = Some f \<and> (\<exists>content. fs f = Some content \<and> segment_inv unlz4 seg bw content spec)"

lemma write_block_keeps:
  assumes w: "writing unlz4 ncols seg f spec bw fs" and col: "col < ncols"
    and law: "lz4_inverse lz4 unlz4" and size: "unat (bi_block_size block) \<le> length data"
    "unat (bi_block_size block) \<le> LZ4_MAX_INPUT_SIZE" and fss: "fs_sound good"
  obtains (io) bw' fs' where "write_block lz4 good seg col data block bw fs = (Inl Io_Failure, bw', fs')"
      "\<not> stream_good good f fs'"
  | (ok) n bw' fs' where "write_block lz4 good seg col data block bw fs = (Inr n, bw', fs')"
      "writing unlz4 ncols seg f (spec(col := spec col @ [(block, take (unat (bi_block_size block)) data)])) bw' fs'"
proof -
  obtain content where wf: "bw_wf bw" and seg: "seg < gi_nsegments (bw_index_info bw)"
    and nc: "length (gi_columns (bw_index_info bw)) = ncols" and f: "bw_output_files bw ! seg = Some f"
    and c: "fs f = Some content" and inv: "segment_inv unlz4 seg bw content spec"
    using w by (auto simp: writing_def)
  let ?off = "bw_output_bytes_written bw ! seg" and ?raw = "take (unat (bi_block_size block)) data"
  have off: "unat ?off = length content" "length content mod 4096 = 0" using inv by (auto simp: segment_inv_def)
  obtain blk out where cb: "compress_block lz4 data block = (blk, out)" "length out < 2 ^ 32"
    "bi_num_elem blk = bi_num_elem block"
    "\<And>pad. block_at unlz4 (content @ out @ pad) (blk\<lparr>bi_offset := ?off\<rparr>) (block, ?raw)"
    using compress_block[OF law size off] by metis
  let ?pad = "replicate (padding_for (length out)) (0 :: byte)"
  let ?content = "content @ out @ ?pad" and ?spec = "spec(col := spec col @ [(block, ?raw)])"
  obtain r bw' fs' where r: "write_block lz4 good seg col data block bw fs = (r, bw', fs')"
    by (metis prod_cases3)
  have fs': "fs' f = Some ?content" and res: "r = (if good f (length ?content) then Inr (length out) else Inl Io_Failure)"
    and files: "bw_output_files bw' = bw_output_files bw" and ns: "gi_nsegments (bw_index_info bw') = gi_nsegments (bw_index_info bw)"
    using r seg col nc f c cb(1)
    by (auto simp: write_block_def append_file_def stream_good_def Let_def split: if_splits)
  have bytes: "bw_output_bytes_written bw' = (bw_output_bytes_written bw)[seg := ?off + of_nat (length out + padding_for (length out))]"
    and blocks: "bw_blocks bw' = (bw_blocks bw)[seg := (bw_blocks bw ! seg)[col := bw_blocks bw ! seg ! col @ [blk\<lparr>bi_offset := ?off\<rparr>]]]"
    and cols: "gi_columns (bw_index_info bw') = (gi_columns (bw_index_info bw))[col :=
        (gi_columns (bw_index_info bw) ! col)\<lparr>ifi_segment_sizes := (ifi_segment_sizes (gi_columns (bw_index_info bw) ! col))
          [seg := ifi_segment_sizes (gi_columns (bw_index_info bw) ! col) ! seg + bi_num_elem block]\<rparr>]"
    using r seg col nc f cb(1,3) by (auto simp: write_block_def Let_def)
  show thesis
  proof (cases "good f (length ?content)")
    case False
    then show thesis using io r res fs' by (simp add: stream_good_def)
  next
    case True
    then have "length ?content < 2 ^ 64" using fss by (auto simp: fs_sound_def)
    then have written: "unat (?off + of_nat (length out + padding_for (length out))) = length ?content"
      using off(1) by (simp add: unat_word_ariths unsigned_of_nat take_bit_nat_def)
    have aligned: "length ?content mod 4096 = 0"
      using dvd_add[of 4096 "length content" "length out + padding_for (length out)"] off(2) padding(1)[of "length out"]
      by (simp add: mod_eq_0_iff_dvd)
    have stored: "list_all2 (block_at unlz4 ?content) (bw_blocks bw' ! seg ! k) (?spec k)" if "k < ncols" for k
    proof -
      have "list_all2 (block_at unlz4 content) (bw_blocks bw ! seg ! k) (spec k)"
        using inv that nc by (auto simp: segment_inv_def)
      then have "list_all2 (block_at unlz4 ?content) (bw_blocks bw ! seg ! k) (spec k)"
        by (rule list_all2_mono) (rule block_at_append)
      moreover have "length (bw_blocks bw ! seg) = ncols" "seg < length (bw_blocks bw)"
        using inv nc wf seg by (simp_all add: segment_inv_def bw_wf_def)
      ultimately show ?thesis using cb(4)[of ?pad] that col
        by (cases "k = col") (simp_all add: blocks list_all2_appendI)
    qed
    have "segment_inv unlz4 seg bw' ?content ?spec" unfolding segment_inv_def
    proof (intro conjI allI impI)
      show "unat (bw_output_bytes_written bw' ! seg) = length ?content"
        using written wf seg by (simp add: bytes bw_wf_def)
      show "length (bw_blocks bw' ! seg) = length (gi_columns (bw_index_info bw'))"
        using inv wf seg by (simp add: blocks cols bw_wf_def segment_inv_def)
      fix k assume "k < length (gi_columns (bw_index_info bw'))"
      then have k: "k < ncols" using nc by (simp add: cols)
      show "list_all2 (block_at unlz4 ?content) (bw_blocks bw' ! seg ! k) (?spec k)" by (rule stored[OF k])
      note i = inv[unfolded segment_inv_def nc, THEN conjunct2, THEN conjunct2, THEN conjunct2, rule_format, OF k]
      show "seg < length (ifi_segment_sizes (gi_columns (bw_index_info bw') ! k))"
        using i k nc by (cases "k = col") (simp_all add: cols)
      show "ifi_segment_sizes (gi_columns (bw_index_info bw') ! k) ! seg = sum_list (map (bi_num_elem \<circ> fst) (?spec k))"
        using i k nc by (cases "k = col") (simp_all add: cols)
    qed (rule aligned)
    moreover have "bw_wf bw'" using wf by (simp add: bw_wf_def files ns bytes blocks)
    ultimately have "writing unlz4 ncols seg f ?spec bw' fs'"
      using fs' seg nc f by (auto simp: writing_def files ns cols)
    then show thesis using ok r res True by simp
  qed
qed

section \<open>A segment from opening to closing\<close>

definition segment_fresh :: "nat \<Rightarrow> block_writer \<Rightarrow> bool" where
  "segment_fresh seg bw \<longleftrightarrow> bw_wf bw \<and> seg < gi_nsegments (bw_index_info bw) \<and> bw_output_files bw ! seg = None \<and>
     bw_output_bytes_written bw ! seg = 0 \<and>
     bw_blocks bw ! seg = replicate (length (gi_columns (bw_index_info bw))) [] \<and>
     (\<forall>c<length (gi_columns (bw_index_info bw)). seg < length (ifi_segment_sizes (gi_columns (bw_index_info bw) ! c)) \<and>
        ifi_segment_sizes (gi_columns (bw_index_info bw) ! c) ! seg = 0)"

lemma writer_init_fresh: "seg < num_segments \<Longrightarrow> segment_fresh seg (writer_init name num_segments num_columns)"
  by (simp add: segment_fresh_def writer_init_def bw_wf_def Let_def)

lemma open_segment_writing:
  assumes fresh: "segment_fresh seg bw" and good: "good f 0"
  shows "\<exists>bw' fs'. open_segment good seg f bw fs = (Inr (), bw', fs') \<and>
    writing unlz4 (length (gi_columns (bw_index_info bw))) seg f (\<lambda>_. []) bw' fs'"
proof -
  obtain r bw' fs' where o: "open_segment good seg f bw fs = (r, bw', fs')" by (metis prod_cases3)
  have w: "seg < gi_nsegments (bw_index_info bw)" "bw_output_files bw ! seg = None"
    "length (bw_output_files bw) = gi_nsegments (bw_index_info bw)"
    using fresh by (auto simp: segment_fresh_def bw_wf_def)
  have "r = Inr ()" "fs' f = Some []" "bw_output_files bw' ! seg = Some f"
    "length (bw_output_files bw') = length (bw_output_files bw)"
    "bw_output_bytes_written bw' = bw_output_bytes_written bw" "bw_blocks bw' = bw_blocks bw"
    "gi_nsegments (bw_index_info bw') = gi_nsegments (bw_index_info bw)"
    and c: "gi_columns (bw_index_info bw') = map (\<lambda>(col, c). c\<lparr>ifi_segment_files :=
        (ifi_segment_files c)[seg := column_name f col]\<rparr>) (List.enumerate 0 (gi_columns (bw_index_info bw)))"
    using o w good by (auto simp: open_segment_def Let_def)
  then show ?thesis using fresh o
    by (simp add: writing_def segment_inv_def segment_fresh_def bw_wf_def nth_enumerate_eq)
qed

text \<open>A stored block holds the values \<open>data\<close>.\<close>

definition typed_entry :: "flexible_type list \<Rightarrow> block_info \<times> byte list \<Rightarrow> bool" where
  "typed_entry data = (\<lambda>(req, raw). block_ok data \<and> block_layout data (bi_flags req) raw \<and>
     bi_flags req AND IS_FLEXIBLE_TYPE \<noteq> 0 \<and> bi_num_elem req = of_nat (length data))"

text \<open>The encoded block is one the compressor takes.\<close>

definition block_fits :: "byte list \<Rightarrow> flexible_type list \<Rightarrow> block_info \<Rightarrow> bool" where
  "block_fits stale data block \<longleftrightarrow> (case typed_encode data block (oarchive_vec stale) of
     Some (_, oarc) \<Rightarrow> o_off oarc \<le> LZ4_MAX_INPUT_SIZE | None \<Rightarrow> False)"

lemma write_typed_block_keeps:
  assumes w: "writing unlz4 ncols seg f spec bw fs" and col: "col < ncols"
    and law: "lz4_inverse lz4 unlz4" and fss: "fs_sound good"
    and data: "block_ok data" "block_fits stale data block" "bi_flags block AND MULTIPLE_TYPE_BLOCK = 0"
  obtains (io) bw' fs' where "write_typed_block lz4 good stale seg col data block bw fs = (Inl Io_Failure, bw', fs')"
      "\<not> stream_good good f fs'"
  | (ok) n bw' fs' entry where "write_typed_block lz4 good stale seg col data block bw fs = (Inr n, bw', fs')"
      "writing unlz4 ncols seg f (spec(col := spec col @ [entry])) bw' fs'" "typed_entry data entry"
proof -
  from typed_encode_layout[OF data(1) _ data(3), of "oarchive_vec stale"] obtain flags oarc ws where
    e: "typed_encode data block (oarchive_vec stale) = Some (block\<lparr>bi_flags := flags, bi_num_elem := of_nat (length data),
        bi_block_size := of_nat (o_off oarc)\<rparr>, oarc)" (is "_ = Some (?block, _)")
    and o: "o_wf oarc" "o_data oarc = ws" and l: "flags AND IS_FLEXIBLE_TYPE \<noteq> 0" "block_layout data flags ws"
    by (auto simp: block_written_def)
  have fits: "o_off oarc \<le> LZ4_MAX_INPUT_SIZE" using data(2) by (simp add: block_fits_def e)
  then have bs: "unat (bi_block_size ?block) = o_off oarc"
    by (simp add: LZ4_MAX_INPUT_SIZE_def unat_of_nat_u64)
  have b: "unat (bi_block_size ?block) \<le> length (o_buf oarc)" using o(1) unfolding bs by (simp add: o_wf_def)
  have t: "typed_entry data (?block, take (unat (bi_block_size ?block)) (o_buf oarc))"
    using l o data(1) unfolding bs by (simp add: typed_entry_def o_data_def)
  have eq: "write_typed_block lz4 good stale seg col data block bw fs =
      write_block lz4 good seg col (o_buf oarc) ?block bw fs"
    by (simp add: write_typed_block_def e)
  have m: "unat (bi_block_size ?block) \<le> LZ4_MAX_INPUT_SIZE" unfolding bs by (rule fits)
  from w col law b m fss show thesis
    by (cases rule: write_block_keeps) (use io ok eq t in \<open>metis+\<close>)
qed

text \<open>Requests to write blocks to one segment: the buffer, the column and the values.\<close>

fun write_typed_blocks ::
  "(byte list \<Rightarrow> byte list) \<Rightarrow> (cstring \<Rightarrow> nat \<Rightarrow> bool) \<Rightarrow> nat \<Rightarrow> (byte list \<times> nat \<times> flexible_type list) list \<Rightarrow>
     block_writer \<Rightarrow> files \<Rightarrow> (error + unit) \<times> block_writer \<times> files"
where
  "write_typed_blocks lz4 good seg [] bw fs = (Inr (), bw, fs)"
| "write_typed_blocks lz4 good seg ((stale, col, data) # reqs) bw fs =
     (case write_typed_block lz4 good stale seg col data block_info_new bw fs of
        (Inl e, bw, fs) \<Rightarrow> (Inl e, bw, fs)
      | (Inr _, bw, fs) \<Rightarrow> write_typed_blocks lz4 good seg reqs bw fs)"

definition request_ok :: "nat \<Rightarrow> byte list \<times> nat \<times> flexible_type list \<Rightarrow> bool" where
  "request_ok ncols = (\<lambda>(stale, col, data). col < ncols \<and> block_ok data \<and> block_fits stale data block_info_new)"

definition column_requests :: "nat \<Rightarrow> (byte list \<times> nat \<times> flexible_type list) list \<Rightarrow> flexible_type list list" where
  "column_requests c reqs = map (\<lambda>(_, _, data). data) (filter (\<lambda>(_, col, _). col = c) reqs)"

lemma write_typed_blocks_keep:
  assumes law: "lz4_inverse lz4 unlz4" and fss: "fs_sound good"
  shows "writing unlz4 ncols seg f spec bw fs \<Longrightarrow> list_all (request_ok ncols) reqs \<Longrightarrow>
    (\<exists>bw' fs'. write_typed_blocks lz4 good seg reqs bw fs = (Inl Io_Failure, bw', fs') \<and> \<not> stream_good good f fs') \<or>
    (\<exists>bw' fs' spec'. write_typed_blocks lz4 good seg reqs bw fs = (Inr (), bw', fs') \<and>
       writing unlz4 ncols seg f spec' bw' fs' \<and>
       (\<forall>c. \<exists>es. spec' c = spec c @ es \<and> list_all2 typed_entry (column_requests c reqs) es))"
proof (induction reqs arbitrary: spec bw fs)
  case (Cons req reqs)
  obtain stale col data where req: "req = (stale, col, data)" by (metis prod_cases3)
  have r: "col < ncols" "block_ok data" "block_fits stale data block_info_new"
    using Cons.prems(2) by (auto simp: request_ok_def req)
  have fl: "bi_flags block_info_new AND MULTIPLE_TYPE_BLOCK = 0" by (simp add: block_info_new_def)
  from Cons.prems(1) r(1) law fss r(2,3) fl show ?case
  proof (cases rule: write_typed_block_keeps)
    case io
    then show ?thesis by (simp add: req)
  next
    case (ok n bw' fs' entry)
    have ls: "list_all (request_ok ncols) reqs" using Cons.prems(2) by simp
    from Cons.IH[OF ok(2) ls] show ?thesis
    proof (elim disjE exE conjE)
      fix bw2 fs2 spec2
      assume s: "write_typed_blocks lz4 good seg reqs bw' fs' = (Inr (), bw2, fs2)"
        "writing unlz4 ncols seg f spec2 bw2 fs2"
        "\<forall>c. \<exists>es. spec2 c = (spec(col := spec col @ [entry])) c @ es \<and> list_all2 typed_entry (column_requests c reqs) es"
      have "\<exists>es. spec2 c = spec c @ es \<and> list_all2 typed_entry (column_requests c (req # reqs)) es" for c
        using s(3)[THEN spec, of c] ok(3) by (cases "c = col") (auto simp: req column_requests_def)
      then show ?thesis using s(1,2) ok(1) by (simp add: req) blast
    qed (use ok(1) in \<open>simp add: req\<close>)
  qed
qed (auto simp: column_requests_def)

section \<open>Properties\<close>

lemma typed_entries_rows:
  "list_all2 typed_entry data es \<Longrightarrow> sum_list (map (bi_num_elem \<circ> fst) es) = of_nat (sum_list (map length data))"
  by (induction rule: list_all2_induct) (auto simp: typed_entry_def)

lemma block_at_inside:
  "list_all2 (block_at unlz4 content) infos es \<Longrightarrow> info \<in> set infos \<Longrightarrow>
     unat (bi_offset info) mod 4096 = 0 \<and> unat (bi_offset info) + unat (bi_length info) \<le> length content"
  by (auto simp: list_all2_conv_all_nth in_set_conv_nth block_at_def)

text \<open>C7. Writing typed blocks to a segment that was just opened either stops with a bad stream, or the
  file is a whole number of pages, every block in it begins on a page and ends inside the file, and the
  index counts for each column the blocks and the rows written to it.\<close>

theorem segment_writer_layout:
  assumes law: "lz4_inverse lz4 unlz4" and fss: "fs_sound good" and g: "good f 0"
    and seg: "seg < nsegs" and reqs: "list_all (request_ok ncols) reqs"
  shows "\<exists>bw1 fs1 r bw fs'. open_segment good seg f (writer_init name nsegs ncols) fs = (Inr (), bw1, fs1) \<and>
    write_typed_blocks lz4 good seg reqs bw1 fs1 = (r, bw, fs') \<and>
    (r = Inl Io_Failure \<and> \<not> stream_good good f fs' \<or>
     r = Inr () \<and> (\<exists>content. fs' f = Some content \<and> length content mod 4096 = 0 \<and>
       unat (bw_output_bytes_written bw ! seg) = length content \<and>
       (\<forall>c<ncols. length (bw_blocks bw ! seg ! c) = length (column_requests c reqs) \<and>
          (\<forall>info\<in>set (bw_blocks bw ! seg ! c). unat (bi_offset info) mod 4096 = 0 \<and>
             unat (bi_offset info) + unat (bi_length info) \<le> length content) \<and>
          ifi_segment_sizes (gi_columns (bw_index_info bw) ! c) ! seg =
            of_nat (sum_list (map length (column_requests c reqs))))))"
proof -
  let ?bw = "writer_init name nsegs ncols"
  have nc: "length (gi_columns (bw_index_info ?bw)) = ncols" by (simp add: writer_init_def Let_def)
  obtain bw1 fs1 where o: "open_segment good seg f ?bw fs = (Inr (), bw1, fs1)" "writing unlz4 ncols seg f (\<lambda>_. []) bw1 fs1"
    using open_segment_writing[where good = good and f = f and bw = ?bw and fs = fs and ?unlz4.0 = unlz4, OF writer_init_fresh[OF seg] g]
    unfolding nc by blast
  from write_typed_blocks_keep[OF law fss o(2) reqs] show ?thesis
  proof (elim disjE exE conjE)
    fix bw fs' spec
    assume w: "write_typed_blocks lz4 good seg reqs bw1 fs1 = (Inr (), bw, fs')" "writing unlz4 ncols seg f spec bw fs'"
      and spec: "\<forall>c. \<exists>es. spec c = [] @ es \<and> list_all2 typed_entry (column_requests c reqs) es"
    from w(2) obtain content where c: "fs' f = Some content" "segment_inv unlz4 seg bw content spec"
      "length (gi_columns (bw_index_info bw)) = ncols" by (auto simp: writing_def)
    have cols: "list_all2 (block_at unlz4 content) (bw_blocks bw ! seg ! k) (spec k)"
      "ifi_segment_sizes (gi_columns (bw_index_info bw) ! k) ! seg = sum_list (map (bi_num_elem \<circ> fst) (spec k))"
      "list_all2 typed_entry (column_requests k reqs) (spec k)" if "k < ncols" for k
      using c that spec by (auto simp: segment_inv_def)
    have "length (bw_blocks bw ! seg ! k) = length (column_requests k reqs) \<and>
        (\<forall>info\<in>set (bw_blocks bw ! seg ! k). unat (bi_offset info) mod 4096 = 0 \<and>
             unat (bi_offset info) + unat (bi_length info) \<le> length content) \<and>
        ifi_segment_sizes (gi_columns (bw_index_info bw) ! k) ! seg = of_nat (sum_list (map length (column_requests k reqs)))"
      if "k < ncols" for k
      using list_all2_lengthD[OF cols(1)[OF that]] list_all2_lengthD[OF cols(3)[OF that]]
        block_at_inside[OF cols(1)[OF that]] cols(2)[OF that] typed_entries_rows[OF cols(3)[OF that]] by simp
    moreover have "length content mod 4096 = 0" "unat (bw_output_bytes_written bw ! seg) = length content"
      using c(2) by (auto simp: segment_inv_def)
    ultimately show ?thesis using o(1) w(1) c(1)
      by (intro exI[of _ bw1] exI[of _ fs1] exI[of _ "Inr ()"] exI[of _ bw] exI[of _ fs']) simp
  qed (use o(1) in blast)
qed

text \<open>A block of several types takes nine bytes besides its values.\<close>

lemma block_fits_mixed:
  assumes "block_ok data" "\<not> single_column_type data"
    "9 + length (concat (map flex_wire data)) \<le> LZ4_MAX_INPUT_SIZE"
  shows "block_fits stale data block_info_new"
proof -
  have "bi_flags block_info_new AND MULTIPLE_TYPE_BLOCK = 0" by (simp add: block_info_new_def)
  from typed_encode_layout[OF assms(1) _ this, of "oarchive_vec stale"] obtain flags oarc ws info where
    e: "typed_encode data block_info_new (oarchive_vec stale) = Some (info, oarc)" "o_wf oarc" "o_data oarc = ws"
    and l: "flags AND MULTIPLE_TYPE_BLOCK \<noteq> 0" "block_layout data flags ws"
    using assms(2) by (auto simp: block_written_def)
  from l(2,1) have "length ws = 9 + length (concat (map flex_wire data))" by cases simp_all
  then show ?thesis using e length_o_data[OF e(2)] assms(3) by (simp add: block_fits_def)
qed

lemma mixed_request_ok: "request_ok 2 (stale, Suc 0, [FlexInt 5, FlexUndefined, FlexString [65]])"
proof -
  have "\<not> single_column_type [FlexInt 5, FlexUndefined, FlexString [65]]"
    by (auto simp: single_column_type_def)
  moreover have ok: "block_ok [FlexInt 5, FlexUndefined, FlexString [65]]" by (simp add: block_ok_def vec_total_def)
  ultimately have "block_fits stale [FlexInt 5, FlexUndefined, FlexString [65]] block_info_new"
    by (intro block_fits_mixed) (simp_all add: flex_wire_def LZ4_MAX_INPUT_SIZE_def string_wire_def)
  then show ?thesis using ok by (simp add: request_ok_def)
qed

theorem segment_writer_layout_witness:
  defines "reqs \<equiv> [([7, 7, 7], 1, [FlexInt 5, FlexUndefined, FlexString [65]])]" and "good \<equiv> \<lambda>f n. n < 2 ^ 64"
  shows "\<exists>bw1 fs1 r bw fs'. open_segment good 0 [102] (writer_init [105] 1 2) Map.empty = (Inr (), bw1, fs1) \<and>
    write_typed_blocks (\<lambda>d. d) good 0 reqs bw1 fs1 = (r, bw, fs') \<and>
    (r = Inl Io_Failure \<and> \<not> stream_good good [102] fs' \<or>
     r = Inr () \<and> (\<exists>content. fs' [102] = Some content \<and> length content mod 4096 = 0 \<and>
       unat (bw_output_bytes_written bw ! 0) = length content \<and>
       (\<forall>c<2. length (bw_blocks bw ! 0 ! c) = length (column_requests c reqs) \<and>
          (\<forall>info\<in>set (bw_blocks bw ! 0 ! c). unat (bi_offset info) mod 4096 = 0 \<and>
             unat (bi_offset info) + unat (bi_length info) \<le> length content) \<and>
          ifi_segment_sizes (gi_columns (bw_index_info bw) ! c) ! 0 =
            of_nat (sum_list (map length (column_requests c reqs))))))"
proof (rule segment_writer_layout)
  show "list_all (request_ok 2) reqs" by (simp add: reqs_def mixed_request_ok)
  show "lz4_inverse (\<lambda>d. d) (\<lambda>d n. d)" by (simp add: lz4_inverse_def)
qed (simp_all add: fs_sound_def good_def)

end
