(* ===== verification/Block_Manager.thy ===== *)
theory Block_Manager
  imports Block_Writer
begin

text \<open>
  The reader of segment files (\<open>sframe/sarray_v2_block_manager.cpp\<close>): columns are opened and closed by
  name with a reference count per segment file, the footer of a segment gives the blocks of its columns,
  and blocks are read through a bounded pool of file handles.

  A handle in the pool is a number with the file it reads; the weak pointer of a segment is a number,
  which is dead once the handle has left the pool. Locks, the buffer pool and the parallelism hints of
  the input streams are not modelled: operations are sequential. \<open>general_ifstream\<close> throws on a missing
  file. An operation that throws returns the state it leaves behind.
\<close>

section \<open>Names of columns\<close>

definition isspace :: "byte \<Rightarrow> bool" where
  "isspace c \<longleftrightarrow> c = 32 \<or> 9 \<le> c \<and> c \<le> 13"

definition trim :: "cstring \<Rightarrow> cstring" where
  "trim s = rev (dropWhile isspace (rev (dropWhile isspace s)))"

definition isdigit :: "byte \<Rightarrow> bool" where
  "isdigit c \<longleftrightarrow> 48 \<le> c \<and> c \<le> 57"

definition digits_value :: "cstring \<Rightarrow> int" where
  "digits_value ds = foldl (\<lambda>v c. 10 * v + (uint c - 48)) 0 ds"

text \<open>\<open>strtol\<close> in base 10: the value, the number of characters read and whether \<open>errno\<close> is \<open>ERANGE\<close>.\<close>

definition strtol :: "cstring \<Rightarrow> int \<times> nat \<times> bool" where
  "strtol s =
     (let s1 = dropWhile isspace s;
          s2 = (if s1 \<noteq> [] \<and> (hd s1 = 43 \<or> hd s1 = 45) then tl s1 else s1);
          ds = takeWhile isdigit s2;
          v = (if s1 \<noteq> [] \<and> hd s1 = 45 then - digits_value ds else digits_value ds)
      in if ds = [] then (0, 0, False)
         else let n = length s - length s2 + length ds
              in if v > 2 ^ 63 - 1 then (2 ^ 63 - 1, n, True)
                 else if v < - (2 ^ 63) then (- (2 ^ 63), n, True)
                 else (v, n, False))"

text \<open>The text before and after the last separator, if there is one (\<open>find_last_of\<close> and \<open>substr\<close>).\<close>

definition split_last :: "byte \<Rightarrow> cstring \<Rightarrow> (cstring \<times> cstring) option" where
  "split_last c s =
     (let t = rev (takeWhile (\<lambda>x. x \<noteq> c) (rev s))
      in if length t = length s then None else Some (take (length s - length t - 1) s, t))"

definition parse_v2_segment_filename :: "cstring \<Rightarrow> cstring \<times> u64" where
  "parse_v2_segment_filename fname =
     (let fname = trim fname in
      case split_last 58 fname of
        None \<Rightarrow> (fname, - 1)
      | Some (root, trailing_str) \<Rightarrow>
          let (parsed_column_id, intendpos, erange) = strtol trailing_str
          in if \<not> erange \<and> intendpos = length trailing_str then (root, of_int parsed_column_id)
             else (fname, - 1))"

section \<open>State\<close>

record segment =
  seg_segment_file :: cstring
  seg_file_size :: nat
  seg_file_handle :: "nat option"
  seg_inited :: bool
  seg_blocks :: "block_info list list"
  seg_reference_count :: u64

definition segment_new :: segment where
  "segment_new = \<lparr>seg_segment_file = [], seg_file_size = 0, seg_file_handle = None, seg_inited = False,
     seg_blocks = [], seg_reference_count = 0\<rparr>"

record block_manager =
  bm_segment_id_counter :: nat
  bm_segments :: "nat \<Rightarrow> segment option"
  bm_file_to_segments :: "cstring \<Rightarrow> nat option"
  bm_file_handle_pool :: "(nat \<times> cstring) list"
  bm_next_handle :: nat

definition block_manager_new :: block_manager where
  "block_manager_new = \<lparr>bm_segment_id_counter = 0, bm_segments = Map.empty, bm_file_to_segments = Map.empty,
     bm_file_handle_pool = [], bm_next_handle = 0\<rparr>"

definition SFRAME_FILE_HANDLE_POOL_SIZE :: nat where "SFRAME_FILE_HANDLE_POOL_SIZE = 128"

section \<open>File handles\<close>

definition get_new_file_handle :: "files \<Rightarrow> cstring \<Rightarrow> block_manager \<Rightarrow> (error + nat) \<times> block_manager" where
  "get_new_file_handle fs s bm =
     (if fs s = None then (Inl Io_Failure, bm)
      else let pool = bm_file_handle_pool bm;
               pool = (if length pool > SFRAME_FILE_HANDLE_POOL_SIZE then tl pool else pool);
               h = bm_next_handle bm
           in (Inr h, bm\<lparr>bm_file_handle_pool := pool @ [(h, s)], bm_next_handle := h + 1\<rparr>))"

text \<open>\<open>group->segment_file_handle.lock()\<close> succeeds while the handle is in the pool. The result has the
  segment with its new handle, and the file the handle reads.\<close>

definition get_segment_file_handle ::
  "files \<Rightarrow> segment \<Rightarrow> block_manager \<Rightarrow> (error + (segment \<times> cstring)) \<times> block_manager" where
  "get_segment_file_handle fs seg bm =
     (case (case seg_file_handle seg of Some h \<Rightarrow> map_of (bm_file_handle_pool bm) h | None \<Rightarrow> None) of
        Some fin \<Rightarrow> (Inr (seg, fin), bm)
      | None \<Rightarrow>
          (case get_new_file_handle fs (seg_segment_file seg) bm of
             (Inl e, bm) \<Rightarrow> (Inl e, bm)
           | (Inr h, bm) \<Rightarrow> (Inr (seg\<lparr>seg_file_handle := Some h\<rparr>, seg_segment_file seg), bm)))"

text \<open>\<open>seekg\<close> and \<open>read\<close>: \<^const>\<open>None\<close> when the stream fails at the end of the file.\<close>

definition read_at :: "byte list \<Rightarrow> nat \<Rightarrow> nat \<Rightarrow> byte list option" where
  "read_at content pos n = (if pos + n \<le> length content then Some (take n (drop pos content)) else None)"

section \<open>Opening and closing columns\<close>

definition block_info_of_bytes :: "byte list \<Rightarrow> block_info" where
  "block_info_of_bytes bs = \<lparr>bi_offset = le_word (take 8 bs), bi_length = le_word (take 8 (drop 8 bs)),
     bi_block_size = le_word (take 8 (drop 16 bs)), bi_num_elem = le_word (take 8 (drop 24 bs)),
     bi_flags = le_word (take 8 (drop 32 bs)), bi_content_type = le_word (take 2 (drop 40 bs))\<rparr>"

definition init_segment :: "files \<Rightarrow> segment \<Rightarrow> block_manager \<Rightarrow> (error + segment) \<times> block_manager" where
  "init_segment fs seg bm =
     (if seg_inited seg then (Inr seg, bm)
      else case get_segment_file_handle fs seg bm of
        (Inl e, bm) \<Rightarrow> (Inl e, bm)
      | (Inr (seg, fin), bm) \<Rightarrow>
          (case fs fin of
             None \<Rightarrow> (Inl Io_Failure, bm)
           | Some content \<Rightarrow>
               let filesize = length content in
               case (if 8 \<le> filesize then read_at content (filesize - 8) 8 else None) of
                 None \<Rightarrow> (Inl Undefined_Behaviour, bm)
               | Some bs \<Rightarrow>
                   let footer_size = unat (le_word bs :: u64) in
                   if filesize < footer_size + 8 then (Inl Undefined_Behaviour, bm)
                   else case vector_load (vector_pod_load block_info_of_bytes 48)
                       (iarchive_new (drop (filesize - footer_size - 8) content) (footer_size + 8)) of
                     None \<Rightarrow> (Inl Undefined_Behaviour, bm)
                   | Some (blocks, _) \<Rightarrow>
                       (Inr (seg\<lparr>seg_blocks := blocks, seg_inited := True, seg_file_size := filesize\<rparr>), bm)))"

definition open_column :: "files \<Rightarrow> cstring \<Rightarrow> block_manager \<Rightarrow> (error + (nat \<times> nat)) \<times> block_manager" where
  "open_column fs column_file bm =
     (let (file, column) = parse_v2_segment_filename column_file;
          column = (if column = - 1 then 0 else column);
          (r, bm) =
            (case bm_file_to_segments bm file of
               Some segment_id \<Rightarrow> (Inr segment_id, bm)
             | None \<Rightarrow>
                 let segment_id = bm_segment_id_counter bm;
                     seg = segment_new\<lparr>seg_segment_file := file\<rparr>;
                     bm = bm\<lparr>bm_segment_id_counter := segment_id + 1,
                             bm_segments := (bm_segments bm)(segment_id \<mapsto> seg),
                             bm_file_to_segments := (bm_file_to_segments bm)(file \<mapsto> segment_id)\<rparr>
                 in case init_segment fs seg bm of
                      (Inl e, bm) \<Rightarrow> (Inl e, bm)
                    | (Inr seg, bm) \<Rightarrow> (Inr segment_id, bm\<lparr>bm_segments := (bm_segments bm)(segment_id \<mapsto> seg)\<rparr>))
      in case r of
           Inl e \<Rightarrow> (Inl e, bm)
         | Inr segment_id \<Rightarrow>
             (case bm_segments bm segment_id of
                None \<Rightarrow> (Inl Assertion_Failed, bm)
              | Some seg \<Rightarrow>
                  (Inr (segment_id, unat column), bm\<lparr>bm_segments := (bm_segments bm)
                     (segment_id \<mapsto> seg\<lparr>seg_reference_count := seg_reference_count seg + 1\<rparr>)\<rparr>)))"

definition close_column :: "nat \<times> nat \<Rightarrow> block_manager \<Rightarrow> (error + unit) \<times> block_manager" where
  "close_column addr bm =
     (case bm_segments bm (fst addr) of
        None \<Rightarrow> (Inl Assertion_Failed, bm)
      | Some seg \<Rightarrow>
          let seg = seg\<lparr>seg_reference_count := seg_reference_count seg - 1\<rparr>
          in if seg_reference_count seg = 0
             then (Inr (), bm\<lparr>bm_file_to_segments := (bm_file_to_segments bm)(seg_segment_file seg := None),
                              bm_segments := (bm_segments bm)(fst addr := None)\<rparr>)
             else (Inr (), bm\<lparr>bm_segments := (bm_segments bm)(fst addr \<mapsto> seg)\<rparr>))"

section \<open>Reading blocks\<close>

definition num_blocks_in_column :: "nat \<times> nat \<Rightarrow> block_manager \<Rightarrow> error + nat" where
  "num_blocks_in_column = (\<lambda>(segment_id, column_id) bm.
     case bm_segments bm segment_id of
       None \<Rightarrow> Inl Assertion_Failed
     | Some seg \<Rightarrow> if column_id < length (seg_blocks seg) then Inr (length (seg_blocks seg ! column_id))
                   else Inl Assertion_Failed)"

definition get_block_info :: "nat \<times> nat \<times> nat \<Rightarrow> block_manager \<Rightarrow> error + block_info" where
  "get_block_info = (\<lambda>(segment_id, column_id, block_id) bm.
     case bm_segments bm segment_id of
       None \<Rightarrow> Inl Assertion_Failed
     | Some seg \<Rightarrow>
         if column_id < length (seg_blocks seg) \<and> block_id < length (seg_blocks seg ! column_id)
         then Inr (seg_blocks seg ! column_id ! block_id) else Inl Undefined_Behaviour)"

text \<open>The information and the contents of a block; no contents when the read fails.\<close>

definition read_block ::
  "(byte list \<Rightarrow> nat \<Rightarrow> byte list) \<Rightarrow> files \<Rightarrow> nat \<times> nat \<times> nat \<Rightarrow> block_manager \<Rightarrow>
     (error + (block_info \<times> byte list option)) \<times> block_manager"
where
  "read_block unlz4 fs addr bm =
     (case get_block_info addr bm of
        Inl e \<Rightarrow> (Inl e, bm)
      | Inr info \<Rightarrow>
          (case bm_segments bm (fst addr) of
             None \<Rightarrow> (Inl Assertion_Failed, bm)
           | Some seg \<Rightarrow>
               (case get_segment_file_handle fs seg bm of
                  (Inl e, bm) \<Rightarrow> (Inl e, bm)
                | (Inr (seg, fin), bm) \<Rightarrow>
                    let bm = bm\<lparr>bm_segments := (bm_segments bm)(fst addr \<mapsto> seg)\<rparr>;
                        ret = (case fs fin of
                                 None \<Rightarrow> None
                               | Some content \<Rightarrow> read_at content (unat (bi_offset info)) (unat (bi_length info)));
                        ret = (if bi_flags info AND LZ4_COMPRESSION \<noteq> 0
                               then map_option (\<lambda>bs. unlz4 bs (unat (bi_block_size info))) ret else ret)
                    in (Inr (info, ret), bm))))"

definition read_typed_block ::
  "(byte list \<Rightarrow> nat \<Rightarrow> byte list) \<Rightarrow> files \<Rightarrow> nat \<times> nat \<times> nat \<Rightarrow> flexible_type list \<Rightarrow> block_manager \<Rightarrow>
     (error + (bool \<times> flexible_type list)) \<times> block_manager"
where
  "read_typed_block unlz4 fs addr ret bm =
     (case read_block unlz4 fs addr bm of
        (Inl e, bm) \<Rightarrow> (Inl e, bm)
      | (Inr (info, None), bm) \<Rightarrow> (Inr (False, ret), bm)
      | (Inr (info, Some buffer), bm) \<Rightarrow>
          (case typed_decode info buffer (length buffer) ret of
             None \<Rightarrow> (Inl Undefined_Behaviour, bm)
           | Some r \<Rightarrow> (Inr r, bm)))"

definition read_vector_block ::
  "(iarchive \<Rightarrow> ('a \<times> iarchive) option) \<Rightarrow> (byte list \<Rightarrow> nat \<Rightarrow> byte list) \<Rightarrow> files \<Rightarrow> nat \<times> nat \<times> nat \<Rightarrow>
     'a list \<Rightarrow> block_manager \<Rightarrow> (error + (bool \<times> 'a list)) \<times> block_manager"
where
  "read_vector_block load unlz4 fs addr ret bm =
     (case read_block unlz4 fs addr bm of
        (Inl e, bm) \<Rightarrow> (Inl e, bm)
      | (Inr (info, None), bm) \<Rightarrow> (Inr (False, ret), bm)
      | (Inr (info, Some buffer), bm) \<Rightarrow>
          (case vector_load load (iarchive_new buffer (length buffer)) of
             None \<Rightarrow> (Inl Undefined_Behaviour, bm)
           | Some (vs, _) \<Rightarrow> (Inr (True, vs), bm)))"

section \<open>The invariant of the manager\<close>

text \<open>
  Every name is mapped to the segment of that file and back, identifiers and handles are fresh, the pool
  holds at most one handle more than its size, and a live handle of a segment reads the file of the segment.
\<close>

definition segment_known :: "block_manager \<Rightarrow> nat \<Rightarrow> segment \<Rightarrow> bool" where
  "segment_known bm sid seg \<longleftrightarrow> sid < bm_segment_id_counter bm \<and>
     bm_file_to_segments bm (seg_segment_file seg) = Some sid \<and>
     (\<forall>h. seg_file_handle seg = Some h \<longrightarrow> h < bm_next_handle bm \<and>
        (\<forall>fin. (h, fin) \<in> set (bm_file_handle_pool bm) \<longrightarrow> fin = seg_segment_file seg))"

definition bm_inv :: "block_manager \<Rightarrow> bool" where
  "bm_inv bm \<longleftrightarrow>
     (\<forall>f sid. bm_file_to_segments bm f = Some sid \<longrightarrow>
        (\<exists>seg. bm_segments bm sid = Some seg \<and> seg_segment_file seg = f)) \<and>
     (\<forall>sid seg. bm_segments bm sid = Some seg \<longrightarrow> segment_known bm sid seg) \<and>
     (\<forall>(h, fin)\<in>set (bm_file_handle_pool bm). h < bm_next_handle bm) \<and>
     length (bm_file_handle_pool bm) \<le> SFRAME_FILE_HANDLE_POOL_SIZE + 1"

lemma bm_invD:
  assumes "bm_inv bm"
  shows "bm_file_to_segments bm f = Some sid \<Longrightarrow> \<exists>seg. bm_segments bm sid = Some seg \<and> seg_segment_file seg = f"
    "bm_segments bm sid = Some seg \<Longrightarrow> segment_known bm sid seg"
    "(h, fin) \<in> set (bm_file_handle_pool bm) \<Longrightarrow> h < bm_next_handle bm"
    "length (bm_file_handle_pool bm) \<le> SFRAME_FILE_HANDLE_POOL_SIZE + 1"
  using assms by (auto simp: bm_inv_def)

lemma bm_invI:
  assumes "\<And>f sid. bm_file_to_segments bm f = Some sid \<Longrightarrow> \<exists>seg. bm_segments bm sid = Some seg \<and> seg_segment_file seg = f"
    "\<And>sid seg. bm_segments bm sid = Some seg \<Longrightarrow> segment_known bm sid seg"
    "\<And>h fin. (h, fin) \<in> set (bm_file_handle_pool bm) \<Longrightarrow> h < bm_next_handle bm"
    "length (bm_file_handle_pool bm) \<le> SFRAME_FILE_HANDLE_POOL_SIZE + 1"
  shows "bm_inv bm"
  using assms unfolding bm_inv_def by blast

lemma bm_inv_new: "bm_inv block_manager_new"
  by (simp add: bm_inv_def block_manager_new_def)

text \<open>A segment may change but for its file and handle.\<close>

lemma bm_inv_update:
  assumes "bm_inv bm" "bm_segments bm sid = Some seg" "seg_segment_file seg' = seg_segment_file seg"
    "seg_file_handle seg' = seg_file_handle seg"
  shows "bm_inv (bm\<lparr>bm_segments := (bm_segments bm)(sid \<mapsto> seg')\<rparr>)"
proof (rule bm_invI)
  fix f s assume "bm_file_to_segments (bm\<lparr>bm_segments := (bm_segments bm)(sid \<mapsto> seg')\<rparr>) f = Some s"
  then show "\<exists>seg. bm_segments (bm\<lparr>bm_segments := (bm_segments bm)(sid \<mapsto> seg')\<rparr>) s = Some seg \<and> seg_segment_file seg = f"
    using bm_invD(1)[OF assms(1), of f s] assms(2,3) by auto
next
  fix s g assume "bm_segments (bm\<lparr>bm_segments := (bm_segments bm)(sid \<mapsto> seg')\<rparr>) s = Some g"
  then show "segment_known (bm\<lparr>bm_segments := (bm_segments bm)(sid \<mapsto> seg')\<rparr>) s g"
    using bm_invD(2)[OF assms(1)] assms(2-4) by (auto simp: segment_known_def split: if_splits)
qed (use bm_invD(3,4)[OF assms(1)] in auto)

lemma segment_handle:
  assumes inv: "bm_inv bm" and seg: "bm_segments bm sid = Some seg"
  obtains (missing) "get_segment_file_handle fs seg bm = (Inl Io_Failure, bm)" "fs (seg_segment_file seg) = None"
  | (handle) h bm' where "get_segment_file_handle fs seg bm = (Inr (seg\<lparr>seg_file_handle := h\<rparr>, seg_segment_file seg), bm')"
      "bm_segments bm' = bm_segments bm" "bm_file_to_segments bm' = bm_file_to_segments bm"
      "bm_inv (bm'\<lparr>bm_segments := (bm_segments bm)(sid \<mapsto> seg\<lparr>seg_file_handle := h\<rparr>)\<rparr>)"
proof (cases "case seg_file_handle seg of Some h \<Rightarrow> map_of (bm_file_handle_pool bm) h | None \<Rightarrow> None")
  case (Some fin)
  then obtain h where h: "seg_file_handle seg = Some h" "(h, fin) \<in> set (bm_file_handle_pool bm)"
    by (auto split: option.splits dest: map_of_SomeD)
  then have "fin = seg_segment_file seg" using bm_invD(2)[OF inv seg] by (auto simp: segment_known_def)
  moreover have "seg\<lparr>seg_file_handle := seg_file_handle seg\<rparr> = seg" by simp
  moreover have "bm\<lparr>bm_segments := (bm_segments bm)(sid \<mapsto> seg)\<rparr> = bm" using seg by (simp add: fun_upd_idem)
  ultimately show thesis using handle[of "seg_file_handle seg" bm] Some inv
    by (simp add: get_segment_file_handle_def)
next
  case None
  show thesis
  proof (cases "fs (seg_segment_file seg)")
    case None': None
    then show thesis using missing None by (simp add: get_segment_file_handle_def get_new_file_handle_def)
  next
    case (Some content)
    let ?pool = "bm_file_handle_pool bm"
    define pool where "pool = (if length ?pool > SFRAME_FILE_HANDLE_POOL_SIZE then tl ?pool else ?pool) @
        [(bm_next_handle bm, seg_segment_file seg)]"
    let ?bm = "bm\<lparr>bm_file_handle_pool := pool, bm_next_handle := bm_next_handle bm + 1\<rparr>"
    have g: "get_segment_file_handle fs seg bm =
        (Inr (seg\<lparr>seg_file_handle := Some (bm_next_handle bm)\<rparr>, seg_segment_file seg), ?bm)"
      using None Some by (simp add: get_segment_file_handle_def get_new_file_handle_def Let_def pool_def)
    have sub: "x \<in> set pool \<Longrightarrow> x \<noteq> (bm_next_handle bm, seg_segment_file seg) \<Longrightarrow> x \<in> set ?pool" for x
      by (cases ?pool) (auto simp: pool_def split: if_splits)
    have len: "length pool \<le> SFRAME_FILE_HANDLE_POOL_SIZE + 1"
      using bm_invD(4)[OF inv] by (auto simp: pool_def)
    let ?seg = "seg\<lparr>seg_file_handle := Some (bm_next_handle bm)\<rparr>"
    have "bm_inv (?bm\<lparr>bm_segments := (bm_segments bm)(sid \<mapsto> ?seg)\<rparr>)"
    proof (rule bm_invI)
      fix f s assume "bm_file_to_segments (?bm\<lparr>bm_segments := (bm_segments bm)(sid \<mapsto> ?seg)\<rparr>) f = Some s"
      then show "\<exists>g. bm_segments (?bm\<lparr>bm_segments := (bm_segments bm)(sid \<mapsto> ?seg)\<rparr>) s = Some g \<and> seg_segment_file g = f"
        using bm_invD(1)[OF inv, of f s] seg by auto
    next
      fix s g assume a: "bm_segments (?bm\<lparr>bm_segments := (bm_segments bm)(sid \<mapsto> ?seg)\<rparr>) s = Some g"
      have known: "segment_known bm s g" if "s \<noteq> sid" using a that bm_invD(2)[OF inv, of s g] by simp
      have "(bm_next_handle bm, fin) \<notin> set ?pool" for fin using bm_invD(3)[OF inv] by blast
      then show "segment_known (?bm\<lparr>bm_segments := (bm_segments bm)(sid \<mapsto> ?seg)\<rparr>) s g"
        using a known bm_invD(2)[OF inv seg] unfolding segment_known_def
        by (cases "s = sid") (auto dest: sub)
    next
      fix h fin assume "(h, fin) \<in> set (bm_file_handle_pool (?bm\<lparr>bm_segments := (bm_segments bm)(sid \<mapsto> ?seg)\<rparr>))"
      then show "h < bm_next_handle (?bm\<lparr>bm_segments := (bm_segments bm)(sid \<mapsto> ?seg)\<rparr>)"
        using bm_invD(3)[OF inv, of h fin] sub[of "(h, fin)"] by (cases "h = bm_next_handle bm") auto
    qed (use len in simp)
    then show thesis using handle[OF g] by simp
  qed
qed

section \<open>The footer\<close>

lemma length_block_info_bytes: "length (block_info_bytes b) = 48"
  by (simp add: block_info_bytes_def)

lemma block_info_of_bytes: "block_info_of_bytes (block_info_bytes b) = b"
  by (simp add: block_info_of_bytes_def block_info_bytes_def le_word_bytes_of)

definition footer_wire :: "block_info list list \<Rightarrow> byte list" where
  "footer_wire blocks = bytes_of (of_nat (length blocks) :: u64) @
     concat (map (\<lambda>bs. bytes_of (of_nat (length bs) :: u64) @ concat (map block_info_bytes bs)) blocks)"

interpretation footer_codec: codec "vector_save (vector_pod_save block_info_bytes)"
  "vector_load (vector_pod_load block_info_of_bytes 48)" footer_wire
  "\<lambda>blocks. length blocks < 2 ^ 64 \<and> list_all (\<lambda>bs. length bs < 2 ^ 64) blocks"
proof -
  have "codec (vector_pod_save block_info_bytes) (vector_pod_load block_info_of_bytes 48)
      (\<lambda>bs. bytes_of (of_nat (length bs) :: u64) @ concat (map block_info_bytes bs)) (\<lambda>bs. length bs < 2 ^ 64)"
    by (rule vector_pod_codec) (simp_all add: length_block_info_bytes block_info_of_bytes)
  from codec.vector_codec[OF this]
  show "codec (vector_save (vector_pod_save block_info_bytes)) (vector_load (vector_pod_load block_info_of_bytes 48))
      footer_wire (\<lambda>blocks. length blocks < 2 ^ 64 \<and> list_all (\<lambda>bs. length bs < 2 ^ 64) blocks)"
    by (simp add: footer_wire_def[abs_def])
qed

text \<open>The numbers in the footer are bounded by its length.\<close>

lemma footer_wire_bounds:
  "length blocks \<le> length (footer_wire blocks)" "bs \<in> set blocks \<Longrightarrow> length bs \<le> length (footer_wire blocks)"
proof -
  have l: "length (footer_wire blocks) = 8 + sum_list (map (\<lambda>bs. 8 + 48 * length bs) blocks)"
    unfolding footer_wire_def by (simp add: length_concat comp_def length_block_info_bytes sum_list_triv mult.commute)
  show "bs \<in> set blocks \<Longrightarrow> length bs \<le> length (footer_wire blocks)"
    using member_le_sum_list[of "8 + 48 * length bs" "map (\<lambda>bs. 8 + 48 * length bs) blocks"] by (auto simp: l)
  have "length blocks \<le> sum_list (map (\<lambda>bs. 8 + 48 * length bs) blocks)" by (induction blocks) simp_all
  then show "length blocks \<le> length (footer_wire blocks)" by (simp add: l)
qed

text \<open>A complete segment file that holds the blocks \<open>spec\<close>.\<close>

definition segment_file ::
  "(byte list \<Rightarrow> nat \<Rightarrow> byte list) \<Rightarrow> nat \<Rightarrow> (nat \<Rightarrow> (block_info \<times> byte list) list) \<Rightarrow> byte list \<Rightarrow> bool" where
  "segment_file unlz4 ncols spec content \<longleftrightarrow> (\<exists>body blocks.
     content = body @ footer_wire blocks @ bytes_of (of_nat (length (footer_wire blocks)) :: u64) \<and>
     length content < 2 ^ 64 \<and> length blocks = ncols \<and>
     (\<forall>c<ncols. list_all2 (block_at unlz4 content) (blocks ! c) (spec c)))"

lemma close_segment_file:
  assumes w: "writing unlz4 ncols seg f spec bw fs" and fss: "fs_sound good"
  obtains (io) bw' fs' where "close_segment good seg bw fs = (Inl Io_Failure, bw', fs')"
      "\<not> stream_good good f fs'"
  | (ok) bw' fs' content where "close_segment good seg bw fs = (Inr (), bw', fs')" "fs' f = Some content"
      "segment_file unlz4 ncols spec content"
proof -
  obtain content where wf: "bw_wf bw" "seg < gi_nsegments (bw_index_info bw)" and f: "bw_output_files bw ! seg = Some f"
    and nc: "length (gi_columns (bw_index_info bw)) = ncols"
    and c: "fs f = Some content" and inv: "segment_inv unlz4 seg bw content spec"
    using w by (auto simp: writing_def)
  let ?blocks = "bw_blocks bw ! seg" and ?o = "vector_save (vector_pod_save block_info_bytes) oarchive_new (bw_blocks bw ! seg)"
  let ?content = "content @ footer_wire ?blocks @ bytes_of (of_nat (length (footer_wire ?blocks)) :: u64)"
  have s: "o_wf ?o" "o_data ?o = footer_wire ?blocks"
    using footer_codec.save_wf footer_codec.save_data oarchive_new_wf by simp_all
  have d: "o_off ?o = length (footer_wire ?blocks)" "take (length (footer_wire ?blocks)) (o_buf ?o) = footer_wire ?blocks"
    using s length_o_data[OF s(1)] by (simp_all add: o_data_def)
  have "seg < length (bw_output_files bw)" using wf by (simp add: bw_wf_def)
  then have e: "emit_footer good seg bw fs =
      (if good f (length ?content) then Inr () else Inl Io_Failure, fs(f \<mapsto> ?content))"
    using f c by (simp add: emit_footer_def Let_def append_file_def stream_good_def d del: length_take)
  show thesis
  proof (cases "good f (length ?content)")
    case False
    then show thesis using io e by (simp add: close_segment_def stream_good_def)
  next
    case True
    then have "length ?content < 2 ^ 64" using fss by (auto simp: fs_sound_def)
    moreover have "list_all2 (block_at unlz4 ?content) (?blocks ! k) (spec k)" if "k < ncols" for k
    proof -
      have "list_all2 (block_at unlz4 content) (?blocks ! k) (spec k)" using inv that nc by (simp add: segment_inv_def)
      then show ?thesis by (rule list_all2_mono) (rule block_at_append)
    qed
    moreover have "length ?blocks = ncols" using inv nc by (simp add: segment_inv_def)
    ultimately have "segment_file unlz4 ncols spec ?content" unfolding segment_file_def by blast
    then show thesis using ok e True by (simp add: close_segment_def)
  qed
qed

lemma init_segment_file:
  assumes fl: "segment_file unlz4 ncols spec content" "fs (seg_segment_file seg) = Some content"
    and inv: "bm_inv bm" and seg: "bm_segments bm sid = Some seg" "\<not> seg_inited seg"
  obtains bm' seg' where "init_segment fs seg bm = (Inr seg', bm')" "length (seg_blocks seg') = ncols"
    "\<forall>c<ncols. list_all2 (block_at unlz4 content) (seg_blocks seg' ! c) (spec c)"
    "seg_segment_file seg' = seg_segment_file seg" "seg_reference_count seg' = seg_reference_count seg"
    "bm_segments bm' = bm_segments bm" "bm_file_to_segments bm' = bm_file_to_segments bm"
    "bm_inv (bm'\<lparr>bm_segments := (bm_segments bm)(sid \<mapsto> seg')\<rparr>)"
proof -
  obtain body blocks where b: "content = body @ footer_wire blocks @ bytes_of (of_nat (length (footer_wire blocks)) :: u64)"
    "length content < 2 ^ 64" "length blocks = ncols" "\<forall>c<ncols. list_all2 (block_at unlz4 content) (blocks ! c) (spec c)"
    using fl(1) by (auto simp: segment_file_def)
  let ?n = "length (footer_wire blocks)" and ?t = "bytes_of (of_nat (length (footer_wire blocks)) :: u64)"
  have n: "?n < 2 ^ 64" using b(1,2) by simp
  have t: "read_at content (length content - 8) 8 = Some ?t" "8 \<le> length content"
    using b(1) by (simp_all add: read_at_def)
  have u: "unat (le_word ?t :: u64) = ?n" using n by (simp add: le_word_bytes_of unat_of_nat_u64)
  have p: "drop (length content - ?n - 8) content = footer_wire blocks @ ?t" "?n + 8 \<le> length content"
    using b(1) by simp_all
  have ok: "length blocks < 2 ^ 64 \<and> list_all (\<lambda>bs. length bs < 2 ^ 64) blocks"
    using footer_wire_bounds[where blocks = blocks] n by (auto simp: list_all_iff intro: le_less_trans)
  have "i_wf (iarchive_new (footer_wire blocks @ ?t) (?n + 8))"
    using iarchive_new_wf(1)[of "footer_wire blocks @ ?t"] by simp
  from footer_codec.load_wire[OF this ok iarchive_new_wf(2)]
  have l: "\<exists>iarc. vector_load (vector_pod_load block_info_of_bytes 48) (iarchive_new (footer_wire blocks @ ?t) (?n + 8)) =
      Some (blocks, iarc)" by blast
  from inv seg(1) show thesis
  proof (cases rule: segment_handle[where fs = fs])
    case missing
    then show thesis using fl(2) by simp
  next
    case (handle h bm')
    let ?seg = "seg\<lparr>seg_file_handle := h, seg_blocks := blocks, seg_inited := True, seg_file_size := length content\<rparr>"
    have "init_segment fs seg bm = (Inr ?seg, bm')"
      using seg(2) handle(1) fl(2) t p l by (auto simp: init_segment_def u)
    moreover have "bm_inv (bm'\<lparr>bm_segments := (bm_segments bm)(sid \<mapsto> ?seg)\<rparr>)"
      using bm_inv_update[OF handle(4), of sid "seg\<lparr>seg_file_handle := h\<rparr>" ?seg] by simp
    ultimately show thesis using that b(3,4) handle(2,3) by simp
  qed
qed

section \<open>Column names round trip\<close>

lemma digit_chars: "k < 10 \<Longrightarrow> isdigit (of_nat (48 + k))" "k < 10 \<Longrightarrow> uint (of_nat (48 + k) :: byte) = 48 + int k"
proof -
  show u: "uint (of_nat (48 + k) :: byte) = 48 + int k" if "k < 10"
    using that by (simp add: unsigned_of_nat take_bit_eq_mod flip: of_nat_add)
  show "isdigit (of_nat (48 + k))" if "k < 10"
    using u[OF that] that by (simp add: isdigit_def word_le_def)
qed

lemma digits_value_snoc [simp]: "digits_value (ds @ [c]) = 10 * digits_value ds + (uint c - 48)"
  by (simp add: digits_value_def)

lemma to_string_digits:
  "list_all isdigit (to_string n) \<and> to_string n \<noteq> [] \<and> digits_value (to_string n) = int n"
proof (induction n rule: to_string.induct)
  case (1 n)
  show ?case
  proof (cases "n < 10")
    case True
    then show ?thesis using digit_chars[of n] by (simp add: to_string.simps[of n] digits_value_def)
  next
    case False
    have "int (10 * (n div 10) + n mod 10) = int n" by (simp only: mult_div_mod_eq)
    then have "10 * int (n div 10) + int (n mod 10) = int n" by (simp only: of_nat_add of_nat_mult of_nat_numeral)
    then show ?thesis using False "1.IH"[OF False] digit_chars[of "n mod 10"]
      by (simp add: to_string.simps[of n])
  qed
qed

lemma digit_simps: "isdigit c \<Longrightarrow> \<not> isspace c \<and> c \<noteq> 58 \<and> c \<noteq> 43 \<and> c \<noteq> 45"
  by (auto simp: isdigit_def isspace_def word_le_def)

lemma strtol_digits:
  assumes "list_all isdigit ds" "ds \<noteq> []" "digits_value ds < 2 ^ 63" "0 \<le> digits_value ds"
  shows "strtol ds = (digits_value ds, length ds, False)"
proof -
  have "isdigit (hd ds)" using assms(1,2) by (cases ds) auto
  then have "dropWhile isspace ds = ds" "hd ds \<noteq> 43" "hd ds \<noteq> 45"
    using digit_simps[of "hd ds"] assms(2) by (cases ds; simp)+
  moreover have "takeWhile isdigit ds = ds" using assms(1) by (simp add: list_all_iff takeWhile_eq_all_conv)
  ultimately show ?thesis using assms(2-4) by (simp add: strtol_def Let_def del: takeWhile_eq_all_conv)
qed

lemma split_last_app: "c \<notin> set t \<Longrightarrow> split_last c (s @ [c] @ t) = Some (s, t)"
proof -
  assume "c \<notin> set t"
  then have "takeWhile (\<lambda>x. x \<noteq> c) (rev (s @ [c] @ t)) = rev t"
    by (simp add: takeWhile_append takeWhile_eq_all_conv)
  then show "split_last c (s @ [c] @ t) = Some (s, t)" by (simp add: split_last_def Let_def)
qed

lemma trim_id: "s \<noteq> [] \<Longrightarrow> \<not> isspace (hd s) \<Longrightarrow> \<not> isspace (last s) \<Longrightarrow> trim s = s"
proof -
  assume s: "s \<noteq> []" "\<not> isspace (hd s)" "\<not> isspace (last s)"
  then have "dropWhile isspace s = s" "dropWhile isspace (rev s) = rev s"
    by (cases s; simp) (metis dropWhile_eq_self_iff hd_rev s(3))
  then show "trim s = s" by (simp add: trim_def)
qed

lemma parse_column_name:
  assumes "f = [] \<or> \<not> isspace (hd f)" "c < 2 ^ 63"
  shows "parse_v2_segment_filename (column_name f c) = (f, of_nat c)"
proof -
  note d = to_string_digits[of c, THEN conjunct1] to_string_digits[of c, THEN conjunct2, THEN conjunct1]
    to_string_digits[of c, THEN conjunct2, THEN conjunct2]
  have "isdigit (last (to_string c))" using d(1,2) by (simp add: list_all_iff)
  moreover have "\<not> isspace 58" by (simp add: isspace_def word_le_def)
  ultimately have t: "trim (column_name f c) = column_name f c"
    using assms(1) d(2) digit_simps by (intro trim_id) (auto simp: column_name_def hd_append)
  have "58 \<notin> set (to_string c)" using d(1) digit_simps by (auto simp: list_all_iff)
  from split_last_app[OF this, of f] have "split_last 58 (column_name f c) = Some (f, to_string c)"
    by (simp add: column_name_def)
  moreover have "strtol (to_string c) = (int c, length (to_string c), False)"
    using strtol_digits[OF d(1,2)] d(3) assms(2) by simp
  ultimately show ?thesis using t by (simp add: parse_v2_segment_filename_def)
qed

section \<open>Reading what was written\<close>

text \<open>The manager has a segment open whose file holds the blocks \<open>spec\<close>.\<close>

definition segment_open ::
  "(byte list \<Rightarrow> nat \<Rightarrow> byte list) \<Rightarrow> files \<Rightarrow> nat \<Rightarrow> (nat \<Rightarrow> (block_info \<times> byte list) list) \<Rightarrow> nat \<Rightarrow>
     block_manager \<Rightarrow> bool"
where
  "segment_open unlz4 fs ncols spec sid bm \<longleftrightarrow> bm_inv bm \<and> (\<exists>seg content. bm_segments bm sid = Some seg \<and>
     fs (seg_segment_file seg) = Some content \<and> length (seg_blocks seg) = ncols \<and>
     (\<forall>c<ncols. list_all2 (block_at unlz4 content) (seg_blocks seg ! c) (spec c)))"

lemma bm_inv_register:
  assumes inv: "bm_inv bm" and f: "bm_file_to_segments bm f = None"
    and seg: "seg_segment_file seg = f" "seg_file_handle seg = None"
  shows "bm_inv (bm\<lparr>bm_segment_id_counter := bm_segment_id_counter bm + 1,
    bm_segments := (bm_segments bm)(bm_segment_id_counter bm \<mapsto> seg),
    bm_file_to_segments := (bm_file_to_segments bm)(f \<mapsto> bm_segment_id_counter bm)\<rparr>)" (is "bm_inv ?bm")
proof -
  have new: "bm_segments bm (bm_segment_id_counter bm) = None"
    using bm_invD(2)[OF inv, of "bm_segment_id_counter bm"] by (cases "bm_segments bm (bm_segment_id_counter bm)")
      (auto simp: segment_known_def)
  show ?thesis
  proof (rule bm_invI)
    fix g sid assume "bm_file_to_segments ?bm g = Some sid"
    then show "\<exists>seg. bm_segments ?bm sid = Some seg \<and> seg_segment_file seg = g"
      using bm_invD(1)[OF inv, of g sid] new seg(1) by (cases "g = f") auto
  next
    fix sid g assume "bm_segments ?bm sid = Some g"
    then show "segment_known ?bm sid g"
      using bm_invD(2)[OF inv, of sid g] seg f by (cases "sid = bm_segment_id_counter bm") (auto simp: segment_known_def)
  qed (use bm_invD(3,4)[OF inv] in auto)
qed

lemma column_number:
  assumes "c < 2 ^ 63"
  shows "(of_nat c :: u64) \<noteq> - 1" "unat (of_nat c :: u64) = c"
proof -
  show u: "unat (of_nat c :: u64) = c" using assms by (intro unat_of_nat_u64) simp
  show "(of_nat c :: u64) \<noteq> - 1" using u assms by (auto simp: unsigned_minus_1_eq_mask mask_eq_exp_minus_1)
qed

lemma open_column_new:
  assumes fl: "segment_file unlz4 ncols spec content" "fs f = Some content"
    and name: "parse_v2_segment_filename name = (f, of_nat c)" "c < 2 ^ 63"
    and inv: "bm_inv bm" and closed: "bm_file_to_segments bm f = None"
  shows "\<exists>bm'. open_column fs name bm = (Inr (bm_segment_id_counter bm, c), bm') \<and>
    segment_open unlz4 fs ncols spec (bm_segment_id_counter bm) bm' \<and>
    bm_file_to_segments bm' f = Some (bm_segment_id_counter bm)"
proof -
  let ?id = "bm_segment_id_counter bm" and ?seg = "segment_new\<lparr>seg_segment_file := f\<rparr>"
  let ?bm = "bm\<lparr>bm_segment_id_counter := ?id + 1, bm_segments := (bm_segments bm)(?id \<mapsto> ?seg),
    bm_file_to_segments := (bm_file_to_segments bm)(f \<mapsto> ?id)\<rparr>"
  note c = column_number[OF name(2)]
  have s: "fs (seg_segment_file ?seg) = Some content" "bm_segments ?bm ?id = Some ?seg" "\<not> seg_inited ?seg"
    using fl(2) by (simp_all add: segment_new_def)
  have "bm_inv ?bm" by (rule bm_inv_register[OF inv closed]) (simp_all add: segment_new_def)
  from fl(1) s(1) this s(2,3) obtain bm' seg' where
    i: "init_segment fs ?seg ?bm = (Inr seg', bm')" "length (seg_blocks seg') = ncols"
    "\<forall>c<ncols. list_all2 (block_at unlz4 content) (seg_blocks seg' ! c) (spec c)"
    "seg_segment_file seg' = seg_segment_file ?seg" "seg_reference_count seg' = seg_reference_count ?seg"
    "bm_segments bm' = bm_segments ?bm" "bm_file_to_segments bm' = bm_file_to_segments ?bm"
    "bm_inv (bm'\<lparr>bm_segments := (bm_segments ?bm)(?id \<mapsto> seg')\<rparr>)"
    by (rule init_segment_file)
  let ?seg' = "seg'\<lparr>seg_reference_count := seg_reference_count seg' + 1\<rparr>"
  have "open_column fs name bm = (Inr (?id, c), bm'\<lparr>bm_segments := (bm_segments bm')(?id \<mapsto> ?seg')\<rparr>)"
    using name(1) closed i(1) c by (simp add: open_column_def Let_def)
  moreover have "bm_inv (bm'\<lparr>bm_segments := (bm_segments bm')(?id \<mapsto> ?seg')\<rparr>)"
    using bm_inv_update[OF i(8), of ?id seg' ?seg'] i(6) by simp
  ultimately show ?thesis using i(2,3,4,6,7) fl(2) by (simp add: segment_open_def)
qed

lemma read_block_at:
  assumes o: "segment_open unlz4 fs ncols spec sid bm" and k: "c < ncols" "k < length (spec c)"
  obtains info bm' where "read_block unlz4 fs (sid, c, k) bm = (Inr (info, Some (snd (spec c ! k))), bm')"
    "segment_open unlz4 fs ncols spec sid bm'"
    "bi_num_elem info = bi_num_elem (fst (spec c ! k))"
    "bi_flags info AND NOT LZ4_COMPRESSION = bi_flags (fst (spec c ! k)) AND NOT LZ4_COMPRESSION"
proof -
  obtain seg content where s: "bm_segments bm sid = Some seg" "fs (seg_segment_file seg) = Some content"
    "length (seg_blocks seg) = ncols" "\<forall>c<ncols. list_all2 (block_at unlz4 content) (seg_blocks seg ! c) (spec c)"
    and inv: "bm_inv bm"
    using o by (auto simp: segment_open_def)
  let ?info = "seg_blocks seg ! c ! k"
  have l: "list_all2 (block_at unlz4 content) (seg_blocks seg ! c) (spec c)" using s(4) k(1) by blast
  have b: "block_at unlz4 content ?info (spec c ! k)" using list_all2_nthD2[OF l k(2)] .
  have gi: "get_block_info (sid, c, k) bm = Inr ?info"
    using s(1,3) k list_all2_lengthD[OF l] by (simp add: get_block_info_def)
  from inv s(1) show thesis
  proof (cases rule: segment_handle[where fs = fs])
    case missing
    then show thesis using s(2) by simp
  next
    case (handle h bm')
    let ?bm = "bm'\<lparr>bm_segments := (bm_segments bm')(sid \<mapsto> seg\<lparr>seg_file_handle := h\<rparr>)\<rparr>"
    have "read_block unlz4 fs (sid, c, k) bm = (Inr (?info, Some (snd (spec c ! k))), ?bm)"
      using gi s(1,2) handle(1) b by (auto simp: read_block_def read_at_def block_at_def Let_def split: prod.splits)
    moreover have "segment_open unlz4 fs ncols spec sid ?bm" using s handle by (simp add: segment_open_def)
    ultimately show thesis using that b by (auto simp: block_at_def split: prod.splits)
  qed
qed

lemma block_layout_flags:
  "block_layout data flags ws \<Longrightarrow> flags' AND MULTIPLE_TYPE_BLOCK = flags AND MULTIPLE_TYPE_BLOCK \<Longrightarrow>
     block_layout data flags' ws"
  by (simp add: block_layout.simps[of data flags] block_layout.simps[of data flags'])

lemma flags_besides_lz4:
  fixes f g :: u64
  assumes "f AND NOT LZ4_COMPRESSION = g AND NOT LZ4_COMPRESSION"
  shows "f AND IS_FLEXIBLE_TYPE = g AND IS_FLEXIBLE_TYPE" "f AND MULTIPLE_TYPE_BLOCK = g AND MULTIPLE_TYPE_BLOCK"
proof -
  have m: "x AND 2 = (x AND NOT 1) AND 2" "x AND 4 = (x AND NOT 1) AND 4" for x :: u64
    by (simp_all add: and.assoc)
  show "f AND IS_FLEXIBLE_TYPE = g AND IS_FLEXIBLE_TYPE" "f AND MULTIPLE_TYPE_BLOCK = g AND MULTIPLE_TYPE_BLOCK"
    using assms unfolding block_flags by (subst (1 2) m, simp only:)+
qed

lemma read_typed_block_at:
  assumes o: "segment_open unlz4 fs ncols spec sid bm" and k: "c < ncols" "k < length (spec c)"
    and e: "typed_entry data (spec c ! k)"
  obtains bm' where "read_typed_block unlz4 fs (sid, c, k) ret bm = (Inr (True, data), bm')"
    "segment_open unlz4 fs ncols spec sid bm'"
proof -
  obtain req raw where s: "spec c ! k = (req, raw)" by (metis prod.exhaust)
  from o k obtain info bm' where r: "read_block unlz4 fs (sid, c, k) bm = (Inr (info, Some raw), bm')"
    "segment_open unlz4 fs ncols spec sid bm'" "bi_num_elem info = bi_num_elem req"
    "bi_flags info AND NOT LZ4_COMPRESSION = bi_flags req AND NOT LZ4_COMPRESSION"
    by (rule read_block_at) (auto simp: s)
  have e': "block_ok data" "block_layout data (bi_flags req) raw" "bi_flags req AND IS_FLEXIBLE_TYPE \<noteq> 0"
    "bi_num_elem req = of_nat (length data)" using e by (simp_all add: typed_entry_def s)
  have "typed_decode info raw (length raw) ret = Some (True, data)"
    using typed_decode_layout[OF block_layout_flags[OF e'(2)] e'(1)] flags_besides_lz4[OF r(4)] e'(3,4) r(3) by simp
  then show thesis using that r(1,2) by (simp add: read_typed_block_def)
qed

section \<open>Reachable states\<close>

lemma bm_inv_open:
  assumes inv: "bm_inv bm" and o: "open_column fs name bm = (r, bm')" and r: "r \<noteq> Inl Undefined_Behaviour"
  shows "bm_inv bm'"
proof -
  obtain f col where p: "parse_v2_segment_filename name = (f, col)" by (metis prod.exhaust)
  have count: "bm_inv (bm\<lparr>bm_segments := (bm_segments bm)(sid \<mapsto> seg\<lparr>seg_reference_count := n\<rparr>)\<rparr>)"
    if "bm_inv bm" "bm_segments bm sid = Some seg" for bm :: block_manager and sid seg n
    by (rule bm_inv_update[OF that]) simp_all
  show ?thesis
  proof (cases "bm_file_to_segments bm f")
    case (Some sid)
    then obtain seg where "bm_segments bm sid = Some seg" using bm_invD(1)[OF inv] by blast
    then show ?thesis using o p Some count[OF inv] by (auto simp: open_column_def Let_def)
  next
    case None
    let ?id = "bm_segment_id_counter bm" and ?seg = "segment_new\<lparr>seg_segment_file := f\<rparr>"
    let ?bm = "bm\<lparr>bm_segment_id_counter := ?id + 1, bm_segments := (bm_segments bm)(?id \<mapsto> ?seg),
      bm_file_to_segments := (bm_file_to_segments bm)(f \<mapsto> ?id)\<rparr>"
    have b: "bm_inv ?bm" by (rule bm_inv_register[OF inv None]) (simp_all add: segment_new_def)
    have s: "bm_segments ?bm ?id = Some ?seg" by simp
    have ni: "\<not> seg_inited ?seg" by (simp add: segment_new_def)
    from b s show ?thesis
    proof (cases rule: segment_handle[where fs = fs])
      case missing
      then show ?thesis using o p None b ni by (simp add: open_column_def Let_def init_segment_def)
    next
      case (handle h bm2)
      obtain i bm3 where i: "init_segment fs ?seg ?bm = (i, bm3)" by (metis prod.exhaust)
      have "i = Inl Undefined_Behaviour \<or> i = Inl Io_Failure \<and> fs f = None \<or> bm3 = bm2 \<and> (\<exists>blocks n. i = Inr (?seg\<lparr>seg_file_handle := h,
          seg_blocks := blocks, seg_inited := True, seg_file_size := n\<rparr>))"
        using i handle(1) ni by (auto simp: init_segment_def Let_def split: option.splits if_splits prod.splits)
      moreover have "fs f \<noteq> None" using handle(1)
        by (auto simp: get_segment_file_handle_def get_new_file_handle_def segment_new_def split: if_splits)
      moreover have "i \<noteq> Inl Undefined_Behaviour" using o r p None i by (auto simp: open_column_def Let_def)
      ultimately obtain seg where seg: "i = Inr seg" "bm3 = bm2" "seg_segment_file seg = f" "seg_file_handle seg = h"
        by auto
      have "bm_inv (bm2\<lparr>bm_segments := (bm_segments ?bm)(?id \<mapsto> seg)\<rparr>)"
        using bm_inv_update[OF handle(4), of ?id "?seg\<lparr>seg_file_handle := h\<rparr>" seg] seg by simp
      from count[OF this, of ?id seg] show ?thesis
        using o p None i seg handle(2) by (auto simp: open_column_def Let_def)
    qed
  qed
qed

lemma bm_inv_close:
  assumes inv: "bm_inv bm" and c: "close_column addr bm = (r, bm')"
  shows "bm_inv bm'"
proof (cases "bm_segments bm (fst addr)")
  case (Some seg)
  show ?thesis
  proof (cases "seg_reference_count seg - 1 = 0")
    case False
    then show ?thesis using c Some bm_inv_update[OF inv Some] by (auto simp: close_column_def Let_def)
  next
    case True
    let ?f = "seg_segment_file seg"
    have b: "bm' = bm\<lparr>bm_file_to_segments := (bm_file_to_segments bm)(?f := None),
        bm_segments := (bm_segments bm)(fst addr := None)\<rparr>"
      using c Some True by (simp add: close_column_def Let_def)
    have f: "bm_file_to_segments bm ?f = Some (fst addr)" using bm_invD(2)[OF inv Some] by (simp add: segment_known_def)
    show ?thesis unfolding b
    proof (rule bm_invI, goal_cases)
      case (1 g sid)
      then show ?case using bm_invD(1)[OF inv, of g sid] Some by (auto split: if_splits)
    next
      case (2 sid g)
      then show ?case using bm_invD(2)[OF inv, of sid g] f by (auto simp: segment_known_def split: if_splits)
    qed (use bm_invD(3,4)[OF inv] in auto)
  qed
qed (use assms in \<open>auto simp: close_column_def\<close>)

lemma bm_inv_read:
  assumes inv: "bm_inv bm" and b: "read_block unlz4 fs addr bm = (r, bm')"
  shows "bm_inv bm'"
proof (cases "bm_segments bm (fst addr)")
  case None
  then show ?thesis using b inv by (auto simp: read_block_def split: sum.splits)
next
  case (Some seg)
  from inv Some show ?thesis
  proof (cases rule: segment_handle[where fs = fs])
    case missing
    then show ?thesis using b inv Some by (auto simp: read_block_def split: sum.splits)
  next
    case (handle h bm2)
    then show ?thesis using b inv Some by (auto simp: read_block_def Let_def split: sum.splits)
  qed
qed

text \<open>The calls a client can make, on any state of the file system.\<close>

inductive manager_step :: "block_manager \<Rightarrow> block_manager \<Rightarrow> bool" where
  step_open: "open_column fs name bm = (r, bm') \<Longrightarrow> r \<noteq> Inl Undefined_Behaviour \<Longrightarrow> manager_step bm bm'"
| step_close: "close_column addr bm = (r, bm') \<Longrightarrow> manager_step bm bm'"
| step_read: "read_block unlz4 fs baddr bm = (r', bm') \<Longrightarrow> manager_step bm bm'"

lemma manager_reachable: "manager_step\<^sup>*\<^sup>* block_manager_new bm \<Longrightarrow> bm_inv bm"
proof (induction rule: rtranclp_induct)
  case (step bm bm')
  from step.hyps(2) step.IH show ?case
    by cases (blast intro: bm_inv_open bm_inv_close bm_inv_read)+
qed (rule bm_inv_new)

section \<open>Entries of a segment\<close>

text \<open>\<open>E b e\<close> says that the entry \<open>e\<close> of a segment holds the values \<open>b\<close>. What the users of the segments
  rely on is that the index tells the number of values of a block.\<close>

locale block_entries =
  fixes E :: "'v list \<Rightarrow> block_info \<times> byte list \<Rightarrow> bool"
  assumes entry_rows: "E b e \<Longrightarrow> unat (bi_num_elem (fst e)) = length b"
begin

lemma entry_count: "E b e \<Longrightarrow> bi_num_elem (fst e) = of_nat (length b)"
  by (simp flip: entry_rows)

end

interpretation typed_blocks: block_entries typed_entry
  by unfold_locales (auto simp: typed_entry_def block_ok_def unat_of_nat_u64)

text \<open>The bytes of an entry are a serialized vector of the values.\<close>

definition vector_entry ::
  "(iarchive \<Rightarrow> ('v \<times> iarchive) option) \<Rightarrow> 'v list \<Rightarrow> block_info \<times> byte list \<Rightarrow> bool" where
  "vector_entry load data = (\<lambda>(req, raw). (\<exists>iarc. vector_load load (iarchive_new raw (length raw)) = Some (data, iarc)) \<and>
     unat (bi_num_elem req) = length data)"

interpretation vector_blocks: block_entries "vector_entry load" for load
  by unfold_locales (auto simp: vector_entry_def)

section \<open>Properties\<close>

text \<open>One segment written the way the documentation of \<open>block_writer\<close> describes: opened, filled with
  typed blocks and closed.\<close>

definition store_segment ::
  "(byte list \<Rightarrow> byte list) \<Rightarrow> (cstring \<Rightarrow> nat \<Rightarrow> bool) \<Rightarrow> nat \<Rightarrow> cstring \<Rightarrow>
     (byte list \<times> nat \<times> flexible_type list) list \<Rightarrow> block_writer \<Rightarrow> files \<Rightarrow> (error + unit) \<times> files"
where
  "store_segment lz4 good seg f reqs bw fs =
     (case open_segment good seg f bw fs of
        (Inl e, bw, fs) \<Rightarrow> (Inl e, fs)
      | (Inr _, bw, fs) \<Rightarrow>
          (case write_typed_blocks lz4 good seg reqs bw fs of
             (Inl e, bw, fs) \<Rightarrow> (Inl e, fs)
           | (Inr _, bw, fs) \<Rightarrow>
               (case close_segment good seg bw fs of
                  (Inl e, bw, fs) \<Rightarrow> (Inl e, fs)
                | (Inr _, bw, fs) \<Rightarrow> (Inr (), fs))))"

lemma store_segment_file:
  assumes law: "lz4_inverse lz4 unlz4" and fss: "fs_sound good" and g: "good f 0"
    and fresh: "segment_fresh seg bw" and reqs: "list_all (request_ok (length (gi_columns (bw_index_info bw)))) reqs"
  obtains (io) fs' where "store_segment lz4 good seg f reqs bw fs = (Inl Io_Failure, fs')"
      "\<not> stream_good good f fs'"
  | (ok) fs' spec content where "store_segment lz4 good seg f reqs bw fs = (Inr (), fs')" "fs' f = Some content"
      "segment_file unlz4 (length (gi_columns (bw_index_info bw))) spec content"
      "\<forall>c. list_all2 typed_entry (column_requests c reqs) (spec c)"
proof -
  let ?nc = "length (gi_columns (bw_index_info bw))"
  obtain bw1 fs1 where o: "open_segment good seg f bw fs = (Inr (), bw1, fs1)"
    "writing unlz4 ?nc seg f (\<lambda>_. []) bw1 fs1"
    using open_segment_writing[where good = good and f = f, OF fresh g] by blast
  from write_typed_blocks_keep[OF law fss o(2) reqs] show thesis
  proof (elim disjE exE conjE)
    fix bw2 fs2 spec
    assume w: "write_typed_blocks lz4 good seg reqs bw1 fs1 = (Inr (), bw2, fs2)" "writing unlz4 ?nc seg f spec bw2 fs2"
      "\<forall>c. \<exists>es. spec c = [] @ es \<and> list_all2 typed_entry (column_requests c reqs) es"
    from w(2) fss show thesis
      by (cases rule: close_segment_file) (use io ok o(1) w(1,3) in \<open>auto simp: store_segment_def\<close>)
  qed (use io o(1) in \<open>auto simp: store_segment_def\<close>)
qed

lemma num_blocks_at:
  "segment_open unlz4 fs ncols spec sid bm \<Longrightarrow> c < ncols \<Longrightarrow> num_blocks_in_column (sid, c) bm = Inr (length (spec c))"
  unfolding segment_open_def num_blocks_in_column_def by (auto intro!: list_all2_lengthD)

text \<open>C2. Typed blocks written to a segment file are read back: unless the stream of
  the file went bad, opening a column
  of the file in any reachable manager that does not have it open succeeds, the column has as many
  blocks as were written to it, and reading a block returns the values it was written with, compressed
  or not.\<close>

theorem stored_blocks_read_back:
  assumes law: "lz4_inverse lz4 unlz4" and fss: "fs_sound good" and g: "good f 0"
    and seg: "seg < nsegs" and reqs: "list_all (request_ok ncols) reqs" and f: "f = [] \<or> \<not> isspace (hd f)"
    and c: "c < ncols" "c < 2 ^ 63" "k < length (column_requests c reqs)"
    and bm: "manager_step\<^sup>*\<^sup>* block_manager_new bm" "bm_file_to_segments bm f = None"
  shows "\<exists>r fs'. store_segment lz4 good seg f reqs (writer_init name nsegs ncols) fs = (r, fs') \<and>
    (r = Inl Io_Failure \<and> \<not> stream_good good f fs' \<or> r = Inr () \<and> (\<exists>sid bm1 bm2.
       open_column fs' (column_name f c) bm = (Inr (sid, c), bm1) \<and>
       num_blocks_in_column (sid, c) bm1 = Inr (length (column_requests c reqs)) \<and>
       read_typed_block unlz4 fs' (sid, c, k) ret bm1 = (Inr (True, column_requests c reqs ! k), bm2)))"
proof -
  let ?bw = "writer_init name nsegs ncols"
  have nc: "length (gi_columns (bw_index_info ?bw)) = ncols" by (simp add: writer_init_def Let_def)
  have inv: "bm_inv bm" by (rule manager_reachable[OF bm(1)])
  have "list_all (request_ok (length (gi_columns (bw_index_info ?bw)))) reqs" unfolding nc by (rule reqs)
  from law fss g writer_init_fresh[OF seg] this show ?thesis
  proof (cases rule: store_segment_file[of lz4 unlz4 good f seg ?bw reqs fs])
    case (ok fs' spec content)
    from open_column_new[where fs = fs' and f = f, OF ok(3,2) parse_column_name[OF f c(2)] c(2) inv bm(2)] obtain sid bm1 where
      o: "open_column fs' (column_name f c) bm = (Inr (sid, c), bm1)" "segment_open unlz4 fs' ncols spec sid bm1"
      unfolding nc by blast
    note e = ok(4)[THEN spec, of c]
    have k: "k < length (spec c)" "typed_entry (column_requests c reqs ! k) (spec c ! k)"
      using list_all2_nthD[OF e c(3)] list_all2_lengthD[OF e] c(3) by simp_all
    from o(2) c(1) k obtain bm2 where
      r: "read_typed_block unlz4 fs' (sid, c, k) ret bm1 = (Inr (True, column_requests c reqs ! k), bm2)"
      by (rule read_typed_block_at)
    have "num_blocks_in_column (sid, c) bm1 = Inr (length (spec c))"
      by (rule num_blocks_at[OF o(2) c(1)])
    then show ?thesis using ok(1) o(1) r list_all2_lengthD[OF e] by auto
  qed blast
qed

theorem stored_blocks_read_back_witness:
  defines "reqs \<equiv> [([7, 7, 7], 1, [FlexInt 5, FlexUndefined, FlexString [65]])]"
  shows "\<exists>r fs'. store_segment (\<lambda>d. d) (\<lambda>f n. n < 2 ^ 64) 0 [102] reqs (writer_init [105] 1 2) Map.empty = (r, fs') \<and>
    (r = Inl Io_Failure \<and> \<not> stream_good (\<lambda>f n. n < 2 ^ 64) [102] fs' \<or> r = Inr () \<and> (\<exists>sid bm1 bm2.
       open_column fs' (column_name [102] 1) block_manager_new = (Inr (sid, 1), bm1) \<and>
       num_blocks_in_column (sid, 1) bm1 = Inr (length (column_requests 1 reqs)) \<and>
       read_typed_block (\<lambda>d n. d) fs' (sid, 1, 0) [] bm1 = (Inr (True, column_requests 1 reqs ! 0), bm2)))"
proof (rule stored_blocks_read_back)
  show "list_all (request_ok 2) reqs" by (simp add: reqs_def mixed_request_ok)
qed (simp_all add: lz4_inverse_def fs_sound_def reqs_def column_requests_def isspace_def block_manager_new_def word_le_def)

text \<open>C6. In every state a client can reach by opening, closing and reading, the pool holds at most one
  file handle more than its size, every open file has exactly one segment, and a handle a segment still
  holds reads the file of that segment.\<close>

theorem manager_invariant:
  assumes "manager_step\<^sup>*\<^sup>* block_manager_new bm"
  shows "length (bm_file_handle_pool bm) \<le> SFRAME_FILE_HANDLE_POOL_SIZE + 1 \<and>
    (\<forall>f sid. bm_file_to_segments bm f = Some sid \<longleftrightarrow>
       (\<exists>seg. bm_segments bm sid = Some seg \<and> seg_segment_file seg = f)) \<and>
    (\<forall>sid seg h fin. bm_segments bm sid = Some seg \<longrightarrow> seg_file_handle seg = Some h \<longrightarrow>
       (h, fin) \<in> set (bm_file_handle_pool bm) \<longrightarrow> fin = seg_segment_file seg)"
  using manager_reachable[OF assms] unfolding bm_inv_def segment_known_def by blast

theorem manager_invariant_witness:
  defines "bm \<equiv> snd (open_column Map.empty [97] block_manager_new)"
  shows "length (bm_file_handle_pool bm) \<le> SFRAME_FILE_HANDLE_POOL_SIZE + 1 \<and>
    bm_file_to_segments bm [97] = Some 0 \<and> (\<exists>seg. bm_segments bm 0 = Some seg \<and> seg_segment_file seg = [97])"
proof -
  have "parse_v2_segment_filename [97] = ([97], - 1)"
    by (simp add: parse_v2_segment_filename_def trim_def isspace_def split_last_def word_le_def)
  then have o: "open_column Map.empty [97] block_manager_new = (Inl Io_Failure, bm)" "bm_file_to_segments bm [97] = Some 0"
    by (simp_all add: bm_def open_column_def block_manager_new_def init_segment_def segment_new_def
        get_segment_file_handle_def get_new_file_handle_def Let_def)
  from o(1) have "manager_step\<^sup>*\<^sup>* block_manager_new bm" by (auto intro!: r_into_rtranclp step_open)
  from manager_invariant[OF this] o(2) show ?thesis by blast
qed

lemma init_segment_keeps:
  "init_segment fs seg bm = (Inr seg', bm') \<Longrightarrow> bm_segments bm' = bm_segments bm \<and>
     bm_file_to_segments bm' = bm_file_to_segments bm \<and> seg_segment_file seg' = seg_segment_file seg \<and>
     seg_reference_count seg' = seg_reference_count seg"
  by (auto simp: init_segment_def get_segment_file_handle_def get_new_file_handle_def Let_def
      split: if_splits option.splits prod.splits sum.splits)

text \<open>C22. Closing a column that was just opened undoes the opening: the open segments, their reference
  counts and the names are as before, whether the segment was open already or not.\<close>

theorem open_close_restores:
  assumes inv: "manager_step\<^sup>*\<^sup>* block_manager_new bm" and o: "open_column fs name bm = (Inr addr, bm1)"
    and refs: "\<forall>sid seg. bm_segments bm sid = Some seg \<longrightarrow> seg_reference_count seg \<noteq> 0"
  shows "\<exists>bm2. close_column addr bm1 = (Inr (), bm2) \<and> bm_segments bm2 = bm_segments bm \<and>
    bm_file_to_segments bm2 = bm_file_to_segments bm"
proof -
  have inv: "bm_inv bm" by (rule manager_reachable[OF inv])
  obtain f col where p: "parse_v2_segment_filename name = (f, col)" by (metis prod.exhaust)
  show ?thesis
  proof (cases "bm_file_to_segments bm f")
    case (Some sid)
    then obtain seg where s: "bm_segments bm sid = Some seg" using bm_invD(1)[OF inv] by blast
    then have "seg_reference_count seg \<noteq> 0" using refs by blast
    then show ?thesis using o p Some s by (auto simp: open_column_def close_column_def Let_def fun_upd_idem)
  next
    case None
    let ?id = "bm_segment_id_counter bm" and ?seg = "segment_new\<lparr>seg_segment_file := f\<rparr>"
    let ?bm = "bm\<lparr>bm_segment_id_counter := ?id + 1, bm_segments := (bm_segments bm)(?id \<mapsto> ?seg),
      bm_file_to_segments := (bm_file_to_segments bm)(f \<mapsto> ?id)\<rparr>"
    obtain seg' bm' where i: "init_segment fs ?seg ?bm = (Inr seg', bm')"
      using o p None by (auto simp: open_column_def Let_def split: prod.splits sum.splits)
    note k = init_segment_keeps[OF i]
    have new: "bm_segments bm ?id = None" using bm_invD(2)[OF inv, of ?id]
      by (cases "bm_segments bm ?id") (auto simp: segment_known_def)
    have "fst addr = ?id" "bm_segments bm1 = (bm_segments bm)(?id \<mapsto> seg'\<lparr>seg_reference_count := 1\<rparr>)"
      "bm_file_to_segments bm1 = (bm_file_to_segments bm)(f \<mapsto> ?id)"
      using o p None i k by (auto simp: open_column_def Let_def segment_new_def)
    then show ?thesis using k new None by (auto simp: close_column_def Let_def segment_new_def fun_upd_idem)
  qed
qed



text \<open>The name of a column, a file name followed by a colon and the number of the column, is parsed back.\<close>

lemma column_name_roundtrip:
  assumes "f = [] \<or> \<not> isspace (hd f)" "c < 2 ^ 63"
  shows "parse_v2_segment_filename (column_name f c) = (f, of_nat c)"
  by (rule parse_column_name[OF assms])

theorem open_close_restores_witness:
  defines "fs \<equiv> (\<lambda>_. Some [0, 0, 0, 0, 0, 0, 0, 0, 8, 0, 0, 0, 0, 0, 0, 0])"
  shows "\<exists>addr bm1 bm2. open_column fs [97] block_manager_new = (Inr addr, bm1) \<and> close_column addr bm1 = (Inr (), bm2) \<and>
    bm_segments bm2 = bm_segments block_manager_new \<and>
    bm_file_to_segments bm2 = bm_file_to_segments block_manager_new"
proof -
  have "le_word [8, 0, 0, 0, 0, 0, 0, 0] = (8 :: u64)" "le_word [0, 0, 0, 0, 0, 0, 0, 0] = (0 :: u64)" by code_simp+
  moreover have "vector_load (vector_pod_load block_info_of_bytes 48)
      (iarchive_new [0, 0, 0, 0, 0, 0, 0, 0, 8, 0, 0, 0, 0, 0, 0, 0] 16) \<noteq> None" by code_simp
  ultimately have "\<exists>addr bm1. open_column fs [97] block_manager_new = (Inr addr, bm1)"
    by (auto simp: fs_def open_column_def block_manager_new_def init_segment_def segment_new_def read_at_def
        get_segment_file_handle_def get_new_file_handle_def 
        Let_def split: prod.splits option.splits)
  then show ?thesis
    using open_close_restores[of block_manager_new fs "[97]"] by (fastforce simp: block_manager_new_def)
qed

end
