(* ===== verification/Encoded_Block.thy ===== *)
theory Encoded_Block
  imports Block_Writer
begin

text \<open>
  Encoded blocks (\<open>sframe/sarray_v2_encoded_block.cpp\<close>): a block is kept as the bytes of the file and
  decoded on demand by a range, whose coroutine runs the stream decoder and stops whenever a request is
  served.

  A suspended coroutine is modelled by the values it has yet to pass to the callback, an ended one by
  \<open>None\<close>. A pointer into an array is an index; writing past the end of the array is undefined behaviour,
  and so is decoding bytes that are not a block.
\<close>

section \<open>Definitions\<close>

record encoded_block =
  eb_block_info :: block_info
  eb_data :: "byte list option"
  eb_size :: u64

definition encoded_block_new :: encoded_block where
  "encoded_block_new = \<lparr>eb_block_info = block_info_new, eb_data = None, eb_size = 0\<rparr>"

definition encoded_block_init :: "block_info \<Rightarrow> byte list \<Rightarrow> encoded_block \<Rightarrow> encoded_block" where
  "encoded_block_init info data b =
     b\<lparr>eb_block_info := info, eb_data := Some data, eb_size := bi_num_elem info\<rparr>"

definition encoded_block_release :: "encoded_block \<Rightarrow> encoded_block" where
  "encoded_block_release b = b\<lparr>eb_data := None, eb_block_info := block_info_new\<rparr>"

record coro_shared_data =
  cs_skip :: nat
  cs_write_target :: "nat option"
  cs_write_target_numel :: nat

record encoded_block_range =
  er_block_info :: block_info
  er_data :: "byte list option"
  er_source :: "flexible_type list option"
  er_shared :: "coro_shared_data option"
  er_coroutine_started :: bool

definition encoded_block_range_new :: encoded_block_range where
  "encoded_block_range_new = \<lparr>er_block_info = block_info_new, er_data = None, er_source = None,
     er_shared = None, er_coroutine_started = False\<rparr>"

definition get_range :: "encoded_block \<Rightarrow> encoded_block_range" where
  "get_range b = encoded_block_range_new\<lparr>
     er_shared := Some \<lparr>cs_skip = 0, cs_write_target = None, cs_write_target_numel = 0\<rparr>,
     er_block_info := eb_block_info b, er_data := eb_data b\<rparr>"

text \<open>The coroutine runs the callback on the values that are left until it yields or there are none.\<close>

fun coroutine_run ::
  "flexible_type list \<Rightarrow> coro_shared_data \<Rightarrow> flexible_type list \<Rightarrow>
     error + (flexible_type list option \<times> coro_shared_data \<times> flexible_type list)"
where
  "coroutine_run [] sh arr = Inr (None, sh, arr)"
| "coroutine_run (val # vals) sh arr =
     (if cs_write_target_numel sh \<noteq> 0 then
        case cs_write_target sh of
          None \<Rightarrow> Inl Undefined_Behaviour
        | Some p \<Rightarrow>
            if \<not> p < length arr then Inl Undefined_Behaviour
            else let arr = arr[p := val];
                     sh = sh\<lparr>cs_write_target := Some (p + 1),
                             cs_write_target_numel := cs_write_target_numel sh - 1\<rparr>
                 in if cs_write_target_numel sh = 0 then Inr (Some vals, sh, arr)
                    else coroutine_run vals sh arr
      else if cs_skip sh \<noteq> 0 then
        let sh = sh\<lparr>cs_skip := cs_skip sh - 1\<rparr>
        in if cs_skip sh = 0 then Inr (Some vals, sh, arr) else coroutine_run vals sh arr
      else coroutine_run vals sh arr)"

text \<open>The values the coroutine will pass to the callback when it is resumed.\<close>

definition coroutine_values :: "encoded_block_range \<Rightarrow> flexible_type list option" where
  "coroutine_values r =
     (if er_coroutine_started r then er_source r
      else case er_data r of
        None \<Rightarrow> None
      | Some data \<Rightarrow> map_option snd (typed_decode_stream_callback (er_block_info r) data (length data)))"

definition call_source ::
  "flexible_type list \<Rightarrow> encoded_block_range \<Rightarrow> error + (flexible_type list \<times> encoded_block_range)"
where
  "call_source arr r =
     (case (coroutine_values r, er_shared r) of
        (Some vals, Some sh) \<Rightarrow>
          (case coroutine_run vals sh arr of
             Inl e \<Rightarrow> Inl e
           | Inr (source, sh, arr) \<Rightarrow>
               Inr (arr, r\<lparr>er_coroutine_started := True, er_source := source, er_shared := Some sh\<rparr>))
      | _ \<Rightarrow> Inl Undefined_Behaviour)"

definition range_skip :: "nat \<Rightarrow> encoded_block_range \<Rightarrow> error + encoded_block_range" where
  "range_skip n r =
     (if n = 0 then Inr r
      else if er_coroutine_started r \<and> er_source r = None then Inr r
      else case er_shared r of
        None \<Rightarrow> Inl Undefined_Behaviour
      | Some sh \<Rightarrow> map_sum id snd (call_source [] (r\<lparr>er_shared := Some (sh\<lparr>cs_skip := n\<rparr>)\<rparr>)))"

definition fill_buffer ::
  "nat \<Rightarrow> nat \<Rightarrow> flexible_type list \<Rightarrow> encoded_block_range \<Rightarrow>
     error + (nat \<times> flexible_type list \<times> encoded_block_range)"
where
  "fill_buffer write_target numel arr r =
     (if numel = 0 then Inr (0, arr, r)
      else if er_coroutine_started r \<and> er_source r = None then Inr (0, arr, r)
      else case er_shared r of
        None \<Rightarrow> Inl Undefined_Behaviour
      | Some sh \<Rightarrow>
          (case call_source arr (r\<lparr>er_shared := Some (sh\<lparr>cs_write_target := Some write_target,
                   cs_write_target_numel := numel\<rparr>)\<rparr>) of
             Inl e \<Rightarrow> Inl e
           | Inr (arr, r) \<Rightarrow>
               (case er_shared r of
                  None \<Rightarrow> Inl Undefined_Behaviour
                | Some sh \<Rightarrow> Inr (numel - cs_write_target_numel sh, arr,
                    r\<lparr>er_shared := Some (sh\<lparr>cs_write_target := None, cs_write_target_numel := 0\<rparr>)\<rparr>))))"

definition decode_to ::
  "nat \<Rightarrow> nat \<Rightarrow> flexible_type list \<Rightarrow> encoded_block_range \<Rightarrow>
     error + (nat \<times> flexible_type list \<times> encoded_block_range)"
where
  "decode_to decode_target num_elem arr r = fill_buffer decode_target num_elem arr r"

definition range_release :: "encoded_block_range \<Rightarrow> encoded_block_range" where
  "range_release r = r\<lparr>er_source := None, er_shared := None, er_data := None\<rparr>"

section \<open>A range is a cursor over the values of its block\<close>

text \<open>The interface the readers rely on: a cursor with \<open>rest\<close> values left skips values, and writes values
  to an array.\<close>

locale row_cursor =
  fixes ok :: "'s \<Rightarrow> bool" and rest :: "'s \<Rightarrow> 'v list"
    and skp :: "nat \<Rightarrow> 's \<Rightarrow> 'e + 's"
    and fill :: "nat \<Rightarrow> nat \<Rightarrow> 'v list \<Rightarrow> 's \<Rightarrow> 'e + (nat \<times> 'v list \<times> 's)"
  assumes skip_law: "ok s \<Longrightarrow> \<exists>s'. skp n s = Inr s' \<and> ok s' \<and> rest s' = drop n (rest s)"
    and fill_law: "ok s \<Longrightarrow> p + n \<le> length arr \<Longrightarrow> \<exists>s'. fill p n arr s = Inr (min n (length (rest s)),
      take p arr @ take n (rest s) @ drop (p + min n (length (rest s))) arr, s') \<and> ok s' \<and> rest s' = drop n (rest s)"
begin

text \<open>A cursor that stands at \<open>pos\<close> in a sequence that begins with \<open>data\<close> is moved to \<open>i\<close> and read up to \<open>j\<close>.\<close>

lemma seek_fill:
  assumes "ok s" "rest s = drop pos (data @ extra)" "pos \<le> i" "i \<le> j" "j \<le> length data" "p + (j - i) \<le> length arr"
  shows "\<exists>s1 s2. skp (i - pos) s = Inr s1 \<and> ok s1 \<and> rest s1 = drop i (data @ extra) \<and>
    fill p (j - i) arr s1 = Inr (j - i, take p arr @ take (j - i) (drop i data) @ drop (p + (j - i)) arr, s2) \<and>
    ok s2 \<and> rest s2 = drop j (data @ extra)"
proof -
  obtain s1 where s1: "skp (i - pos) s = Inr s1" "ok s1" "rest s1 = drop (i - pos) (rest s)"
    using skip_law[OF assms(1)] by metis
  have r: "rest s1 = drop i (data @ extra)" using s1(3) assms(2,3) by (simp del: drop_append)
  have m: "min (j - i) (length (rest s1)) = j - i" "take (j - i) (rest s1) = take (j - i) (drop i data)"
    "drop (j - i) (rest s1) = drop j (data @ extra)" using assms(4,5) by (auto simp: r)
  show ?thesis using fill_law[OF s1(2) assms(6)] s1(1,2) r unfolding m by blast
qed

end

text \<open>The values a range has left, and the ranges that were made by \<open>get_range\<close> from a block that decodes.\<close>

definition range_rest :: "encoded_block_range \<Rightarrow> flexible_type list" where
  "range_rest r = (case coroutine_values r of None \<Rightarrow> [] | Some vals \<Rightarrow> vals)"

definition range_ok :: "encoded_block_range \<Rightarrow> bool" where
  "range_ok r \<longleftrightarrow> (case er_shared r of None \<Rightarrow> False
     | Some sh \<Rightarrow> cs_write_target_numel sh = 0 \<and> (er_source r = None \<longrightarrow> er_coroutine_started r \<or> cs_skip sh = 0) \<and>
         (er_source r \<noteq> None \<longrightarrow> cs_skip sh = 0)) \<and> (coroutine_values r = None \<longrightarrow> er_coroutine_started r)"

lemma coroutine_skip:
  "cs_write_target_numel sh = 0 \<Longrightarrow> 0 < cs_skip sh \<Longrightarrow> \<exists>sh'. coroutine_run vals sh arr =
     Inr (if cs_skip sh \<le> length vals then Some (drop (cs_skip sh) vals) else None, sh', arr) \<and>
     cs_write_target_numel sh' = 0 \<and> (cs_skip sh \<le> length vals \<longrightarrow> cs_skip sh' = 0)"
proof (induction vals arbitrary: sh)
  case (Cons v vals)
  show ?case using Cons.prems Cons.IH[of "sh\<lparr>cs_skip := cs_skip sh - 1\<rparr>"]
    by (cases "cs_skip sh") (auto simp: Let_def)
qed simp

lemma coroutine_fill:
  "cs_write_target sh = Some p \<Longrightarrow> 0 < cs_write_target_numel sh \<Longrightarrow> p + cs_write_target_numel sh \<le> length arr \<Longrightarrow>
   \<exists>sh'. coroutine_run vals sh arr =
     Inr (if cs_write_target_numel sh \<le> length vals then Some (drop (cs_write_target_numel sh) vals) else None, sh',
       take p arr @ take (cs_write_target_numel sh) vals @ drop (p + min (cs_write_target_numel sh) (length vals)) arr) \<and>
     cs_write_target_numel sh' = cs_write_target_numel sh - length vals \<and> cs_skip sh' = cs_skip sh"
proof (induction vals arbitrary: sh p arr)
  case (Cons v vals)
  let ?sh = "sh\<lparr>cs_write_target := Some (p + 1), cs_write_target_numel := cs_write_target_numel sh - 1\<rparr>"
  have p: "p < length arr" using Cons.prems by simp
  have t: "take (Suc p) (arr[p := v]) = take p arr @ [v]"
    using p by (simp add: take_Suc_conv_app_nth)
  show ?case
  proof (cases "cs_write_target_numel sh = 1")
    case True
    then show ?thesis using Cons.prems p
      by (auto simp: Let_def upd_conv_take_nth_drop min_def)
  next
    case False
    then obtain n where n: "cs_write_target_numel sh = Suc n" "0 < n" using Cons.prems(2)
      by (metis One_nat_def Suc_pred neq0_conv)
    have "p + 1 + n \<le> length (arr[p := v])" using Cons.prems(3) n by simp
    then show ?thesis using Cons.prems(1) n p Cons.IH[of ?sh "p + 1" "arr[p := v]"]
      by (auto simp: Let_def t add.commute)
  qed
qed simp

lemma coroutine_values_shared [simp]: "coroutine_values (r\<lparr>er_shared := x\<rparr>) = coroutine_values r"
  by (cases "er_data r") (simp_all add: coroutine_values_def)

lemma call_source_values:
  assumes "coroutine_values r = Some vals" "er_shared r = Some sh" "coroutine_run vals sh arr = Inr (source, sh', arr')"
  shows "call_source arr r = Inr (arr', r\<lparr>er_coroutine_started := True, er_source := source, er_shared := Some sh'\<rparr>)"
  using assms by (simp add: call_source_def)

lemma range_rest_started: "er_coroutine_started r \<Longrightarrow> er_source r = None \<Longrightarrow> range_rest r = []"
  by (simp add: range_rest_def coroutine_values_def)

lemma range_live:
  assumes "range_ok r" "\<not> (er_coroutine_started r \<and> er_source r = None)"
  obtains sh where "er_shared r = Some sh" "coroutine_values r = Some (range_rest r)"
    "cs_write_target_numel sh = 0" "cs_skip sh = 0"
proof -
  have "coroutine_values r \<noteq> None" using assms
    by (cases "er_coroutine_started r") (auto simp: range_ok_def coroutine_values_def split: option.splits)
  then show thesis using assms that
    by (auto simp: range_ok_def range_rest_def split: option.splits)
qed

lemma range_skip_law:
  assumes ok: "range_ok r"
  shows "\<exists>r'. range_skip n r = Inr r' \<and> range_ok r' \<and> range_rest r' = drop n (range_rest r)"
proof (cases "n = 0 \<or> er_coroutine_started r \<and> er_source r = None")
  case True
  then show ?thesis using ok range_rest_started[of r] by (auto simp: range_skip_def)
next
  case False
  with ok obtain sh where sh: "er_shared r = Some sh" "coroutine_values r = Some (range_rest r)"
    "cs_write_target_numel sh = 0" "cs_skip sh = 0" by (auto elim: range_live)
  let ?r = "r\<lparr>er_shared := Some (sh\<lparr>cs_skip := n\<rparr>)\<rparr>"
  have v: "coroutine_values ?r = Some (range_rest r)" using sh(2) by simp
  obtain sh' where "coroutine_run (range_rest r) (sh\<lparr>cs_skip := n\<rparr>) [] =
      Inr (if n \<le> length (range_rest r) then Some (drop n (range_rest r)) else None, sh', [])"
    "cs_write_target_numel sh' = 0" "n \<le> length (range_rest r) \<longrightarrow> cs_skip sh' = 0"
    using coroutine_skip[of "sh\<lparr>cs_skip := n\<rparr>" "range_rest r" "[]"] sh(3) False by auto
  then show ?thesis using False sh(1) call_source_values[OF v]
    by (auto simp: range_skip_def range_ok_def range_rest_def coroutine_values_def)
qed

lemma fill_buffer_law:
  assumes ok: "range_ok r" and p: "p + n \<le> length arr"
  shows "\<exists>r'. fill_buffer p n arr r = Inr (min n (length (range_rest r)),
      take p arr @ take n (range_rest r) @ drop (p + min n (length (range_rest r))) arr, r') \<and>
    range_ok r' \<and> range_rest r' = drop n (range_rest r)"
proof (cases "n = 0 \<or> er_coroutine_started r \<and> er_source r = None")
  case True
  then show ?thesis using ok range_rest_started[of r] by (auto simp: fill_buffer_def)
next
  case False
  with ok obtain sh where sh: "er_shared r = Some sh" "coroutine_values r = Some (range_rest r)"
    "cs_write_target_numel sh = 0" "cs_skip sh = 0" by (auto elim: range_live)
  let ?sh = "sh\<lparr>cs_write_target := Some p, cs_write_target_numel := n\<rparr>" and ?n = "length (range_rest r)"
  let ?r = "r\<lparr>er_shared := Some ?sh\<rparr>"
  have v: "coroutine_values ?r = Some (range_rest r)" using sh(2) by simp
  obtain sh' where run: "coroutine_run (range_rest r) ?sh arr =
      Inr (if n \<le> ?n then Some (drop n (range_rest r)) else None, sh',
        take p arr @ take n (range_rest r) @ drop (p + min n ?n) arr)"
    and n: "cs_write_target_numel sh' = n - ?n" "cs_skip sh' = 0"
    using coroutine_fill[of ?sh p arr "range_rest r"] sh(4) False p by auto
  have "n - (n - ?n) = min n ?n" by simp
  then show ?thesis using False sh(1) call_source_values[OF v _ run] n
    by (auto simp: fill_buffer_def range_ok_def range_rest_def coroutine_values_def)
qed

interpretation block_range: row_cursor range_ok range_rest range_skip decode_to
  by unfold_locales (use range_skip_law fill_buffer_law in \<open>auto simp: decode_to_def\<close>)

lemma get_range_ok:
  assumes "typed_decode_stream_callback info data (length data) = Some (b, vals)"
  shows "range_ok (get_range (encoded_block_init info data blk))"
    "range_rest (get_range (encoded_block_init info data blk)) = vals"
  using assms by (simp_all add: range_ok_def range_rest_def get_range_def encoded_block_init_def
      coroutine_values_def encoded_block_range_new_def)

section \<open>Properties\<close>

text \<open>A client of a range: requests to skip values and to decode some into an array of that size. The
  results are the decoded values of each request.\<close>

datatype range_op = Skip nat | Decode nat

fun range_ops :: "range_op list \<Rightarrow> encoded_block_range \<Rightarrow> error + flexible_type list list" where
  "range_ops [] r = Inr []"
| "range_ops (Skip n # ops) r = (case range_skip n r of Inl e \<Rightarrow> Inl e | Inr r \<Rightarrow> range_ops ops r)"
| "range_ops (Decode n # ops) r =
     (case decode_to 0 n (replicate n FlexUndefined) r of
        Inl e \<Rightarrow> Inl e
      | Inr (k, arr, r) \<Rightarrow> map_sum id (Cons (take k arr)) (range_ops ops r))"

fun list_ops :: "range_op list \<Rightarrow> 'v list \<Rightarrow> 'v list list" where
  "list_ops [] vs = []"
| "list_ops (Skip n # ops) vs = list_ops ops (drop n vs)"
| "list_ops (Decode n # ops) vs = take n vs # list_ops ops (drop n vs)"

fun ops_size :: "range_op list \<Rightarrow> nat" where
  "ops_size [] = 0"
| "ops_size (Skip n # ops) = n + ops_size ops"
| "ops_size (Decode n # ops) = n + ops_size ops"

lemma range_ops_rest: "range_ok r \<Longrightarrow> range_ops ops r = Inr (list_ops ops (range_rest r))"
proof (induction ops r rule: range_ops.induct)
  case (2 n ops r)
  then show ?case using block_range.skip_law[OF 2(2), of n] by auto
next
  case (3 n ops r)
  obtain r' where "decode_to 0 n (replicate n FlexUndefined) r = Inr (min n (length (range_rest r)),
      take n (range_rest r) @ replicate (n - min n (length (range_rest r))) FlexUndefined, r')"
    "range_ok r'" "range_rest r' = drop n (range_rest r)"
    using block_range.fill_law[OF 3(2), of 0 n "replicate n FlexUndefined"] by auto
  then show ?case using 3(1) by (auto simp: min_def)
qed simp

lemma list_ops_prefix: "ops_size ops \<le> length vs \<Longrightarrow> list_ops ops (vs @ extra) = list_ops ops vs"
  by (induction ops vs rule: list_ops.induct) auto

text \<open>C8. Whatever sequence of requests to skip and to decode values a range gets, as long as they do not
  ask for more values than the block has, the range of an encoded block answers them like a cursor over
  the values the block was encoded from.\<close>

theorem encoded_block_range_cursor:
  assumes "block_ok data" "o_wf oarc" "o_data oarc = []" "bi_flags info AND MULTIPLE_TYPE_BLOCK = 0"
    and n: "ops_size ops \<le> length data"
  shows "\<exists>info' oarc'. typed_encode data info oarc = Some (info', oarc') \<and>
    range_ops ops (get_range (encoded_block_init info' (o_data oarc') blk)) = Inr (list_ops ops data)"
proof -
  from typed_encode_layout[OF assms(1,2,4)] obtain flags oarc' where
    e: "typed_encode data info oarc = Some (info\<lparr>bi_flags := flags, bi_num_elem := of_nat (length data),
        bi_block_size := of_nat (o_off oarc')\<rparr>, oarc')" (is "_ = Some (?info, _)")
    and l: "block_layout data flags (o_data oarc')" "flags AND IS_FLEXIBLE_TYPE \<noteq> 0"
    using assms(3) by (auto simp: block_written_def)
  have "typed_decode_stream_callback ?info (o_data oarc') (length (o_data oarc')) =
      Some (True, data @ repeated_values flags data)"
    using typed_stream_layout[of data ?info "o_data oarc'"] l assms(1) by simp
  from range_ops_rest[OF get_range_ok(1)[OF this]] get_range_ok(2)[OF this] list_ops_prefix[OF n]
  show ?thesis using e by simp
qed

theorem encoded_block_range_cursor_witness:
  "\<exists>info oarc. typed_encode [FlexInt 5, FlexUndefined, FlexInt 7] block_info_new oarchive_new = Some (info, oarc) \<and>
    range_ops [Skip 1, Decode 2] (get_range (encoded_block_init info (o_data oarc) encoded_block_new)) =
      Inr [[FlexUndefined, FlexInt 7]]"
  using encoded_block_range_cursor[of "[FlexInt 5, FlexUndefined, FlexInt 7]" oarchive_new block_info_new "[Skip 1, Decode 2]"]
  by (simp add: block_ok_def vec_total_def block_info_new_def)

end
