(* ===== verification/Sarray_Reader.thy ===== *)
theory Sarray_Reader
  imports Block_Manager Encoded_Block
begin

text \<open>
  The reader of one column (\<open>sarray_format_reader_v2\<close> of \<open>sframe/sarray_file_format_v2.hpp\<close>): it opens
  the segments of the column, numbers their rows, and serves ranges of rows from a cache of blocks. For
  columns of \<open>flexible_type\<close> a cached block is kept encoded until a read goes backwards; for other types it
  is kept decoded.

  Row numbers are natural numbers, since a column has fewer than \<open>2 ^ 64\<close> rows. What a visit of a block
  gets from its environment is a \<open>choices\<close> record: the draws of the random generator, the locks other
  readers hold at that moment, the contents of the buffer taken from the pool, and what a move leaves of
  a value. A failed call has no
  state: nothing is said about a reader after an exception.
\<close>

section \<open>State\<close>

record 'v cache_entry =
  ce_buffer_start_row :: nat
  ce_is_encoded :: bool
  ce_has_data :: bool
  ce_buffer :: "'v list option"
  ce_encoded_buffer :: encoded_block
  ce_encoded_buffer_reader :: encoded_block_range

definition cache_entry_new :: "'v cache_entry" where
  "cache_entry_new = \<lparr>ce_buffer_start_row = 0, ce_is_encoded = False, ce_has_data = False, ce_buffer = None,
     ce_encoded_buffer = encoded_block_new, ce_encoded_buffer_reader = encoded_block_range_new\<rparr>"

record 'v sarray_reader =
  sr_index_info :: index_file_information
  sr_num_rows :: nat
  sr_block_list :: "(nat \<times> nat \<times> nat) list"
  sr_start_row :: "nat list"
  sr_segment_list :: "(nat \<times> nat) list"
  sr_used_cache_entries :: dense_bitset
  sr_cache_size :: nat
  sr_cache :: "'v cache_entry list"

definition sarray_reader_new :: "'v sarray_reader" where
  "sarray_reader_new = \<lparr>sr_index_info = index_file_information_new, sr_num_rows = 0, sr_block_list = [],
     sr_start_row = [], sr_segment_list = [], sr_used_cache_entries = db_new, sr_cache_size = 0, sr_cache = []\<rparr>"

record 'v choices =
  ch_random :: "nat \<Rightarrow> nat \<Rightarrow> nat"
  ch_locked :: "nat \<Rightarrow> bool"
  ch_stale :: "'v list"
  ch_moved :: "'v \<Rightarrow> 'v"

section \<open>Opening and closing\<close>

fun close_columns :: "(nat \<times> nat) list \<Rightarrow> block_manager \<Rightarrow> error + block_manager" where
  "close_columns [] bm = Inr bm"
| "close_columns (column # columns) bm =
     (case close_column column bm of (Inl e, _) \<Rightarrow> Inl e | (Inr _, bm) \<Rightarrow> close_columns columns bm)"

definition close_reader ::
  "'v sarray_reader \<Rightarrow> block_manager \<Rightarrow> error + ('v sarray_reader \<times> block_manager)" where
  "close_reader rd bm =
     result_bind (close_columns (sr_segment_list rd) bm)
       (\<lambda>bm. Inr (rd\<lparr>sr_segment_list := [], sr_cache := []\<rparr>, bm))"

text \<open>The inner loop of \<open>open\<close>, over the blocks \<open>j\<close> of a column from the row \<open>row_count\<close> on: the first rows
  of the blocks, and the row after the last.\<close>

fun list_blocks :: "block_manager \<Rightarrow> nat \<times> nat \<Rightarrow> nat list \<Rightarrow> nat \<Rightarrow> error + (nat list \<times> nat)" where
  "list_blocks bm columnaddr [] row_count = Inr ([], row_count)"
| "list_blocks bm columnaddr (j # js) row_count =
     result_bind (get_block_info (fst columnaddr, snd columnaddr, j) bm) (\<lambda>info.
     result_bind (list_blocks bm columnaddr js (row_count + unat (bi_num_elem info))) (\<lambda>(starts, row_count').
     Inr (row_count # starts, row_count')))"

fun open_segments ::
  "files \<Rightarrow> cstring list \<Rightarrow> nat \<Rightarrow> 'v sarray_reader \<Rightarrow> block_manager \<Rightarrow> error + (nat \<times> 'v sarray_reader \<times> block_manager)"
where
  "open_segments fs [] row_count rd bm = Inr (row_count, rd, bm)"
| "open_segments fs (f # files) row_count rd bm =
     (case open_column fs f bm of
        (Inl e, _) \<Rightarrow> Inl e
      | (Inr columnaddr, bm) \<Rightarrow>
          result_bind (num_blocks_in_column columnaddr bm) (\<lambda>nblocks.
          result_bind (list_blocks bm columnaddr [0..<nblocks] row_count) (\<lambda>(starts, row_count).
          open_segments fs files row_count
            (rd\<lparr>sr_segment_list := sr_segment_list rd @ [columnaddr],
                sr_start_row := sr_start_row rd @ starts,
                sr_block_list := sr_block_list rd @
                  map (\<lambda>j. (fst columnaddr, snd columnaddr, j)) [0..<nblocks]\<rparr>) bm)))"

text \<open>\<open>mem\<close> is what \<open>realloc\<close> returns to the bitset.\<close>

definition open_reader ::
  "(nat \<Rightarrow> u64) \<Rightarrow> files \<Rightarrow> index_file_information \<Rightarrow> 'v sarray_reader \<Rightarrow> block_manager \<Rightarrow>
     error + ('v sarray_reader \<times> block_manager)"
where
  "open_reader mem fs index rd bm =
     result_bind (close_reader rd bm) (\<lambda>(rd, bm).
     result_bind (open_segments fs (ifi_segment_files index) 0
       (rd\<lparr>sr_index_info := index, sr_block_list := [], sr_start_row := [], sr_segment_list := [], sr_num_rows := 0\<rparr>) bm)
     (\<lambda>(row_count, rd, bm).
        let num_rows = sum_list (map unat (ifi_segment_sizes index));
            n = length (sr_block_list rd);
            rd = rd\<lparr>sr_num_rows := num_rows, sr_cache := replicate n cache_entry_new,
                    sr_used_cache_entries := db_clear (db_resize mem (sr_used_cache_entries rd) n),
                    sr_start_row := sr_start_row rd @ [num_rows]\<rparr>
        in if num_rows = row_count then Inr (rd, bm) else Inl Assertion_Failed))"

definition segment_size :: "'v sarray_reader \<Rightarrow> nat \<Rightarrow> error + u64" where
  "segment_size rd segmentid =
     (if segmentid < ifi_nsegments (sr_index_info rd) \<and> segmentid < length (ifi_segment_sizes (sr_index_info rd))
      then Inr (ifi_segment_sizes (sr_index_info rd) ! segmentid) else Inl Assertion_Failed)"

section \<open>The cache\<close>

definition SFRAME_MAX_BLOCKS_IN_CACHE :: nat where "SFRAME_MAX_BLOCKS_IN_CACHE = 32"

definition entry_release :: "'v cache_entry \<Rightarrow> 'v cache_entry" where
  "entry_release e = e\<lparr>ce_buffer := None, ce_encoded_buffer := encoded_block_release (ce_encoded_buffer e),
     ce_encoded_buffer_reader := range_release (ce_encoded_buffer_reader e), ce_has_data := False\<rparr>"

definition release_cache :: "nat \<Rightarrow> 'v sarray_reader \<Rightarrow> error + 'v sarray_reader" where
  "release_cache b rd =
     (if \<not> b < length (sr_cache rd) then Inl Undefined_Behaviour
      else if \<not> ce_has_data (sr_cache rd ! b) then Inr rd
      else result_bind (defined_or (db_clear_bit (sr_used_cache_entries rd) b)) (\<lambda>(_, used).
        Inr (rd\<lparr>sr_cache := (sr_cache rd)[b := entry_release (sr_cache rd ! b)],
                sr_used_cache_entries := used, sr_cache_size := sr_cache_size rd - 1\<rparr>)))"

text \<open>The block to evict: \<open>b\<close> or the next one in use, looping around. \<open>next_bit\<close> leaves its argument
  alone when there is no such bit.\<close>

definition evict_from :: "dense_bitset \<Rightarrow> nat \<Rightarrow> nat option" where
  "evict_from used b = do {
     u \<leftarrow> db_get used b;
     if u then Some b
     else do {
       r \<leftarrow> db_next_bit used b;
       case r of
         Some b \<Rightarrow> Some b
       | None \<Rightarrow> do {
           u \<leftarrow> db_get used 0;
           if u then Some 0
           else do { r \<leftarrow> db_next_bit used 0; Some (case r of Some b \<Rightarrow> b | None \<Rightarrow> 0) } } } }"

definition try_evict_something_from_cache ::
  "nat \<Rightarrow> (nat \<Rightarrow> bool) \<Rightarrow> 'v sarray_reader \<Rightarrow> error + 'v sarray_reader" where
  "try_evict_something_from_cache draw locked rd =
     result_bind (defined_or (evict_from (sr_used_cache_entries rd) draw)) (\<lambda>b.
     if locked b then Inr rd else release_cache b rd)"

fun evict_loop :: "'v choices \<Rightarrow> nat \<Rightarrow> nat \<Rightarrow> nat \<Rightarrow> 'v sarray_reader \<Rightarrow> error + 'v sarray_reader" where
  "evict_loop ch block_number k 0 rd = Inr rd"
| "evict_loop ch block_number k (Suc num_to_evict) rd =
     (if sr_cache_size rd > SFRAME_MAX_BLOCKS_IN_CACHE then
        result_bind (try_evict_something_from_cache (ch_random ch k (length (sr_cache rd) - 1))
          (\<lambda>b. ch_locked ch b \<or> b = block_number) rd)
        (evict_loop ch block_number (Suc k) num_to_evict)
      else Inr rd)"

text \<open>The end of \<open>fetch_cache_from_file\<close>: count the entry, and evict others.\<close>

definition note_cached :: "'v choices \<Rightarrow> nat \<Rightarrow> 'v sarray_reader \<Rightarrow> error + 'v sarray_reader" where
  "note_cached ch block_number rd =
     result_bind (defined_or (db_get (sr_used_cache_entries rd) block_number)) (\<lambda>u.
     result_bind (defined_or (db_set_bit (sr_used_cache_entries rd) block_number)) (\<lambda>(_, used).
     let cache_size = (if u then sr_cache_size rd else sr_cache_size rd + 1)
     in evict_loop ch block_number 0 (cache_size - SFRAME_MAX_BLOCKS_IN_CACHE)
          (rd\<lparr>sr_cache_size := cache_size, sr_used_cache_entries := used\<rparr>)))"

definition fetch_cache_from_file_flex ::
  "(byte list \<Rightarrow> nat \<Rightarrow> byte list) \<Rightarrow> files \<Rightarrow> flexible_type choices \<Rightarrow> nat \<Rightarrow>
     flexible_type sarray_reader \<Rightarrow> block_manager \<Rightarrow> error + (flexible_type sarray_reader \<times> block_manager)"
where
  "fetch_cache_from_file_flex unlz4 fs ch block_number rd bm =
     (case read_block unlz4 fs (sr_block_list rd ! block_number) bm of
        (Inl e, _) \<Rightarrow> Inl e
      | (Inr (info, None), _) \<Rightarrow> Inl Io_Failure
      | (Inr (info, Some buffer), bm) \<Rightarrow>
          let ret = sr_cache rd ! block_number;
              encoded = encoded_block_init info buffer (ce_encoded_buffer ret);
              ret = ret\<lparr>ce_buffer := None, ce_buffer_start_row := sr_start_row rd ! block_number,
                ce_encoded_buffer := encoded, ce_encoded_buffer_reader := get_range encoded,
                ce_is_encoded := True, ce_has_data := True\<rparr>
          in result_bind (note_cached ch block_number (rd\<lparr>sr_cache := (sr_cache rd)[block_number := ret]\<rparr>))
               (\<lambda>rd. Inr (rd, bm)))"

text \<open>For other types; \<open>load\<close> is the deserializer of a value. The code does not set \<open>has_data\<close> here.\<close>

definition fetch_cache_from_file ::
  "(iarchive \<Rightarrow> ('v \<times> iarchive) option) \<Rightarrow> (byte list \<Rightarrow> nat \<Rightarrow> byte list) \<Rightarrow> files \<Rightarrow> 'v choices \<Rightarrow> nat \<Rightarrow>
     'v sarray_reader \<Rightarrow> block_manager \<Rightarrow> error + ('v sarray_reader \<times> block_manager)"
where
  "fetch_cache_from_file load unlz4 fs ch block_number rd bm =
     (let ret = sr_cache rd ! block_number;
          buffer = (case ce_buffer ret of None \<Rightarrow> ch_stale ch | Some buffer \<Rightarrow> buffer)
      in case read_vector_block load unlz4 fs (sr_block_list rd ! block_number) buffer bm of
           (Inl e, _) \<Rightarrow> Inl e
         | (Inr (False, _), _) \<Rightarrow> Inl Io_Failure
         | (Inr (True, buffer), bm) \<Rightarrow>
             let ret = ret\<lparr>ce_buffer := Some buffer, ce_buffer_start_row := sr_start_row rd ! block_number\<rparr>
             in result_bind (note_cached ch block_number (rd\<lparr>sr_cache := (sr_cache rd)[block_number := ret]\<rparr>))
                  (\<lambda>rd. Inr (rd, bm)))"

definition ensure_cache_decoded ::
  "flexible_type list \<Rightarrow> nat \<Rightarrow> flexible_type cache_entry \<Rightarrow> error + flexible_type cache_entry"
where
  "ensure_cache_decoded stale start_row cache =
     (if ce_is_encoded cache then
        result_bind (defined_or (eb_data (ce_encoded_buffer cache))) (\<lambda>data.
        result_bind (defined_or (typed_decode (eb_block_info (ce_encoded_buffer cache)) data (length data) stale))
        (\<lambda>(_, buffer).
           Inr (cache\<lparr>ce_buffer := Some buffer, ce_encoded_buffer := encoded_block_release (ce_encoded_buffer cache),
             ce_encoded_buffer_reader := range_release (ce_encoded_buffer_reader cache), ce_is_encoded := False,
             ce_buffer_start_row := start_row\<rparr>)))
      else Inr cache)"

section \<open>Reading rows\<close>

definition lower_bound :: "nat list \<Rightarrow> nat \<Rightarrow> nat" where
  "lower_bound xs x = length (takeWhile (\<lambda>y. y < x) xs)"

definition block_offset_containing_row :: "'v sarray_reader \<Rightarrow> nat \<Rightarrow> nat" where
  "block_offset_containing_row rd row =
     (let blocknum = lower_bound (sr_start_row rd) row
      in if blocknum < length (sr_block_list rd) then
           (if sr_start_row rd ! blocknum = row then blocknum else blocknum - 1)
         else length (sr_block_list rd) - 1)"

text \<open>\<open>for (j = first; j < last; ++j) out_obj[output_idx++] = (*cache.buffer)[j - input_offset]\<close>, with \<open>n\<close>
  rows from the index \<open>k\<close> of the buffer on.\<close>

fun copy_rows :: "'v list \<Rightarrow> nat \<Rightarrow> nat \<Rightarrow> nat \<Rightarrow> 'v list \<Rightarrow> error + 'v list" where
  "copy_rows buffer k 0 output_idx out_obj = Inr out_obj"
| "copy_rows buffer k (Suc n) output_idx out_obj =
     (if k < length buffer \<and> output_idx < length out_obj
      then copy_rows buffer (Suc k) n (Suc output_idx) (out_obj[output_idx := buffer ! k])
      else Inl Undefined_Behaviour)"

text \<open>The body of the loop of \<open>fetch_rows_from_cache\<close>, for the block \<open>i\<close>; the calls are made with the
  lock of the entry held. The entry of a block is read back after the call that may replace it.\<close>

definition set_entry :: "nat \<Rightarrow> 'v cache_entry \<Rightarrow> 'v sarray_reader \<Rightarrow> 'v sarray_reader" where
  "set_entry i e rd = rd\<lparr>sr_cache := (sr_cache rd)[i := e]\<rparr>"

definition fast_forward ::
  "nat \<Rightarrow> flexible_type cache_entry \<Rightarrow> error + flexible_type cache_entry" where
  "fast_forward first_row cache =
     (if ce_buffer_start_row cache < first_row \<and> ce_is_encoded cache then
        result_bind (range_skip (first_row - ce_buffer_start_row cache) (ce_encoded_buffer_reader cache)) (\<lambda>r.
        Inr (cache\<lparr>ce_encoded_buffer_reader := r, ce_buffer_start_row := first_row\<rparr>))
      else Inr cache)"

definition sequential_read_flex ::
  "nat \<Rightarrow> nat \<Rightarrow> nat \<Rightarrow> nat \<Rightarrow> flexible_type list \<Rightarrow> flexible_type cache_entry \<Rightarrow>
     error + (flexible_type list \<times> flexible_type cache_entry)"
where
  "sequential_read_flex input_offset first_row last_row output_idx out_obj cache =
     (if ce_is_encoded cache then
        result_bind (decode_to output_idx (last_row - first_row) out_obj (ce_encoded_buffer_reader cache)) (\<lambda>(_, out_obj, r).
        Inr (out_obj, cache\<lparr>ce_encoded_buffer_reader := r, ce_buffer_start_row := last_row\<rparr>))
      else
        result_bind (defined_or (ce_buffer cache)) (\<lambda>buffer.
        result_bind (copy_rows buffer (first_row - input_offset) (last_row - first_row) output_idx out_obj) (\<lambda>out_obj.
        Inr (out_obj, cache))))"

definition read_cached_flex ::
  "flexible_type choices \<Rightarrow> nat \<Rightarrow> nat \<Rightarrow> nat \<Rightarrow> nat \<Rightarrow> flexible_type list \<Rightarrow> flexible_type sarray_reader \<Rightarrow>
     error + (nat \<times> flexible_type list \<times> flexible_type sarray_reader)"
where
  "read_cached_flex ch first_row last_row i output_idx out_obj rd =
     (let input_offset = sr_start_row rd ! i
      in result_bind (fast_forward first_row (sr_cache rd ! i)) (\<lambda>cache.
         if ce_buffer_start_row cache = first_row then
           result_bind (sequential_read_flex input_offset first_row last_row output_idx out_obj cache) (\<lambda>(out_obj, cache).
           result_bind (if last_row = sr_start_row rd ! (i + 1) then release_cache i (set_entry i cache rd)
                        else Inr (set_entry i cache rd)) (\<lambda>rd.
           Inr (output_idx + (last_row - first_row), out_obj, rd)))
         else
           result_bind (ensure_cache_decoded (ch_stale ch) (sr_start_row rd ! i) cache) (\<lambda>cache.
           result_bind (defined_or (ce_buffer cache)) (\<lambda>buffer.
           result_bind (copy_rows buffer (first_row - input_offset) (last_row - first_row) output_idx out_obj) (\<lambda>out_obj.
           Inr (output_idx + (last_row - first_row), out_obj, set_entry i cache rd))))))"

definition visit_block_flex ::
  "(byte list \<Rightarrow> nat \<Rightarrow> byte list) \<Rightarrow> files \<Rightarrow> flexible_type choices \<Rightarrow> nat \<Rightarrow> nat \<Rightarrow> nat \<Rightarrow> nat \<Rightarrow>
     flexible_type list \<Rightarrow> flexible_type sarray_reader \<Rightarrow> block_manager \<Rightarrow>
     error + (nat \<times> flexible_type list \<times> flexible_type sarray_reader \<times> block_manager)"
where
  "visit_block_flex unlz4 fs ch fetch_start fetch_end i output_idx out_obj rd bm =
     (let first_row = max fetch_start (sr_start_row rd ! i);
          last_row = min fetch_end (sr_start_row rd ! (i + 1))
      in result_bind (if \<not> ce_has_data (sr_cache rd ! i) then fetch_cache_from_file_flex unlz4 fs ch i rd bm
                      else Inr (rd, bm)) (\<lambda>(rd, bm).
         result_bind (read_cached_flex ch first_row last_row i output_idx out_obj rd) (\<lambda>(output_idx, out_obj, rd).
         Inr (output_idx, out_obj, rd, bm))))"

text \<open>For other types. A sequential read moves the values out of the buffer.\<close>

definition move_rows :: "('v \<Rightarrow> 'v) \<Rightarrow> nat \<Rightarrow> nat \<Rightarrow> 'v list \<Rightarrow> 'v list" where
  "move_rows moved k n buffer = take k buffer @ map moved (take n (drop k buffer)) @ drop (k + n) buffer"

definition visit_block ::
  "(iarchive \<Rightarrow> ('v \<times> iarchive) option) \<Rightarrow> (byte list \<Rightarrow> nat \<Rightarrow> byte list) \<Rightarrow> files \<Rightarrow> 'v choices \<Rightarrow>
     nat \<Rightarrow> nat \<Rightarrow> nat \<Rightarrow> nat \<Rightarrow> 'v list \<Rightarrow> 'v sarray_reader \<Rightarrow> block_manager \<Rightarrow>
     error + (nat \<times> 'v list \<times> 'v sarray_reader \<times> block_manager)"
where
  "visit_block load unlz4 fs ch fetch_start fetch_end i output_idx out_obj rd bm =
     (let first_row = max fetch_start (sr_start_row rd ! i);
          last_row = min fetch_end (sr_start_row rd ! (i + 1));
          input_offset = sr_start_row rd ! i
      in result_bind (if ce_buffer (sr_cache rd ! i) = None \<or> first_row < ce_buffer_start_row (sr_cache rd ! i)
                      then fetch_cache_from_file load unlz4 fs ch i rd bm else Inr (rd, bm)) (\<lambda>(rd, bm).
         let cache = sr_cache rd ! i in
         result_bind (defined_or (ce_buffer cache)) (\<lambda>buffer.
         result_bind (copy_rows buffer (first_row - input_offset) (last_row - first_row) output_idx out_obj) (\<lambda>out_obj.
         if ce_buffer_start_row cache = first_row then
           let cache = cache\<lparr>ce_buffer := Some (move_rows (ch_moved ch) (first_row - input_offset) (last_row - first_row) buffer),
                             ce_buffer_start_row := last_row\<rparr>
           in result_bind (if last_row = sr_start_row rd ! (i + 1) then release_cache i (set_entry i cache rd)
                           else Inr (set_entry i cache rd)) (\<lambda>rd.
              Inr (output_idx + (last_row - first_row), out_obj, rd, bm))
         else Inr (output_idx + (last_row - first_row), out_obj, rd, bm)))))"

text \<open>The loop over the blocks. \<open>visit\<close> is one of the two bodies, \<open>ch i\<close> what its visit of block \<open>i\<close> meets.\<close>

fun fetch_blocks ::
  "(nat \<Rightarrow> nat \<Rightarrow> 'v list \<Rightarrow> 'v sarray_reader \<Rightarrow> block_manager \<Rightarrow>
      error + (nat \<times> 'v list \<times> 'v sarray_reader \<times> block_manager)) \<Rightarrow> nat list \<Rightarrow> nat \<Rightarrow> 'v list \<Rightarrow>
     'v sarray_reader \<Rightarrow> block_manager \<Rightarrow> error + ('v list \<times> 'v sarray_reader \<times> block_manager)"
where
  "fetch_blocks visit [] output_idx out_obj rd bm = Inr (out_obj, rd, bm)"
| "fetch_blocks visit (i # is) output_idx out_obj rd bm =
     result_bind (visit i output_idx out_obj rd bm) (\<lambda>(output_idx, out_obj, rd, bm).
     fetch_blocks visit is output_idx out_obj rd bm)"

definition fetch_rows_from_cache ::
  "(nat \<Rightarrow> nat \<Rightarrow> nat \<Rightarrow> nat \<Rightarrow> 'v list \<Rightarrow> 'v sarray_reader \<Rightarrow> block_manager \<Rightarrow>
      error + (nat \<times> 'v list \<times> 'v sarray_reader \<times> block_manager)) \<Rightarrow> nat \<Rightarrow> nat \<Rightarrow> 'v list \<Rightarrow>
     'v sarray_reader \<Rightarrow> block_manager \<Rightarrow> error + ('v list \<times> 'v sarray_reader \<times> block_manager)"
where
  "fetch_rows_from_cache visit fetch_start fetch_end out_obj rd bm =
     (let start_offset = block_offset_containing_row rd fetch_start;
          end_offset = block_offset_containing_row rd (fetch_end - 1) + 1
      in fetch_blocks (visit fetch_start fetch_end) [start_offset..<end_offset] 0 out_obj rd bm)"

definition resize_rows :: "'v \<Rightarrow> 'v list \<Rightarrow> nat \<Rightarrow> 'v list" where
  "resize_rows init xs n = take n xs @ replicate (n - length xs) init"

definition read_rows ::
  "(nat \<Rightarrow> nat \<Rightarrow> nat \<Rightarrow> nat \<Rightarrow> 'v list \<Rightarrow> 'v sarray_reader \<Rightarrow> block_manager \<Rightarrow>
      error + (nat \<times> 'v list \<times> 'v sarray_reader \<times> block_manager)) \<Rightarrow> 'v \<Rightarrow> bool \<Rightarrow> nat \<Rightarrow> nat \<Rightarrow> 'v list \<Rightarrow>
     'v sarray_reader \<Rightarrow> block_manager \<Rightarrow> error + (nat \<times> 'v list \<times> 'v sarray_reader \<times> block_manager)"
where
  "read_rows visit init must_cancel row_start row_end out_obj rd bm =
     (let row_end = min row_end (sr_num_rows rd)
      in if row_start \<ge> row_end then Inr (0, [], rd, bm)
         else result_bind (fetch_rows_from_cache visit row_start row_end
                (resize_rows init out_obj (row_end - row_start)) rd bm) (\<lambda>(out_obj, rd, bm).
              if must_cancel then Inl Cancelled else Inr (length out_obj, out_obj, rd, bm)))"

definition read_rows_flex ::
  "(byte list \<Rightarrow> nat \<Rightarrow> byte list) \<Rightarrow> files \<Rightarrow> (nat \<Rightarrow> flexible_type choices) \<Rightarrow> bool \<Rightarrow> nat \<Rightarrow> nat \<Rightarrow>
     flexible_type list \<Rightarrow> flexible_type sarray_reader \<Rightarrow> block_manager \<Rightarrow>
     error + (nat \<times> flexible_type list \<times> flexible_type sarray_reader \<times> block_manager)"
where
  "read_rows_flex unlz4 fs ch = read_rows (\<lambda>fetch_start fetch_end i. visit_block_flex unlz4 fs (ch i) fetch_start fetch_end i)
     FlexUndefined"

definition read_rows_values ::
  "(iarchive \<Rightarrow> ('v \<times> iarchive) option) \<Rightarrow> 'v \<Rightarrow> (byte list \<Rightarrow> nat \<Rightarrow> byte list) \<Rightarrow> files \<Rightarrow>
     (nat \<Rightarrow> 'v choices) \<Rightarrow> bool \<Rightarrow> nat \<Rightarrow> nat \<Rightarrow> 'v list \<Rightarrow> 'v sarray_reader \<Rightarrow> block_manager \<Rightarrow>
     error + (nat \<times> 'v list \<times> 'v sarray_reader \<times> block_manager)"
where
  "read_rows_values load init unlz4 fs ch =
     read_rows (\<lambda>fetch_start fetch_end i. visit_block load unlz4 fs (ch i) fetch_start fetch_end i) init"

section \<open>The cache keeps its invariant\<close>

text \<open>
  \<open>P i e\<close> is what the entry \<open>e\<close> of block \<open>i\<close> satisfies. The bitset covers the entries with data, and the
  counter covers the bitset, so that it never falls below zero.
\<close>

definition cache_wf :: "(nat \<Rightarrow> 'v cache_entry \<Rightarrow> bool) \<Rightarrow> (nat \<Rightarrow> bool) \<Rightarrow> nat \<Rightarrow> 'v sarray_reader \<Rightarrow> bool" where
  "cache_wf P uncounted n rd \<longleftrightarrow> length (sr_cache rd) = n \<and>
     db_wf (sr_used_cache_entries rd) \<and> db_size (sr_used_cache_entries rd) = n \<and>
     card (db_bits (sr_used_cache_entries rd)) \<le> sr_cache_size rd \<and>
     (\<forall>i<n. P i (sr_cache rd ! i) \<and>
        (ce_has_data (sr_cache rd ! i) \<longrightarrow> uncounted i \<or> i \<in> db_bits (sr_used_cache_entries rd)))"

abbreviation cache_inv :: "(nat \<Rightarrow> 'v cache_entry \<Rightarrow> bool) \<Rightarrow> nat \<Rightarrow> 'v sarray_reader \<Rightarrow> bool" where
  "cache_inv P \<equiv> cache_wf P (\<lambda>_. False)"

definition releasable :: "(nat \<Rightarrow> 'v cache_entry \<Rightarrow> bool) \<Rightarrow> bool" where
  "releasable P \<longleftrightarrow> (\<forall>i e. P i e \<longrightarrow> ce_has_data e \<longrightarrow> P i (entry_release e))"

text \<open>The reader still reads the same column.\<close>

definition same_column :: "'v sarray_reader \<Rightarrow> 'v sarray_reader \<Rightarrow> bool" where
  "same_column rd rd' \<longleftrightarrow> sr_start_row rd' = sr_start_row rd \<and> sr_block_list rd' = sr_block_list rd \<and>
     sr_num_rows rd' = sr_num_rows rd \<and> sr_segment_list rd' = sr_segment_list rd \<and> sr_index_info rd' = sr_index_info rd"

lemma same_column_refl [simp]: "same_column rd rd"
  by (simp add: same_column_def)

lemma same_column_trans: "same_column a b \<Longrightarrow> same_column b c \<Longrightarrow> same_column a c"
  by (simp add: same_column_def)

lemma sync_bits: "db_set_bit = db_set_bit_unsync" "db_clear_bit = db_clear_bit_unsync"
  by (simp_all add: fun_eq_iff db_set_bit_def db_set_bit_unsync_def db_clear_bit_def db_clear_bit_unsync_def)

lemma db_next_bit_in:
  assumes "db_wf db" "b < db_size db"
  shows "\<exists>r. db_next_bit db b = Some r \<and> (\<forall>m. r = Some m \<longrightarrow> m \<in> db_bits db)"
proof -
  have "b div 64 < length (db_array db)"
    using assms arr_words_less[of b "db_len db"] by (simp add: db_wf_def arr_wf_def db_size_def)
  then show ?thesis by (cases rule: arr_next_bit) (simp_all add: db_next_bit_def db_bits_def)
qed

lemma evict_from_less:
  assumes "db_wf db" "b < db_size db"
  shows "\<exists>c. evict_from db b = Some c \<and> c < db_size db"
proof -
  have z: "0 < db_size db" using assms(2) by simp
  obtain r r0 where r: "db_next_bit db b = Some r" "\<forall>m. r = Some m \<longrightarrow> m \<in> db_bits db"
    "db_next_bit db 0 = Some r0" "\<forall>m. r0 = Some m \<longrightarrow> m \<in> db_bits db"
    using db_next_bit_in[OF assms] db_next_bit_in[OF assms(1) z] by blast
  have l: "m < db_size db" if "m \<in> db_bits db" for m using db.bits_less[OF assms(1)] that by blast
  show ?thesis using assms z r l db.get[OF assms(1)]
    by (cases r; cases r0) (auto simp: evict_from_def)
qed

lemma release_cache_inv:
  assumes inv: "cache_inv P n rd" and P: "releasable P" and b: "b < n"
  shows "\<exists>rd'. release_cache b rd = Inr rd' \<and> cache_inv P n rd' \<and> same_column rd rd' \<and>
    (\<forall>j. j \<noteq> b \<longrightarrow> sr_cache rd' ! j = sr_cache rd ! j)"
proof (cases "ce_has_data (sr_cache rd ! b)")
  case False
  then show ?thesis using inv b by (auto simp: release_cache_def cache_wf_def)
next
  case True
  let ?used = "sr_used_cache_entries rd"
  have u: "db_wf ?used" "b < db_size ?used" "b \<in> db_bits ?used" "length (sr_cache rd) = n"
    using inv b True by (auto simp: cache_wf_def)
  from db.clear_law[OF u(1,2)] obtain used where
    c: "db_clear_bit ?used b = Some (b \<in> db_bits ?used, used)" "db_wf used" "db_size used = db_size ?used"
      "db_bits used = db_bits ?used - {b}" unfolding sync_bits by blast
  have "finite (db_bits ?used)" using db.bits_less[OF u(1)] finite_subset by blast
  then have "card (db_bits used) = card (db_bits ?used) - 1" using u(3) c(4) by simp
  then have "card (db_bits used) \<le> sr_cache_size rd - 1" using inv by (simp add: cache_wf_def diff_le_mono)
  moreover have "P b (entry_release (sr_cache rd ! b))" using P inv b True by (simp add: releasable_def cache_wf_def)
  ultimately show ?thesis using inv b True c u(4)
    by (auto simp: release_cache_def cache_wf_def same_column_def nth_list_update entry_release_def)
qed

lemma try_evict_inv:
  assumes inv: "cache_inv P n rd" and P: "releasable P" and d: "draw < n" and i: "locked i"
  shows "\<exists>rd'. try_evict_something_from_cache draw locked rd = Inr rd' \<and> cache_inv P n rd' \<and> same_column rd rd' \<and>
    sr_cache rd' ! i = sr_cache rd ! i"
proof -
  have "db_wf (sr_used_cache_entries rd)" "draw < db_size (sr_used_cache_entries rd)"
    using inv d by (auto simp: cache_wf_def)
  from evict_from_less[OF this] obtain b where b: "evict_from (sr_used_cache_entries rd) draw = Some b" "b < n"
    using inv by (auto simp: cache_wf_def)
  then show ?thesis using release_cache_inv[OF inv P b(2)] inv i
    by (cases "locked b") (auto simp: try_evict_something_from_cache_def)
qed

lemma evict_loop_inv:
  assumes P: "releasable P" and n: "0 < n" and r: "\<forall>k m. ch_random ch k m \<le> m"
  shows "cache_inv P n rd \<Longrightarrow> \<exists>rd'. evict_loop ch i k num rd = Inr rd' \<and> cache_inv P n rd' \<and> same_column rd rd' \<and>
    sr_cache rd' ! i = sr_cache rd ! i"
proof (induction num arbitrary: k rd)
  case (Suc num)
  have "length (sr_cache rd) = n" using Suc.prems by (simp add: cache_wf_def)
  then have d: "ch_random ch k (length (sr_cache rd) - 1) < n"
    using r[rule_format, of k "length (sr_cache rd) - 1"] n by linarith
  show ?case
  proof (cases "sr_cache_size rd > SFRAME_MAX_BLOCKS_IN_CACHE")
    case True
    obtain rd1 where 1: "try_evict_something_from_cache (ch_random ch k (length (sr_cache rd) - 1))
        (\<lambda>b. ch_locked ch b \<or> b = i) rd = Inr rd1" "cache_inv P n rd1" "same_column rd rd1"
        "sr_cache rd1 ! i = sr_cache rd ! i"
      using try_evict_inv[OF Suc.prems P d, of "\<lambda>b. ch_locked ch b \<or> b = i" i] by blast
    then show ?thesis using True Suc.IH[OF 1(2), of "Suc k"] by (auto intro: same_column_trans)
  qed (use Suc.prems in auto)
qed simp

lemma note_cached_inv:
  assumes inv: "cache_wf P (\<lambda>j. j = i) n rd" and P: "releasable P" and i: "i < n"
    and r: "\<forall>k m. ch_random ch k m \<le> m"
  shows "\<exists>rd'. note_cached ch i rd = Inr rd' \<and> cache_inv P n rd' \<and> same_column rd rd' \<and> sr_cache rd' ! i = sr_cache rd ! i"
proof -
  let ?used = "sr_used_cache_entries rd"
  have u: "db_wf ?used" "i < db_size ?used" using inv i by (auto simp: cache_wf_def)
  from db.set_law[OF u] obtain used where
    s: "db_set_bit ?used i = Some (i \<in> db_bits ?used, used)" "db_wf used" "db_size used = db_size ?used"
      "db_bits used = insert i (db_bits ?used)" unfolding sync_bits by blast
  let ?size = "if i \<in> db_bits ?used then sr_cache_size rd else sr_cache_size rd + 1"
  let ?rd = "rd\<lparr>sr_cache_size := ?size, sr_used_cache_entries := used\<rparr>"
  have "finite (db_bits ?used)" using db.bits_less[OF u(1)] finite_subset by blast
  then have "card (db_bits used) \<le> ?size" using inv s(4) by (simp add: card_insert_if cache_wf_def)
  then have "cache_inv P n ?rd" using inv s by (auto simp: cache_wf_def)
  moreover have "0 < n" using i by simp
  ultimately obtain rd' where
    e: "evict_loop ch i 0 (?size - SFRAME_MAX_BLOCKS_IN_CACHE) ?rd = Inr rd'" "cache_inv P n rd'"
       "same_column ?rd rd'" "sr_cache rd' ! i = sr_cache ?rd ! i"
    using evict_loop_inv[OF P _ r] by blast
  have "note_cached ch i rd = Inr rd'" using e(1) s(1) db.get[OF u] by (simp add: note_cached_def Let_def)
  then show ?thesis using e(2-4) by (simp add: same_column_def)
qed

lemma cache_wf_set_entry:
  assumes "cache_inv P n rd" "i < n" "P i e" "ce_has_data e \<Longrightarrow> U i \<or> i \<in> db_bits (sr_used_cache_entries rd)"
  shows "cache_wf P U n (set_entry i e rd)"
proof -
  have "P j ((sr_cache rd)[i := e] ! j) \<and> (ce_has_data ((sr_cache rd)[i := e] ! j) \<longrightarrow>
      U j \<or> j \<in> db_bits (sr_used_cache_entries rd))" if "j < n" for j
    using assms that by (cases "j = i") (auto simp: cache_wf_def)
  then show ?thesis using assms(1) by (simp add: cache_wf_def set_entry_def)
qed

section \<open>Rows and blocks\<close>

definition first_row_of :: "'v list list \<Rightarrow> nat \<Rightarrow> nat" where
  "first_row_of blocks i = length (concat (take i blocks))"

definition row_starts :: "'v list list \<Rightarrow> nat list" where
  "row_starts blocks = map (first_row_of blocks) [0..<Suc (length blocks)]"

lemma row_starts_nth [simp]: "i \<le> length blocks \<Longrightarrow> row_starts blocks ! i = first_row_of blocks i"
  by (simp add: row_starts_def del: upt_Suc)

lemma length_row_starts [simp]: "length (row_starts blocks) = Suc (length blocks)"
  by (simp add: row_starts_def)

lemma first_row_of_0 [simp]: "first_row_of blocks 0 = 0"
  by (simp add: first_row_of_def)

lemma first_row_of_Suc: "i < length blocks \<Longrightarrow> first_row_of blocks (Suc i) = first_row_of blocks i + length (blocks ! i)"
  by (simp add: first_row_of_def take_Suc_conv_app_nth)

lemma first_row_of_length [simp]: "first_row_of blocks (length blocks) = length (concat blocks)"
  by (simp add: first_row_of_def)

lemma first_row_of_mono: "i \<le> j \<Longrightarrow> first_row_of blocks i \<le> first_row_of blocks j"
proof -
  assume "i \<le> j"
  then have "take j blocks = take i blocks @ take (j - i) (drop i blocks)"
    by (metis le_add_diff_inverse take_add)
  then show ?thesis by (simp add: first_row_of_def)
qed

lemma block_slice:
  assumes i: "i < length blocks" and f: "first_row_of blocks i \<le> f" and l: "l \<le> first_row_of blocks (Suc i)"
  shows "take (l - f) (drop (f - first_row_of blocks i) (blocks ! i)) = take (l - f) (drop f (concat blocks))"
proof -
  have "blocks = take i blocks @ blocks ! i # drop (Suc i) blocks" using i by (rule id_take_nth_drop)
  then have "concat blocks = concat (take i blocks) @ blocks ! i @ concat (drop (Suc i) blocks)"
    by (metis concat.simps(2) concat_append)
  then have "drop f (concat blocks) = drop (f - first_row_of blocks i) (blocks ! i @ concat (drop (Suc i) blocks))"
    using f by (simp add: first_row_of_def)
  moreover have "l - f \<le> length (blocks ! i) - (f - first_row_of blocks i)" using f l first_row_of_Suc[OF i] by linarith
  ultimately show ?thesis by simp
qed

lemma block_offset:
  assumes s: "sr_start_row rd = row_starts blocks" "length (sr_block_list rd) = length blocks"
    and ne: "list_all (\<lambda>b. b \<noteq> []) blocks" and row: "row < length (concat blocks)"
  shows "block_offset_containing_row rd row < length blocks"
    "first_row_of blocks (block_offset_containing_row rd row) \<le> row"
    "row < first_row_of blocks (Suc (block_offset_containing_row rd row))"
proof -
  let ?n = "length blocks" and ?L = "lower_bound (row_starts blocks) row"
  have below: "first_row_of blocks j < row" if "j < ?L" for j
  proof -
    have "row_starts blocks ! j < row"
      using that nth_mem[of j "takeWhile (\<lambda>y. y < row) (row_starts blocks)"] takeWhile_nth[of j "\<lambda>y. y < row" "row_starts blocks"]
      by (auto simp: lower_bound_def dest: set_takeWhileD)
    moreover have "j \<le> ?n" using that length_takeWhile_le[of "\<lambda>y. y < row" "row_starts blocks"] by (simp add: lower_bound_def)
    ultimately show ?thesis by simp
  qed
  have L: "?L \<le> ?n" using below[of ?n] row by (metis first_row_of_length leI less_asym)
  have above: "row \<le> first_row_of blocks ?L"
    using nth_length_takeWhile[of "\<lambda>y. y < row" "row_starts blocks"] L by (simp add: lower_bound_def not_less)
  have n: "0 < ?n" using row by auto
  define i where "i = block_offset_containing_row rd row"
  have "i < ?n \<and> first_row_of blocks i \<le> row \<and> row < first_row_of blocks (Suc i)"
  proof (cases "?L < ?n \<and> first_row_of blocks ?L = row")
    case True
    then have "i = ?L" using s L by (simp add: i_def block_offset_containing_row_def Let_def)
    moreover have "blocks ! ?L \<noteq> []" using ne True by (simp add: list_all_length)
    ultimately show ?thesis using True first_row_of_Suc[of ?L blocks] by auto
  next
    case False
    then have i: "i = ?L - 1" using s L by (auto simp: i_def block_offset_containing_row_def Let_def)
    have z: "0 < ?L" using above False n by (cases "?L = 0") auto
    have "row < first_row_of blocks ?L" using False above L row by (cases "?L = ?n") auto
    then show ?thesis using below[of i] z i L by auto
  qed
  then show "block_offset_containing_row rd row < ?n" "first_row_of blocks (block_offset_containing_row rd row) \<le> row"
    "row < first_row_of blocks (Suc (block_offset_containing_row rd row))" unfolding i_def by auto
qed

text \<open>\<open>n\<close> values written to an array from the index \<open>p\<close> on.\<close>

definition splice_at :: "nat \<Rightarrow> 'v list \<Rightarrow> 'v list \<Rightarrow> 'v list" where
  "splice_at p xs out = take p out @ xs @ drop (p + length xs) out"

lemma length_splice [simp]: "p + length xs \<le> length out \<Longrightarrow> length (splice_at p xs out) = length out"
  by (simp add: splice_at_def)

lemma splice_at_splice_at: "p + length xs + length ys \<le> length out \<Longrightarrow>
  splice_at (p + length xs) ys (splice_at p xs out) = splice_at p (xs @ ys) out"
  by (simp add: splice_at_def ac_simps)

lemma copy_rows_splice:
  "k + n \<le> length buffer \<Longrightarrow> p + n \<le> length out \<Longrightarrow> copy_rows buffer k n p out = Inr (splice_at p (take n (drop k buffer)) out)"
proof (induction n arbitrary: k p out)
  case (Suc n)
  have k: "k < length buffer" "p < length out" using Suc.prems by auto
  have "copy_rows buffer k (Suc n) p out = Inr (splice_at (Suc p) (take n (drop (Suc k) buffer)) (splice_at p [buffer ! k] out))"
    using Suc.IH[of "Suc k" "Suc p" "out[p := buffer ! k]"] Suc.prems k
    by (simp add: splice_at_def[of p] upd_conv_take_nth_drop)
  also have "\<dots> = Inr (splice_at p ([buffer ! k] @ take n (drop (Suc k) buffer)) out)"
    using splice_at_splice_at[of p "[buffer ! k]" "take n (drop (Suc k) buffer)" out] Suc.prems by simp
  also have "[buffer ! k] @ take n (drop (Suc k) buffer) = take (Suc n) (drop k buffer)"
    using k(1) by (simp add: Cons_nth_drop_Suc[symmetric])
  finally show ?case .
qed (simp add: splice_at_def)

section \<open>Ranges of rows\<close>

text \<open>
  The contract between \<open>fetch_rows_from_cache\<close> and the visit of a block: in a reader of a column with the
  given non-empty blocks, the visit writes the wanted rows of the block to the output.
\<close>

locale block_visitor =
  fixes blocks :: "'v list list" and inv :: "'v sarray_reader \<Rightarrow> block_manager \<Rightarrow> bool"
    and visit :: "nat \<Rightarrow> nat \<Rightarrow> nat \<Rightarrow> nat \<Rightarrow> 'v list \<Rightarrow> 'v sarray_reader \<Rightarrow> block_manager \<Rightarrow>
      error + (nat \<times> 'v list \<times> 'v sarray_reader \<times> block_manager)"
  assumes inv_rows: "inv rd bm \<Longrightarrow> sr_start_row rd = row_starts blocks \<and> sr_num_rows rd = length (concat blocks) \<and>
      length (sr_block_list rd) = length blocks \<and> list_all (\<lambda>b. b \<noteq> []) blocks"
    and visit_law: "inv rd bm \<Longrightarrow> i < length blocks \<Longrightarrow> f = max a (first_row_of blocks i) \<Longrightarrow>
      l = min b (first_row_of blocks (Suc i)) \<Longrightarrow> f < l \<Longrightarrow> p + (l - f) \<le> length out \<Longrightarrow>
      \<exists>rd' bm'. visit a b i p out rd bm = Inr (p + (l - f),
        splice_at p (take (l - f) (drop (f - first_row_of blocks i) (blocks ! i))) out, rd', bm') \<and> inv rd' bm'"
begin

lemma fetch_blocks_law:
  assumes "inv rd bm" "i \<le> j" "j < length blocks" "a \<le> f" "first_row_of blocks i \<le> f" "f < first_row_of blocks (Suc i)"
    "f = a \<or> f = first_row_of blocks i" "f < b" "first_row_of blocks j < b" "b \<le> first_row_of blocks (Suc j)"
    "p + (b - f) \<le> length out"
  shows "\<exists>rd' bm'. fetch_blocks (visit a b) [i..<Suc j] p out rd bm =
    Inr (splice_at p (take (b - f) (drop f (concat blocks))) out, rd', bm') \<and> inv rd' bm'"
  using assms
proof (induction "j - i" arbitrary: i f p out rd bm)
  case 0
  then have ij: "i = j" by simp
  have b: "b = min b (first_row_of blocks (Suc i))" and f: "f = max a (first_row_of blocks i)" using 0 ij by auto
  have i: "i < length blocks" and p: "p + (b - f) \<le> length out" and fb: "f < b" using 0 ij by auto
  from visit_law[OF 0(2) i f b fb p] show ?case
    using block_slice[OF i, of f b] 0 ij by auto
next
  case (Suc d)
  let ?l = "first_row_of blocks (Suc i)"
  let ?xs = "take (?l - f) (drop f (concat blocks))" and ?ys = "take (b - ?l) (drop ?l (concat blocks))"
  have i: "i < length blocks" "Suc i \<le> j" using Suc by auto
  have lb: "?l \<le> first_row_of blocks j" by (rule first_row_of_mono) (use i in simp)
  have l: "?l = min b ?l" "?l < b" using lb Suc.prems(9) by auto
  have f: "f = max a (first_row_of blocks i)" using Suc.prems by auto
  have "j < length blocks" "first_row_of blocks (Suc j) \<le> length (concat blocks)"
    using Suc.prems(3) first_row_of_mono[of "Suc j" "length blocks" blocks] by auto
  then have len: "length ?xs = ?l - f" "length ?ys = b - ?l" using Suc.prems(10) l by auto
  have p: "p + (?l - f) \<le> length out" using Suc.prems(6,11) l by linarith
  obtain rd1 bm1 where v: "visit a b i p out rd bm = Inr (p + (?l - f), splice_at p ?xs out, rd1, bm1)" "inv rd1 bm1"
    using visit_law[OF Suc.prems(1) i(1) f l(1) Suc.prems(6) p] block_slice[OF i(1) Suc.prems(5), of ?l] by auto
  have ne: "?l < first_row_of blocks (Suc (Suc i))"
    using inv_rows[OF Suc.prems(1)] first_row_of_Suc[of "Suc i" blocks] i Suc.prems(3) by (auto simp: list_all_length)
  have d: "d = j - Suc i" and al: "a \<le> ?l" using Suc.hyps(2) Suc.prems(4,6) by simp_all
  have p2: "p + (?l - f) + (b - ?l) \<le> length (splice_at p ?xs out)" using len p Suc.prems(6,11) l by simp
  have "\<exists>rd' bm'. fetch_blocks (visit a b) [Suc i..<Suc j] (p + (?l - f)) (splice_at p ?xs out) rd1 bm1 =
      Inr (splice_at (p + (?l - f)) ?ys (splice_at p ?xs out), rd', bm') \<and> inv rd' bm'"
    by (rule Suc.hyps(1)[OF d v(2) i(2) Suc.prems(3) al order.refl ne _ l(2) Suc.prems(9,10) p2]) simp
  moreover have "splice_at (p + (?l - f)) ?ys (splice_at p ?xs out) = splice_at p (?xs @ ?ys) out"
    using splice_at_splice_at[of p ?xs ?ys out] len p Suc.prems(6,11) l by simp
  moreover have "?xs @ ?ys = take (b - f) (drop f (concat blocks))"
    using take_add[of "?l - f" "b - ?l" "drop f (concat blocks)"] Suc.prems(6) l by simp
  ultimately show ?case using v(1) i by (simp add: upt_conv_Cons del: upt_Suc)
qed

lemma read_rows_law:
  assumes inv: "inv rd bm"
  shows "\<exists>rd' bm'. read_rows visit init False a b out rd bm =
    Inr (length (take (b - a) (drop a (concat blocks))), take (b - a) (drop a (concat blocks)), rd', bm') \<and> inv rd' bm'"
proof -
  let ?N = "length (concat blocks)" and ?b = "min b (length (concat blocks))"
  note rows = inv_rows[OF inv]
  show ?thesis
  proof (cases "a < ?b")
    case False
    then have "take (b - a) (drop a (concat blocks)) = []" by auto
    moreover have "read_rows visit init False a b out rd bm = Inr (0, [], rd, bm)"
      using False rows unfolding read_rows_def not_less by (simp only: Let_def if_True)
    ultimately show ?thesis using inv by (metis list.size(3))
  next
    case True
    let ?i = "block_offset_containing_row rd a" and ?j = "block_offset_containing_row rd (?b - 1)"
    have a: "a < ?N" "?b - 1 < ?N" using True by auto
    have rows': "sr_start_row rd = row_starts blocks" "length (sr_block_list rd) = length blocks"
      "list_all (\<lambda>b. b \<noteq> []) blocks" using rows by simp_all
    note i = block_offset[OF rows' a(1)] and j = block_offset[OF rows' a(2)]
    have ij': "first_row_of blocks ?i \<le> a" "a < first_row_of blocks (Suc ?i)" "?j < length blocks" using i j by simp_all
    have b: "first_row_of blocks ?j < ?b" "?b \<le> first_row_of blocks (Suc ?j)" using j(2,3) True by linarith+
    have ij: "?i \<le> ?j"
    proof (rule ccontr)
      assume "\<not> ?i \<le> ?j"
      then have "first_row_of blocks (Suc ?j) \<le> first_row_of blocks ?i" by (intro first_row_of_mono) simp
      then show False using i(2) j(3) True by linarith
    qed
    let ?out = "resize_rows init out (?b - a)"
    have len: "length ?out = ?b - a" by (simp add: resize_rows_def)
    have "\<exists>rd' bm'. fetch_blocks (visit a ?b) [?i..<Suc ?j] 0 ?out rd bm =
        Inr (splice_at 0 (take (?b - a) (drop a (concat blocks))) ?out, rd', bm') \<and> inv rd' bm'"
      by (rule fetch_blocks_law[OF inv ij ij'(3) order.refl ij'(1,2) _ True b]) (simp_all add: len)
    moreover have "take (?b - a) (drop a (concat blocks)) = take (b - a) (drop a (concat blocks))" by (auto simp: min_def)
    moreover have "splice_at 0 (take (?b - a) (drop a (concat blocks))) ?out = take (?b - a) (drop a (concat blocks))"
      using len True by (simp add: splice_at_def)
    ultimately show ?thesis using True rows
      by (auto simp: read_rows_def fetch_rows_from_cache_def Let_def simp del: upt_Suc)
  qed
qed

end

end
