(* ===== verification/Column_Open.thy ===== *)
theory Column_Open
  imports Sarray_Reader
begin

text \<open>
  Opening a column for reading. A segment file that holds blocks is opened by the block manager, the
  reader numbers the rows of the blocks, and every block of the column can be read from the manager from
  then on. \<open>E b e\<close> says that the entry \<open>e\<close> of the file holds the values \<open>b\<close>; the typed blocks of flexible
  columns and the serialized vectors of other columns are instances.
\<close>

section \<open>Stored blocks\<close>

text \<open>The block at an address of the manager was written by a request for which \<open>E\<close> holds.\<close>

definition stored_block ::
  "(block_info \<times> byte list \<Rightarrow> bool) \<Rightarrow> (byte list \<Rightarrow> nat \<Rightarrow> byte list) \<Rightarrow> files \<Rightarrow> block_manager \<Rightarrow> nat \<times> nat \<times> nat \<Rightarrow> bool"
where
  "stored_block E unlz4 fs bm = (\<lambda>(sid, c, k). bm_inv bm \<and> (\<exists>seg content entry. bm_segments bm sid = Some seg \<and>
     fs (seg_segment_file seg) = Some content \<and> c < length (seg_blocks seg) \<and> k < length (seg_blocks seg ! c) \<and>
     block_at unlz4 content (seg_blocks seg ! c ! k) entry \<and> E entry))"

lemma segment_open_stored:
  assumes o: "segment_open unlz4 fs ncols spec sid bm" and k: "c < ncols" "k < length (spec c)" and E: "E (spec c ! k)"
  shows "stored_block E unlz4 fs bm (sid, c, k)"
proof -
  obtain seg content where s: "bm_segments bm sid = Some seg" "fs (seg_segment_file seg) = Some content"
    "length (seg_blocks seg) = ncols" "\<forall>c<ncols. list_all2 (block_at unlz4 content) (seg_blocks seg ! c) (spec c)"
    and inv: "bm_inv bm" using o by (auto simp: segment_open_def)
  have "list_all2 (block_at unlz4 content) (seg_blocks seg ! c) (spec c)" using s(4) k(1) by blast
  then have "k < length (seg_blocks seg ! c)" "block_at unlz4 content (seg_blocks seg ! c ! k) (spec c ! k)"
    using k(2) by (auto simp: list_all2_conv_all_nth)
  then show ?thesis using s inv k E by (cases "spec c ! k") (auto simp: stored_block_def)
qed

lemma read_stored_block:
  assumes st: "stored_block E unlz4 fs bm addr"
  obtains info req raw bm' where "read_block unlz4 fs addr bm = (Inr (info, Some raw), bm')" "E (req, raw)"
    "bi_num_elem info = bi_num_elem req" "bi_flags info AND NOT LZ4_COMPRESSION = bi_flags req AND NOT LZ4_COMPRESSION"
    "\<forall>E' addr'. stored_block E' unlz4 fs bm addr' \<longrightarrow> stored_block E' unlz4 fs bm' addr'"
proof -
  obtain sid c k where a: "addr = (sid, c, k)" by (metis prod_cases3)
  from st obtain seg content entry where inv: "bm_inv bm" and s: "bm_segments bm sid = Some seg"
    "fs (seg_segment_file seg) = Some content" "c < length (seg_blocks seg)" "k < length (seg_blocks seg ! c)"
    "block_at unlz4 content (seg_blocks seg ! c ! k) entry" "E entry"
    by (auto simp: stored_block_def a)
  obtain req raw where e: "entry = (req, raw)" by (metis prod.exhaust)
  let ?info = "seg_blocks seg ! c ! k"
  have gi: "get_block_info (sid, c, k) bm = Inr ?info" using s(1,3,4) by (simp add: get_block_info_def)
  from inv s(1) show thesis
  proof (cases rule: segment_handle[where fs = fs])
    case missing
    then show thesis using s(2) by simp
  next
    case (handle h bm1)
    let ?seg = "seg\<lparr>seg_file_handle := h\<rparr>"
    let ?bm = "bm1\<lparr>bm_segments := (bm_segments bm1)(sid \<mapsto> ?seg)\<rparr>"
    have r: "read_block unlz4 fs addr bm = (Inr (?info, Some raw), ?bm)"
      using gi s(1,2,5) handle(1) by (auto simp: a e read_block_def read_at_def block_at_def Let_def)
    have "stored_block E' unlz4 fs ?bm addr'" if "stored_block E' unlz4 fs bm addr'" for E' addr'
    proof -
      obtain sid' c' k' where a': "addr' = (sid', c', k')" by (metis prod_cases3)
      show ?thesis using that handle(2,4) s(1) by (cases "sid' = sid") (auto simp: stored_block_def a')
    qed
    then show thesis using that r s(5,6) by (auto simp: e block_at_def)
  qed
qed

section \<open>The column of a reader\<close>

definition column_of :: "'v list list \<Rightarrow> 'v sarray_reader \<Rightarrow> bool" where
  "column_of blocks rd \<longleftrightarrow> sr_start_row rd = row_starts blocks \<and> sr_num_rows rd = length (concat blocks) \<and>
     length (sr_block_list rd) = length blocks \<and> list_all (\<lambda>b. b \<noteq> []) blocks \<and>
     sum_list (map unat (ifi_segment_sizes (sr_index_info rd))) = length (concat blocks)"

definition choices_ok :: "(nat \<Rightarrow> 'v choices) \<Rightarrow> bool" where
  "choices_ok ch \<longleftrightarrow> (\<forall>i k m. ch_random (ch i) k m \<le> m)"

lemma column_of_same: "same_column rd rd' \<Longrightarrow> column_of blocks rd' = column_of blocks rd"
  by (simp add: same_column_def column_of_def)

section \<open>Opening a column\<close>

text \<open>The manager keeps the segments it has open, with their files and blocks.\<close>

definition manager_grows :: "block_manager \<Rightarrow> block_manager \<Rightarrow> bool" where
  "manager_grows bm bm' \<longleftrightarrow> bm_inv bm' \<and> (\<forall>sid seg. bm_segments bm sid = Some seg \<longrightarrow> (\<exists>seg'. bm_segments bm' sid = Some seg' \<and>
     seg_segment_file seg' = seg_segment_file seg \<and> seg_blocks seg' = seg_blocks seg))"

lemma manager_grows_trans: "manager_grows a b \<Longrightarrow> manager_grows b c \<Longrightarrow> manager_grows a c"
  unfolding manager_grows_def by metis

lemma manager_grows_refl: "bm_inv bm \<Longrightarrow> manager_grows bm bm"
  by (simp add: manager_grows_def)

lemma stored_block_grows:
  assumes "manager_grows bm bm'" "stored_block E unlz4 fs bm addr"
  shows "stored_block E unlz4 fs bm' addr"
proof -
  obtain sid c k where a: "addr = (sid, c, k)" by (metis prod_cases3)
  then obtain seg content entry where s: "bm_segments bm sid = Some seg" "fs (seg_segment_file seg) = Some content"
    "c < length (seg_blocks seg)" "k < length (seg_blocks seg ! c)" "block_at unlz4 content (seg_blocks seg ! c ! k) entry" "E entry"
    using assms(2) by (auto simp: stored_block_def)
  obtain seg' where "bm_segments bm' sid = Some seg'" "seg_segment_file seg' = seg_segment_file seg" "seg_blocks seg' = seg_blocks seg"
    using assms(1) s(1) by (auto simp: manager_grows_def)
  then show ?thesis using s assms(1) a by (cases entry) (auto simp: stored_block_def manager_grows_def)
qed

lemma segment_open_grows:
  assumes "manager_grows bm bm'" "segment_open unlz4 fs ncols spec sid bm"
  shows "segment_open unlz4 fs ncols spec sid bm'"
proof -
  obtain seg content where s: "bm_segments bm sid = Some seg" "fs (seg_segment_file seg) = Some content"
    "length (seg_blocks seg) = ncols" "\<forall>c<ncols. list_all2 (block_at unlz4 content) (seg_blocks seg ! c) (spec c)"
    using assms(2) by (auto simp: segment_open_def)
  obtain seg' where "bm_segments bm' sid = Some seg'" "seg_segment_file seg' = seg_segment_file seg" "seg_blocks seg' = seg_blocks seg"
    using assms(1) s(1) by (auto simp: manager_grows_def)
  then show ?thesis using s assms(1) by (auto simp: segment_open_def manager_grows_def)
qed

lemma open_column_frame:
  assumes inv: "bm_inv bm" and o: "open_column fs name bm = (Inr (sid, c), bm')"
    and p: "parse_v2_segment_filename name = (f, col)"
  shows "manager_grows bm bm'" "bm_file_to_segments bm' = (bm_file_to_segments bm)(f \<mapsto> sid)"
proof -
  have i: "bm_inv bm'" using bm_inv_open[OF inv o] by simp
  have "(\<forall>s seg. bm_segments bm s = Some seg \<longrightarrow> (\<exists>seg'. bm_segments bm' s = Some seg' \<and>
      seg_segment_file seg' = seg_segment_file seg \<and> seg_blocks seg' = seg_blocks seg)) \<and>
    bm_file_to_segments bm' = (bm_file_to_segments bm)(f \<mapsto> sid)"
  proof (cases "bm_file_to_segments bm f")
    case (Some s)
    then obtain seg where "bm_segments bm s = Some seg" using bm_invD(1)[OF inv] by blast
    then show ?thesis using o p Some by (auto simp: open_column_def Let_def fun_upd_idem)
  next
    case None
    let ?id = "bm_segment_id_counter bm" and ?seg = "segment_new\<lparr>seg_segment_file := f\<rparr>"
    let ?bm = "bm\<lparr>bm_segment_id_counter := ?id + 1, bm_segments := (bm_segments bm)(?id \<mapsto> ?seg),
      bm_file_to_segments := (bm_file_to_segments bm)(f \<mapsto> ?id)\<rparr>"
    obtain seg1 bm1 where i: "init_segment fs ?seg ?bm = (Inr seg1, bm1)"
      using o p None by (auto simp: open_column_def Let_def split: prod.splits sum.splits)
    have new: "bm_segments bm ?id = None" using bm_invD(2)[OF inv, of ?id]
      by (cases "bm_segments bm ?id") (auto simp: segment_known_def)
    have "sid = ?id" "\<exists>seg2. bm_segments bm' = (bm_segments bm)(?id \<mapsto> seg2)"
      "bm_file_to_segments bm' = (bm_file_to_segments bm)(f \<mapsto> ?id)"
      using o p None i init_segment_keeps[OF i] by (auto simp: open_column_def Let_def)
    then show ?thesis using new by auto
  qed
  then show "manager_grows bm bm'" "bm_file_to_segments bm' = (bm_file_to_segments bm)(f \<mapsto> sid)"
    using i by (auto simp: manager_grows_def)
qed

text \<open>A file that holds the blocks \<open>spec\<close> and is not open, or open with these blocks.\<close>

definition file_ready ::
  "(byte list \<Rightarrow> nat \<Rightarrow> byte list) \<Rightarrow> files \<Rightarrow> nat \<Rightarrow> (nat \<Rightarrow> (block_info \<times> byte list) list) \<Rightarrow> cstring \<Rightarrow> block_manager \<Rightarrow> bool"
where
  "file_ready unlz4 fs ncols spec f bm \<longleftrightarrow> (f = [] \<or> \<not> isspace (hd f)) \<and>
     (\<exists>content. fs f = Some content \<and> segment_file unlz4 ncols spec content) \<and>
     (\<forall>sid. bm_file_to_segments bm f = Some sid \<longrightarrow> segment_open unlz4 fs ncols spec sid bm)"

lemma open_column_ready:
  assumes inv: "bm_inv bm" and rdy: "file_ready unlz4 fs ncols spec f bm" and c: "c < 2 ^ 63"
  obtains sid bm' where "open_column fs (column_name f c) bm = (Inr (sid, c), bm')" "segment_open unlz4 fs ncols spec sid bm'"
    "manager_grows bm bm'" "bm_file_to_segments bm' = (bm_file_to_segments bm)(f \<mapsto> sid)"
proof -
  have f: "f = [] \<or> \<not> isspace (hd f)" using rdy by (simp add: file_ready_def)
  note p = parse_column_name[OF f c]
  have "\<exists>sid bm'. open_column fs (column_name f c) bm = (Inr (sid, c), bm') \<and>
    (segment_open unlz4 fs ncols spec sid bm' \<or> segment_open unlz4 fs ncols spec sid bm)"
  proof (cases "bm_file_to_segments bm f")
    case None
    obtain content where k: "segment_file unlz4 ncols spec content" "fs f = Some content"
      using rdy by (auto simp: file_ready_def)
    then show ?thesis using open_column_new[where fs = fs and f = f, OF k p c inv None] by blast
  next
    case (Some sid)
    then have o: "segment_open unlz4 fs ncols spec sid bm" using rdy by (simp add: file_ready_def)
    then obtain seg where "bm_segments bm sid = Some seg" by (auto simp: segment_open_def)
    moreover have "(of_nat c :: u64) \<noteq> - 1" "unat (of_nat c :: u64) = c" by (rule column_number[OF c])+
    ultimately show ?thesis using Some o p by (simp add: open_column_def Let_def)
  qed
  then obtain sid bm' where o: "open_column fs (column_name f c) bm = (Inr (sid, c), bm')"
    "segment_open unlz4 fs ncols spec sid bm' \<or> segment_open unlz4 fs ncols spec sid bm" by blast
  note fr = open_column_frame[OF inv o(1) p]
  show thesis using that o fr segment_open_grows[OF fr(1)] by blast
qed

lemma file_ready_grows:
  assumes "file_ready unlz4 fs ncols spec g bm" "manager_grows bm bm'" "bm_file_to_segments bm' g = bm_file_to_segments bm g"
  shows "file_ready unlz4 fs ncols spec g bm'"
  using assms segment_open_grows[OF assms(2)] by (auto simp: file_ready_def)

text \<open>The first rows of the blocks \<open>bs\<close> of a column that continues at \<open>row\<close>.\<close>

fun starts_from :: "nat \<Rightarrow> 'v list list \<Rightarrow> nat list" where
  "starts_from row [] = []"
| "starts_from row (b # bs) = row # starts_from (row + length b) bs"

lemma starts_from_append: "starts_from row (xs @ ys) = starts_from row xs @ starts_from (row + length (concat xs)) ys"
  by (induction xs arbitrary: row) (simp_all add: add.assoc)

lemma length_starts_from [simp]: "length (starts_from row bs) = length bs"
  by (induction bs arbitrary: row) simp_all

lemma starts_from_nth: "i < length bs \<Longrightarrow> starts_from row bs ! i = row + first_row_of bs i"
  by (induction bs arbitrary: row i) (auto simp: first_row_of_def nth_Cons' take_Cons')

lemma row_starts_from: "row_starts bs = starts_from 0 bs @ [length (concat bs)]"
  by (rule nth_equalityI) (auto simp: nth_append starts_from_nth less_Suc_eq)

lemma list_blocks_law:
  assumes "\<forall>j<length bs. \<exists>info. get_block_info (sid, c, k + j) bm = Inr info \<and> unat (bi_num_elem info) = length (bs ! j)"
  shows "list_blocks bm (sid, c) [k..<k + length bs] row = Inr (starts_from row bs, row + length (concat bs))"
  using assms
proof (induction bs arbitrary: k row)
  case (Cons b bs)
  obtain info where i: "get_block_info (sid, c, k) bm = Inr info" "unat (bi_num_elem info) = length b"
    using Cons.prems by fastforce
  have "\<forall>j<length bs. \<exists>info. get_block_info (sid, c, Suc k + j) bm = Inr info \<and> unat (bi_num_elem info) = length (bs ! j)"
    using Cons.prems by fastforce
  from Cons.IH[OF this, of "row + length b"] show ?case using i
    by (simp add: upt_conv_Cons del: upt_Suc)
qed simp

text \<open>The segments of a column: their files, the blocks of all their columns, and the values of the column.\<close>

type_synonym 'v column_segment = "cstring \<times> (nat \<Rightarrow> (block_info \<times> byte list) list) \<times> 'v list list"

definition segments_ready ::
  "('v list \<Rightarrow> block_info \<times> byte list \<Rightarrow> bool) \<Rightarrow> (byte list \<Rightarrow> nat \<Rightarrow> byte list) \<Rightarrow> files \<Rightarrow> nat \<Rightarrow> nat \<Rightarrow> 'v column_segment list \<Rightarrow> block_manager \<Rightarrow> bool"
where
  "segments_ready E unlz4 fs ncols c segs bm \<longleftrightarrow> distinct (map fst segs) \<and>
     list_all (\<lambda>(f, spec, bs). file_ready unlz4 fs ncols spec f bm \<and> list_all2 E bs (spec c)) segs"

text \<open>A reader that has no column open.\<close>

definition reader_closed :: "'v sarray_reader \<Rightarrow> bool" where
  "reader_closed rd \<longleftrightarrow> sr_segment_list rd = [] \<and> db_wf (sr_used_cache_entries rd)"

lemma reader_closed_new: "reader_closed sarray_reader_new"
  by (simp add: reader_closed_def sarray_reader_new_def db_new_wf)

text \<open>A reader that has just opened a column: no block is cached.\<close>

definition column_opened ::
  "('v list \<Rightarrow> block_info \<times> byte list \<Rightarrow> bool) \<Rightarrow> (byte list \<Rightarrow> nat \<Rightarrow> byte list) \<Rightarrow> files \<Rightarrow> 'v list list \<Rightarrow> 'v sarray_reader \<Rightarrow> block_manager \<Rightarrow> bool"
where
  "column_opened E unlz4 fs blocks rd bm \<longleftrightarrow> column_of blocks rd \<and> sr_cache rd = replicate (length blocks) cache_entry_new \<and>
     db_wf (sr_used_cache_entries rd) \<and> db_size (sr_used_cache_entries rd) = length blocks \<and> db_bits (sr_used_cache_entries rd) = {} \<and>
     (\<forall>i<length blocks. stored_block (E (blocks ! i)) unlz4 fs bm (sr_block_list rd ! i))"

context block_entries
begin

lemma segment_open_infos:
  assumes o: "segment_open unlz4 fs ncols spec sid bm" and c: "c < ncols" and e: "list_all2 E bs (spec c)" and j: "j < length bs"
  shows "\<exists>info. get_block_info (sid, c, j) bm = Inr info \<and> unat (bi_num_elem info) = length (bs ! j)"
proof -
  obtain seg content where s: "bm_segments bm sid = Some seg" "length (seg_blocks seg) = ncols"
    "list_all2 (block_at unlz4 content) (seg_blocks seg ! c) (spec c)"
    using o c by (auto simp: segment_open_def)
  have "E (bs ! j) (spec c ! j)" "block_at unlz4 content (seg_blocks seg ! c ! j) (spec c ! j)"
    using list_all2_nthD[OF e j] list_all2_nthD2[OF s(3)] list_all2_lengthD[OF e] j by auto
  then have "unat (bi_num_elem (seg_blocks seg ! c ! j)) = length (bs ! j)"
    using entry_rows by (auto simp: block_at_def)
  then show ?thesis using s c j list_all2_lengthD[OF e] list_all2_lengthD[OF s(3)]
    by (auto simp: get_block_info_def)
qed

lemma open_segments_law:
  assumes "bm_inv bm" "segments_ready E unlz4 fs ncols c segs bm" "c < ncols" "c < 2 ^ 63"
  shows "\<exists>addrs cols bm'. open_segments fs (map (\<lambda>s. column_name (fst s) c) segs) row rd bm =
      Inr (row + length (concat (concat (map (\<lambda>s. snd (snd s)) segs))),
        rd\<lparr>sr_segment_list := sr_segment_list rd @ cols,
           sr_start_row := sr_start_row rd @ starts_from row (concat (map (\<lambda>s. snd (snd s)) segs)),
           sr_block_list := sr_block_list rd @ addrs\<rparr>, bm') \<and>
    bm_inv bm' \<and> manager_grows bm bm' \<and>
    list_all2 (\<lambda>b. stored_block (E b) unlz4 fs bm') (concat (map (\<lambda>s. snd (snd s)) segs)) addrs"
  using assms(1,2)
proof (induction segs arbitrary: row rd bm)
  case (Cons s segs)
  obtain f spec bs where s: "s = (f, spec, bs)" by (metis prod_cases3)
  have rdy: "file_ready unlz4 fs ncols spec f bm" and e: "list_all2 E bs (spec c)" and df: "f \<notin> fst ` set segs"
    using Cons.prems(2) by (auto simp: segments_ready_def s)
  from Cons.prems(1) rdy assms(4) obtain sid bm1 where
    o: "open_column fs (column_name f c) bm = (Inr (sid, c), bm1)" "segment_open unlz4 fs ncols spec sid bm1"
      "manager_grows bm bm1" "bm_file_to_segments bm1 = (bm_file_to_segments bm)(f \<mapsto> sid)" by (rule open_column_ready)
  have nb: "num_blocks_in_column (sid, c) bm1 = Inr (length bs)"
    using num_blocks_at[OF o(2) assms(3)] list_all2_lengthD[OF e] by simp
  have lb: "list_blocks bm1 (sid, c) [0..<length bs] row = Inr (starts_from row bs, row + length (concat bs))"
    using list_blocks_law[of bs sid c 0 bm1 row] segment_open_infos[OF o(2) assms(3) e] by simp
  let ?addrs = "map (\<lambda>j. (sid, c, j)) [0..<length bs]"
  let ?rd = "rd\<lparr>sr_segment_list := sr_segment_list rd @ [(sid, c)], sr_start_row := sr_start_row rd @ starts_from row bs,
    sr_block_list := sr_block_list rd @ ?addrs\<rparr>"
  have inv1: "bm_inv bm1" using o(3) by (simp add: manager_grows_def)
  have "file_ready unlz4 fs ncols spec' f' bm1 \<and> list_all2 E bs' (spec' c)" if "(f', spec', bs') \<in> set segs" for f' spec' bs'
  proof -
    have "f' \<noteq> f" using that df by force
    then have "bm_file_to_segments bm1 f' = bm_file_to_segments bm f'" using o(4) by simp
    moreover have "file_ready unlz4 fs ncols spec' f' bm" "list_all2 E bs' (spec' c)"
      using Cons.prems(2) that by (auto simp: segments_ready_def list_all_iff)
    ultimately show ?thesis using file_ready_grows[OF _ o(3)] by blast
  qed
  then have "segments_ready E unlz4 fs ncols c segs bm1"
    using Cons.prems(2) by (auto simp: segments_ready_def list_all_iff)
  from Cons.IH[OF inv1 this, of "row + length (concat bs)" ?rd] obtain addrs cols bm' where
    r: "open_segments fs (map (\<lambda>s. column_name (fst s) c) segs) (row + length (concat bs)) ?rd bm1 =
      Inr (row + length (concat bs) + length (concat (concat (map (\<lambda>s. snd (snd s)) segs))),
        ?rd\<lparr>sr_segment_list := sr_segment_list ?rd @ cols,
           sr_start_row := sr_start_row ?rd @ starts_from (row + length (concat bs)) (concat (map (\<lambda>s. snd (snd s)) segs)),
           sr_block_list := sr_block_list ?rd @ addrs\<rparr>, bm')"
    and g: "bm_inv bm'" "manager_grows bm1 bm'"
    and st: "list_all2 (\<lambda>b. stored_block (E b) unlz4 fs bm') (concat (map (\<lambda>s. snd (snd s)) segs)) addrs" by blast
  have "list_all2 (\<lambda>b. stored_block (E b) unlz4 fs bm') bs ?addrs"
  proof (rule list_all2_all_nthI)
    fix j assume j: "j < length bs"
    then have "j < length (spec c)" "E (bs ! j) (spec c ! j)"
      using list_all2_nthD[OF e j] list_all2_lengthD[OF e] by simp_all
    from segment_open_stored[where E = "E (bs ! j)", OF o(2) assms(3) this] stored_block_grows[OF g(2)] j
    show "stored_block (E (bs ! j)) unlz4 fs bm' (?addrs ! j)" by simp
  qed simp
  then have st': "list_all2 (\<lambda>b. stored_block (E b) unlz4 fs bm') (concat (map (\<lambda>s. snd (snd s)) (s # segs))) (?addrs @ addrs)"
    using st by (simp add: s list_all2_appendI)
  show ?case
    by (rule exI[of _ "?addrs @ addrs"], rule exI[of _ "(sid, c) # cols"], rule exI[of _ bm'])
      (use r g st' o(1,3) nb lb manager_grows_trans[OF o(3) g(2)] in \<open>simp add: s starts_from_append add.assoc\<close>)
qed (auto simp: manager_grows_refl intro!: exI[of _ "[]"])

lemma open_reader_law:
  assumes inv: "bm_inv bm" and rdy: "segments_ready E unlz4 fs ncols c segs bm" and c: "c < ncols" "c < 2 ^ 63"
    and rd: "reader_closed rd" and blocks: "blocks = concat (map (\<lambda>s. snd (snd s)) segs)" "list_all (\<lambda>b. b \<noteq> []) blocks"
    and index: "ifi_segment_files index = map (\<lambda>s. column_name (fst s) c) segs"
      "sum_list (map unat (ifi_segment_sizes index)) = length (concat blocks)"
  shows "\<exists>rd' bm'. open_reader mem fs index rd bm = Inr (rd', bm') \<and> column_opened E unlz4 fs blocks rd' bm' \<and> manager_grows bm bm'"
proof -
  let ?rd = "rd\<lparr>sr_cache := [], sr_index_info := index, sr_block_list := [], sr_start_row := [], sr_segment_list := [],
    sr_num_rows := 0\<rparr>" and ?used = "db_clear (db_resize mem (sr_used_cache_entries rd) (length blocks))"
  from open_segments_law[OF inv rdy c, of 0 ?rd, folded blocks(1)] obtain addrs cols bm' where
    o: "open_segments fs (ifi_segment_files index) 0 ?rd bm = Inr (length (concat blocks),
        ?rd\<lparr>sr_segment_list := cols, sr_start_row := starts_from 0 blocks, sr_block_list := addrs\<rparr>, bm')"
    and g: "manager_grows bm bm'"
    and st: "list_all2 (\<lambda>b. stored_block (E b) unlz4 fs bm') blocks addrs"
    by (auto simp: index(1))
  let ?rd' = "?rd\<lparr>sr_segment_list := cols, sr_start_row := row_starts blocks, sr_block_list := addrs,
    sr_num_rows := length (concat blocks), sr_cache := replicate (length blocks) cache_entry_new, sr_used_cache_entries := ?used\<rparr>"
  have l: "length addrs = length blocks" using list_all2_lengthD[OF st] by simp
  have w: "db_wf (db_resize mem (sr_used_cache_entries rd) (length blocks))"
    "db_size (db_resize mem (sr_used_cache_entries rd) (length blocks)) = length blocks"
    using db_resize_wf rd by (auto simp: reader_closed_def)
  have "open_reader mem fs index rd bm = Inr (?rd', bm')"
    using o l rd index(2)
    by (simp add: open_reader_def close_reader_def reader_closed_def row_starts_from Let_def)
  moreover have "column_opened E unlz4 fs blocks ?rd' bm'"
    using st l blocks(2) index(2) db_clear_wf[OF w(1)] w(2)
    by (auto simp: column_opened_def column_of_def list_all2_conv_all_nth)
  ultimately show ?thesis using g by blast
qed

end

section \<open>Sequences of reads\<close>

text \<open>A sequence of reads of ranges of rows, each with what the visits of the blocks meet and the contents of
  the output array before the call; \<open>read\<close> is the call.\<close>

fun read_sequence ::
  "((nat \<Rightarrow> 'v choices) \<Rightarrow> bool \<Rightarrow> nat \<Rightarrow> nat \<Rightarrow> 'v list \<Rightarrow> 'v sarray_reader \<Rightarrow> block_manager \<Rightarrow>
      error + (nat \<times> 'v list \<times> 'v sarray_reader \<times> block_manager)) \<Rightarrow>
     (nat \<times> nat \<times> (nat \<Rightarrow> 'v choices) \<times> 'v list) list \<Rightarrow> 'v sarray_reader \<Rightarrow> block_manager \<Rightarrow> error + (nat \<times> 'v list) list"
where
  "read_sequence read [] rd bm = Inr []"
| "read_sequence read ((a, b, ch, out) # reqs) rd bm =
     result_bind (read ch False a b out rd bm) (\<lambda>(n, rows, rd, bm).
     result_bind (read_sequence read reqs rd bm) (\<lambda>rs. Inr ((n, rows) # rs)))"

definition slice_rows :: "'v list \<Rightarrow> nat \<Rightarrow> nat \<Rightarrow> nat \<times> 'v list" where
  "slice_rows rows a b = (length (take (b - a) (drop a rows)), take (b - a) (drop a rows))"

text \<open>The contract of the two readers: in an open column, a read returns the rows asked for.\<close>

locale column_reader = block_entries E
  for E :: "'v list \<Rightarrow> block_info \<times> byte list \<Rightarrow> bool" +
  fixes unlz4 :: "byte list \<Rightarrow> nat \<Rightarrow> byte list"
    and read :: "files \<Rightarrow> (nat \<Rightarrow> 'v choices) \<Rightarrow> bool \<Rightarrow> nat \<Rightarrow> nat \<Rightarrow> 'v list \<Rightarrow> 'v sarray_reader \<Rightarrow> block_manager \<Rightarrow>
      error + (nat \<times> 'v list \<times> 'v sarray_reader \<times> block_manager)"
    and inv :: "files \<Rightarrow> 'v list list \<Rightarrow> 'v sarray_reader \<Rightarrow> block_manager \<Rightarrow> bool"
  assumes opened_inv: "column_opened E unlz4 fs blocks rd bm \<Longrightarrow> inv fs blocks rd bm"
    and inv_column: "inv fs blocks rd bm \<Longrightarrow> column_of blocks rd"
    and read_law: "inv fs blocks rd bm \<Longrightarrow> choices_ok ch \<Longrightarrow> \<exists>rd' bm'. read fs ch False a b out rd bm =
      Inr (length (take (b - a) (drop a (concat blocks))), take (b - a) (drop a (concat blocks)), rd', bm') \<and> inv fs blocks rd' bm'"
begin

lemma read_sequence_law:
  assumes "inv fs blocks rd bm" "list_all (\<lambda>(_, _, ch, _). choices_ok ch) reqs"
  shows "read_sequence (read fs) reqs rd bm = Inr (map (\<lambda>(a, b, _, _). slice_rows (concat blocks) a b) reqs)"
  using assms
proof (induction reqs arbitrary: rd bm)
  case (Cons req reqs)
  obtain a b ch out where r: "req = (a, b, ch, out)" by (metis prod_cases4)
  have "choices_ok ch" using Cons.prems by (simp add: r)
  from read_law[OF Cons.prems(1) this, of a b out] Cons.IH Cons.prems(2) show ?case
    by (auto simp: r slice_rows_def)
qed simp

end

end
