(* ===== verification/Flex_Reader.thy ===== *)
theory Flex_Reader
  imports Column_Open
begin

text \<open>
  Reading columns of flexible types: \<open>sarray_format_reader_v2\<close> returns the rows of the column, whatever
  the cache holds and evicts. The blocks of the column are those the block manager stores, and each
  cached block is a cursor over its values or the values themselves.
\<close>

section \<open>Typed blocks\<close>

lemma typed_entry_decodes:
  assumes e: "typed_entry data (req, raw)" and i: "bi_num_elem info = bi_num_elem req"
    "bi_flags info AND NOT LZ4_COMPRESSION = bi_flags req AND NOT LZ4_COMPRESSION"
  shows "typed_decode info raw (length raw) ret = Some (True, data)"
    "\<exists>extra. typed_decode_stream_callback info raw (length raw) = Some (True, data @ extra)"
proof -
  have e': "block_ok data" "block_layout data (bi_flags req) raw" "bi_flags req AND IS_FLEXIBLE_TYPE \<noteq> 0"
    "bi_num_elem req = of_nat (length data)" using e by (simp_all add: typed_entry_def)
  have l: "block_layout data (bi_flags info) raw" "bi_flags info AND IS_FLEXIBLE_TYPE \<noteq> 0"
    "bi_num_elem info = of_nat (length data)"
    using block_layout_flags[OF e'(2)] flags_besides_lz4[OF i(2)] e'(3,4) i(1) by simp_all
  show "typed_decode info raw (length raw) ret = Some (True, data)" by (rule typed_decode_layout[OF l(1) e'(1) l(2,3)])
  show "\<exists>extra. typed_decode_stream_callback info raw (length raw) = Some (True, data @ extra)"
    using typed_stream_layout[OF l(1) e'(1) l(2,3)] by blast
qed

section \<open>Columns of flexible types\<close>

text \<open>An entry with data holds its block: encoded, with a cursor at the row \<open>buffer_start_row\<close>, or decoded.\<close>

definition flex_entry :: "flexible_type list list \<Rightarrow> nat \<Rightarrow> flexible_type cache_entry \<Rightarrow> bool" where
  "flex_entry blocks i e \<longleftrightarrow> (ce_has_data e \<longrightarrow>
     (if ce_is_encoded e then
        (\<exists>pos extra raw. pos \<le> length (blocks ! i) \<and> ce_buffer_start_row e = first_row_of blocks i + pos \<and>
           range_ok (ce_encoded_buffer_reader e) \<and>
           range_rest (ce_encoded_buffer_reader e) = drop pos (blocks ! i @ extra) \<and>
           eb_data (ce_encoded_buffer e) = Some raw \<and>
           (\<forall>ret. typed_decode (eb_block_info (ce_encoded_buffer e)) raw (length raw) ret = Some (True, blocks ! i)))
      else ce_buffer e = Some (blocks ! i) \<and> ce_buffer_start_row e = first_row_of blocks i))"

lemma flex_entry_releasable: "releasable (flex_entry blocks)"
  by (simp add: releasable_def flex_entry_def entry_release_def)

definition flex_inv ::
  "(byte list \<Rightarrow> nat \<Rightarrow> byte list) \<Rightarrow> files \<Rightarrow> flexible_type list list \<Rightarrow> flexible_type sarray_reader \<Rightarrow> block_manager \<Rightarrow> bool"
where
  "flex_inv unlz4 fs blocks rd bm \<longleftrightarrow> column_of blocks rd \<and> cache_inv (flex_entry blocks) (length blocks) rd \<and>
     (\<forall>i<length blocks. stored_block (typed_entry (blocks ! i)) unlz4 fs bm (sr_block_list rd ! i))"

lemma fetch_flex_inv:
  assumes inv: "flex_inv unlz4 fs blocks rd bm" and ch: "choices_ok ch" and i: "i < length blocks"
  shows "\<exists>rd' bm'. fetch_cache_from_file_flex unlz4 fs (ch i) i rd bm = Inr (rd', bm') \<and>
    flex_inv unlz4 fs blocks rd' bm' \<and> ce_has_data (sr_cache rd' ! i)"
proof -
  have "stored_block (typed_entry (blocks ! i)) unlz4 fs bm (sr_block_list rd ! i)" using inv i by (simp add: flex_inv_def)
  then obtain info req raw bm' where r: "read_block unlz4 fs (sr_block_list rd ! i) bm = (Inr (info, Some raw), bm')"
    and e: "typed_entry (blocks ! i) (req, raw)" "bi_num_elem info = bi_num_elem req"
      "bi_flags info AND NOT LZ4_COMPRESSION = bi_flags req AND NOT LZ4_COMPRESSION"
    and keep: "\<forall>E' addr'. stored_block E' unlz4 fs bm addr' \<longrightarrow> stored_block E' unlz4 fs bm' addr'"
    by (rule read_stored_block)
  obtain extra where d: "typed_decode_stream_callback info raw (length raw) = Some (True, blocks ! i @ extra)"
    using typed_entry_decodes(2)[OF e] by blast
  let ?enc = "encoded_block_init info raw (ce_encoded_buffer (sr_cache rd ! i))"
  let ?e = "(sr_cache rd ! i)\<lparr>ce_buffer := None, ce_buffer_start_row := sr_start_row rd ! i,
    ce_encoded_buffer := ?enc, ce_encoded_buffer_reader := get_range ?enc, ce_is_encoded := True, ce_has_data := True\<rparr>"
  let ?rd = "rd\<lparr>sr_cache := (sr_cache rd)[i := ?e]\<rparr>"
  have col: "column_of blocks rd" and cache: "cache_inv (flex_entry blocks) (length blocks) rd" using inv by (simp_all add: flex_inv_def)
  have "flex_entry blocks i ?e"
    using get_range_ok[OF d] typed_entry_decodes(1)[OF e] col i
    by (auto simp: flex_entry_def column_of_def encoded_block_init_def intro!: exI[of _ 0])
  then have w: "cache_wf (flex_entry blocks) (\<lambda>j. j = i) (length blocks) ?rd"
    using cache_wf_set_entry[OF cache i] by (auto simp: set_entry_def)
  have "\<forall>k m. ch_random (ch i) k m \<le> m" using ch by (simp add: choices_ok_def)
  from note_cached_inv[OF w flex_entry_releasable i this] obtain rd' where
    n: "note_cached (ch i) i ?rd = Inr rd'" "cache_inv (flex_entry blocks) (length blocks) rd'" "same_column ?rd rd'"
      "sr_cache rd' ! i = sr_cache ?rd ! i" by blast
  have l: "length (sr_cache rd) = length blocks" using cache by (simp add: cache_wf_def)
  have stored: "\<forall>j<length blocks. stored_block (typed_entry (blocks ! j)) unlz4 fs bm' (sr_block_list rd ! j)"
    using inv keep unfolding flex_inv_def by blast
  have same: "same_column rd rd'" using n(3) by (simp add: same_column_def)
  have "fetch_cache_from_file_flex unlz4 fs (ch i) i rd bm = Inr (rd', bm')"
    using r n(1) by (simp add: fetch_cache_from_file_flex_def Let_def)
  moreover have "flex_inv unlz4 fs blocks rd' bm'"
    using stored n(2) col column_of_same[OF same] same by (simp add: flex_inv_def same_column_def)
  ultimately show ?thesis using n(4) i l by simp
qed

lemma flex_entry_encoded:
  assumes "flex_entry blocks i e" "ce_has_data e" "ce_is_encoded e"
  obtains pos extra raw where "pos \<le> length (blocks ! i)" "ce_buffer_start_row e = first_row_of blocks i + pos"
    "range_ok (ce_encoded_buffer_reader e)" "range_rest (ce_encoded_buffer_reader e) = drop pos (blocks ! i @ extra)"
    "eb_data (ce_encoded_buffer e) = Some raw"
    "\<forall>ret. typed_decode (eb_block_info (ce_encoded_buffer e)) raw (length raw) ret = Some (True, blocks ! i)"
  using assms unfolding flex_entry_def by auto

text \<open>Moving the cursor of an encoded entry by a reader \<open>r\<close> that stands at \<open>pos\<close>.\<close>

lemma flex_entry_move:
  assumes "flex_entry blocks i e" "ce_has_data e" "ce_is_encoded e" "pos \<le> length (blocks ! i)"
    "range_ok r" "range_rest r = drop pos (blocks ! i @ extra)" "row = first_row_of blocks i + pos"
  shows "flex_entry blocks i (e\<lparr>ce_encoded_buffer_reader := r, ce_buffer_start_row := row\<rparr>)"
  using assms by (auto simp: flex_entry_def)

lemma fast_forward_law:
  assumes e: "flex_entry blocks i e" "ce_has_data e" "ce_is_encoded e"
    and f: "ce_buffer_start_row e \<le> f" "f \<le> first_row_of blocks i + length (blocks ! i)"
  shows "\<exists>e'. fast_forward f e = Inr e' \<and> flex_entry blocks i e' \<and> ce_has_data e' \<and> ce_buffer_start_row e' = f"
proof (cases "ce_buffer_start_row e = f")
  case False
  from e obtain pos extra raw where p: "pos \<le> length (blocks ! i)" "ce_buffer_start_row e = first_row_of blocks i + pos"
    "range_ok (ce_encoded_buffer_reader e)" "range_rest (ce_encoded_buffer_reader e) = drop pos (blocks ! i @ extra)"
    by (rule flex_entry_encoded)
  obtain r where r: "range_skip (f - ce_buffer_start_row e) (ce_encoded_buffer_reader e) = Inr r" "range_ok r"
    "range_rest r = drop (f - ce_buffer_start_row e) (drop pos (blocks ! i @ extra))"
    using block_range.skip_law[OF p(3), of "f - ce_buffer_start_row e"] p(4) by auto
  have "f - ce_buffer_start_row e + pos = f - first_row_of blocks i" using f(1) p(2) by linarith
  then have "range_rest r = drop (f - first_row_of blocks i) (blocks ! i @ extra)" using r(3) by (simp del: drop_append)
  from flex_entry_move[OF e _ r(2) this] show ?thesis using False f p(2) r(1) e by (simp add: fast_forward_def)
qed (use e in \<open>simp add: fast_forward_def\<close>)

lemma sequential_read_flex_law:
  assumes e: "flex_entry blocks i e" "ce_has_data e" and f: "ce_buffer_start_row e = f" "first_row_of blocks i \<le> f" "f \<le> l"
    "l \<le> first_row_of blocks i + length (blocks ! i)" and p: "p + (l - f) \<le> length out"
  shows "\<exists>e'. sequential_read_flex (first_row_of blocks i) f l p out e =
      Inr (splice_at p (take (l - f) (drop (f - first_row_of blocks i) (blocks ! i))) out, e') \<and>
    flex_entry blocks i e' \<and> ce_has_data e'"
proof (cases "ce_is_encoded e")
  case False
  then have b: "ce_buffer e = Some (blocks ! i)" using e by (simp add: flex_entry_def)
  have "f - first_row_of blocks i + (l - f) \<le> length (blocks ! i)" using f by linarith
  from copy_rows_splice[OF this p] show ?thesis using False b e by (simp add: sequential_read_flex_def)
next
  case True
  from e True obtain pos extra raw where c: "pos \<le> length (blocks ! i)" "ce_buffer_start_row e = first_row_of blocks i + pos"
    "range_ok (ce_encoded_buffer_reader e)" "range_rest (ce_encoded_buffer_reader e) = drop pos (blocks ! i @ extra)"
    by (rule flex_entry_encoded)
  have j: "pos \<le> pos + (l - f)" "pos + (l - f) \<le> length (blocks ! i)" "p + (pos + (l - f) - pos) \<le> length out"
    using c(2) f p by linarith+
  obtain r where r: "decode_to p (l - f) out (ce_encoded_buffer_reader e) =
      Inr (l - f, take p out @ take (l - f) (drop pos (blocks ! i)) @ drop (p + (l - f)) out, r)"
    "range_ok r" "range_rest r = drop (pos + (l - f)) (blocks ! i @ extra)"
    using block_range.seek_fill[OF c(3,4) order.refl j] by (auto simp: range_skip_def)
  have "length (take (l - f) (drop pos (blocks ! i))) = l - f" "f - first_row_of blocks i = pos"
    using j(2) f c(2) by auto
  moreover have "flex_entry blocks i (e\<lparr>ce_encoded_buffer_reader := r, ce_buffer_start_row := l\<rparr>)"
    using c(2) f by (intro flex_entry_move[OF e True j(2) r(2,3)]) simp
  ultimately show ?thesis using True r(1) e by (simp add: sequential_read_flex_def splice_at_def)
qed

lemma ensure_cache_decoded_law:
  assumes e: "flex_entry blocks i e" "ce_has_data e"
  shows "\<exists>e'. ensure_cache_decoded stale (first_row_of blocks i) e = Inr e' \<and> flex_entry blocks i e' \<and>
    ce_has_data e' \<and> ce_buffer e' = Some (blocks ! i)"
  using e by (cases "ce_is_encoded e") (auto simp: flex_entry_def ensure_cache_decoded_def)

lemma flex_inv_set_entry:
  assumes inv: "flex_inv unlz4 fs blocks rd bm" and i: "i < length blocks" "ce_has_data (sr_cache rd ! i)" "flex_entry blocks i e"
  shows "flex_inv unlz4 fs blocks (set_entry i e rd) bm"
proof -
  have c: "cache_inv (flex_entry blocks) (length blocks) rd" using inv by (simp add: flex_inv_def)
  have "i \<in> db_bits (sr_used_cache_entries rd)" using c i by (simp add: cache_wf_def)
  then show ?thesis using cache_wf_set_entry[OF c i(1,3)] inv
    by (simp add: flex_inv_def column_of_def set_entry_def)
qed

lemma flex_inv_release:
  assumes inv: "flex_inv unlz4 fs blocks rd bm" and i: "i < length blocks"
  shows "\<exists>rd'. release_cache i rd = Inr rd' \<and> flex_inv unlz4 fs blocks rd' bm"
proof -
  have c: "cache_inv (flex_entry blocks) (length blocks) rd" using inv by (simp add: flex_inv_def)
  from release_cache_inv[OF c flex_entry_releasable i] obtain rd' where
    "release_cache i rd = Inr rd'" "cache_inv (flex_entry blocks) (length blocks) rd'" "same_column rd rd'" by blast
  then show ?thesis using inv column_of_same by (auto simp: flex_inv_def same_column_def)
qed

lemma read_cached_flex_law:
  assumes inv: "flex_inv unlz4 fs blocks rd bm" and i: "i < length blocks" "ce_has_data (sr_cache rd ! i)"
    and f: "first_row_of blocks i \<le> f" "f < l" "l \<le> first_row_of blocks (Suc i)" and p: "p + (l - f) \<le> length out"
  shows "\<exists>rd'. read_cached_flex ch f l i p out rd = Inr (p + (l - f),
      splice_at p (take (l - f) (drop (f - first_row_of blocks i) (blocks ! i))) out, rd') \<and> flex_inv unlz4 fs blocks rd' bm"
proof -
  let ?e = "sr_cache rd ! i" and ?out = "splice_at p (take (l - f) (drop (f - first_row_of blocks i) (blocks ! i))) out"
  have e: "flex_entry blocks i ?e" using inv i(1) by (simp add: flex_inv_def cache_wf_def)
  have st: "sr_start_row rd ! i = first_row_of blocks i" using inv i(1) by (simp add: flex_inv_def column_of_def)
  have l: "l \<le> first_row_of blocks i + length (blocks ! i)" using f(3) first_row_of_Suc[OF i(1)] by simp
  obtain e1 where e1: "fast_forward f ?e = Inr e1" "flex_entry blocks i e1" "ce_has_data e1"
  proof (cases "ce_buffer_start_row ?e < f \<and> ce_is_encoded ?e")
    case True
    then have "ce_is_encoded ?e" "ce_buffer_start_row ?e \<le> f" "f \<le> first_row_of blocks i + length (blocks ! i)"
      using f l by linarith+
    from fast_forward_law[OF e i(2) this] that show thesis by blast
  qed (use e i(2) that in \<open>auto simp: fast_forward_def\<close>)
  show ?thesis
  proof (cases "ce_buffer_start_row e1 = f")
    case True
    obtain e2 where e2: "sequential_read_flex (first_row_of blocks i) f l p out e1 = Inr (?out, e2)" "flex_entry blocks i e2"
      using sequential_read_flex_law[OF e1(2,3) True f(1) less_imp_le[OF f(2)] l p] by blast
    have inv2: "flex_inv unlz4 fs blocks (set_entry i e2 rd) bm" by (rule flex_inv_set_entry[OF inv i e2(2)])
    then show ?thesis using e1(1) e2(1) True st flex_inv_release[OF inv2 i(1)]
      by (auto simp: read_cached_flex_def)
  next
    case False
    obtain e2 where e2: "ensure_cache_decoded (ch_stale ch) (first_row_of blocks i) e1 = Inr e2" "flex_entry blocks i e2"
      "ce_buffer e2 = Some (blocks ! i)" using ensure_cache_decoded_law[OF e1(2,3)] by blast
    have "f - first_row_of blocks i + (l - f) \<le> length (blocks ! i)" using f l by linarith
    from copy_rows_splice[OF this p] show ?thesis using e1(1) e2(1,3) False st flex_inv_set_entry[OF inv i e2(2)]
      by (simp add: read_cached_flex_def)
  qed
qed

lemma visit_block_flex_law:
  assumes inv: "flex_inv unlz4 fs blocks rd bm" and ch: "choices_ok ch" and i: "i < length blocks"
    and f: "f = max a (first_row_of blocks i)" and l: "l = min b (first_row_of blocks (Suc i))" and fl: "f < l"
    and p: "p + (l - f) \<le> length out"
  shows "\<exists>rd' bm'. visit_block_flex unlz4 fs (ch i) a b i p out rd bm = Inr (p + (l - f),
      splice_at p (take (l - f) (drop (f - first_row_of blocks i) (blocks ! i))) out, rd', bm') \<and> flex_inv unlz4 fs blocks rd' bm'"
proof -
  have st: "sr_start_row rd ! i = first_row_of blocks i" "sr_start_row rd ! Suc i = first_row_of blocks (Suc i)"
    using inv i by (simp_all add: flex_inv_def column_of_def)
  obtain rd1 bm1 where 1: "(if \<not> ce_has_data (sr_cache rd ! i) then fetch_cache_from_file_flex unlz4 fs (ch i) i rd bm
      else Inr (rd, bm)) = Inr (rd1, bm1)" "flex_inv unlz4 fs blocks rd1 bm1" "ce_has_data (sr_cache rd1 ! i)"
    using fetch_flex_inv[OF inv ch i] inv by (cases "ce_has_data (sr_cache rd ! i)") auto
  have "first_row_of blocks i \<le> f" "l \<le> first_row_of blocks (Suc i)" using f l by simp_all
  from read_cached_flex_law[OF 1(2) i 1(3) this(1) fl this(2) p, of "ch i"] obtain rd2 where
    "read_cached_flex (ch i) f l i p out rd1 = Inr (p + (l - f),
      splice_at p (take (l - f) (drop (f - first_row_of blocks i) (blocks ! i))) out, rd2)" "flex_inv unlz4 fs blocks rd2 bm1" by blast
  then show ?thesis using 1(1) by (simp add: visit_block_flex_def st f[symmetric] l[symmetric] Let_def)
qed

interpretation flex_rows: block_visitor blocks "\<lambda>rd bm. flex_inv unlz4 fs blocks rd bm \<and> choices_ok ch"
    "\<lambda>fetch_start fetch_end i. visit_block_flex unlz4 fs (ch i) fetch_start fetch_end i"
  for blocks unlz4 fs ch
proof unfold_locales
  fix rd bm assume "flex_inv unlz4 fs blocks rd bm \<and> choices_ok ch"
  then show "sr_start_row rd = row_starts blocks \<and> sr_num_rows rd = length (concat blocks) \<and>
      length (sr_block_list rd) = length blocks \<and> list_all (\<lambda>b. b \<noteq> []) blocks"
    by (simp add: flex_inv_def column_of_def)
qed (use visit_block_flex_law in blast)

lemma flex_inv_opened: "column_opened typed_entry unlz4 fs blocks rd bm \<Longrightarrow> flex_inv unlz4 fs blocks rd bm"
  by (auto simp: column_opened_def flex_inv_def cache_wf_def flex_entry_def cache_entry_new_def)

interpretation flex_column: column_reader typed_entry unlz4 "read_rows_flex unlz4" "flex_inv unlz4" for unlz4
proof unfold_locales
  fix fs blocks rd bm and ch :: "nat \<Rightarrow> flexible_type choices" and a b out
  assume "flex_inv unlz4 fs blocks rd bm" "choices_ok ch"
  then have "flex_inv unlz4 fs blocks rd bm \<and> choices_ok ch" ..
  from flex_rows.read_rows_law[OF this, of FlexUndefined a b out]
  show "\<exists>rd' bm'. read_rows_flex unlz4 fs ch False a b out rd bm = Inr (length (take (b - a) (drop a (concat blocks))),
      take (b - a) (drop a (concat blocks)), rd', bm') \<and> flex_inv unlz4 fs blocks rd' bm'"
    unfolding read_rows_flex_def by blast
qed (auto simp: flex_inv_def dest: flex_inv_opened)

end
