(* ===== verification/Value_Reader.thy ===== *)
theory Value_Reader
  imports Column_Open
begin

text \<open>
  Reading columns of other types than \<open>flexible_type\<close>: blocks are serialized vectors, kept decoded in the
  cache. A sequential read moves the values out of the buffer, so that only the rows from
  \<open>buffer_start_row\<close> on are still there; a read of earlier rows fetches the block again.
\<close>

text \<open>The code never sets \<open>has_data\<close> in an entry; one with a buffer still has the rows from
  \<open>buffer_start_row\<close> on.\<close>

definition value_entry :: "'v list list \<Rightarrow> nat \<Rightarrow> 'v cache_entry \<Rightarrow> bool" where
  "value_entry blocks i e \<longleftrightarrow> \<not> ce_has_data e \<and> (case ce_buffer e of None \<Rightarrow> True | Some buffer \<Rightarrow>
     first_row_of blocks i \<le> ce_buffer_start_row e \<and> length buffer = length (blocks ! i) \<and>
     drop (ce_buffer_start_row e - first_row_of blocks i) buffer =
       drop (ce_buffer_start_row e - first_row_of blocks i) (blocks ! i))"

lemma value_entry_releasable: "releasable (value_entry blocks)"
  by (simp add: releasable_def value_entry_def)

definition value_inv ::
  "(iarchive \<Rightarrow> ('v \<times> iarchive) option) \<Rightarrow> (byte list \<Rightarrow> nat \<Rightarrow> byte list) \<Rightarrow> files \<Rightarrow> 'v list list \<Rightarrow> 'v sarray_reader \<Rightarrow> block_manager \<Rightarrow> bool"
where
  "value_inv load unlz4 fs blocks rd bm \<longleftrightarrow> column_of blocks rd \<and> cache_inv (value_entry blocks) (length blocks) rd \<and>
     (\<forall>i<length blocks. stored_block (vector_entry load (blocks ! i)) unlz4 fs bm (sr_block_list rd ! i))"

lemma value_inv_opened: "column_opened (vector_entry load) unlz4 fs blocks rd bm \<Longrightarrow> value_inv load unlz4 fs blocks rd bm"
  by (auto simp: column_opened_def value_inv_def cache_wf_def value_entry_def cache_entry_new_def)

lemma fetch_value_inv:
  assumes inv: "value_inv load unlz4 fs blocks rd bm" and ch: "choices_ok ch" and i: "i < length blocks"
  shows "\<exists>rd' bm'. fetch_cache_from_file load unlz4 fs (ch i) i rd bm = Inr (rd', bm') \<and> value_inv load unlz4 fs blocks rd' bm' \<and>
    ce_buffer (sr_cache rd' ! i) = Some (blocks ! i) \<and> ce_buffer_start_row (sr_cache rd' ! i) = first_row_of blocks i"
proof -
  have "stored_block (vector_entry load (blocks ! i)) unlz4 fs bm (sr_block_list rd ! i)" using inv i by (simp add: value_inv_def)
  then obtain info req raw bm' where r: "read_block unlz4 fs (sr_block_list rd ! i) bm = (Inr (info, Some raw), bm')"
    and e: "vector_entry load (blocks ! i) (req, raw)"
    and keep: "\<forall>E' addr'. stored_block E' unlz4 fs bm addr' \<longrightarrow> stored_block E' unlz4 fs bm' addr'"
    by (rule read_stored_block)
  let ?e = "(sr_cache rd ! i)\<lparr>ce_buffer := Some (blocks ! i), ce_buffer_start_row := sr_start_row rd ! i\<rparr>"
  let ?rd = "rd\<lparr>sr_cache := (sr_cache rd)[i := ?e]\<rparr>"
  have col: "column_of blocks rd" and cache: "cache_inv (value_entry blocks) (length blocks) rd"
    using inv by (simp_all add: value_inv_def)
  have st: "sr_start_row rd ! i = first_row_of blocks i" using col i by (simp add: column_of_def)
  have "value_entry blocks i ?e" using cache i st by (simp add: value_entry_def cache_wf_def)
  then have w: "cache_wf (value_entry blocks) (\<lambda>j. j = i) (length blocks) ?rd"
    using cache_wf_set_entry[OF cache i] by (auto simp: set_entry_def)
  have "\<forall>k m. ch_random (ch i) k m \<le> m" using ch by (simp add: choices_ok_def)
  from note_cached_inv[OF w value_entry_releasable i this] obtain rd' where
    n: "note_cached (ch i) i ?rd = Inr rd'" "cache_inv (value_entry blocks) (length blocks) rd'" "same_column ?rd rd'"
      "sr_cache rd' ! i = sr_cache ?rd ! i" by blast
  have l: "length (sr_cache rd) = length blocks" using cache by (simp add: cache_wf_def)
  have stored: "\<forall>j<length blocks. stored_block (vector_entry load (blocks ! j)) unlz4 fs bm' (sr_block_list rd ! j)"
    using inv keep unfolding value_inv_def by blast
  have same: "same_column rd rd'" using n(3) by (simp add: same_column_def)
  have "fetch_cache_from_file load unlz4 fs (ch i) i rd bm = Inr (rd', bm')"
    using r n(1) e by (auto simp: fetch_cache_from_file_def read_vector_block_def vector_entry_def Let_def)
  moreover have "value_inv load unlz4 fs blocks rd' bm'"
    using stored n(2) col column_of_same[OF same] same by (simp add: value_inv_def same_column_def)
  ultimately show ?thesis using n(4) i l st by simp
qed

lemma value_inv_set_entry:
  assumes inv: "value_inv load unlz4 fs blocks rd bm" and i: "i < length blocks" "value_entry blocks i e"
  shows "value_inv load unlz4 fs blocks (set_entry i e rd) bm"
proof -
  have c: "cache_inv (value_entry blocks) (length blocks) rd" using inv by (simp add: value_inv_def)
  have "\<not> ce_has_data e" using i(2) by (simp add: value_entry_def)
  then show ?thesis using cache_wf_set_entry[OF c i] inv
    by (simp add: value_inv_def column_of_def set_entry_def)
qed

lemma value_inv_release:
  assumes inv: "value_inv load unlz4 fs blocks rd bm" and i: "i < length blocks"
  shows "release_cache i rd = Inr rd"
  using assms by (simp add: value_inv_def cache_wf_def value_entry_def release_cache_def)

lemma drop_move_rows: "k + n \<le> length buffer \<Longrightarrow> length (move_rows m k n buffer) = length buffer \<and>
  drop (k + n) (move_rows m k n buffer) = drop (k + n) buffer"
  by (simp add: move_rows_def)

lemma slice_of_drop: "drop k xs = drop k ys \<Longrightarrow> k \<le> j \<Longrightarrow> take n (drop j xs) = take n (drop j ys)"
  by (metis drop_drop le_add_diff_inverse2)

lemma visit_block_law:
  assumes inv: "value_inv load unlz4 fs blocks rd bm" and ch: "choices_ok ch" and i: "i < length blocks"
    and f: "f = max a (first_row_of blocks i)" and l: "l = min b (first_row_of blocks (Suc i))" and fl: "f < l"
    and p: "p + (l - f) \<le> length out"
  shows "\<exists>rd' bm'. visit_block load unlz4 fs (ch i) a b i p out rd bm = Inr (p + (l - f),
      splice_at p (take (l - f) (drop (f - first_row_of blocks i) (blocks ! i))) out, rd', bm') \<and> value_inv load unlz4 fs blocks rd' bm'"
proof -
  let ?s = "first_row_of blocks i" and ?c = "\<lambda>rd. sr_cache rd ! i"
  have st: "sr_start_row rd ! i = ?s" "sr_start_row rd ! Suc i = first_row_of blocks (Suc i)"
    if "value_inv load unlz4 fs blocks rd bm" for rd bm
    using that i by (simp_all add: value_inv_def column_of_def)
  obtain rd1 bm1 buffer where 1: "(if ce_buffer (?c rd) = None \<or> f < ce_buffer_start_row (?c rd)
      then fetch_cache_from_file load unlz4 fs (ch i) i rd bm else Inr (rd, bm)) = Inr (rd1, bm1)"
    "value_inv load unlz4 fs blocks rd1 bm1" "ce_buffer (?c rd1) = Some buffer" "ce_buffer_start_row (?c rd1) \<le> f"
    using fetch_value_inv[OF inv ch i] inv f by (cases "ce_buffer (?c rd) = None \<or> f < ce_buffer_start_row (?c rd)") auto
  have e: "value_entry blocks i (?c rd1)" using 1(2) i by (simp add: value_inv_def cache_wf_def)
  then have b: "length buffer = length (blocks ! i)" "?s \<le> ce_buffer_start_row (?c rd1)" "\<not> ce_has_data (?c rd1)"
    "drop (ce_buffer_start_row (?c rd1) - ?s) buffer = drop (ce_buffer_start_row (?c rd1) - ?s) (blocks ! i)"
    using 1(3) by (simp_all add: value_entry_def)
  have bnd: "?s \<le> f" "l \<le> ?s + length (blocks ! i)" using f l first_row_of_Suc[OF i] by auto
  have k: "f - ?s + (l - f) \<le> length buffer" "f - ?s + (l - f) = l - ?s" using bnd b fl by auto
  let ?out = "splice_at p (take (l - f) (drop (f - ?s) (blocks ! i))) out"
  have cp: "copy_rows buffer (f - ?s) (l - f) p out = Inr ?out"
    using copy_rows_splice[OF k(1) p] slice_of_drop[OF b(4), of "f - ?s" "l - f"] 1(4) by (simp add: diff_le_mono)
  let ?e = "(?c rd1)\<lparr>ce_buffer := Some (move_rows (ch_moved (ch i)) (f - ?s) (l - f) buffer), ce_buffer_start_row := l\<rparr>"
  show ?thesis
  proof (cases "ce_buffer_start_row (?c rd1) = f")
    case True
    have "drop (l - ?s) buffer = drop (l - ?s) (blocks ! i)"
      using b(4) True fl bnd(1) by (metis diff_le_mono drop_drop le_add_diff_inverse2 less_imp_le)
    then have "value_entry blocks i ?e"
      using drop_move_rows[OF k(1), of "ch_moved (ch i)"] b bnd fl k(2) by (simp add: value_entry_def)
    from value_inv_set_entry[OF 1(2) i this] have inv2: "value_inv load unlz4 fs blocks (set_entry i ?e rd1) bm1" .
    have rel: "(if l = first_row_of blocks (Suc i) then release_cache i (set_entry i ?e rd1) else Inr (set_entry i ?e rd1)) =
        Inr (set_entry i ?e rd1)" unfolding value_inv_release[OF inv2 i] by (rule if_cancel)
    show ?thesis using 1(1,3) cp True inv2
      by (simp add: visit_block_def st[OF inv] st[OF 1(2)] f[symmetric] l[symmetric] Let_def rel del: if_cancel split del: if_split)
  next
    case False
    then show ?thesis using 1(1,2,3) cp
      by (simp add: visit_block_def st[OF inv] st[OF 1(2)] f[symmetric] l[symmetric] Let_def)
  qed
qed

interpretation value_rows: block_visitor blocks "\<lambda>rd bm. value_inv load unlz4 fs blocks rd bm \<and> choices_ok ch"
    "\<lambda>fetch_start fetch_end i. visit_block load unlz4 fs (ch i) fetch_start fetch_end i"
  for blocks load unlz4 fs ch
proof unfold_locales
  fix rd bm assume "value_inv load unlz4 fs blocks rd bm \<and> choices_ok ch"
  then show "sr_start_row rd = row_starts blocks \<and> sr_num_rows rd = length (concat blocks) \<and>
      length (sr_block_list rd) = length blocks \<and> list_all (\<lambda>b. b \<noteq> []) blocks"
    by (simp add: value_inv_def column_of_def)
qed (use visit_block_law in blast)

interpretation value_column: column_reader "vector_entry load" unlz4 "read_rows_values load init unlz4" "value_inv load unlz4"
  for load init unlz4
proof unfold_locales
  fix fs and blocks :: "'a list list" and rd bm and ch :: "nat \<Rightarrow> 'a choices" and a b out
  assume "value_inv load unlz4 fs blocks rd bm" "choices_ok ch"
  then have "value_inv load unlz4 fs blocks rd bm \<and> choices_ok ch" ..
  from value_rows.read_rows_law[OF this, of init a b out]
  show "\<exists>rd' bm'. read_rows_values load init unlz4 fs ch False a b out rd bm = Inr (length (take (b - a) (drop a (concat blocks))),
      take (b - a) (drop a (concat blocks)), rd', bm') \<and> value_inv load unlz4 fs blocks rd' bm'"
    unfolding read_rows_values_def by blast
qed (auto simp: value_inv_def dest: value_inv_opened)

section \<open>Nothing is ever evicted\<close>

text \<open>Entries without \<open>has_data\<close> are not released, so that none is.\<close>

definition idle :: "'v sarray_reader \<Rightarrow> bool" where
  "idle rd \<longleftrightarrow> (\<forall>e\<in>set (sr_cache rd). \<not> ce_has_data e)"

lemma idle_value_inv: "value_inv load unlz4 fs blocks rd bm \<Longrightarrow> idle rd"
  by (auto simp: idle_def value_inv_def cache_wf_def value_entry_def in_set_conv_nth)

lemma release_cache_idle: "idle rd \<Longrightarrow> release_cache b rd = Inr rd' \<Longrightarrow> rd' = rd"
  by (auto simp: idle_def release_cache_def split: if_splits)

lemma evict_loop_idle: "idle rd \<Longrightarrow> evict_loop ch i k num rd = Inr rd' \<Longrightarrow> rd' = rd"
proof (induction num arbitrary: k)
  case (Suc num)
  show ?case
  proof (cases "sr_cache_size rd > SFRAME_MAX_BLOCKS_IN_CACHE")
    case True
    let ?t = "try_evict_something_from_cache (ch_random ch k (length (sr_cache rd) - 1)) (\<lambda>b. ch_locked ch b \<or> b = i) rd"
    obtain rd1 where t: "?t = Inr rd1" "evict_loop ch i (Suc k) num rd1 = Inr rd'" using Suc.prems(2) True by (cases ?t) auto
    have "rd1 = rd" using t(1) release_cache_idle[OF Suc.prems(1)]
      by (auto simp: try_evict_something_from_cache_def result_bind_def split: sum.splits if_splits)
    then show ?thesis using Suc.IH[OF Suc.prems(1)] t(2) by blast
  qed (use Suc.prems in simp)
qed simp

lemma note_cached_idle:
  assumes "idle rd" "note_cached ch i rd = Inr rd'" shows "sr_cache rd' = sr_cache rd"
proof -
  obtain u p where u: "defined_or (db_get (sr_used_cache_entries rd) i) = Inr u"
    "defined_or (db_set_bit (sr_used_cache_entries rd) i) = Inr p"
    using assms(2) by (auto simp: note_cached_def result_bind_def split: sum.splits)
  let ?size = "if u then sr_cache_size rd else sr_cache_size rd + 1"
  let ?rd = "rd\<lparr>sr_cache_size := ?size, sr_used_cache_entries := snd p\<rparr>"
  have "evict_loop ch i 0 (?size - SFRAME_MAX_BLOCKS_IN_CACHE) ?rd = Inr rd'"
    using assms(2) u by (simp add: note_cached_def Let_def case_prod_unfold)
  moreover have "idle ?rd" using assms(1) by (simp add: idle_def)
  ultimately show ?thesis using evict_loop_idle by fastforce
qed

text \<open>What a visit does to the cache.\<close>

definition caches :: "nat set \<Rightarrow> 'v sarray_reader \<Rightarrow> bool" where
  "caches B rd \<longleftrightarrow> (\<forall>j\<in>B. ce_buffer (sr_cache rd ! j) \<noteq> None)"

lemma fetch_caches:
  assumes inv: "value_inv load unlz4 fs blocks rd bm" and i: "i < length blocks" and B: "caches B rd"
    and f: "fetch_cache_from_file load unlz4 fs ch i rd bm = Inr (rd', bm')"
  shows "caches (insert i B) rd'"
proof -
  obtain e where e: "note_cached ch i (rd\<lparr>sr_cache := (sr_cache rd)[i := e]\<rparr>) = Inr rd'" "ce_buffer e \<noteq> None" "\<not> ce_has_data e"
  proof -
    have nd: "\<not> ce_has_data (sr_cache rd ! i)" using inv i by (simp add: value_inv_def cache_wf_def value_entry_def)
    show thesis using f that nd
      by (auto simp: fetch_cache_from_file_def result_bind_def Let_def split: prod.splits sum.splits bool.splits)
  qed
  have l: "length (sr_cache rd) = length blocks" using inv by (simp add: value_inv_def cache_wf_def)
  have "idle (rd\<lparr>sr_cache := (sr_cache rd)[i := e]\<rparr>)"
    using idle_value_inv[OF inv] e(3) by (auto simp: idle_def dest: set_update_subset_insert[THEN subsetD])
  from note_cached_idle[OF this e(1)] show ?thesis using B e(2) i l by (auto simp: caches_def nth_list_update)
qed

lemma visit_block_caches:
  assumes inv: "value_inv load unlz4 fs blocks rd bm" and ch: "choices_ok ch" and i: "i < length blocks" and B: "caches B rd"
    and v: "visit_block load unlz4 fs (ch i) a b i p out rd bm = Inr (p', out', rd', bm')"
  shows "caches (insert i B) rd'"
proof -
  let ?f = "max a (sr_start_row rd ! i)"
  obtain rd1 bm1 where 1: "(if ce_buffer (sr_cache rd ! i) = None \<or> ?f < ce_buffer_start_row (sr_cache rd ! i)
      then fetch_cache_from_file load unlz4 fs (ch i) i rd bm else Inr (rd, bm)) = Inr (rd1, bm1)"
    "value_inv load unlz4 fs blocks rd1 bm1"
    using fetch_value_inv[OF inv ch i] inv by (cases "ce_buffer (sr_cache rd ! i) = None \<or> ?f < ce_buffer_start_row (sr_cache rd ! i)") auto
  have c1: "caches (insert i B) rd1"
    using 1(1) fetch_caches[OF inv i B] B by (auto simp: caches_def split: if_splits)
  have l: "length (sr_cache rd1) = length blocks" using 1(2) by (simp add: value_inv_def cache_wf_def)
  have set: "caches (insert i B) (set_entry i e rd1) \<and> idle (set_entry i e rd1)" if "ce_buffer e \<noteq> None" "ce_has_data e = ce_has_data (sr_cache rd1 ! i)" for e
    using c1 that i l idle_value_inv[OF 1(2)] 
    by (auto simp: caches_def set_entry_def nth_list_update idle_def dest: set_update_subset_insert[THEN subsetD])
  have rel: "caches (insert i B) rd'" if "release_cache i (set_entry i ((sr_cache rd1 ! i)\<lparr>ce_buffer := Some x, ce_buffer_start_row := y\<rparr>) rd1) = Inr rd'" for x y
    using release_cache_idle[OF _ that] set[of "(sr_cache rd1 ! i)\<lparr>ce_buffer := Some x, ce_buffer_start_row := y\<rparr>"] by auto
  show ?thesis using v c1 set rel unfolding visit_block_def Let_def 1(1)
    by (auto simp: result_bind_def split: sum.splits if_splits)
qed

lemma fetch_blocks_cache:
  assumes ch: "choices_ok ch"
  shows "value_inv load unlz4 fs blocks rd bm \<Longrightarrow> caches B rd \<Longrightarrow> 
    fetch_blocks (\<lambda>i. visit_block load unlz4 fs (ch i) a b i) is p out rd bm = Inr (out', rd', bm') \<Longrightarrow>
    \<forall>i\<in>set is. i < length blocks \<and> max a (first_row_of blocks i) < min b (first_row_of blocks (Suc i)) \<Longrightarrow>
    p + sum_list (map (\<lambda>i. min b (first_row_of blocks (Suc i)) - max a (first_row_of blocks i)) is) \<le> length out \<Longrightarrow>
    caches (B \<union> set is) rd'"
proof (induction "is" arbitrary: p out rd bm B)
  case (Cons i "is")
  let ?f = "max a (first_row_of blocks i)" and ?l = "min b (first_row_of blocks (Suc i))"
  have i: "i < length blocks" "?f < ?l" "p + (?l - ?f) \<le> length out" using Cons.prems by simp_all
  obtain rd1 bm1 where v: "visit_block load unlz4 fs (ch i) a b i p out rd bm = Inr (p + (?l - ?f),
      splice_at p (take (?l - ?f) (drop (?f - first_row_of blocks i) (blocks ! i))) out, rd1, bm1)" "value_inv load unlz4 fs blocks rd1 bm1"
    using visit_block_law[OF Cons.prems(1) ch i(1) refl refl i(2,3)] by blast
  have len: "length (splice_at p (take (?l - ?f) (drop (?f - first_row_of blocks i) (blocks ! i))) out) = length out"
    using i(3) by (intro length_splice) (simp add: min_def)
  have f: "fetch_blocks (\<lambda>i. visit_block load unlz4 fs (ch i) a b i) is (p + (?l - ?f))
      (splice_at p (take (?l - ?f) (drop (?f - first_row_of blocks i) (blocks ! i))) out) rd1 bm1 = Inr (out', rd', bm')"
    using Cons.prems(3) unfolding fetch_blocks.simps v(1) by simp
  have q: "\<forall>i\<in>set is. i < length blocks \<and> max a (first_row_of blocks i) < min b (first_row_of blocks (Suc i))"
    using Cons.prems(4) by (meson list.set_intros(2))
  have p: "p + (?l - ?f) + sum_list (map (\<lambda>i. min b (first_row_of blocks (Suc i)) - max a (first_row_of blocks i)) is)
      \<le> length (splice_at p (take (?l - ?f) (drop (?f - first_row_of blocks i) (blocks ! i))) out)"
    using Cons.prems(5) unfolding len by (simp only: list.map sum_list.Cons add.assoc)
  have "caches (insert i B \<union> set is) rd'"
    by (rule Cons.IH[OF v(2) visit_block_caches[OF Cons.prems(1) ch i(1) Cons.prems(2) v(1)] f q p])
  then show ?case by simp
qed (simp add: caches_def)

lemma sum_blocks: "k \<le> length blocks \<Longrightarrow>
  sum_list (map (\<lambda>i. first_row_of blocks (Suc i) - first_row_of blocks i) [0..<k]) = first_row_of blocks k"
  by (induction k) (auto simp: first_row_of_mono)

lemma whole_column_offsets:
  assumes c: "column_of blocks rd" and ne: "concat blocks \<noteq> []"
  shows "block_offset_containing_row rd 0 = 0" "block_offset_containing_row rd (length (concat blocks) - 1) = length blocks - 1"
proof -
  let ?N = "length (concat blocks)" and ?i = "block_offset_containing_row rd 0"
  let ?j = "block_offset_containing_row rd (length (concat blocks) - 1)"
  have rows: "sr_start_row rd = row_starts blocks" "length (sr_block_list rd) = length blocks" "list_all (\<lambda>b. b \<noteq> []) blocks"
    using c by (simp_all add: column_of_def)
  have N: "0 < ?N" "?N - 1 < ?N" using ne by simp_all
  have grow: "first_row_of blocks k < first_row_of blocks (Suc k)" if "k < length blocks" for k
    using first_row_of_Suc[OF that] rows(3) that by (simp add: list_all_length)
  note i = block_offset[OF rows N(1)] and j = block_offset[OF rows N(2)]
  show "?i = 0"
  proof (rule ccontr)
    assume "?i \<noteq> 0"
    then have "first_row_of blocks (Suc 0) \<le> first_row_of blocks ?i" by (intro first_row_of_mono) simp
    moreover have "0 < length blocks" using ne by auto
    ultimately show False using i(2) grow[of 0] by simp
  qed
  show "?j = length blocks - 1"
  proof (rule ccontr)
    assume "?j \<noteq> length blocks - 1"
    then have "Suc ?j < length blocks" using j(1) by simp
    then have "first_row_of blocks (Suc ?j) < first_row_of blocks (Suc (Suc ?j))" "first_row_of blocks (Suc (Suc ?j)) \<le> ?N"
      using grow first_row_of_mono[of "Suc (Suc ?j)" "length blocks" blocks] by simp_all
    then show False using j(3) by linarith
  qed
qed

section \<open>Properties\<close>

text \<open>After reading the column once, every block is cached.\<close>

lemma whole_column_cached:
  assumes o: "column_opened (vector_entry load) unlz4 fs blocks rd bm" and ch: "choices_ok ch"
  shows "\<exists>rd' bm'. read_rows_values load init unlz4 fs ch False 0 (length (concat blocks)) out rd bm =
      Inr (length (concat blocks), concat blocks, rd', bm') \<and>
    length (sr_cache rd') = length blocks \<and> list_all (\<lambda>e. ce_buffer e \<noteq> None \<and> \<not> ce_has_data e) (sr_cache rd')"
proof -
  let ?N = "length (concat blocks)"
  let ?visit = "\<lambda>a b i. visit_block load unlz4 fs (ch i) a b i"
  have inv: "value_inv load unlz4 fs blocks rd bm" by (rule value_inv_opened[OF o])
  from value_column.read_law[OF inv ch, where init = init and out = out, of 0 ?N] obtain rd' bm' where
    r: "read_rows_values load init unlz4 fs ch False 0 ?N out rd bm = Inr (?N, concat blocks, rd', bm')" and inv': "value_inv load unlz4 fs blocks rd' bm'"
    by auto
  have col: "column_of blocks rd" "sr_num_rows rd = ?N" "list_all (\<lambda>b. b \<noteq> []) blocks" using inv by (simp_all add: value_inv_def column_of_def)
  have "caches {..<length blocks} rd'"
  proof (cases "concat blocks = []")
    case True
    then have "blocks = []" using col(3) by (cases blocks) auto
    then show ?thesis by (simp add: caches_def)
  next
    case False
    let ?out = "resize_rows init out ?N"
    have n: "length blocks - 1 + 1 = length blocks" using False by (cases blocks) auto
    have "\<exists>out'. fetch_blocks (?visit 0 ?N) [0..<length blocks] 0 ?out rd bm = Inr (out', rd', bm')"
    proof -
      have nz: "\<not> ?N \<le> 0" using False by (metis le_zero_eq length_0_conv)
      have "\<exists>out'. fetch_rows_from_cache ?visit 0 ?N ?out rd bm = Inr (out', rd', bm')"
        using r unfolding read_rows_values_def read_rows_def col(2) min.idem Let_def if_not_P[OF nz]
        by (auto simp: result_bind_def split: sum.splits)
      then show ?thesis unfolding fetch_rows_from_cache_def Let_def whole_column_offsets[OF col(1) False] n .
    qed
    then obtain out' where f: "fetch_blocks (?visit 0 ?N) [0..<length blocks] 0 ?out rd bm = Inr (out', rd', bm')" by blast
    have b: "max 0 (first_row_of blocks i) = first_row_of blocks i" "min ?N (first_row_of blocks (Suc i)) = first_row_of blocks (Suc i)"
      if "i < length blocks" for i using that first_row_of_mono[of "Suc i" "length blocks" blocks] by simp_all
    have "caches ({} \<union> set [0..<length blocks]) rd'"
    proof (rule fetch_blocks_cache[OF ch inv _ f])
      show "\<forall>i\<in>set [0..<length blocks]. i < length blocks \<and> max 0 (first_row_of blocks i) < min ?N (first_row_of blocks (Suc i))"
        using b col(3) by (auto simp: list_all_length first_row_of_Suc)
      have m: "map (\<lambda>i. min ?N (first_row_of blocks (Suc i)) - max 0 (first_row_of blocks i)) [0..<length blocks] =
          map (\<lambda>i. first_row_of blocks (Suc i) - first_row_of blocks i) [0..<length blocks]"
        by (rule map_cong) (simp_all add: b)
      show "0 + sum_list (map (\<lambda>i. min ?N (first_row_of blocks (Suc i)) - max 0 (first_row_of blocks i)) [0..<length blocks])
          \<le> length ?out" unfolding m using sum_blocks[of "length blocks" blocks] by (simp add: resize_rows_def)
    qed (simp add: caches_def)
    then show ?thesis by (simp add: atLeast0LessThan)
  qed
  moreover have "length (sr_cache rd') = length blocks" using inv' by (simp add: value_inv_def cache_wf_def)
  moreover have "\<forall>e\<in>set (sr_cache rd'). \<not> ce_has_data e" using idle_value_inv[OF inv'] by (simp add: idle_def)
  ultimately show ?thesis using r by (auto simp: caches_def list_all_length)
qed

end
