(* ===== verification/Group_Writer.thy ===== *)
theory Group_Writer
  imports Block_Manager "HOL-Library.Sublist"
begin

text \<open>
  The writer of array groups (\<open>sarray_group_format_writer_v2\<close> of \<open>sframe/sarray_file_format_v2.hpp\<close>): it
  collects the values of every column and segment in buffers, writes a buffer as a block when it is long
  enough, and estimates from the blocks written how long the next one should be.

  The tunable constants have their initial values. \<open>put\<close> is the call that writes a block,
  \<open>write_typed_block\<close> for columns of flexible types and the template \<open>write_block\<close> for others; the
  contents of the buffer it gets from the buffer pool are an arbitrary function \<open>stale\<close> of the writer.
\<close>

section \<open>Definitions\<close>

definition SFRAME_DEFAULT_BLOCK_SIZE :: nat where "SFRAME_DEFAULT_BLOCK_SIZE = 64 * 1024"
definition SARRAY_WRITER_MIN_ELEMENTS_PER_BLOCK :: nat where "SARRAY_WRITER_MIN_ELEMENTS_PER_BLOCK = 8"
definition SARRAY_WRITER_INITAL_ELEMENTS_PER_BLOCK :: nat where "SARRAY_WRITER_INITAL_ELEMENTS_PER_BLOCK = 16"
definition SFRAME_WRITER_MAX_BUFFERED_CELLS :: nat where "SFRAME_WRITER_MAX_BUFFERED_CELLS = 32 * 1024 * 1024"
definition SFRAME_WRITER_MAX_BUFFERED_CELLS_PER_BLOCK :: nat where
  "SFRAME_WRITER_MAX_BUFFERED_CELLS_PER_BLOCK = 256 * 1024"

record 'v column_buffer =
  cb_segment_data :: "'v list list"
  cb_elements_before_flush :: nat
  cb_total_bytes_written :: nat
  cb_total_elements_written :: nat

record 'v group_writer =
  gw_array_open :: bool
  gw_nsegments :: nat
  gw_writer :: block_writer
  gw_column_buffers :: "'v column_buffer list"

type_synonym ('v, 'r) writes = "(error + 'r) \<times> 'v group_writer \<times> files"

definition then_write :: "('v, 'r) writes \<Rightarrow> ('v group_writer \<Rightarrow> files \<Rightarrow> ('v, 's) writes) \<Rightarrow> ('v, 's) writes" where
  "then_write w k = (case w of (Inl e, gw, fs) \<Rightarrow> (Inl e, gw, fs) | (Inr _, gw, fs) \<Rightarrow> k gw fs)"

lemma then_write_simps [simp]:
  "then_write (Inl e, gw, fs) k = (Inl e, gw, fs)" "then_write (Inr x, gw, fs) k = k gw fs"
  by (simp_all add: then_write_def)

text \<open>The name of a segment file: the index file without its last five characters, and the number of the
  segment with at least four digits. A shorter name is used whole, since \<open>substr\<close> then gets a huge length.\<close>

definition segment_filename :: "cstring \<Rightarrow> nat \<Rightarrow> cstring" where
  "segment_filename index_file segmentid =
     (if length index_file < 5 then index_file else take (length index_file - 5) index_file) @ [46] @
     replicate (4 - length (to_string segmentid)) 48 @ to_string segmentid"

definition gw_open_segment :: "(cstring \<Rightarrow> nat \<Rightarrow> bool) \<Rightarrow> nat \<Rightarrow> 'v group_writer \<Rightarrow> files \<Rightarrow> ('v, unit) writes" where
  "gw_open_segment good segmentid gw fs =
     (if \<not> gw_array_open gw then (Inl Assertion_Failed, gw, fs)
      else let filename = segment_filename (gi_group_index_file (bw_index_info (gw_writer gw))) segmentid;
               (r, bw, fs) = open_segment good segmentid filename (gw_writer gw) fs
           in (r, gw\<lparr>gw_writer := bw\<rparr>, fs))"

fun gw_open_segments :: "(cstring \<Rightarrow> nat \<Rightarrow> bool) \<Rightarrow> nat list \<Rightarrow> 'v group_writer \<Rightarrow> files \<Rightarrow> ('v, unit) writes" where
  "gw_open_segments good [] gw fs = (Inr (), gw, fs)"
| "gw_open_segments good (i # is) gw fs = then_write (gw_open_segment good i gw fs) (gw_open_segments good is)"

text \<open>\<open>open\<close> of a newly constructed writer; every client constructs a writer and opens it once.\<close>

definition gw_open ::
  "(cstring \<Rightarrow> nat \<Rightarrow> bool) \<Rightarrow> cstring \<Rightarrow> nat \<Rightarrow> nat \<Rightarrow> files \<Rightarrow> ('v, unit) writes"
where
  "gw_open good index_file segments_to_create columns_to_create fs =
     (let segments_to_create = (if columns_to_create = 0 then 0 else segments_to_create);
          gw = \<lparr>gw_array_open = True, gw_nsegments = segments_to_create,
                gw_writer = writer_init index_file segments_to_create columns_to_create,
                gw_column_buffers = replicate columns_to_create
                  \<lparr>cb_segment_data = replicate segments_to_create [],
                   cb_elements_before_flush = SARRAY_WRITER_INITAL_ELEMENTS_PER_BLOCK,
                   cb_total_bytes_written = 0, cb_total_elements_written = 0\<rparr>\<rparr>
      in gw_open_segments good [0..<segments_to_create] gw fs)"

text \<open>
  The estimate in single precision, truncated by the conversion to \<open>size_t\<close>.
\<close>

definition elements_estimate :: "nat \<Rightarrow> nat \<Rightarrow> nat" where
  "elements_estimate bytes elements =
     (let (m, k) = float_div (round24 (bytes + 1)) (round24 (elements + 1));
          (m', k') = float_div (SFRAME_DEFAULT_BLOCK_SIZE * 2 ^ k) m
      in m' div 2 ^ k')"

definition next_elements_before_flush :: "nat \<Rightarrow> nat \<Rightarrow> nat \<Rightarrow> nat" where
  "next_elements_before_flush bytes elements cells =
     min (min (max (elements_estimate bytes elements) SARRAY_WRITER_MIN_ELEMENTS_PER_BLOCK)
              (SFRAME_WRITER_MAX_BUFFERED_CELLS div cells))
         SFRAME_WRITER_MAX_BUFFERED_CELLS_PER_BLOCK"

definition flush_block ::
  "('v group_writer \<Rightarrow> nat \<Rightarrow> nat \<Rightarrow> 'v list \<Rightarrow> block_writer \<Rightarrow> files \<Rightarrow> (error + nat) \<times> block_writer \<times> files) \<Rightarrow>
     nat \<Rightarrow> nat \<Rightarrow> 'v group_writer \<Rightarrow> files \<Rightarrow> ('v, unit) writes"
where
  "flush_block put columnid segmentid gw fs =
     (let colbuf = gw_column_buffers gw ! columnid;
          data = cb_segment_data colbuf ! segmentid
      in if data = [] then (Inr (), gw, fs)
         else case put gw segmentid columnid data (gw_writer gw) fs of
           (Inl e, bw, fs) \<Rightarrow> (Inl e, gw\<lparr>gw_writer := bw\<rparr>, fs)
         | (Inr ret, bw, fs) \<Rightarrow>
             let bytes = cb_total_bytes_written colbuf + ret;
                 elements = cb_total_elements_written colbuf + length data;
                 colbuf = colbuf\<lparr>cb_segment_data := (cb_segment_data colbuf)[segmentid := []],
                   cb_total_bytes_written := bytes, cb_total_elements_written := elements,
                   cb_elements_before_flush := next_elements_before_flush bytes elements
                     (gw_nsegments gw * length (gw_column_buffers gw))\<rparr>
             in (Inr (), gw\<lparr>gw_writer := bw, gw_column_buffers := (gw_column_buffers gw)[columnid := colbuf]\<rparr>, fs))"

definition write_segment ::
  "('v group_writer \<Rightarrow> nat \<Rightarrow> nat \<Rightarrow> 'v list \<Rightarrow> block_writer \<Rightarrow> files \<Rightarrow> (error + nat) \<times> block_writer \<times> files) \<Rightarrow>
     nat \<Rightarrow> nat \<Rightarrow> 'v \<Rightarrow> 'v group_writer \<Rightarrow> files \<Rightarrow> ('v, unit) writes"
where
  "write_segment put columnid segmentid t gw fs =
     (if \<not> segmentid < gw_nsegments gw \<or> \<not> columnid < length (gw_column_buffers gw) \<or> \<not> gw_array_open gw
      then (Inl Assertion_Failed, gw, fs)
      else let colbuf = gw_column_buffers gw ! columnid;
               data = cb_segment_data colbuf ! segmentid @ [t];
               colbuf = colbuf\<lparr>cb_segment_data := (cb_segment_data colbuf)[segmentid := data]\<rparr>;
               gw = gw\<lparr>gw_column_buffers := (gw_column_buffers gw)[columnid := colbuf]\<rparr>
           in if length data \<ge> cb_elements_before_flush colbuf then flush_block put columnid segmentid gw fs
              else (Inr (), gw, fs))"

text \<open>A whole row, from column \<open>i\<close> on.\<close>

fun write_row_from ::
  "('v group_writer \<Rightarrow> nat \<Rightarrow> nat \<Rightarrow> 'v list \<Rightarrow> block_writer \<Rightarrow> files \<Rightarrow> (error + nat) \<times> block_writer \<times> files) \<Rightarrow>
     nat \<Rightarrow> nat \<Rightarrow> 'v list \<Rightarrow> 'v group_writer \<Rightarrow> files \<Rightarrow> ('v, unit) writes"
where
  "write_row_from put i segmentid [] gw fs = (Inr (), gw, fs)"
| "write_row_from put i segmentid (t # v) gw fs =
     then_write (write_segment put i segmentid t gw fs) (write_row_from put (Suc i) segmentid v)"

definition write_row ::
  "('v group_writer \<Rightarrow> nat \<Rightarrow> nat \<Rightarrow> 'v list \<Rightarrow> block_writer \<Rightarrow> files \<Rightarrow> (error + nat) \<times> block_writer \<times> files) \<Rightarrow>
     nat \<Rightarrow> 'v list \<Rightarrow> 'v group_writer \<Rightarrow> files \<Rightarrow> ('v, unit) writes"
where
  "write_row put segmentid v gw fs =
     (if \<not> segmentid < gw_nsegments gw \<or> \<not> length v \<le> length (gw_column_buffers gw) \<or> \<not> gw_array_open gw
      then (Inl Assertion_Failed, gw, fs) else write_row_from put 0 segmentid v gw fs)"

fun flush_columns ::
  "('v group_writer \<Rightarrow> nat \<Rightarrow> nat \<Rightarrow> 'v list \<Rightarrow> block_writer \<Rightarrow> files \<Rightarrow> (error + nat) \<times> block_writer \<times> files) \<Rightarrow>
     nat list \<Rightarrow> nat \<Rightarrow> 'v group_writer \<Rightarrow> files \<Rightarrow> ('v, unit) writes"
where
  "flush_columns put [] i gw fs = (Inr (), gw, fs)"
| "flush_columns put (j # js) i gw fs = then_write (flush_block put j i gw fs) (flush_columns put js i)"

definition gw_close_segment :: "(cstring \<Rightarrow> nat \<Rightarrow> bool) \<Rightarrow> nat \<Rightarrow> 'v group_writer \<Rightarrow> files \<Rightarrow> ('v, unit) writes" where
  "gw_close_segment good i gw fs =
     (let (r, bw, fs) = close_segment good i (gw_writer gw) fs in (r, gw\<lparr>gw_writer := bw\<rparr>, fs))"

fun close_segments ::
  "('v group_writer \<Rightarrow> nat \<Rightarrow> nat \<Rightarrow> 'v list \<Rightarrow> block_writer \<Rightarrow> files \<Rightarrow> (error + nat) \<times> block_writer \<times> files) \<Rightarrow>
     (cstring \<Rightarrow> nat \<Rightarrow> bool) \<Rightarrow> nat list \<Rightarrow> 'v group_writer \<Rightarrow> files \<Rightarrow> ('v, unit) writes"
where
  "close_segments put good [] gw fs = (Inr (), gw, fs)"
| "close_segments put good (i # is) gw fs =
     then_write (then_write (flush_columns put [0..<length (gw_column_buffers gw)] i gw fs) (gw_close_segment good i))
       (close_segments put good is)"

definition gw_close ::
  "('v group_writer \<Rightarrow> nat \<Rightarrow> nat \<Rightarrow> 'v list \<Rightarrow> block_writer \<Rightarrow> files \<Rightarrow> (error + nat) \<times> block_writer \<times> files) \<Rightarrow>
     (cstring \<Rightarrow> nat \<Rightarrow> bool) \<Rightarrow> 'v group_writer \<Rightarrow> files \<Rightarrow> ('v, unit) writes"
where
  "gw_close put good gw fs =
     (if \<not> gw_array_open gw then (Inl Assertion_Failed, gw, fs)
      else close_segments put good [0..<gw_nsegments gw] (gw\<lparr>gw_array_open := False\<rparr>) fs)"

definition put_typed_block ::
  "(byte list \<Rightarrow> byte list) \<Rightarrow> (cstring \<Rightarrow> nat \<Rightarrow> bool) \<Rightarrow> (flexible_type group_writer \<Rightarrow> byte list) \<Rightarrow>
     flexible_type group_writer \<Rightarrow> nat \<Rightarrow> nat \<Rightarrow> flexible_type list \<Rightarrow> block_writer \<Rightarrow> files \<Rightarrow> (error + nat) \<times> block_writer \<times> files"
where
  "put_typed_block lz4 good stale gw segmentid columnid data bw fs =
     write_typed_block lz4 good (stale gw) segmentid columnid data block_info_new bw fs"

definition put_vector_block ::
  "(oarchive \<Rightarrow> 'v \<Rightarrow> oarchive) \<Rightarrow> (byte list \<Rightarrow> byte list) \<Rightarrow> (cstring \<Rightarrow> nat \<Rightarrow> bool) \<Rightarrow> ('v group_writer \<Rightarrow> byte list) \<Rightarrow>
     'v group_writer \<Rightarrow> nat \<Rightarrow> nat \<Rightarrow> 'v list \<Rightarrow> block_writer \<Rightarrow> files \<Rightarrow> (error + nat) \<times> block_writer \<times> files"
where
  "put_vector_block save lz4 good stale gw segmentid columnid data bw fs =
     write_vector_block save lz4 good (stale gw) segmentid columnid data block_info_new bw fs"

section \<open>Segments do not interfere\<close>

text \<open>An operation on the segment \<open>seg\<close>, which is written to the file \<open>f\<close>, leaves the others alone.\<close>

definition bw_frame :: "nat \<Rightarrow> cstring \<Rightarrow> block_writer \<Rightarrow> files \<Rightarrow> block_writer \<Rightarrow> files \<Rightarrow> bool" where
  "bw_frame seg f bw fs bw' fs' \<longleftrightarrow> (\<forall>g. g \<noteq> f \<longrightarrow> fs' g = fs g) \<and>
     gi_nsegments (bw_index_info bw') = gi_nsegments (bw_index_info bw) \<and>
     gi_group_index_file (bw_index_info bw') = gi_group_index_file (bw_index_info bw) \<and>
     length (gi_columns (bw_index_info bw')) = length (gi_columns (bw_index_info bw)) \<and>
     length (bw_output_files bw') = length (bw_output_files bw) \<and>
     length (bw_output_bytes_written bw') = length (bw_output_bytes_written bw) \<and>
     length (bw_blocks bw') = length (bw_blocks bw) \<and>
     (\<forall>s. s \<noteq> seg \<longrightarrow> bw_output_files bw' ! s = bw_output_files bw ! s \<and>
        bw_output_bytes_written bw' ! s = bw_output_bytes_written bw ! s \<and> bw_blocks bw' ! s = bw_blocks bw ! s \<and>
        (\<forall>c<length (gi_columns (bw_index_info bw)).
           length (ifi_segment_sizes (gi_columns (bw_index_info bw') ! c)) = length (ifi_segment_sizes (gi_columns (bw_index_info bw) ! c)) \<and>
           ifi_segment_sizes (gi_columns (bw_index_info bw') ! c) ! s = ifi_segment_sizes (gi_columns (bw_index_info bw) ! c) ! s))"

definition same_files :: "block_writer \<Rightarrow> block_writer \<Rightarrow> bool" where
  "same_files bw bw' \<longleftrightarrow> (\<forall>c<length (gi_columns (bw_index_info bw)).
     ifi_segment_files (gi_columns (bw_index_info bw') ! c) = ifi_segment_files (gi_columns (bw_index_info bw) ! c) \<and>
     ifi_version (gi_columns (bw_index_info bw') ! c) = ifi_version (gi_columns (bw_index_info bw) ! c) \<and>
     ifi_nsegments (gi_columns (bw_index_info bw') ! c) = ifi_nsegments (gi_columns (bw_index_info bw) ! c))"

lemma bw_frame_refl: "bw_frame seg f bw fs bw fs" "same_files bw bw"
  by (simp_all add: bw_frame_def same_files_def)

lemma write_block_frame:
  assumes "write_block lz4 good seg col data block bw fs = (r, bw', fs')" "bw_output_files bw ! seg = Some f"
  shows "bw_frame seg f bw fs bw' fs' \<and> same_files bw bw'"
proof (cases "seg < gi_nsegments (bw_index_info bw) \<and> col < length (gi_columns (bw_index_info bw))")
  case True
  obtain blk out where "compress_block lz4 data block = (blk, out)" by (metis prod.exhaust)
  note w = assms True this
  have fs': "fs' g = fs g" if "g \<noteq> f" for g
    using w that by (auto simp: write_block_def append_file_def Let_def)
  have bytes: "\<exists>x. bw_output_bytes_written bw' = (bw_output_bytes_written bw)[seg := x]"
    and blocks: "\<exists>x. bw_blocks bw' = (bw_blocks bw)[seg := x]"
    and files: "bw_output_files bw' = bw_output_files bw"
    and info: "gi_nsegments (bw_index_info bw') = gi_nsegments (bw_index_info bw)"
      "gi_group_index_file (bw_index_info bw') = gi_group_index_file (bw_index_info bw)"
    and cols: "\<exists>x. gi_columns (bw_index_info bw') = (gi_columns (bw_index_info bw))[col :=
        (gi_columns (bw_index_info bw) ! col)\<lparr>ifi_segment_sizes := (ifi_segment_sizes (gi_columns (bw_index_info bw) ! col))[seg := x]\<rparr>]"
    using w by (auto simp: write_block_def Let_def)
  have c: "length (ifi_segment_sizes (gi_columns (bw_index_info bw') ! c)) = length (ifi_segment_sizes (gi_columns (bw_index_info bw) ! c)) \<and>
      ifi_segment_sizes (gi_columns (bw_index_info bw') ! c) ! s = ifi_segment_sizes (gi_columns (bw_index_info bw) ! c) ! s \<and>
      ifi_segment_files (gi_columns (bw_index_info bw') ! c) = ifi_segment_files (gi_columns (bw_index_info bw) ! c) \<and>
      ifi_version (gi_columns (bw_index_info bw') ! c) = ifi_version (gi_columns (bw_index_info bw) ! c) \<and>
      ifi_nsegments (gi_columns (bw_index_info bw') ! c) = ifi_nsegments (gi_columns (bw_index_info bw) ! c)"
    if "s \<noteq> seg" "c < length (gi_columns (bw_index_info bw))" for c s
    using cols that by (cases "c = col") auto
  have "ifi_segment_files (gi_columns (bw_index_info bw') ! c) = ifi_segment_files (gi_columns (bw_index_info bw) ! c) \<and>
      ifi_version (gi_columns (bw_index_info bw') ! c) = ifi_version (gi_columns (bw_index_info bw) ! c) \<and>
      ifi_nsegments (gi_columns (bw_index_info bw') ! c) = ifi_nsegments (gi_columns (bw_index_info bw) ! c)"
    if "c < length (gi_columns (bw_index_info bw))" for c
    using c[of "Suc seg" c] that by simp
  moreover have "length (gi_columns (bw_index_info bw')) = length (gi_columns (bw_index_info bw))" using cols by auto
  ultimately show ?thesis using fs' bytes blocks files info c by (auto simp: bw_frame_def same_files_def)
next
  case False
  then show ?thesis using assms bw_frame_refl by (auto simp: write_block_def Let_def)
qed

lemma close_segment_frame:
  assumes "close_segment good seg bw fs = (r, bw', fs')" "bw_output_files bw ! seg = Some f"
  shows "bw_frame seg f bw fs bw' fs' \<and> same_files bw bw' \<and>
    (\<forall>c. ifi_segment_sizes (gi_columns (bw_index_info bw') ! c) = ifi_segment_sizes (gi_columns (bw_index_info bw) ! c))"
proof -
  have "fs' g = fs g" if "g \<noteq> f" for g
    using assms that by (auto simp: close_segment_def emit_footer_def append_file_def Let_def split: if_splits)
  moreover have "bw' = bw \<or> bw' = bw\<lparr>bw_output_files := (bw_output_files bw)[seg := None]\<rparr>"
    using assms(1) by (auto simp: close_segment_def split: sum.splits prod.splits)
  ultimately show ?thesis by (auto simp: bw_frame_def same_files_def)
qed

lemma writing_frame:
  assumes fr: "bw_frame seg f bw fs bw' fs'" and w: "writing unlz4 ncols s g spec bw fs" and d: "s \<noteq> seg" "g \<noteq> f"
  shows "writing unlz4 ncols s g spec bw' fs'"
proof -
  obtain content where c: "bw_wf bw" "s < gi_nsegments (bw_index_info bw)" "length (gi_columns (bw_index_info bw)) = ncols"
    "bw_output_files bw ! s = Some g" "fs g = Some content" "segment_inv unlz4 s bw content spec"
    using w by (auto simp: writing_def)
  have "segment_inv unlz4 s bw' content spec" using fr c(3,6) d(1) by (simp add: segment_inv_def bw_frame_def)
  moreover have "bw_wf bw'" using fr c(1) by (simp add: bw_wf_def bw_frame_def)
  ultimately show ?thesis using fr c d by (simp add: writing_def bw_frame_def)
qed

lemma fresh_frame:
  assumes "bw_frame seg f bw fs bw' fs'" "segment_fresh s bw" "s \<noteq> seg"
  shows "segment_fresh s bw'"
  using assms by (simp add: segment_fresh_def bw_frame_def bw_wf_def)

lemma open_segment_frame:
  assumes "open_segment good seg f bw fs = (r, bw', fs')"
  shows "bw_frame seg f bw fs bw' fs'"
proof (cases "seg < gi_nsegments (bw_index_info bw) \<and> bw_output_files bw ! seg = None \<and> good f 0")
  case True
  then have "bw_output_bytes_written bw' = bw_output_bytes_written bw" "bw_blocks bw' = bw_blocks bw"
    "bw_output_files bw' = (bw_output_files bw)[seg := Some f]" "fs' = fs(f \<mapsto> [])"
    "gi_nsegments (bw_index_info bw') = gi_nsegments (bw_index_info bw)"
    "gi_group_index_file (bw_index_info bw') = gi_group_index_file (bw_index_info bw)"
    "gi_columns (bw_index_info bw') = map (\<lambda>(col, c). c\<lparr>ifi_segment_files :=
        (ifi_segment_files c)[seg := column_name f col]\<rparr>) (List.enumerate 0 (gi_columns (bw_index_info bw)))"
    using assms by (auto simp: open_segment_def Let_def)
  then show ?thesis by (simp add: bw_frame_def nth_enumerate_eq)
next
  case False
  then show ?thesis using assms bw_frame_refl by (auto simp: open_segment_def split: if_splits)
qed

section \<open>What the writer has accepted\<close>

text \<open>The entries are non-empty blocks of the values \<open>vs\<close>; \<open>E data entry\<close> says that an entry stores \<open>data\<close>.\<close>

definition holds :: "('v list \<Rightarrow> block_info \<times> byte list \<Rightarrow> bool) \<Rightarrow> (block_info \<times> byte list) list \<Rightarrow> 'v list \<Rightarrow> bool" where
  "holds E entries vs \<longleftrightarrow> (\<exists>blocks. list_all2 E blocks entries \<and> list_all (\<lambda>b. b \<noteq> []) blocks \<and> concat blocks = vs)"

lemma holds_Nil: "holds E [] []"
  by (simp add: holds_def)

lemma holds_append: "holds E es vs \<Longrightarrow> E data e \<Longrightarrow> data \<noteq> [] \<Longrightarrow> holds E (es @ [e]) (vs @ data)"
proof -
  assume h: "holds E es vs" "E data e" "data \<noteq> []"
  then obtain blocks where "list_all2 E blocks es" "list_all (\<lambda>b. b \<noteq> []) blocks" "concat blocks = vs" by (auto simp: holds_def)
  then have "list_all2 E (blocks @ [data]) (es @ [e])" "list_all (\<lambda>b. b \<noteq> []) (blocks @ [data])" "concat (blocks @ [data]) = vs @ data"
    using h by (simp_all add: list_all2_appendI)
  then show ?thesis unfolding holds_def by blast
qed

abbreviation pending :: "'v group_writer \<Rightarrow> nat \<Rightarrow> nat \<Rightarrow> 'v list" where
  "pending gw c s \<equiv> cb_segment_data (gw_column_buffers gw ! c) ! s"

text \<open>A segment being written, and a segment that is closed, with the values \<open>vals c\<close> for each column.\<close>

definition segment_writes ::
  "(byte list \<Rightarrow> nat \<Rightarrow> byte list) \<Rightarrow> ('v list \<Rightarrow> block_info \<times> byte list \<Rightarrow> bool) \<Rightarrow> nat \<Rightarrow> nat \<Rightarrow> cstring \<Rightarrow> (nat \<Rightarrow> 'v list) \<Rightarrow>
     'v group_writer \<Rightarrow> files \<Rightarrow> bool"
where
  "segment_writes unlz4 E ncols s f vals gw fs \<longleftrightarrow> (\<exists>spec. writing unlz4 ncols s f spec (gw_writer gw) fs \<and>
     (\<forall>c<ncols. \<exists>vs. holds E (spec c) vs \<and> vs @ pending gw c s = vals c))"

definition segment_closed ::
  "(byte list \<Rightarrow> nat \<Rightarrow> byte list) \<Rightarrow> ('v list \<Rightarrow> block_info \<times> byte list \<Rightarrow> bool) \<Rightarrow> nat \<Rightarrow> nat \<Rightarrow> cstring \<Rightarrow> (nat \<Rightarrow> 'v list) \<Rightarrow>
     block_writer \<Rightarrow> files \<Rightarrow> bool"
where
  "segment_closed unlz4 E ncols s f vals bw fs \<longleftrightarrow>
     (\<exists>spec content. fs f = Some content \<and> segment_file unlz4 ncols spec content \<and> (\<forall>c<ncols. holds E (spec c) (vals c))) \<and>
     (\<forall>c<ncols. ifi_segment_sizes (gi_columns (bw_index_info bw) ! c) ! s = of_nat (length (vals c)))"

definition gw_wf :: "nat \<Rightarrow> nat \<Rightarrow> (nat \<Rightarrow> cstring) \<Rightarrow> 'v group_writer \<Rightarrow> bool" where
  "gw_wf ncols nsegs files gw \<longleftrightarrow> gw_nsegments gw = nsegs \<and> length (gw_column_buffers gw) = ncols \<and>
     length (gi_columns (bw_index_info (gw_writer gw))) = ncols \<and>
     (\<forall>c<ncols. length (cb_segment_data (gw_column_buffers gw ! c)) = nsegs \<and>
        length (ifi_segment_sizes (gi_columns (bw_index_info (gw_writer gw)) ! c)) = nsegs \<and>
        ifi_version (gi_columns (bw_index_info (gw_writer gw)) ! c) = 2 \<and>
        ifi_nsegments (gi_columns (bw_index_info (gw_writer gw)) ! c) = nsegs \<and>
        ifi_segment_files (gi_columns (bw_index_info (gw_writer gw)) ! c) = map (\<lambda>s. column_name (files s) c) [0..<nsegs])"

text \<open>The first \<open>k\<close> segments are closed.\<close>

definition gw_state ::
  "(byte list \<Rightarrow> nat \<Rightarrow> byte list) \<Rightarrow> ('v list \<Rightarrow> block_info \<times> byte list \<Rightarrow> bool) \<Rightarrow> nat \<Rightarrow> nat \<Rightarrow> (nat \<Rightarrow> cstring) \<Rightarrow>
     (nat \<Rightarrow> nat \<Rightarrow> 'v list) \<Rightarrow> nat \<Rightarrow> 'v group_writer \<Rightarrow> files \<Rightarrow> bool"
where
  "gw_state unlz4 E ncols nsegs files vals k gw fs \<longleftrightarrow> gw_wf ncols nsegs files gw \<and>
     (\<forall>s<nsegs. if s < k then segment_closed unlz4 E ncols s (files s) (vals s) (gw_writer gw) fs
                else segment_writes unlz4 E ncols s (files s) (vals s) gw fs)"

lemma segment_closed_frame:
  assumes "bw_frame seg f bw fs bw' fs'" "segment_closed unlz4 E ncols s g vals bw fs" "s \<noteq> seg" "g \<noteq> f"
    "length (gi_columns (bw_index_info bw)) = ncols"
  shows "segment_closed unlz4 E ncols s g vals bw' fs'"
  using assms by (auto simp: segment_closed_def bw_frame_def)

lemma gw_wf_frame:
  assumes "gw_wf ncols nsegs files gw" "bw_frame seg f (gw_writer gw) fs (gw_writer gw') fs'" "same_files (gw_writer gw) (gw_writer gw')"
    "gw_nsegments gw' = gw_nsegments gw" "length (gw_column_buffers gw') = length (gw_column_buffers gw)"
    "\<forall>c<ncols. length (cb_segment_data (gw_column_buffers gw' ! c)) = length (cb_segment_data (gw_column_buffers gw ! c))"
  shows "gw_wf ncols nsegs files gw'"
proof -
  have "length (ifi_segment_sizes (gi_columns (bw_index_info (gw_writer gw')) ! c)) =
      length (ifi_segment_sizes (gi_columns (bw_index_info (gw_writer gw)) ! c))" if "c < ncols" for c
    using assms(1,2) that n_not_Suc_n[of seg] unfolding gw_wf_def bw_frame_def by metis
  then show ?thesis using assms by (simp add: gw_wf_def bw_frame_def same_files_def)
qed

text \<open>A value is accepted by pushing it to its buffer.\<close>

definition push :: "nat \<Rightarrow> nat \<Rightarrow> 'v \<Rightarrow> (nat \<Rightarrow> nat \<Rightarrow> 'v list) \<Rightarrow> nat \<Rightarrow> nat \<Rightarrow> 'v list" where
  "push s c t vals = vals(s := (vals s)(c := vals s c @ [t]))"

fun pushed :: "(nat \<Rightarrow> nat \<Rightarrow> 'v list) \<Rightarrow> (nat \<times> nat \<times> 'v) list \<Rightarrow> nat \<Rightarrow> nat \<Rightarrow> 'v list" where
  "pushed vals [] = vals"
| "pushed vals ((s, c, t) # reqs) = pushed (push s c t vals) reqs"

lemma pushed_prefix: "prefix (vals s c) (pushed vals reqs s c)"
proof (induction vals reqs rule: pushed.induct)
  case (2 vals s' c' t reqs)
  have "prefix (vals s c) (push s' c' t vals s c)" by (simp add: push_def)
  then show ?case using 2 by (simp add: prefix_order.trans)
qed simp

text \<open>Requests to write the value \<open>t\<close> to column \<open>c\<close> of segment \<open>s\<close>.\<close>

fun write_values ::
  "('v group_writer \<Rightarrow> nat \<Rightarrow> nat \<Rightarrow> 'v list \<Rightarrow> block_writer \<Rightarrow> files \<Rightarrow> (error + nat) \<times> block_writer \<times> files) \<Rightarrow>
     (nat \<times> nat \<times> 'v) list \<Rightarrow> 'v group_writer \<Rightarrow> files \<Rightarrow> ('v, unit) writes"
where
  "write_values put [] gw fs = (Inr (), gw, fs)"
| "write_values put ((s, c, t) # reqs) gw fs = then_write (write_segment put c s t gw fs) (write_values put reqs)"

lemma push_pending:
  assumes st: "gw_state unlz4 E ncols nsegs files vals 0 gw fs" and s: "s < nsegs" and c: "c < ncols"
    and gw': "gw' = gw\<lparr>gw_column_buffers := (gw_column_buffers gw)[c := (gw_column_buffers gw ! c)\<lparr>cb_segment_data :=
      (cb_segment_data (gw_column_buffers gw ! c))[s := pending gw c s @ [t]]\<rparr>]\<rparr>"
  shows "gw_state unlz4 E ncols nsegs files (push s c t vals) 0 gw' fs" "pending gw' c s = pending gw c s @ [t]"
    "\<And>c' s'. (c', s') \<noteq> (c, s) \<Longrightarrow> pending gw' c' s' = pending gw c' s'"
proof -
  have wf: "gw_wf ncols nsegs files gw" using st by (simp add: gw_state_def)
  have l: "c < length (gw_column_buffers gw)" "s < length (cb_segment_data (gw_column_buffers gw ! c))"
    using wf s c by (simp_all add: gw_wf_def)
  show p: "pending gw' c s = pending gw c s @ [t]" using l by (simp add: gw')
  show o: "pending gw' c' s' = pending gw c' s'" if "(c', s') \<noteq> (c, s)" for c' s'
    using l that by (cases "c' = c") (auto simp: gw')
  have buf: "length (cb_segment_data (gw_column_buffers gw' ! c')) = length (cb_segment_data (gw_column_buffers gw ! c'))" for c'
    using l by (cases "c' = c") (simp_all add: gw')
  have "gw_wf ncols nsegs files gw'" using wf buf by (simp add: gw_wf_def gw')
  moreover have "segment_writes unlz4 E ncols s' (files s') (push s c t vals s') gw' fs" if "s' < nsegs" for s'
  proof -
    have "segment_writes unlz4 E ncols s' (files s') (vals s') gw fs" using st that by (simp add: gw_state_def)
    then obtain spec where "writing unlz4 ncols s' (files s') spec (gw_writer gw) fs"
      and vs: "\<forall>c<ncols. \<exists>vs. holds E (spec c) vs \<and> vs @ pending gw c s' = vals s' c"
      by (auto simp: segment_writes_def)
    moreover have "\<exists>vs. holds E (spec c') vs \<and> vs @ pending gw' c' s' = push s c t vals s' c'" if c': "c' < ncols" for c'
    proof -
      obtain vs where "holds E (spec c') vs" "vs @ pending gw c' s' = vals s' c'" using vs c' by blast
      then show ?thesis using p o[of c' s'] by (cases "(c', s') = (c, s)") (auto simp: push_def)
    qed
    ultimately show ?thesis by (auto simp: segment_writes_def gw')
  qed
  ultimately show "gw_state unlz4 E ncols nsegs files (push s c t vals) 0 gw' fs" by (simp add: gw_state_def)
qed

lemma pending_suffix:
  assumes "gw_state unlz4 E ncols nsegs files vals k gw fs" "s < nsegs" "k \<le> s" "c < ncols"
  shows "suffix (pending gw c s) (vals s c)"
proof -
  have "segment_writes unlz4 E ncols s (files s) (vals s) gw fs" using assms by (auto simp: gw_state_def)
  then obtain vs where "vs @ pending gw c s = vals s c" using assms(4) by (auto simp: segment_writes_def)
  then show ?thesis by (metis suffix_def)
qed

text \<open>The contract of the call that writes a block.\<close>

locale block_putter = block_entries E
  for E :: "'v list \<Rightarrow> block_info \<times> byte list \<Rightarrow> bool" +
  fixes put :: "'v group_writer \<Rightarrow> nat \<Rightarrow> nat \<Rightarrow> 'v list \<Rightarrow> block_writer \<Rightarrow> files \<Rightarrow> (error + nat) \<times> block_writer \<times> files"
    and good :: "cstring \<Rightarrow> nat \<Rightarrow> bool" and unlz4 :: "byte list \<Rightarrow> nat \<Rightarrow> byte list"
    and ok :: "'v list \<Rightarrow> bool"
  assumes put_law: "writing unlz4 ncols seg f spec bw fs \<Longrightarrow> col < ncols \<Longrightarrow> ok data \<Longrightarrow>
      \<exists>r bw' fs'. put gw seg col data bw fs = (r, bw', fs') \<and> bw_frame seg f bw fs bw' fs' \<and> same_files bw bw' \<and>
        (r = Inl Io_Failure \<and> \<not> stream_good good f fs' \<or>
         (\<exists>n entry. r = Inr n \<and> E data entry \<and> writing unlz4 ncols seg f (spec(col := spec col @ [entry])) bw' fs'))"
begin

lemma flush_block_law:
  assumes st: "gw_state unlz4 E ncols nsegs files vals k gw fs" and s: "s < nsegs" "k \<le> s" and c: "c < ncols"
    and inj: "inj files" and ok: "pending gw c s \<noteq> [] \<Longrightarrow> ok (pending gw c s)"
  shows "\<exists>r gw' fs'. flush_block put c s gw fs = (r, gw', fs') \<and> gw_array_open gw' = gw_array_open gw \<and>
    (r = Inl Io_Failure \<and> \<not> stream_good good (files s) fs' \<or>
     r = Inr () \<and> gw_state unlz4 E ncols nsegs files vals k gw' fs' \<and> pending gw' c s = [] \<and>
       (\<forall>c' s'. (c', s') \<noteq> (c, s) \<longrightarrow> pending gw' c' s' = pending gw c' s'))"
proof (cases "pending gw c s = []")
  case True
  then show ?thesis using st by (auto simp: flush_block_def Let_def)
next
  case False
  let ?data = "pending gw c s" and ?bw = "gw_writer gw"
  have wf: "gw_wf ncols nsegs files gw" using st by (simp add: gw_state_def)
  have "segment_writes unlz4 E ncols s (files s) (vals s) gw fs" using st s by (auto simp: gw_state_def)
  then obtain spec where w: "writing unlz4 ncols s (files s) spec ?bw fs"
    and vs: "\<forall>c<ncols. \<exists>vs. holds E (spec c) vs \<and> vs @ pending gw c s = vals s c" by (auto simp: segment_writes_def)
  from put_law[OF w c ok[OF False], of gw] obtain r bw' fs' where p: "put gw s c ?data ?bw fs = (r, bw', fs')"
    and fr: "bw_frame s (files s) ?bw fs bw' fs'" "same_files ?bw bw'"
    and res: "r = Inl Io_Failure \<and> \<not> stream_good good (files s) fs' \<or>
         (\<exists>n entry. r = Inr n \<and> E ?data entry \<and> writing unlz4 ncols s (files s) (spec(c := spec c @ [entry])) bw' fs')" by blast
  show ?thesis
  proof (cases r)
    case (Inl e)
    then show ?thesis using p False res by (auto simp: flush_block_def Let_def)
  next
    case (Inr n)
    obtain entry where e: "E ?data entry" "writing unlz4 ncols s (files s) (spec(c := spec c @ [entry])) bw' fs'"
      using res Inr by auto
    obtain gw' where f: "flush_block put c s gw fs = (Inr (), gw', fs')" "gw_writer gw' = bw'" "gw_nsegments gw' = gw_nsegments gw"
      "gw_array_open gw' = gw_array_open gw" "length (gw_column_buffers gw') = length (gw_column_buffers gw)"
      "\<And>c'. c' < ncols \<Longrightarrow> cb_segment_data (gw_column_buffers gw' ! c') =
         (if c' = c then (cb_segment_data (gw_column_buffers gw ! c))[s := []] else cb_segment_data (gw_column_buffers gw ! c'))"
      "\<And>c'. c' \<noteq> c \<Longrightarrow> gw_column_buffers gw' ! c' = gw_column_buffers gw ! c'"
      using p Inr False wf c by (auto simp: flush_block_def Let_def gw_wf_def)
    have lens: "s < length (cb_segment_data (gw_column_buffers gw ! c))" using wf c s by (simp add: gw_wf_def)
    have pend: "pending gw' c s = []" "\<And>c' s'. (c', s') \<noteq> (c, s) \<Longrightarrow> pending gw' c' s' = pending gw c' s'"
      using f(6)[OF c] f(7) lens by (auto simp: nth_list_update) (metis nth_list_update_neq)
    have wf': "gw_wf ncols nsegs files gw'"
      using gw_wf_frame[OF wf, of s "files s" fs gw' fs'] fr f(2,3,5,6) by simp
    have "if s' < k then segment_closed unlz4 E ncols s' (files s') (vals s') bw' fs'
        else segment_writes unlz4 E ncols s' (files s') (vals s') gw' fs'" if s': "s' < nsegs" for s'
    proof (cases "s' = s")
      case True
      have "\<exists>vs. holds E ((spec(c := spec c @ [entry])) c') vs \<and> vs @ pending gw' c' s = vals s c'" if "c' < ncols" for c'
      proof (cases "c' = c")
        case True
        obtain vs where v: "holds E (spec c) vs" "vs @ ?data = vals s c" using vs c by blast
        have "holds E (spec c @ [entry]) (vals s c)" using holds_append[where E = E, OF v(1) e(1) False] v(2) by simp
        then show ?thesis using True pend(1) by auto
      next
        case False
        then show ?thesis using vs that pend(2)[of c' s] by auto
      qed
      then show ?thesis using True s(2) e(2) f(2) by (auto simp: segment_writes_def)
    next
      case False
      have d: "files s' \<noteq> files s" using inj False by (auto dest: injD)
      have old: "if s' < k then segment_closed unlz4 E ncols s' (files s') (vals s') ?bw fs
          else segment_writes unlz4 E ncols s' (files s') (vals s') gw fs" using st s' by (simp add: gw_state_def)
      have "\<And>c'. pending gw' c' s' = pending gw c' s'" using pend(2) False by auto
      then show ?thesis using old writing_frame[OF fr(1) _ False d] segment_closed_frame[where E = E, OF fr(1) _ False d] wf f(2)
        by (auto simp: segment_writes_def gw_wf_def split: if_splits)
    qed
    then have "gw_state unlz4 E ncols nsegs files vals k gw' fs'" using wf' f(2) by (simp add: gw_state_def)
    then show ?thesis using f(1,4) pend by blast
  qed
qed


lemma write_segment_law:
  assumes st: "gw_state unlz4 E ncols nsegs files vals 0 gw fs" and s: "s < nsegs" and c: "c < ncols" and o: "gw_array_open gw"
    and inj: "inj files" and ok: "\<And>data. suffix data (push s c t vals s c) \<Longrightarrow> data \<noteq> [] \<Longrightarrow> ok data"
  shows "\<exists>r gw' fs'. write_segment put c s t gw fs = (r, gw', fs') \<and>
    (r = Inl Io_Failure \<and> \<not> stream_good good (files s) fs' \<or>
     r = Inr () \<and> gw_array_open gw' \<and> gw_state unlz4 E ncols nsegs files (push s c t vals) 0 gw' fs')"
proof -
  define gw1 where "gw1 = gw\<lparr>gw_column_buffers := (gw_column_buffers gw)[c := (gw_column_buffers gw ! c)\<lparr>cb_segment_data :=
      (cb_segment_data (gw_column_buffers gw ! c))[s := pending gw c s @ [t]]\<rparr>]\<rparr>"
  note p = push_pending[OF st s c gw1_def]
  have wf: "gw_nsegments gw = nsegs" "length (gw_column_buffers gw) = ncols" using st by (simp_all add: gw_state_def gw_wf_def)
  have eq: "write_segment put c s t gw fs = (if cb_elements_before_flush (gw_column_buffers gw ! c) \<le> length (pending gw c s @ [t])
      then flush_block put c s gw1 fs else (Inr (), gw1, fs))"
    using s c o wf by (simp add: write_segment_def gw1_def Let_def)
  have o1: "gw_array_open gw1" using o by (simp add: gw1_def)
  have "ok (pending gw1 c s)" using ok[OF pending_suffix[OF p(1) s _ c]] p(2) by simp
  from flush_block_law[OF p(1) s _ c inj this] show ?thesis using eq o1 p(1) by (auto split: if_splits)
qed

lemma flush_columns_law:
  assumes s: "s < nsegs" "k \<le> s" and inj: "inj files"
    and ok: "\<forall>c<ncols. \<forall>data. suffix data (vals s c) \<longrightarrow> data \<noteq> [] \<longrightarrow> ok data"
  shows "gw_state unlz4 E ncols nsegs files vals k gw fs \<Longrightarrow> set cs \<subseteq> {..<ncols} \<Longrightarrow>
    \<exists>r gw' fs'. flush_columns put cs s gw fs = (r, gw', fs') \<and> gw_array_open gw' = gw_array_open gw \<and>
    (r = Inl Io_Failure \<and> \<not> stream_good good (files s) fs' \<or>
     r = Inr () \<and> gw_state unlz4 E ncols nsegs files vals k gw' fs' \<and>
       (\<forall>c. c \<in> set cs \<or> pending gw c s = [] \<longrightarrow> pending gw' c s = []))"
proof (induction cs arbitrary: gw fs)
  case (Cons c cs)
  have c: "c < ncols" using Cons.prems(2) by simp
  have "pending gw c s \<noteq> [] \<Longrightarrow> ok (pending gw c s)" using ok c pending_suffix[OF Cons.prems(1) s c] by blast
  from flush_block_law[OF Cons.prems(1) s c inj this] obtain r gw1 fs1 where
    f: "flush_block put c s gw fs = (r, gw1, fs1)" "gw_array_open gw1 = gw_array_open gw"
    and res: "r = Inl Io_Failure \<and> \<not> stream_good good (files s) fs1 \<or>
     r = Inr () \<and> gw_state unlz4 E ncols nsegs files vals k gw1 fs1 \<and> pending gw1 c s = [] \<and>
       (\<forall>c' s'. (c', s') \<noteq> (c, s) \<longrightarrow> pending gw1 c' s' = pending gw c' s')" by blast
  show ?case
  proof (cases "r = Inr ()")
    case True
    then have st1: "gw_state unlz4 E ncols nsegs files vals k gw1 fs1" and p1: "pending gw1 c s = []"
      "\<forall>c' s'. (c', s') \<noteq> (c, s) \<longrightarrow> pending gw1 c' s' = pending gw c' s'" using res by auto
    have p: "pending gw1 c' s = []" if "c' = c \<or> pending gw c' s = []" for c'
      using p1 that by (cases "c' = c") auto
    have "set cs \<subseteq> {..<ncols}" using Cons.prems(2) by simp
    from Cons.IH[OF st1 this] p f True show ?thesis by fastforce
  qed (use f res in auto)
qed auto

lemma close_one_law:
  assumes st: "gw_state unlz4 E ncols nsegs files vals s gw fs" and s: "s < nsegs" and p: "\<forall>c<ncols. pending gw c s = []"
    and inj: "inj files" and fss: "fs_sound good"
  shows "\<exists>r gw' fs'. gw_close_segment good s gw fs = (r, gw', fs') \<and> gw_array_open gw' = gw_array_open gw \<and>
    (r = Inl Io_Failure \<and> \<not> stream_good good (files s) fs' \<or>
     r = Inr () \<and> gw_state unlz4 E ncols nsegs files vals (Suc s) gw' fs')"
proof -
  let ?bw = "gw_writer gw"
  have wf: "gw_wf ncols nsegs files gw" using st by (simp add: gw_state_def)
  have "segment_writes unlz4 E ncols s (files s) (vals s) gw fs" using st s by (auto simp: gw_state_def)
  then obtain spec where w: "writing unlz4 ncols s (files s) spec ?bw fs"
    and vs: "\<forall>c<ncols. holds E (spec c) (vals s c)" using p by (fastforce simp: segment_writes_def)
  have f: "bw_output_files ?bw ! s = Some (files s)" using w by (simp add: writing_def)
  have sizes: "ifi_segment_sizes (gi_columns (bw_index_info ?bw) ! c) ! s = of_nat (length (vals s c))" if "c < ncols" for c
  proof -
    have "holds E (spec c) (vals s c)" using vs that by blast
    then obtain blocks where b: "list_all2 E blocks (spec c)" "concat blocks = vals s c" by (auto simp: holds_def)
    have "sum_list (map (bi_num_elem \<circ> fst) (spec c)) = of_nat (length (concat blocks))"
      using b(1) by (induction rule: list_all2_induct) (auto simp: entry_count)
    then show ?thesis using w that b(2) by (auto simp: writing_def segment_inv_def)
  qed
  from w fss show ?thesis
  proof (cases rule: close_segment_file)
    case (io bw' fs')
    then show ?thesis by (simp add: gw_close_segment_def)
  next
    case (ok bw' fs' content)
    let ?gw = "gw\<lparr>gw_writer := bw'\<rparr>"
    from close_segment_frame[OF ok(1) f] have fr: "bw_frame s (files s) ?bw fs bw' fs'" "same_files ?bw bw'"
      "\<And>c. ifi_segment_sizes (gi_columns (bw_index_info bw') ! c) = ifi_segment_sizes (gi_columns (bw_index_info ?bw) ! c)" by auto
    have here: "segment_closed unlz4 E ncols s (files s) (vals s) bw' fs'"
      using ok(2,3) vs sizes fr(3) by (auto simp: segment_closed_def)
    have there: "if s' < Suc s then segment_closed unlz4 E ncols s' (files s') (vals s') bw' fs'
        else segment_writes unlz4 E ncols s' (files s') (vals s') ?gw fs'" if "s' < nsegs" "s' \<noteq> s" for s'
    proof -
      have d: "files s' \<noteq> files s" using inj that(2) by (auto dest: injD)
      have "if s' < s then segment_closed unlz4 E ncols s' (files s') (vals s') ?bw fs
          else segment_writes unlz4 E ncols s' (files s') (vals s') gw fs" using st that(1) by (simp add: gw_state_def)
      then show ?thesis using writing_frame[OF fr(1) _ that(2) d] segment_closed_frame[where E = E, OF fr(1) _ that(2) d] wf that(2)
        by (auto simp: segment_writes_def gw_wf_def split: if_splits)
    qed
    have "if s' < Suc s then segment_closed unlz4 E ncols s' (files s') (vals s') bw' fs'
        else segment_writes unlz4 E ncols s' (files s') (vals s') ?gw fs'" if "s' < nsegs" for s'
      using here there[OF that] by (cases "s' = s") simp_all
    moreover have "gw_wf ncols nsegs files ?gw" using gw_wf_frame[OF wf, of s "files s" fs ?gw fs'] fr by simp
    ultimately have "gw_state unlz4 E ncols nsegs files vals (Suc s) ?gw fs'" by (simp add: gw_state_def)
    then show ?thesis using ok(1) by (simp add: gw_close_segment_def)
  qed
qed

lemma close_segments_law:
  assumes inj: "inj files" and fss: "fs_sound good"
    and ok: "\<forall>s<nsegs. \<forall>c<ncols. \<forall>data. suffix data (vals s c) \<longrightarrow> data \<noteq> [] \<longrightarrow> ok data"
  shows "gw_state unlz4 E ncols nsegs files vals k gw fs \<Longrightarrow> k \<le> nsegs \<Longrightarrow>
    \<exists>r gw' fs'. close_segments put good [k..<nsegs] gw fs = (r, gw', fs') \<and>
    (r = Inl Io_Failure \<and> (\<exists>s<nsegs. \<not> stream_good good (files s) fs') \<or>
     r = Inr () \<and> gw_state unlz4 E ncols nsegs files vals nsegs gw' fs')"
proof (induction "nsegs - k" arbitrary: k gw fs)
  case (Suc d)
  then have k: "k < nsegs" by simp
  have cs: "length (gw_column_buffers gw) = ncols" using Suc.prems(1) by (simp add: gw_state_def gw_wf_def)
  have okk: "\<forall>c<ncols. \<forall>data. suffix data (vals k c) \<longrightarrow> data \<noteq> [] \<longrightarrow> ok data" using ok k by blast
  have sub: "set [0..<ncols] \<subseteq> {..<ncols}" by auto
  obtain r gw1 fs1 where f: "flush_columns put [0..<ncols] k gw fs = (r, gw1, fs1)"
    and res: "r = Inl Io_Failure \<and> \<not> stream_good good (files k) fs1 \<or>
      r = Inr () \<and> gw_state unlz4 E ncols nsegs files vals k gw1 fs1 \<and>
       (\<forall>c. c \<in> set [0..<ncols] \<or> pending gw c k = [] \<longrightarrow> pending gw1 c k = [])"
    using flush_columns_law[where cs = "[0..<ncols]" and vals = vals, OF k order.refl inj okk Suc.prems(1) sub] by blast
  have up: "[k..<nsegs] = k # [Suc k..<nsegs]" using k by (rule upt_conv_Cons)
  show ?case
  proof (cases "r = Inr ()")
    case False
    then show ?thesis using f res cs k by (auto simp: up)
  next
    case True
    then have st1: "gw_state unlz4 E ncols nsegs files vals k gw1 fs1" "\<forall>c<ncols. pending gw1 c k = []" using res by auto
    obtain r2 gw2 fs2 where c: "gw_close_segment good k gw1 fs1 = (r2, gw2, fs2)"
      and res2: "r2 = Inl Io_Failure \<and> \<not> stream_good good (files k) fs2 \<or>
        r2 = Inr () \<and> gw_state unlz4 E ncols nsegs files vals (Suc k) gw2 fs2"
      using close_one_law[OF st1(1) k st1(2) inj fss] by blast
    have eq: "close_segments put good [k..<nsegs] gw fs = then_write (r2, gw2, fs2) (close_segments put good [Suc k..<nsegs])"
      using f True c cs by (simp add: up del: upt_Suc)
    show ?thesis
    proof (cases "r2 = Inr ()")
      case True
      then have st2: "gw_state unlz4 E ncols nsegs files vals (Suc k) gw2 fs2" using res2 by auto
      have "d = nsegs - Suc k" "Suc k \<le> nsegs" using Suc.hyps(2) k by simp_all
      from Suc.hyps(1)[OF this(1) st2 this(2)] eq True show ?thesis by (simp del: upt_Suc)
    qed (use res2 eq k in auto)
  qed
qed auto

lemma write_values_law:
  assumes inj: "inj files"
    and req: "\<forall>(s, c, t)\<in>set reqs. s < nsegs \<and> c < ncols"
    and ok: "\<forall>s<nsegs. \<forall>c<ncols. \<forall>data. sublist data (pushed vals reqs s c) \<longrightarrow> data \<noteq> [] \<longrightarrow> ok data"
  shows "gw_state unlz4 E ncols nsegs files vals 0 gw fs \<Longrightarrow> gw_array_open gw \<Longrightarrow>
    \<exists>r gw' fs'. write_values put reqs gw fs = (r, gw', fs') \<and>
    (r = Inl Io_Failure \<and> (\<exists>s<nsegs. \<not> stream_good good (files s) fs') \<or>
     r = Inr () \<and> gw_array_open gw' \<and> gw_state unlz4 E ncols nsegs files (pushed vals reqs) 0 gw' fs')"
  using req ok
proof (induction reqs arbitrary: vals gw fs)
  case (Cons req reqs)
  obtain s c t where r: "req = (s, c, t)" by (metis prod_cases3)
  have sc: "s < nsegs" "c < ncols" using Cons.prems(3) by (auto simp: r)
  have "ok data" if "suffix data (push s c t vals s c)" "data \<noteq> []" for data
  proof -
    have "prefix (push s c t vals s c) (pushed vals (req # reqs) s c)" by (simp add: r pushed_prefix)
    then have "sublist data (pushed vals (req # reqs) s c)"
      using that(1) by (meson prefix_imp_sublist sublist_order.order.trans suffix_imp_sublist)
    then show ?thesis using Cons.prems(4) sc that(2) by blast
  qed
  from write_segment_law[OF Cons.prems(1) sc Cons.prems(2) inj this] obtain r' gw1 fs1 where
    w: "write_segment put c s t gw fs = (r', gw1, fs1)" "r' = Inl Io_Failure \<and> \<not> stream_good good (files s) fs1 \<or>
     r' = Inr () \<and> gw_array_open gw1 \<and> gw_state unlz4 E ncols nsegs files (push s c t vals) 0 gw1 fs1" by blast
  show ?case
  proof (cases "r' = Inr ()")
    case True
    then have st: "gw_state unlz4 E ncols nsegs files (push s c t vals) 0 gw1 fs1" "gw_array_open gw1" using w(2) by auto
    have "\<forall>(s, c, t)\<in>set reqs. s < nsegs \<and> c < ncols"
      "\<forall>s'<nsegs. \<forall>c'<ncols. \<forall>data. sublist data (pushed (push s c t vals) reqs s' c') \<longrightarrow> data \<noteq> [] \<longrightarrow> ok data"
      using Cons.prems(3,4) by (simp_all add: r)
    from Cons.IH[OF st this] show ?thesis using w(1) True by (simp add: r)
  qed (use w sc in \<open>auto simp: r\<close>)
qed auto

end

interpretation typed_puts: block_putter typed_entry "put_typed_block lz4 good stale" good unlz4
    "\<lambda>data. lz4_inverse lz4 unlz4 \<and> fs_sound good \<and> block_ok data \<and> (\<forall>stale. block_fits stale data block_info_new)"
  for lz4 good stale unlz4
proof unfold_locales
  fix ncols seg f spec bw fs col data gw
  assume w: "writing unlz4 ncols seg f spec bw fs" and c: "col < ncols"
    and ok: "lz4_inverse lz4 unlz4 \<and> fs_sound good \<and> block_ok data \<and> (\<forall>stale. block_fits stale data block_info_new)"
  obtain r bw' fs' where r: "put_typed_block lz4 good stale gw seg col data bw fs = (r, bw', fs')" by (metis prod_cases3)
  have f: "bw_output_files bw ! seg = Some f" using w by (simp add: writing_def)
  have fr: "bw_frame seg f bw fs bw' fs' \<and> same_files bw bw'"
    using r write_block_frame[OF _ f] bw_frame_refl
    by (auto simp: put_typed_block_def write_typed_block_def split: option.splits)
  have o: "lz4_inverse lz4 unlz4" "fs_sound good" "block_ok data" "block_fits (stale gw) data block_info_new"
    "bi_flags block_info_new AND MULTIPLE_TYPE_BLOCK = 0" using ok by (simp_all add: block_info_new_def)
  from w c o show "\<exists>r bw' fs'. put_typed_block lz4 good stale gw seg col data bw fs = (r, bw', fs') \<and>
      bw_frame seg f bw fs bw' fs' \<and> same_files bw bw' \<and>
      (r = Inl Io_Failure \<and> \<not> stream_good good f fs' \<or>
       (\<exists>n entry. r = Inr n \<and> typed_entry data entry \<and> writing unlz4 ncols seg f (spec(col := spec col @ [entry])) bw' fs'))"
    by (cases rule: write_typed_block_keeps) (use r fr in \<open>auto simp: put_typed_block_def\<close>)
qed

text \<open>Values of other types, with a serializer that is a codec.\<close>

definition vector_ok ::
  "(oarchive \<Rightarrow> 'v \<Rightarrow> oarchive) \<Rightarrow> (iarchive \<Rightarrow> ('v \<times> iarchive) option) \<Rightarrow> ('v \<Rightarrow> byte list) \<Rightarrow> ('v \<Rightarrow> bool) \<Rightarrow> 'v list \<Rightarrow> bool" where
  "vector_ok save load wire ok data \<longleftrightarrow> codec save load wire ok \<and> list_all ok data \<and>
     length data < 2 ^ 64 \<and> 8 + length (concat (map wire data)) \<le> LZ4_MAX_INPUT_SIZE"

lemma vector_saved:
  assumes "vector_ok save load wire ok data" and "oarc = vector_save save (oarchive_vec stale) data"
    and "block = block_info_new\<lparr>bi_block_size := of_nat (o_off oarc), bi_num_elem := of_nat (length data)\<rparr>"
  shows "unat (bi_block_size block) \<le> length (o_buf oarc)" "unat (bi_block_size block) \<le> LZ4_MAX_INPUT_SIZE"
    "vector_entry load data (block, take (unat (bi_block_size block)) (o_buf oarc))"
proof -
  let ?ws = "bytes_of (of_nat (length data) :: u64) @ concat (map wire data)"
  have c: "codec save load wire ok" and d: "list_all ok data" "length data < 2 ^ 64"
    and sz: "8 + length (concat (map wire data)) \<le> LZ4_MAX_INPUT_SIZE"
    using assms(1) by (simp_all add: vector_ok_def)
  note v = codec.vector_codec[OF c]
  have w: "o_wf oarc" "o_data oarc = ?ws"
    using codec.save_wf[OF v, of "oarchive_vec stale" data] codec.save_data[OF v, of "oarchive_vec stale" data]
    by (simp_all add: assms(2))
  have off: "o_off oarc = length ?ws" using length_o_data[OF w(1)] w(2) by simp
  then have m: "o_off oarc \<le> LZ4_MAX_INPUT_SIZE" using sz by simp
  then have bs: "unat (bi_block_size block) = o_off oarc"
    by (simp add: assms(3) LZ4_MAX_INPUT_SIZE_def unat_of_nat_u64)
  show "unat (bi_block_size block) \<le> length (o_buf oarc)" using w(1) unfolding bs by (simp add: o_wf_def)
  show "unat (bi_block_size block) \<le> LZ4_MAX_INPUT_SIZE" unfolding bs by (rule m)
  have t: "take (unat (bi_block_size block)) (o_buf oarc) = ?ws" using w(2) unfolding bs by (simp add: o_data_def)
  have "vector_load load (iarchive_new ?ws (length ?ws)) = Some (data, i_adv (length ?ws) (iarchive_new ?ws (length ?ws)))"
    by (rule codec.load_wire[OF v, of _ _ "[]"]) (use d iarchive_new_wf in \<open>simp_all del: length_append\<close>)
  then show "vector_entry load data (block, take (unat (bi_block_size block)) (o_buf oarc))"
    using d(2) unfolding t by (auto simp: vector_entry_def assms(3) unat_of_nat_u64)
qed

interpretation vector_puts: block_putter "vector_entry load" "put_vector_block save lz4 good stale" good unlz4
    "\<lambda>data. lz4_inverse lz4 unlz4 \<and> fs_sound good \<and> vector_ok save load wire ok data"
  for load save lz4 good stale unlz4 wire ok
proof unfold_locales
  fix ncols seg f spec bw fs col data gw
  assume w: "writing unlz4 ncols seg f spec bw fs" and c: "col < ncols"
    and ok: "lz4_inverse lz4 unlz4 \<and> fs_sound good \<and> vector_ok save load wire ok data"
  let ?oarc = "vector_save save (oarchive_vec (stale gw)) data"
  let ?block = "block_info_new\<lparr>bi_block_size := of_nat (o_off ?oarc), bi_num_elem := of_nat (length data)\<rparr>"
  obtain r bw' fs' where r: "write_block lz4 good seg col (o_buf ?oarc) ?block bw fs = (r, bw', fs')" by (metis prod_cases3)
  have p: "put_vector_block save lz4 good stale gw seg col data bw fs = (r, bw', fs')"
    using r by (simp add: put_vector_block_def write_vector_block_def Let_def)
  have f: "bw_output_files bw ! seg = Some f" using w by (simp add: writing_def)
  note fr = write_block_frame[OF r f]
  note s = vector_saved[OF conjunct2[OF conjunct2[OF ok]] refl refl, of "stale gw"]
  from w c conjunct1[OF ok] s(1,2) conjunct1[OF conjunct2[OF ok]]
  show "\<exists>r bw' fs'. put_vector_block save lz4 good stale gw seg col data bw fs = (r, bw', fs') \<and>
      bw_frame seg f bw fs bw' fs' \<and> same_files bw bw' \<and>
      (r = Inl Io_Failure \<and> \<not> stream_good good f fs' \<or>
       (\<exists>n entry. r = Inr n \<and> vector_entry load data entry \<and> writing unlz4 ncols seg f (spec(col := spec col @ [entry])) bw' fs'))"
    by (cases rule: write_block_keeps) (use r p fr s(3) in auto)
qed

section \<open>Opening the segments\<close>

lemma digits_value_zeros: "digits_value (replicate k 48 @ ds) = digits_value ds"
  by (induction k) (simp_all add: digits_value_def)

lemma inj_segment_filename: "inj (segment_filename index_file)"
proof (rule injI)
  fix m n assume "segment_filename index_file m = segment_filename index_file n"
  then have "digits_value (replicate (4 - length (to_string m)) 48 @ to_string m) =
      digits_value (replicate (4 - length (to_string n)) 48 @ to_string n)"
    by (simp add: segment_filename_def)
  then show "m = n" using to_string_digits[of m] to_string_digits[of n] by (simp add: digits_value_zeros)
qed

text \<open>The first \<open>k\<close> segments are open.\<close>

definition gw_opening ::
  "(byte list \<Rightarrow> nat \<Rightarrow> byte list) \<Rightarrow> nat \<Rightarrow> nat \<Rightarrow> cstring \<Rightarrow> nat \<Rightarrow> 'v group_writer \<Rightarrow> files \<Rightarrow> bool"
where
  "gw_opening unlz4 ncols nsegs index_file k gw fs \<longleftrightarrow> gw_array_open gw \<and> gw_nsegments gw = nsegs \<and>
     length (gw_column_buffers gw) = ncols \<and>
     (\<forall>c<ncols. cb_segment_data (gw_column_buffers gw ! c) = replicate nsegs []) \<and>
     length (gi_columns (bw_index_info (gw_writer gw))) = ncols \<and>
     gi_group_index_file (bw_index_info (gw_writer gw)) = index_file \<and>
     (\<forall>c<ncols. length (ifi_segment_sizes (gi_columns (bw_index_info (gw_writer gw)) ! c)) = nsegs \<and>
        ifi_version (gi_columns (bw_index_info (gw_writer gw)) ! c) = 2 \<and>
        ifi_nsegments (gi_columns (bw_index_info (gw_writer gw)) ! c) = nsegs \<and>
        length (ifi_segment_files (gi_columns (bw_index_info (gw_writer gw)) ! c)) = nsegs \<and>
        (\<forall>s<k. ifi_segment_files (gi_columns (bw_index_info (gw_writer gw)) ! c) ! s = column_name (segment_filename index_file s) c)) \<and>
     (\<forall>s<nsegs. if s < k then writing unlz4 ncols s (segment_filename index_file s) (\<lambda>_. []) (gw_writer gw) fs
                else segment_fresh s (gw_writer gw))"

lemma gw_open_segment_law:
  assumes st: "gw_opening unlz4 ncols nsegs index_file k gw fs" and k: "k < nsegs" and good: "good (segment_filename index_file k) 0"
  shows "\<exists>gw' fs'. gw_open_segment good k gw fs = (Inr (), gw', fs') \<and> gw_opening unlz4 ncols nsegs index_file (Suc k) gw' fs'"
proof -
  let ?f = "segment_filename index_file" and ?bw = "gw_writer gw"
  have fresh: "segment_fresh k ?bw" and nc: "length (gi_columns (bw_index_info ?bw)) = ncols"
    and ix: "gi_group_index_file (bw_index_info ?bw) = index_file" using st k by (auto simp: gw_opening_def)
  obtain bw' fs' where o: "open_segment good k (?f k) ?bw fs = (Inr (), bw', fs')" "writing unlz4 ncols k (?f k) (\<lambda>_. []) bw' fs'"
    using open_segment_writing[where good = good and f = "?f k" and bw = ?bw and fs = fs and ?unlz4.0 = unlz4, OF fresh good]
    unfolding nc by blast
  note fr = open_segment_frame[OF o(1)]
  have cols: "gi_columns (bw_index_info bw') = map (\<lambda>(col, c). c\<lparr>ifi_segment_files :=
      (ifi_segment_files c)[k := column_name (?f k) col]\<rparr>) (List.enumerate 0 (gi_columns (bw_index_info ?bw)))"
    using o(1) by (auto simp: open_segment_def Let_def split: if_splits)
  have c: "ifi_segment_files (gi_columns (bw_index_info bw') ! c) =
      (ifi_segment_files (gi_columns (bw_index_info ?bw) ! c))[k := column_name (?f k) c]"
    "ifi_segment_sizes (gi_columns (bw_index_info bw') ! c) = ifi_segment_sizes (gi_columns (bw_index_info ?bw) ! c)"
    "ifi_version (gi_columns (bw_index_info bw') ! c) = ifi_version (gi_columns (bw_index_info ?bw) ! c)"
    "ifi_nsegments (gi_columns (bw_index_info bw') ! c) = ifi_nsegments (gi_columns (bw_index_info ?bw) ! c)" if "c < ncols" for c
    using that nc by (simp_all add: cols nth_enumerate_eq)
  have segs: "if s < Suc k then writing unlz4 ncols s (?f s) (\<lambda>_. []) bw' fs' else segment_fresh s bw'" if "s < nsegs" for s
  proof (cases "s = k")
    case True
    then show ?thesis using o(2) by simp
  next
    case False
    then have d: "?f s \<noteq> ?f k" using inj_segment_filename by (metis injD)
    have "if s < k then writing unlz4 ncols s (?f s) (\<lambda>_. []) ?bw fs else segment_fresh s ?bw"
      using st that by (simp add: gw_opening_def)
    then show ?thesis using False writing_frame[OF fr _ False d] fresh_frame[OF fr _ False] by (auto split: if_splits)
  qed
  have files: "ifi_segment_files (gi_columns (bw_index_info bw') ! c) ! s = column_name (?f s) c" if "c < ncols" "s < Suc k" for c s
    using st k that c(1)[OF that(1)] by (cases "s = k") (auto simp: gw_opening_def)
  have "gw_open_segment good k gw fs = (Inr (), gw\<lparr>gw_writer := bw'\<rparr>, fs')"
    using o(1) st ix by (simp add: gw_open_segment_def gw_opening_def)
  moreover have "length (gi_columns (bw_index_info bw')) = ncols" "gi_group_index_file (bw_index_info bw') = index_file"
    using fr nc ix by (simp_all add: bw_frame_def)
  then have "gw_opening unlz4 ncols nsegs index_file (Suc k) (gw\<lparr>gw_writer := bw'\<rparr>) fs'"
    using st c segs files by (simp add: gw_opening_def)
  ultimately show ?thesis by blast
qed

lemma gw_open_segments_law:
  "gw_opening unlz4 ncols nsegs index_file k gw fs \<Longrightarrow> k \<le> nsegs \<Longrightarrow> \<forall>s<nsegs. good (segment_filename index_file s) 0 \<Longrightarrow>
   \<exists>gw' fs'. gw_open_segments good [k..<nsegs] gw fs = (Inr (), gw', fs') \<and> gw_opening unlz4 ncols nsegs index_file nsegs gw' fs'"
proof (induction "nsegs - k" arbitrary: k gw fs)
  case (Suc d)
  then have k: "k < nsegs" by simp
  then have up: "[k..<nsegs] = k # [Suc k..<nsegs]" by (rule upt_conv_Cons)
  have "good (segment_filename index_file k) 0" using Suc.prems(3) k by blast
  from gw_open_segment_law[where good = good, OF Suc.prems(1) k this] obtain gw1 fs1 where
    o: "gw_open_segment good k gw fs = (Inr (), gw1, fs1)" "gw_opening unlz4 ncols nsegs index_file (Suc k) gw1 fs1" by blast
  have "d = nsegs - Suc k" "Suc k \<le> nsegs" using Suc.hyps(2) k by simp_all
  from Suc.hyps(1)[OF this(1) o(2) this(2) Suc.prems(3)] o(1) show ?case by (simp add: up del: upt_Suc)
qed auto

lemma gw_open_law:
  assumes good: "\<forall>s<nsegs. good (segment_filename index_file s) 0" and n: "0 < ncols"
  shows "\<exists>(gw' :: 'v group_writer) fs'. gw_open good index_file nsegs ncols fs = (Inr (), gw', fs') \<and> gw_array_open gw' \<and>
    gw_state unlz4 E ncols nsegs (segment_filename index_file) (\<lambda>_ _. []) 0 gw' fs'"
proof -
  let ?gw = "(\<lparr>gw_array_open = True, gw_nsegments = nsegs, gw_writer = writer_init index_file nsegs ncols,
    gw_column_buffers = replicate ncols \<lparr>cb_segment_data = replicate nsegs [],
      cb_elements_before_flush = SARRAY_WRITER_INITAL_ELEMENTS_PER_BLOCK, cb_total_bytes_written = 0, cb_total_elements_written = 0\<rparr>\<rparr>) :: 'v group_writer"
  have "gw_opening unlz4 ncols nsegs index_file 0 ?gw fs"
    by (auto simp: gw_opening_def writer_init_fresh) (simp_all add: writer_init_def Let_def)
  from gw_open_segments_law[where good = good, OF this _ good] obtain gw' fs' where
    o: "gw_open_segments good [0..<nsegs] ?gw fs = (Inr (), gw', fs')" "gw_opening unlz4 ncols nsegs index_file nsegs gw' fs'" by auto
  have "gw_wf ncols nsegs (segment_filename index_file) gw'"
    using o(2) by (auto simp: gw_wf_def gw_opening_def intro!: nth_equalityI)
  moreover have "segment_writes unlz4 E ncols s (segment_filename index_file s) (\<lambda>_. []) gw' fs'" if "s < nsegs" for s
    unfolding segment_writes_def
  proof (rule exI[of _ "\<lambda>_. []"], intro conjI)
    show "writing unlz4 ncols s (segment_filename index_file s) (\<lambda>_. []) (gw_writer gw') fs'"
      using o(2) that by (simp add: gw_opening_def)
    show "\<forall>c<ncols. \<exists>vs. holds E [] vs \<and> vs @ pending gw' c s = []"
      using o(2) that by (auto simp: gw_opening_def intro!: exI[of _ "[]"] holds_Nil)
  qed
  ultimately show ?thesis using o n by (auto simp: gw_open_def gw_state_def gw_opening_def Let_def)
qed

section \<open>A group from opening to closing\<close>

definition store_group ::
  "('v group_writer \<Rightarrow> nat \<Rightarrow> nat \<Rightarrow> 'v list \<Rightarrow> block_writer \<Rightarrow> files \<Rightarrow> (error + nat) \<times> block_writer \<times> files) \<Rightarrow>
     (cstring \<Rightarrow> nat \<Rightarrow> bool) \<Rightarrow> cstring \<Rightarrow> nat \<Rightarrow> nat \<Rightarrow> (nat \<times> nat \<times> 'v) list \<Rightarrow> files \<Rightarrow> ('v, unit) writes"
where
  "store_group put good index_file nsegs ncols reqs fs =
     then_write (gw_open good index_file nsegs ncols fs) (\<lambda>gw fs.
     then_write (write_values put reqs gw fs) (gw_close put good))"

context block_putter
begin

lemma store_group_law:
  assumes good: "\<forall>s<nsegs. good (segment_filename index_file s) 0" and n: "0 < ncols" and fss: "fs_sound good"
    and req: "\<forall>(s, c, t)\<in>set reqs. s < nsegs \<and> c < ncols"
    and ok: "\<forall>s<nsegs. \<forall>c<ncols. \<forall>data. sublist data (pushed (\<lambda>_ _. []) reqs s c) \<longrightarrow> data \<noteq> [] \<longrightarrow> ok data"
  shows "\<exists>r gw' fs'. store_group put good index_file nsegs ncols reqs fs = (r, gw', fs') \<and>
    (r = Inl Io_Failure \<and> (\<exists>s<nsegs. \<not> stream_good good (segment_filename index_file s) fs') \<or>
     r = Inr () \<and> gw_state unlz4 E ncols nsegs (segment_filename index_file) (pushed (\<lambda>_ _. []) reqs) nsegs gw' fs')"
proof -
  let ?f = "segment_filename index_file" and ?vals = "pushed (\<lambda>_ _. []) reqs"
  obtain gw1 fs1 where o: "gw_open good index_file nsegs ncols fs = (Inr (), gw1, fs1)" "gw_array_open gw1"
    "gw_state unlz4 E ncols nsegs ?f (\<lambda>_ _. []) 0 gw1 fs1"
    using gw_open_law[where good = good and E = E and fs = fs, OF good n] by blast
  from write_values_law[OF inj_segment_filename req ok o(3,2)] obtain r2 gw2 fs2 where
    w: "write_values put reqs gw1 fs1 = (r2, gw2, fs2)" and res: "r2 = Inl Io_Failure \<and> (\<exists>s<nsegs. \<not> stream_good good (?f s) fs2) \<or>
     r2 = Inr () \<and> gw_array_open gw2 \<and> gw_state unlz4 E ncols nsegs ?f ?vals 0 gw2 fs2" by blast
  show ?thesis
  proof (cases "r2 = Inr ()")
    case True
    let ?gw = "gw2\<lparr>gw_array_open := False\<rparr>"
    have st: "gw_state unlz4 E ncols nsegs ?f ?vals 0 ?gw fs2" and op: "gw_array_open gw2" and ns: "gw_nsegments gw2 = nsegs"
      using res True by (auto simp: gw_state_def gw_wf_def segment_writes_def)
    have "\<forall>s<nsegs. \<forall>c<ncols. \<forall>data. suffix data (?vals s c) \<longrightarrow> data \<noteq> [] \<longrightarrow> ok data" using ok by blast
    from close_segments_law[OF inj_segment_filename fss this st] show ?thesis
      using o(1) w True op ns by (simp add: store_group_def gw_close_def)
  qed (use o(1) w res in \<open>auto simp: store_group_def\<close>)
qed

end

end
