(* ===== verification/Column_Store.thy ===== *)
theory Column_Store
  imports Flex_Reader Value_Reader Group_Writer
begin

text \<open>
  Writing the columns of a group and reading them back: the group writer and the column reader meet in
  the segment files and in the index of the column. The statement is proved once, for any call that
  writes a block and any reader of such blocks, and holds for flexible columns and for columns of other
  types.
\<close>

section \<open>From the writer to the reader\<close>

lemma pushed_length: "length (pushed vals reqs s c) \<le> length (vals s c) + length reqs"
proof (induction reqs arbitrary: vals)
  case (Cons req reqs)
  obtain s' c' t where "req = (s', c', t)" by (metis prod_cases3)
  moreover have "length (push s' c' t vals s c) \<le> Suc (length (vals s c))" by (simp add: push_def)
  ultimately show ?case using Cons[of "push s' c' t vals"] by (simp del: fun_upd_apply)
qed simp

text \<open>What is pushed to one buffer is a part of what is pushed.\<close>

lemma pushed_subseq_from: "subseq (pushed vals reqs s c) (vals s c @ map (\<lambda>(s, c, t). t) reqs)"
proof (induction reqs arbitrary: vals)
  case (Cons req reqs)
  obtain s' c' t where r: "req = (s', c', t)" by (metis prod_cases3)
  have "subseq (push s' c' t vals s c) (vals s c @ [t])" by (auto simp: push_def)
  then have "subseq (push s' c' t vals s c @ map (\<lambda>(s, c, t). t) reqs) ((vals s c @ [t]) @ map (\<lambda>(s, c, t). t) reqs)"
    by (rule list_emb_append_mono) simp
  with Cons[of "push s' c' t vals"] show ?case
    by (auto simp: r simp del: fun_upd_apply intro: subseq_order.order_trans)
qed simp

lemma pushed_subseq: "subseq (pushed (\<lambda>_ _. []) reqs s c) (map (\<lambda>(s, c, t). t) reqs)"
  using pushed_subseq_from[of "\<lambda>_ _. []" reqs s c] by simp

lemma subseq_size: "subseq xs ys \<Longrightarrow> sum_list (map f xs) \<le> sum_list (map f ys :: nat list)"
  by (induction rule: list_emb.induct) auto

lemma segment_filename_start:
  assumes "index_file = [] \<or> \<not> isspace (hd index_file)"
  shows "segment_filename index_file s = [] \<or> \<not> isspace (hd (segment_filename index_file s))"
  using assms by (cases index_file) (auto simp: segment_filename_def isspace_def word_le_def hd_append)

text \<open>The values pushed to the column \<open>c\<close>, segment after segment.\<close>

definition column_values :: "nat \<Rightarrow> (nat \<times> nat \<times> 'v) list \<Rightarrow> nat \<Rightarrow> 'v list" where
  "column_values nsegs reqs c = concat (map (\<lambda>s. pushed (\<lambda>_ _. []) reqs s c) [0..<nsegs])"

text \<open>The index of a column in the format 2, with the sizes of its segments.\<close>

definition column_index :: "index_file_information \<Rightarrow> nat list \<Rightarrow> bool" where
  "column_index ix sizes \<longleftrightarrow> ifi_version ix = 2 \<and> ifi_nsegments ix = length sizes \<and> map unat (ifi_segment_sizes ix) = sizes"

lemma open_segments_index:
  "open_segments fs files row rd bm = Inr (n, rd', bm') \<Longrightarrow> sr_index_info rd' = sr_index_info rd"
proof (induction files arbitrary: row rd bm)
  case (Cons f files)
  then show ?case by (auto simp: result_bind_def split: sum.splits prod.splits)
qed simp

lemma open_reader_index: "open_reader mem fs index rd bm = Inr (rd', bm') \<Longrightarrow> sr_index_info rd' = index"
  by (auto simp: open_reader_def result_bind_def Let_def dest!: open_segments_index split: sum.splits if_splits prod.splits)

locale column_store = block_putter E put good unlz4 ok + column_reader E unlz4 read inv
  for E :: "'v list \<Rightarrow> block_info \<times> byte list \<Rightarrow> bool" and put good unlz4 ok read inv
begin

text \<open>The segments of a closed group, as the reader finds them.\<close>

lemma group_segments_ready:
  assumes st: "gw_state unlz4 E ncols nsegs files vals nsegs gw fs" and inj: "inj files"
    and start: "\<And>s. files s = [] \<or> \<not> isspace (hd (files s))" and c: "c < ncols"
    and none: "\<forall>s<nsegs. bm_file_to_segments bm (files s) = None"
  shows "\<exists>segs. segments_ready E unlz4 fs ncols c segs bm \<and> map fst segs = map files [0..<nsegs] \<and>
    list_all (\<lambda>b. b \<noteq> []) (concat (map (\<lambda>s. snd (snd s)) segs)) \<and>
    concat (concat (map (\<lambda>s. snd (snd s)) segs)) = concat (map (\<lambda>s. vals s c) [0..<nsegs])"
proof -
  have "\<forall>s\<in>{..<nsegs}. \<exists>spec blocks. (\<exists>content. fs (files s) = Some content \<and> segment_file unlz4 ncols spec content) \<and>
      list_all2 E blocks (spec c) \<and> list_all (\<lambda>b. b \<noteq> []) blocks \<and> concat blocks = vals s c"
    using st c by (fastforce simp: gw_state_def segment_closed_def holds_def)
  then obtain spec blocks where s: "\<And>s. s < nsegs \<Longrightarrow> (\<exists>content. fs (files s) = Some content \<and> segment_file unlz4 ncols (spec s) content) \<and>
      list_all2 E (blocks s) (spec s c) \<and> list_all (\<lambda>b. b \<noteq> []) (blocks s) \<and> concat (blocks s) = vals s c"
    by (metis lessThan_iff)
  let ?segs = "map (\<lambda>s. (files s, spec s, blocks s)) [0..<nsegs]"
  have "segments_ready E unlz4 fs ncols c ?segs bm"
    using s none start inj
    by (auto simp: segments_ready_def file_ready_def list_all_iff distinct_map comp_def intro: inj_on_subset)
  moreover have "concat (concat (map (\<lambda>s. snd (snd s)) ?segs)) = concat (map (\<lambda>s. concat (blocks s)) [0..<nsegs])"
    by (induction nsegs) simp_all
  moreover have "concat (map (\<lambda>s. concat (blocks s)) [0..<nsegs]) = concat (map (\<lambda>s. vals s c) [0..<nsegs])"
    using s by (intro arg_cong[of _ _ concat] map_cong) auto
  moreover have "list_all (\<lambda>b. b \<noteq> []) (concat (map (\<lambda>s. snd (snd s)) ?segs))" using s by (fastforce simp: list_all_iff)
  ultimately show ?thesis by (intro exI[of _ ?segs]) (simp add: comp_def)
qed

lemma columns_open:
  assumes fss: "fs_sound good" and good: "\<forall>s<nsegs. good (segment_filename index_file s) 0"
    and start: "index_file = [] \<or> \<not> isspace (hd index_file)"
    and req: "\<forall>(s, c, t)\<in>set reqs. s < nsegs \<and> c < ncols" "length reqs < 2 ^ 64"
    and ok: "\<forall>s<nsegs. \<forall>c<ncols. \<forall>data. sublist data (pushed (\<lambda>_ _. []) reqs s c) \<longrightarrow> data \<noteq> [] \<longrightarrow> ok data"
    and c: "c < ncols" "c < 2 ^ 63"
    and bm: "manager_step\<^sup>*\<^sup>* block_manager_new bm" "\<forall>s<nsegs. bm_file_to_segments bm (segment_filename index_file s) = None"
  shows "\<exists>r gw fs'. store_group put good index_file nsegs ncols reqs fs = (r, gw, fs') \<and>
    (r = Inl Io_Failure \<and> (\<exists>s<nsegs. \<not> stream_good good (segment_filename index_file s) fs') \<or>
     r = Inr () \<and> column_index (gi_columns (bw_index_info (gw_writer gw)) ! c) (map (\<lambda>s. length (pushed (\<lambda>_ _. []) reqs s c)) [0..<nsegs]) \<and>
     (\<exists>rd bm' blocks. open_reader mem fs' (gi_columns (bw_index_info (gw_writer gw)) ! c) sarray_reader_new bm = Inr (rd, bm') \<and>
       concat blocks = column_values nsegs reqs c \<and> column_opened E unlz4 fs' blocks rd bm' \<and>
       sr_index_info rd = gi_columns (bw_index_info (gw_writer gw)) ! c))"
proof -
  let ?f = "segment_filename index_file" and ?vals = "pushed (\<lambda>_ _. []) reqs"
  have n: "0 < ncols" using c by simp
  from store_group_law[where fs = fs, OF good n fss req(1) ok] obtain r gw fs' where
    w: "store_group put good index_file nsegs ncols reqs fs = (r, gw, fs')" and
    res: "r = Inl Io_Failure \<and> (\<exists>s<nsegs. \<not> stream_good good (?f s) fs') \<or>
      r = Inr () \<and> gw_state unlz4 E ncols nsegs ?f ?vals nsegs gw fs'" by blast
  let ?ix = "gi_columns (bw_index_info (gw_writer gw)) ! c"
  have "column_index ?ix (map (\<lambda>s. length (?vals s c)) [0..<nsegs]) \<and>
      (\<exists>rd bm' blocks. open_reader mem fs' ?ix sarray_reader_new bm = Inr (rd, bm') \<and>
        concat blocks = column_values nsegs reqs c \<and> column_opened E unlz4 fs' blocks rd bm' \<and> sr_index_info rd = ?ix)"
    if st: "gw_state unlz4 E ncols nsegs ?f ?vals nsegs gw fs'"
  proof -
    from group_segments_ready[OF st inj_segment_filename segment_filename_start[OF start] c(1) bm(2)] obtain segs where
      segs: "segments_ready E unlz4 fs' ncols c segs bm" "map fst segs = map ?f [0..<nsegs]"
        "list_all (\<lambda>b. b \<noteq> []) (concat (map (\<lambda>s. snd (snd s)) segs))"
        "concat (concat (map (\<lambda>s. snd (snd s)) segs)) = concat (map (\<lambda>s. ?vals s c) [0..<nsegs])" by blast
    have wf: "ifi_segment_files ?ix = map (\<lambda>s. column_name (?f s) c) [0..<nsegs]" "length (ifi_segment_sizes ?ix) = nsegs"
        "ifi_version ?ix = 2" "ifi_nsegments ?ix = nsegs"
      using st c by (auto simp: gw_state_def gw_wf_def)
    have sz: "unat (ifi_segment_sizes ?ix ! s) = length (?vals s c)" if "s < nsegs" for s
      using st c that req(2) pushed_length[of "\<lambda>_ _. []" reqs s c]
      by (simp add: gw_state_def segment_closed_def unat_of_nat take_bit_nat_eq_self)
    have files: "ifi_segment_files ?ix = map (\<lambda>s. column_name (fst s) c) segs"
      using arg_cong[OF segs(2), of "map (\<lambda>f. column_name f c)"] wf by (simp add: comp_def)
    have sizes: "map unat (ifi_segment_sizes ?ix) = map (\<lambda>s. length (?vals s c)) [0..<nsegs]"
      using sz wf(2) by (intro nth_equalityI) auto
    then have "sum_list (map unat (ifi_segment_sizes ?ix)) = length (concat (concat (map (\<lambda>s. snd (snd s)) segs)))"
      by (simp add: segs(4) length_concat comp_def)
    from open_reader_law[OF manager_reachable[OF bm(1)] segs(1) c reader_closed_new refl segs(3) files this]
    obtain rd bm' where o: "open_reader mem fs' ?ix sarray_reader_new bm = Inr (rd, bm')"
        "column_opened E unlz4 fs' (concat (map (\<lambda>s. snd (snd s)) segs)) rd bm'" by blast
    have "column_index ?ix (map (\<lambda>s. length (?vals s c)) [0..<nsegs])" using wf sizes by (simp add: column_index_def)
    then show ?thesis using o open_reader_index[OF o(1)] segs(4) unfolding column_values_def by blast
  qed
  then show ?thesis using w res by blast
qed

lemma columns_read_back:
  assumes fss: "fs_sound good" and good: "\<forall>s<nsegs. good (segment_filename index_file s) 0"
    and start: "index_file = [] \<or> \<not> isspace (hd index_file)"
    and req: "\<forall>(s, c, t)\<in>set reqs. s < nsegs \<and> c < ncols" "length reqs < 2 ^ 64"
    and ok: "\<forall>s<nsegs. \<forall>c<ncols. \<forall>data. sublist data (pushed (\<lambda>_ _. []) reqs s c) \<longrightarrow> data \<noteq> [] \<longrightarrow> ok data"
    and c: "c < ncols" "c < 2 ^ 63"
    and bm: "manager_step\<^sup>*\<^sup>* block_manager_new bm" "\<forall>s<nsegs. bm_file_to_segments bm (segment_filename index_file s) = None"
    and reads: "list_all (\<lambda>(_, _, ch, _). choices_ok ch) reads"
  shows "\<exists>r gw fs'. store_group put good index_file nsegs ncols reqs fs = (r, gw, fs') \<and>
    (r = Inl Io_Failure \<and> (\<exists>s<nsegs. \<not> stream_good good (segment_filename index_file s) fs') \<or>
     r = Inr () \<and> (\<exists>rd bm'. open_reader mem fs' (gi_columns (bw_index_info (gw_writer gw)) ! c) sarray_reader_new bm = Inr (rd, bm') \<and>
       read_sequence (read fs') reads rd bm' = Inr (map (\<lambda>(a, b, _, _). slice_rows (column_values nsegs reqs c) a b) reads)))"
proof -
  let ?ix = "\<lambda>gw. gi_columns (bw_index_info (gw_writer gw)) ! c"
  from columns_open[where fs = fs and mem = mem, OF fss good start req ok c bm] obtain r gw fs' where
    w: "store_group put good index_file nsegs ncols reqs fs = (r, gw, fs')" and
    res: "r = Inl Io_Failure \<and> (\<exists>s<nsegs. \<not> stream_good good (segment_filename index_file s) fs') \<or>
      r = Inr () \<and> (\<exists>rd bm' blocks. open_reader mem fs' (?ix gw) sarray_reader_new bm = Inr (rd, bm') \<and>
        concat blocks = column_values nsegs reqs c \<and> column_opened E unlz4 fs' blocks rd bm')"
    by blast
  have "read_sequence (read fs') reads rd bm' = Inr (map (\<lambda>(a, b, _, _). slice_rows (column_values nsegs reqs c) a b) reads)"
    if "concat blocks = column_values nsegs reqs c" "column_opened E unlz4 fs' blocks rd bm'" for rd bm' blocks
    using read_sequence_law[OF opened_inv[OF that(2)] reads] that(1) by simp
  then show ?thesis using w res by blast
qed

end

interpretation flex_store: column_store typed_entry "put_typed_block lz4 good stale" good unlz4
    "\<lambda>data. lz4_inverse lz4 unlz4 \<and> fs_sound good \<and> block_ok data \<and> (\<forall>stale. block_fits stale data block_info_new)"
    "read_rows_flex unlz4" "flex_inv unlz4"
  for lz4 good stale unlz4 ..

interpretation value_store: column_store "vector_entry load" "put_vector_block save lz4 good stale" good unlz4
    "\<lambda>data. lz4_inverse lz4 unlz4 \<and> fs_sound good \<and> vector_ok save load wire ok data"
    "read_rows_values load init unlz4" "value_inv load unlz4"
  for load save lz4 good stale unlz4 wire ok init ..

lemma block_fits_one_type:
  assumes ok: "block_ok data" and ne: "data \<noteq> []" and t: "\<forall>f\<in>set data. get_type f = t" "t \<noteq> UNDEFINED" "\<not> streamed t"
    and len: "2 + length (concat (map flex_payload data)) \<le> LZ4_MAX_INPUT_SIZE"
  shows "block_fits stale data block_info_new"
proof -
  have single: "single_column_type data" using t by (auto simp: single_column_type_def)
  have "bi_flags block_info_new AND MULTIPLE_TYPE_BLOCK = 0" by (simp add: block_info_new_def)
  from typed_encode_layout[OF ok _ this, of "oarchive_vec stale"] obtain flags oarc ws info where
    e: "typed_encode data block_info_new (oarchive_vec stale) = Some (info, oarc)" "o_wf oarc" "o_data oarc = ws"
    and l: "flags AND MULTIPLE_TYPE_BLOCK = 0" "block_layout data flags ws"
    using single by (auto simp: block_written_def)
  have d: "defined_values data = data" "one_type t data"
    using t by (auto simp: defined_values_def filter_id_conv one_type_def list_all_iff)
  have ok': "list_all flex_ok data" using ok by (simp add: block_ok_def)
  have cs: "content_wire t data (concat (map flex_payload data))" using content_other[OF d(2) t(3) ok'] d(1) by simp
  from l(2) have "length ws \<le> 2 + length (concat (map flex_payload data))"
  proof cases
    case (single_type t' cs')
    then have "t' = t" using t ne by (metis list.set_intros(1) neq_Nil_conv)
    then show ?thesis using single_type content_wire_unique[OF cs] by auto
  next
    case (with_missing t' d cs')
    then show ?thesis using t by force
  qed (use l(1) in auto)
  then show ?thesis using e length_o_data[OF e(2)] len by (simp add: block_fits_def)
qed

end
