(* ===== verification/Sarray_Segments.thy ===== *)
theory Sarray_Segments
  imports Column_Store
begin

text \<open>
  The reader of an array as its users see it (\<open>sframe/sarray_reader.hpp\<close>): the rows are divided into logical
  segments, each is read through a buffer (\<open>sframe/sarray_reader_buffer.hpp\<close>), and iterators over different
  segments may be advanced in any order although they share one format reader.

  A format reader is an object behind a virtual interface: the definitions take its \<open>read_rows\<close> and
  \<open>get_index_info\<close> as arguments, and a state \<open>'e\<close> that its calls change (the block manager). An iterator
  points to the buffer of its segment, which is found through the number of the segment.
\<close>

section \<open>Buffered reading\<close>

record 'v reader_buffer =
  rb_buffer :: "'v list"
  rb_buffer_pos :: nat
  rb_original_row_start :: nat
  rb_row_start :: nat
  rb_row_end :: nat
  rb_buffer_size :: nat
  rb_iter :: nat

definition DEFAULT_SARRAY_READER_BUFFER_SIZE :: nat where "DEFAULT_SARRAY_READER_BUFFER_SIZE = 1024"

text \<open>\<open>n\<close> is the size of the reader.\<close>

definition buffer_init :: "nat \<Rightarrow> nat \<Rightarrow> nat \<Rightarrow> nat \<Rightarrow> 'v reader_buffer" where
  "buffer_init n row_start row_end internal_buffer_size =
     \<lparr>rb_buffer = [], rb_buffer_pos = 0, rb_original_row_start = row_start, rb_row_start = row_start,
      rb_row_end = min row_end n, rb_buffer_size = internal_buffer_size, rb_iter = row_start\<rparr>"

text \<open>The difference of the row numbers wraps around.\<close>

definition buffer_refill ::
  "('c \<Rightarrow> nat \<Rightarrow> nat \<Rightarrow> 'v list \<Rightarrow> 'r \<Rightarrow> 'e \<Rightarrow> error + (nat \<times> 'v list \<times> 'r \<times> 'e)) \<Rightarrow> 'c \<Rightarrow>
     'v reader_buffer \<Rightarrow> 'r \<Rightarrow> 'e \<Rightarrow> error + ('v reader_buffer \<times> 'r \<times> 'e)"
where
  "buffer_refill read ch b r e =
     (let size_of_refill = min ((rb_row_end b + 2 ^ 64 - rb_row_start b) mod 2 ^ 64) (rb_buffer_size b)
      in result_bind (read ch (rb_row_start b) (rb_row_start b + size_of_refill) (rb_buffer b) r e) (\<lambda>(_, buffer, r, e).
         Inr (b\<lparr>rb_buffer := buffer, rb_row_start := rb_row_start b + size_of_refill\<rparr>, r, e)))"

text \<open>The value is moved out of the buffer; \<open>moved\<close> says what the move leaves.\<close>

definition buffer_next ::
  "('c \<Rightarrow> nat \<Rightarrow> nat \<Rightarrow> 'v list \<Rightarrow> 'r \<Rightarrow> 'e \<Rightarrow> error + (nat \<times> 'v list \<times> 'r \<times> 'e)) \<Rightarrow> ('v \<Rightarrow> 'v) \<Rightarrow> 'c \<Rightarrow>
     'v reader_buffer \<Rightarrow> 'r \<Rightarrow> 'e \<Rightarrow> error + ('v \<times> 'v reader_buffer \<times> 'r \<times> 'e)"
where
  "buffer_next read moved ch b r e =
     result_bind
       (if rb_buffer_pos b = length (rb_buffer b)
        then result_bind (buffer_refill read ch b r e) (\<lambda>(b, r, e). Inr (b\<lparr>rb_buffer_pos := 0\<rparr>, r, e))
        else Inr (b, r, e)) (\<lambda>(b, r, e).
     if rb_buffer_pos b < length (rb_buffer b) then
       let v = rb_buffer b ! rb_buffer_pos b
       in Inr (v, b\<lparr>rb_iter := rb_iter b + 1, rb_buffer := (rb_buffer b)[rb_buffer_pos b := moved v],
                    rb_buffer_pos := rb_buffer_pos b + 1\<rparr>, r, e)
     else Inl Assertion_Failed)"

definition buffer_has_next :: "'v reader_buffer \<Rightarrow> bool" where
  "buffer_has_next b \<longleftrightarrow> rb_iter b < rb_row_end b"

definition buffer_length :: "'v reader_buffer \<Rightarrow> nat" where
  "buffer_length b = (rb_row_end b + 2 ^ 64 - rb_original_row_start b) mod 2 ^ 64"

definition buffer_clear :: "'v reader_buffer \<Rightarrow> 'v reader_buffer" where
  "buffer_clear b = b\<lparr>rb_buffer := [], rb_row_start := rb_original_row_start b,
     rb_iter := rb_original_row_start b, rb_buffer_pos := 0\<rparr>"

section \<open>Iterators\<close>

record 'v sarray_iterator =
  it_segmentid :: nat
  it_current_element :: 'v
  it_current_element_counter :: nat
  it_num_elements :: nat

text \<open>The iterator one past the end, and the constructor.\<close>

definition iterator_end :: "'v \<Rightarrow> nat \<Rightarrow> 'v reader_buffer \<Rightarrow> 'v sarray_iterator" where
  "iterator_end init segmentid b =
     \<lparr>it_segmentid = segmentid, it_current_element = init, it_current_element_counter = buffer_length b,
      it_num_elements = buffer_length b\<rparr>"

definition iterator_new ::
  "('c \<Rightarrow> nat \<Rightarrow> nat \<Rightarrow> 'v list \<Rightarrow> 'r \<Rightarrow> 'e \<Rightarrow> error + (nat \<times> 'v list \<times> 'r \<times> 'e)) \<Rightarrow> ('v \<Rightarrow> 'v) \<Rightarrow> 'v \<Rightarrow> 'c \<Rightarrow>
     nat \<Rightarrow> bool \<Rightarrow> 'v reader_buffer \<Rightarrow> 'r \<Rightarrow> 'e \<Rightarrow> error + ('v sarray_iterator \<times> 'v reader_buffer \<times> 'r \<times> 'e)"
where
  "iterator_new read moved init ch segmentid is_start_iterator b r e =
     (let num_elements = buffer_length b;
          it = \<lparr>it_segmentid = segmentid, it_current_element = init, it_current_element_counter = 0,
                it_num_elements = num_elements\<rparr>
      in if is_start_iterator then
           if num_elements > 0 then
             result_bind (buffer_next read moved ch b r e) (\<lambda>(v, b, r, e).
             Inr (it\<lparr>it_current_element := v\<rparr>, b, r, e))
           else Inr (it, b, r, e)
         else Inr (iterator_end init segmentid b, b, r, e))"

definition iterator_increment ::
  "('c \<Rightarrow> nat \<Rightarrow> nat \<Rightarrow> 'v list \<Rightarrow> 'r \<Rightarrow> 'e \<Rightarrow> error + (nat \<times> 'v list \<times> 'r \<times> 'e)) \<Rightarrow> ('v \<Rightarrow> 'v) \<Rightarrow> 'c \<Rightarrow>
     'v sarray_iterator \<Rightarrow> 'v reader_buffer \<Rightarrow> 'r \<Rightarrow> 'e \<Rightarrow> error + ('v sarray_iterator \<times> 'v reader_buffer \<times> 'r \<times> 'e)"
where
  "iterator_increment read moved ch it b r e =
     (if buffer_has_next b then
        result_bind (buffer_next read moved ch b r e) (\<lambda>(v, b, r, e).
        Inr (it\<lparr>it_current_element := v, it_current_element_counter := it_current_element_counter it + 1\<rparr>, b, r, e))
      else Inr (it\<lparr>it_current_element_counter := it_num_elements it\<rparr>, b, r, e))"

text \<open>Iterators of one array point to the same buffer when they are of the same segment.\<close>

definition iterator_equal :: "'v sarray_iterator \<Rightarrow> 'v sarray_iterator \<Rightarrow> bool" where
  "iterator_equal it other \<longleftrightarrow> it_segmentid it = it_segmentid other \<and>
     it_current_element_counter it = it_current_element_counter other"

text \<open>The counters are truncated to \<open>int\<close>.\<close>

definition iterator_difference :: "'v sarray_iterator \<Rightarrow> 'v sarray_iterator \<Rightarrow> int option" where
  "iterator_difference it other =
     (let d = sint (of_nat (it_current_element_counter it) :: 32 word) -
              sint (of_nat (it_current_element_counter other) :: 32 word)
      in if - (2 ^ 31) \<le> d \<and> d < 2 ^ 31 then Some d else None)"

section \<open>The array reader\<close>

record ('v, 'r) segment_reader =
  sg_reader :: "'r option"
  sg_num_segments :: nat
  sg_opened_segments :: "nat set"
  sg_segment_lengths :: "nat list"
  sg_read_buffers :: "'v reader_buffer list"

definition segment_reader_new :: "('v, 'r) segment_reader" where
  "segment_reader_new = \<lparr>sg_reader = None, sg_num_segments = 0, sg_opened_segments = {}, sg_segment_lengths = [],
     sg_read_buffers = []\<rparr>"

text \<open>\<open>opener\<close> makes and opens the reader of a file format.\<close>

definition open_format_reader ::
  "(nat \<Rightarrow> index_file_information \<Rightarrow> 'e \<Rightarrow> error + ('r \<times> 'e)) \<Rightarrow> index_file_information \<Rightarrow>
     ('v, 'r) segment_reader \<Rightarrow> 'e \<Rightarrow> error + (('v, 'r) segment_reader \<times> 'e)"
where
  "open_format_reader opener index_info sg e =
     (if ifi_version index_info = 1 \<or> ifi_version index_info = 2 then
        result_bind (opener (nat (ifi_version index_info)) index_info e) (\<lambda>(r, e). Inr (sg\<lparr>sg_reader := Some r\<rparr>, e))
      else Inl Thrown)"

definition array_size :: "('r \<Rightarrow> index_file_information) \<Rightarrow> ('v, 'r) segment_reader \<Rightarrow> error + nat" where
  "array_size info sg = (case sg_reader sg of
     None \<Rightarrow> Inl Assertion_Failed
   | Some r \<Rightarrow> Inr (sum_list (map unat (ifi_segment_sizes (info r)))))"

definition create_segment_read_buffers ::
  "('r \<Rightarrow> index_file_information) \<Rightarrow> (nat \<times> nat) list \<Rightarrow> ('v, 'r) segment_reader \<Rightarrow> error + ('v, 'r) segment_reader"
where
  "create_segment_read_buffers info ranges sg =
     result_bind (array_size info sg) (\<lambda>n.
     Inr (sg\<lparr>sg_num_segments := length ranges, sg_segment_lengths := map (\<lambda>(a, b). (b + 2 ^ 64 - a) mod 2 ^ 64) ranges,
             sg_read_buffers := map (\<lambda>(a, b). buffer_init n a b DEFAULT_SARRAY_READER_BUFFER_SIZE) ranges\<rparr>))"

text \<open>The ranges of consecutive segments of the given lengths.\<close>

fun consecutive_ranges :: "nat \<Rightarrow> nat list \<Rightarrow> (nat \<times> nat) list" where
  "consecutive_ranges current_row_index [] = []"
| "consecutive_ranges current_row_index (n # ns) =
     (current_row_index, current_row_index + n) # consecutive_ranges (current_row_index + n) ns"

text \<open>The products wrap around.\<close>

definition even_ranges :: "nat \<Rightarrow> nat \<Rightarrow> (nat \<times> nat) list" where
  "even_ranges totallength num_segments =
     map (\<lambda>i. ((i * totallength) mod 2 ^ 64 div num_segments, ((i + 1) * totallength) mod 2 ^ 64 div num_segments))
       [0..<num_segments]"

text \<open>\<open>None\<close> is the default \<open>(size_t)(-1)\<close>: the segments of the files.\<close>

definition array_init ::
  "(nat \<Rightarrow> index_file_information \<Rightarrow> 'e \<Rightarrow> error + ('r \<times> 'e)) \<Rightarrow> ('r \<Rightarrow> index_file_information) \<Rightarrow>
     index_file_information \<Rightarrow> nat option \<Rightarrow> ('v, 'r) segment_reader \<Rightarrow> 'e \<Rightarrow> error + (('v, 'r) segment_reader \<times> 'e)"
where
  "array_init opener info index_info num_segments sg e =
     (if sg_reader sg \<noteq> None then Inl Assertion_Failed
      else result_bind (open_format_reader opener index_info sg e) (\<lambda>(sg, e).
        result_bind
          (case num_segments of
             None \<Rightarrow> if ifi_nsegments index_info \<le> length (ifi_segment_sizes index_info)
               then Inr (consecutive_ranges 0 (map unat (take (ifi_nsegments index_info) (ifi_segment_sizes index_info))))
               else Inl Undefined_Behaviour
           | Some n \<Rightarrow> if n > 0 then result_bind (array_size info sg) (\<lambda>totallength. Inr (even_ranges totallength n))
               else Inl Assertion_Failed) (\<lambda>ranges.
        result_bind (create_segment_read_buffers info ranges sg) (\<lambda>sg. Inr (sg, e)))))"

definition array_init_lengths ::
  "(nat \<Rightarrow> index_file_information \<Rightarrow> 'e \<Rightarrow> error + ('r \<times> 'e)) \<Rightarrow> ('r \<Rightarrow> index_file_information) \<Rightarrow>
     index_file_information \<Rightarrow> nat list \<Rightarrow> ('v, 'r) segment_reader \<Rightarrow> 'e \<Rightarrow> error + (('v, 'r) segment_reader \<times> 'e)"
where
  "array_init_lengths opener info index_info segment_lengths sg e =
     (if sg_reader sg \<noteq> None then Inl Assertion_Failed
      else result_bind (open_format_reader opener index_info sg e) (\<lambda>(sg, e).
        result_bind (array_size info sg) (\<lambda>n.
        if sum_list segment_lengths \<noteq> n then Inl Assertion_Failed
        else result_bind (create_segment_read_buffers info (consecutive_ranges 0 segment_lengths) sg) (\<lambda>sg. Inr (sg, e)))))"

definition segment_length :: "nat \<Rightarrow> ('v, 'r) segment_reader \<Rightarrow> error + nat" where
  "segment_length segment sg =
     (if sg_reader sg = None then Inl Assertion_Failed
      else if segment < length (sg_segment_lengths sg) then Inr (sg_segment_lengths sg ! segment)
      else Inl Undefined_Behaviour)"

definition array_read_rows ::
  "('c \<Rightarrow> nat \<Rightarrow> nat \<Rightarrow> 'v list \<Rightarrow> 'r \<Rightarrow> 'e \<Rightarrow> error + (nat \<times> 'v list \<times> 'r \<times> 'e)) \<Rightarrow> 'c \<Rightarrow> nat \<Rightarrow> nat \<Rightarrow> 'v list \<Rightarrow>
     ('v, 'r) segment_reader \<Rightarrow> 'e \<Rightarrow> error + (nat \<times> 'v list \<times> ('v, 'r) segment_reader \<times> 'e)"
where
  "array_read_rows read ch row_start row_end out_obj sg e = (case sg_reader sg of
     None \<Rightarrow> Inl Assertion_Failed
   | Some r \<Rightarrow> result_bind (read ch row_start row_end out_obj r e) (\<lambda>(n, out_obj, r, e).
       Inr (n, out_obj, sg\<lparr>sg_reader := Some r\<rparr>, e)))"

text \<open>An operation on the buffer of a segment.\<close>

definition with_buffer ::
  "nat \<Rightarrow> ('v reader_buffer \<Rightarrow> 'r \<Rightarrow> 'e \<Rightarrow> error + ('a \<times> 'v reader_buffer \<times> 'r \<times> 'e)) \<Rightarrow>
     ('v, 'r) segment_reader \<Rightarrow> 'e \<Rightarrow> error + ('a \<times> ('v, 'r) segment_reader \<times> 'e)"
where
  "with_buffer segmentid f sg e = (case sg_reader sg of
     None \<Rightarrow> Inl Undefined_Behaviour
   | Some r \<Rightarrow>
       if segmentid < length (sg_read_buffers sg) then
         result_bind (f (sg_read_buffers sg ! segmentid) r e) (\<lambda>(x, b, r, e).
         Inr (x, sg\<lparr>sg_reader := Some r, sg_read_buffers := (sg_read_buffers sg)[segmentid := b]\<rparr>, e))
       else Inl Undefined_Behaviour)"

definition array_begin ::
  "('c \<Rightarrow> nat \<Rightarrow> nat \<Rightarrow> 'v list \<Rightarrow> 'r \<Rightarrow> 'e \<Rightarrow> error + (nat \<times> 'v list \<times> 'r \<times> 'e)) \<Rightarrow> ('v \<Rightarrow> 'v) \<Rightarrow> 'v \<Rightarrow> 'c \<Rightarrow>
     nat \<Rightarrow> ('v, 'r) segment_reader \<Rightarrow> 'e \<Rightarrow> error + ('v sarray_iterator \<times> ('v, 'r) segment_reader \<times> 'e)"
where
  "array_begin read moved init ch segmentid sg e =
     (if segmentid \<in> sg_opened_segments sg then Inl Thrown
      else let sg = sg\<lparr>sg_opened_segments := insert segmentid (sg_opened_segments sg)\<rparr>
           in if sg_reader sg = None \<or> segmentid \<ge> sg_num_segments sg then Inl Thrown
              else with_buffer segmentid (iterator_new read moved init ch segmentid True) sg e)"

definition array_end :: "'v \<Rightarrow> nat \<Rightarrow> ('v, 'r) segment_reader \<Rightarrow> error + 'v sarray_iterator" where
  "array_end init segmentid sg =
     (if sg_reader sg = None \<or> segmentid \<ge> sg_num_segments sg then Inl Assertion_Failed
      else if segmentid < length (sg_read_buffers sg) then Inr (iterator_end init segmentid (sg_read_buffers sg ! segmentid))
      else Inl Undefined_Behaviour)"

definition array_increment ::
  "('c \<Rightarrow> nat \<Rightarrow> nat \<Rightarrow> 'v list \<Rightarrow> 'r \<Rightarrow> 'e \<Rightarrow> error + (nat \<times> 'v list \<times> 'r \<times> 'e)) \<Rightarrow> ('v \<Rightarrow> 'v) \<Rightarrow> 'c \<Rightarrow>
     'v sarray_iterator \<Rightarrow> ('v, 'r) segment_reader \<Rightarrow> 'e \<Rightarrow> error + ('v sarray_iterator \<times> ('v, 'r) segment_reader \<times> 'e)"
where
  "array_increment read moved ch it sg e = with_buffer (it_segmentid it) (iterator_increment read moved ch it) sg e"

definition reset_iterators :: "('v, 'r) segment_reader \<Rightarrow> ('v, 'r) segment_reader" where
  "reset_iterators sg = sg\<lparr>sg_opened_segments := {}, sg_read_buffers := map buffer_clear (sg_read_buffers sg)\<rparr>"

definition get_metadata ::
  "('r \<Rightarrow> index_file_information) \<Rightarrow> cstring \<Rightarrow> ('v, 'r) segment_reader \<Rightarrow> error + (bool \<times> cstring)" where
  "get_metadata info key sg = (case sg_reader sg of
     None \<Rightarrow> Inl Assertion_Failed
   | Some r \<Rightarrow> Inr (case map_of (ifi_metadata (info r)) key of Some v \<Rightarrow> (True, v) | None \<Rightarrow> (False, [])))"



section \<open>Reading through the buffers\<close>

text \<open>The buffer of the rows from \<open>lo\<close> up to \<open>hi\<close>, after \<open>k\<close> of them have been returned.\<close>

definition buffer_at :: "'v list \<Rightarrow> nat \<times> nat \<Rightarrow> nat \<Rightarrow> 'v reader_buffer \<Rightarrow> bool" where
  "buffer_at rows = (\<lambda>(lo, hi) k b. rb_original_row_start b = lo \<and> rb_row_end b = hi \<and> lo \<le> hi \<and> hi \<le> length rows \<and>
     hi < 2 ^ 64 \<and> rb_iter b = lo + k \<and> lo + k \<le> rb_row_start b \<and> rb_row_start b \<le> hi \<and> 0 < rb_buffer_size b \<and>
     rb_buffer_pos b \<le> length (rb_buffer b) \<and>
     drop (rb_buffer_pos b) (rb_buffer b) = take (rb_row_start b - (lo + k)) (drop (lo + k) rows))"

lemma buffer_atD:
  assumes "buffer_at rows (lo, hi) k b"
  shows "rb_original_row_start b = lo" "rb_row_end b = hi" "lo \<le> hi" "hi \<le> length rows" "hi < 2 ^ 64" "rb_iter b = lo + k"
    "lo + k \<le> rb_row_start b" "rb_row_start b \<le> hi" "0 < rb_buffer_size b" "rb_buffer_pos b \<le> length (rb_buffer b)"
    "drop (rb_buffer_pos b) (rb_buffer b) = take (rb_row_start b - (lo + k)) (drop (lo + k) rows)"
  using assms by (auto simp: buffer_at_def)

lemma buffer_at_init:
  assumes "lo \<le> hi" "hi \<le> length rows" "length rows < 2 ^ 64"
  shows "buffer_at rows (lo, hi) 0 (buffer_init (length rows) lo hi DEFAULT_SARRAY_READER_BUFFER_SIZE)"
  using assms by (simp add: buffer_at_def buffer_init_def DEFAULT_SARRAY_READER_BUFFER_SIZE_def)

lemma buffer_at_clear: "buffer_at rows (lo, hi) k b \<Longrightarrow> buffer_at rows (lo, hi) 0 (buffer_clear b)"
  by (simp add: buffer_at_def buffer_clear_def)

lemma wrap_difference: "a \<le> b \<Longrightarrow> b < 2 ^ 64 \<Longrightarrow> (b + 2 ^ 64 - a) mod 2 ^ 64 = (b - a :: nat)"
proof -
  assume a: "a \<le> b" "b < 2 ^ 64"
  then have "b + 2 ^ 64 - a = (b - a) + 2 ^ 64" by simp
  then show ?thesis using a by (simp only: mod_add_self2) simp
qed

lemma buffer_length_at: "buffer_at rows (lo, hi) k b \<Longrightarrow> buffer_length b = hi - lo"
  using wrap_difference[of lo hi] by (simp add: buffer_length_def buffer_at_def)

lemma buffer_has_next_at: "buffer_at rows (lo, hi) k b \<Longrightarrow> buffer_has_next b \<longleftrightarrow> lo + k < hi"
  by (simp add: buffer_has_next_def buffer_at_def)

lemma buffer_take_at:
  assumes a: "buffer_at rows (lo, hi) k b" and k: "lo + k < rb_row_start b"
  shows "rb_buffer_pos b < length (rb_buffer b)" "rb_buffer b ! rb_buffer_pos b = rows ! (lo + k)"
    "buffer_at rows (lo, hi) (Suc k) (b\<lparr>rb_iter := rb_iter b + 1, rb_buffer := (rb_buffer b)[rb_buffer_pos b := v],
        rb_buffer_pos := rb_buffer_pos b + 1\<rparr>)"
proof -
  note d = buffer_atD[OF a]
  have "length (drop (rb_buffer_pos b) (rb_buffer b)) = rb_row_start b - (lo + k)" unfolding d(11) using d k by simp
  then show p: "rb_buffer_pos b < length (rb_buffer b)" using k by simp
  have n: "rb_row_start b - (lo + k) = Suc (rb_row_start b - Suc (lo + k))" using k by simp
  have "drop (lo + k) rows = rows ! (lo + k) # drop (Suc (lo + k)) rows" using d(4,8) k by (simp add: Cons_nth_drop_Suc)
  then have c: "rb_buffer b ! rb_buffer_pos b # drop (Suc (rb_buffer_pos b)) (rb_buffer b) =
      rows ! (lo + k) # take (rb_row_start b - Suc (lo + k)) (drop (Suc (lo + k)) rows)"
    using d(11) Cons_nth_drop_Suc[OF p] unfolding n by simp
  then show "rb_buffer b ! rb_buffer_pos b = rows ! (lo + k)" by simp
  show "buffer_at rows (lo, hi) (Suc k) (b\<lparr>rb_iter := rb_iter b + 1, rb_buffer := (rb_buffer b)[rb_buffer_pos b := v],
        rb_buffer_pos := rb_buffer_pos b + 1\<rparr>)"
    using d k p c by (simp add: buffer_at_def)
qed

text \<open>The iterator of the segment \<open>s\<close> after \<open>k\<close> increments; its buffer is one row ahead.\<close>

definition iterator_at :: "'v list \<Rightarrow> nat \<times> nat \<Rightarrow> nat \<Rightarrow> nat \<Rightarrow> 'v sarray_iterator \<Rightarrow> bool" where
  "iterator_at rows = (\<lambda>(lo, hi) s k it. it_segmentid it = s \<and> it_num_elements it = hi - lo \<and>
     it_current_element_counter it = min k (hi - lo) \<and> (k < hi - lo \<longrightarrow> it_current_element it = rows ! (lo + k)))"

text \<open>What a format reader promises: reads return the rows asked for, and its index has their number.\<close>

locale array_source =
  fixes read :: "'c \<Rightarrow> nat \<Rightarrow> nat \<Rightarrow> 'v list \<Rightarrow> 'r \<Rightarrow> 'e \<Rightarrow> error + (nat \<times> 'v list \<times> 'r \<times> 'e)"
    and info :: "'r \<Rightarrow> index_file_information" and inv :: "'v list \<Rightarrow> 'r \<Rightarrow> 'e \<Rightarrow> bool" and allowed :: "'c \<Rightarrow> bool"
  assumes read_rows_law: "inv rows r e \<Longrightarrow> allowed ch \<Longrightarrow>
      \<exists>n r' e'. read ch a b out r e = Inr (n, take (b - a) (drop a rows), r', e') \<and> inv rows r' e'"
    and size_law: "inv rows r e \<Longrightarrow> sum_list (map unat (ifi_segment_sizes (info r))) = length rows"
begin

lemma buffer_next_law:
  assumes b: "buffer_at rows (lo, hi) k b" "lo + k < hi" and r: "inv rows r e" "allowed ch"
  shows "\<exists>b' r' e'. buffer_next read moved ch b r e = Inr (rows ! (lo + k), b', r', e') \<and>
    buffer_at rows (lo, hi) (Suc k) b' \<and> inv rows r' e'"
proof (cases "rb_buffer_pos b = length (rb_buffer b)")
  case True
  note d = buffer_atD[OF b(1)]
  have s: "rb_row_start b = lo + k" using d(11) True d(4,7,8) by auto
  let ?n = "min (hi - (lo + k)) (rb_buffer_size b)"
  from read_rows_law[OF r, of "lo + k" "lo + k + ?n" "rb_buffer b"] obtain n r' e' where
    rd: "read ch (lo + k) (lo + k + ?n) (rb_buffer b) r e = Inr (n, take ?n (drop (lo + k) rows), r', e')" "inv rows r' e'" by auto
  let ?b = "b\<lparr>rb_buffer := take ?n (drop (lo + k) rows), rb_row_start := lo + k + ?n, rb_buffer_pos := 0\<rparr>"
  have "buffer_refill read ch b r e = Inr (b\<lparr>rb_buffer := take ?n (drop (lo + k) rows), rb_row_start := lo + k + ?n\<rparr>, r', e')"
    using rd(1) wrap_difference[of "lo + k" hi] d b(2) by (simp add: buffer_refill_def Let_def s)
  moreover have at: "buffer_at rows (lo, hi) k ?b" using d b(2) by (simp add: buffer_at_def)
  moreover have "lo + k < rb_row_start ?b" using b(2) d(9) by simp
  note t = buffer_take_at[OF at this]
  ultimately show ?thesis using True t rd(2) by (simp add: buffer_next_def Let_def)
next
  case False
  note d = buffer_atD[OF b(1)]
  have "length (drop (rb_buffer_pos b) (rb_buffer b)) \<noteq> 0" using False d(10) by simp
  then have "lo + k < rb_row_start b" unfolding d(11) by simp
  from buffer_take_at[OF b(1) this] show ?thesis using False r(1) by (simp add: buffer_next_def Let_def)
qed

lemma iterator_new_law:
  assumes b: "buffer_at rows (lo, hi) 0 b" and r: "inv rows r e" "allowed ch"
  shows "\<exists>it b' r' e'. iterator_new read moved init ch s True b r e = Inr (it, b', r', e') \<and>
    iterator_at rows (lo, hi) s 0 it \<and> buffer_at rows (lo, hi) (min 1 (hi - lo)) b' \<and> inv rows r' e'"
proof (cases "lo < hi")
  case True
  then show ?thesis using buffer_next_law[OF b _ r, of moved] buffer_length_at[OF b]
    by (auto simp: iterator_new_def Let_def iterator_at_def min_def)
next
  case False
  then show ?thesis using b r(1) buffer_length_at[OF b] by (simp add: iterator_new_def Let_def iterator_at_def)
qed

lemma iterator_increment_law:
  assumes it: "iterator_at rows (lo, hi) s k it" and b: "buffer_at rows (lo, hi) (min (Suc k) (hi - lo)) b"
    and r: "inv rows r e" "allowed ch"
  shows "\<exists>it' b' r' e'. iterator_increment read moved ch it b r e = Inr (it', b', r', e') \<and>
    iterator_at rows (lo, hi) s (Suc k) it' \<and> buffer_at rows (lo, hi) (min (Suc (Suc k)) (hi - lo)) b' \<and> inv rows r' e'"
proof (cases "Suc k < hi - lo")
  case True
  then have m: "min (Suc k) (hi - lo) = Suc k" "min (Suc (Suc k)) (hi - lo) = Suc (Suc k)" by auto
  have "lo + Suc k < hi" using True by simp
  from buffer_next_law[OF b[unfolded m] this r, of moved] obtain b' r' e' where
    n: "buffer_next read moved ch b r e = Inr (rows ! (lo + Suc k), b', r', e')" "buffer_at rows (lo, hi) (Suc (Suc k)) b'" "inv rows r' e'"
    by blast
  then show ?thesis using True it buffer_has_next_at[OF b[unfolded m]] m
    by (auto simp: iterator_increment_def iterator_at_def)
next
  case False
  then have "\<not> buffer_has_next b" using buffer_has_next_at[OF b] by auto
  moreover have "min (Suc (Suc k)) (hi - lo) = min (Suc k) (hi - lo)" using False by auto
  ultimately show ?thesis using it b r(1) False by (auto simp: iterator_increment_def iterator_at_def)
qed

end

section \<open>Segments\<close>

text \<open>The ranges of the segments follow each other and cover the rows.\<close>

definition range_rows :: "'v list \<Rightarrow> nat \<times> nat \<Rightarrow> 'v list" where
  "range_rows rows = (\<lambda>(lo, hi). take (hi - lo) (drop lo rows))"

definition ranges_cover :: "'v list \<Rightarrow> (nat \<times> nat) list \<Rightarrow> bool" where
  "ranges_cover rows ranges \<longleftrightarrow> list_all (\<lambda>(lo, hi). lo \<le> hi \<and> hi \<le> length rows) ranges \<and>
     concat (map (range_rows rows) ranges) = rows"

lemma consecutive_ranges_from:
  "a + sum_list ns = length rows \<Longrightarrow> list_all (\<lambda>(lo, hi). lo \<le> hi \<and> hi \<le> length rows) (consecutive_ranges a ns) \<and>
     concat (map (range_rows rows) (consecutive_ranges a ns)) = drop a rows"
proof (induction ns arbitrary: a)
  case (Cons n ns)
  have "take n (drop a rows) @ drop (a + n) rows = drop a rows"
    using append_take_drop_id[of n "drop a rows"] by (simp add: add.commute)
  then show ?case using Cons.IH[of "a + n"] Cons.prems by (simp add: range_rows_def add.assoc)
qed simp

lemma consecutive_ranges_cover: "sum_list ns = length rows \<Longrightarrow> ranges_cover rows (consecutive_ranges 0 ns)"
  using consecutive_ranges_from[of 0 ns rows] by (simp add: ranges_cover_def)

lemma consecutive_ranges_nth: "i < length ns \<Longrightarrow> consecutive_ranges a ns ! i = (a + sum_list (take i ns), a + sum_list (take (Suc i) ns))"
  by (induction ns arbitrary: a i) (auto simp: nth_Cons' take_Cons' gr0_conv_Suc)

lemma length_consecutive_ranges [simp]: "length (consecutive_ranges a ns) = length ns"
  by (induction ns arbitrary: a) auto

text \<open>Without overflow, dividing the rows evenly is another such division.\<close>

lemma even_ranges_plain:
  assumes "n * len < 2 ^ 64" "0 < n"
  shows "even_ranges len n = map (\<lambda>i. (i * len div n, Suc i * len div n)) [0..<n]"
proof -
  have "i * len < 2 ^ 64" if "i \<le> n" for i using mult_le_mono1[OF that, of len] assms(1) by linarith
  then have "i * len mod 2 ^ 64 = i * len" "(i + 1) * len mod 2 ^ 64 = (i + 1) * len" if "i < n" for i
    using that by (simp_all only: mod_less Suc_eq_plus1[symmetric] Suc_le_eq less_imp_le)
  then show ?thesis unfolding even_ranges_def by (intro map_cong) (simp_all only: set_upt atLeastLessThan_iff Suc_eq_plus1)
qed

lemma even_prefix:
  fixes rows :: "'v list"
  assumes "0 < n" "k \<le> n"
  shows "concat (map (range_rows rows) (map (\<lambda>i. (i * length rows div n, Suc i * length rows div n)) [0..<k])) = take (k * length rows div n) rows"
  using assms(2)
proof (induction k)
  case (Suc k)
  have "k * length rows div n \<le> Suc k * length rows div n" by (rule div_le_mono) simp
  then have "take (Suc k * length rows div n) rows =
      take (k * length rows div n) rows @ take (Suc k * length rows div n - k * length rows div n) (drop (k * length rows div n) rows)"
    using take_add[of "k * length rows div n" "Suc k * length rows div n - k * length rows div n" rows] by simp
  then show ?case using Suc by (simp add: range_rows_def)
qed simp

lemma even_ranges_cover:
  assumes "n * length rows < 2 ^ 64" "0 < n"
  shows "ranges_cover rows (even_ranges (length rows) n)"
proof -
  have "i * length rows div n \<le> Suc i * length rows div n \<and> Suc i * length rows div n \<le> length rows" if "i < n" for i
  proof
    show "i * length rows div n \<le> Suc i * length rows div n" by (rule div_le_mono) simp
    have "Suc i * length rows \<le> n * length rows" using that by (intro mult_le_mono1) simp
    then show "Suc i * length rows div n \<le> length rows" using div_le_mono[of "Suc i * length rows" "n * length rows" n] assms(2) by simp
  qed
  then show ?thesis using even_prefix[OF assms(2) order_refl, of rows] assms(2)
    unfolding ranges_cover_def even_ranges_plain[OF assms] by (auto simp: list_all_iff)
qed

text \<open>The segments of an array, with \<open>pos s\<close> rows of the segment \<open>s\<close> returned.\<close>

definition segments_at ::
  "('v list \<Rightarrow> 'r \<Rightarrow> 'e \<Rightarrow> bool) \<Rightarrow> 'v list \<Rightarrow> (nat \<times> nat) list \<Rightarrow> (nat \<Rightarrow> nat) \<Rightarrow> ('v, 'r) segment_reader \<Rightarrow> 'e \<Rightarrow> bool"
where
  "segments_at I rows ranges pos sg e \<longleftrightarrow> (\<exists>r. sg_reader sg = Some r \<and> I rows r e) \<and>
     sg_num_segments sg = length ranges \<and> length (sg_read_buffers sg) = length ranges \<and>
     (\<forall>s<length ranges. buffer_at rows (ranges ! s) (pos s) (sg_read_buffers sg ! s))"

abbreviation range_length :: "nat \<times> nat \<Rightarrow> nat" where
  "range_length r \<equiv> snd r - fst r"

text \<open>Iterators to the beginnings of segments, and increments of iterators in any order.\<close>

fun begin_segments ::
  "('c \<Rightarrow> nat \<Rightarrow> nat \<Rightarrow> 'v list \<Rightarrow> 'r \<Rightarrow> 'e \<Rightarrow> error + (nat \<times> 'v list \<times> 'r \<times> 'e)) \<Rightarrow> ('v \<Rightarrow> 'v) \<Rightarrow> 'v \<Rightarrow>
     (nat \<times> 'c) list \<Rightarrow> ('v, 'r) segment_reader \<Rightarrow> 'e \<Rightarrow> error + ('v sarray_iterator list \<times> ('v, 'r) segment_reader \<times> 'e)"
where
  "begin_segments read moved init [] sg e = Inr ([], sg, e)"
| "begin_segments read moved init ((s, ch) # segs) sg e =
     result_bind (array_begin read moved init ch s sg e) (\<lambda>(it, sg, e).
     result_bind (begin_segments read moved init segs sg e) (\<lambda>(its, sg, e). Inr (it # its, sg, e)))"

fun increments ::
  "('c \<Rightarrow> nat \<Rightarrow> nat \<Rightarrow> 'v list \<Rightarrow> 'r \<Rightarrow> 'e \<Rightarrow> error + (nat \<times> 'v list \<times> 'r \<times> 'e)) \<Rightarrow> ('v \<Rightarrow> 'v) \<Rightarrow>
     (nat \<times> 'c) list \<Rightarrow> 'v sarray_iterator list \<Rightarrow> ('v, 'r) segment_reader \<Rightarrow> 'e \<Rightarrow>
     error + ('v sarray_iterator list \<times> ('v, 'r) segment_reader \<times> 'e)"
where
  "increments read moved [] its sg e = Inr (its, sg, e)"
| "increments read moved ((s, ch) # ops) its sg e =
     result_bind (array_increment read moved ch (its ! s) sg e) (\<lambda>(it, sg, e). increments read moved ops (its[s := it]) sg e)"

lemma segments_at_update:
  assumes "segments_at I rows ranges pos sg e" "s < length ranges" "I rows r e'" "buffer_at rows (ranges ! s) k b"
  shows "segments_at I rows ranges (pos(s := k)) (sg\<lparr>sg_reader := Some r, sg_read_buffers := (sg_read_buffers sg)[s := b]\<rparr>) e'"
  using assms by (auto simp: segments_at_def nth_list_update)

context array_source
begin

lemma with_buffer_law:
  assumes at: "segments_at inv rows ranges pos sg e" and s: "s < length ranges"
    and f: "\<And>r. inv rows r e \<Longrightarrow> \<exists>x b' r' e'. f (sg_read_buffers sg ! s) r e = Inr (x, b', r', e') \<and> P x \<and>
        buffer_at rows (ranges ! s) k b' \<and> inv rows r' e'"
  shows "\<exists>x sg' e'. with_buffer s f sg e = Inr (x, sg', e') \<and> P x \<and> segments_at inv rows ranges (pos(s := k)) sg' e' \<and>
    sg_opened_segments sg' = sg_opened_segments sg"
proof -
  obtain r where r: "sg_reader sg = Some r" "inv rows r e" using at by (auto simp: segments_at_def)
  from f[OF r(2)] obtain x b' r' e' where x: "f (sg_read_buffers sg ! s) r e = Inr (x, b', r', e')" "P x"
    "buffer_at rows (ranges ! s) k b'" "inv rows r' e'" by blast
  have "s < length (sg_read_buffers sg)" using at s by (simp add: segments_at_def)
  then show ?thesis using r x segments_at_update[OF at s x(4,3)] by (simp add: with_buffer_def)
qed

lemma array_begin_law:
  assumes at: "segments_at inv rows ranges pos sg e" and s: "s < length ranges" "pos s = 0" "s \<notin> sg_opened_segments sg"
    and ch: "allowed ch"
  shows "\<exists>it sg' e'. array_begin read moved init ch s sg e = Inr (it, sg', e') \<and> iterator_at rows (ranges ! s) s 0 it \<and>
    segments_at inv rows ranges (pos(s := min 1 (range_length (ranges ! s)))) sg' e' \<and>
    sg_opened_segments sg' = insert s (sg_opened_segments sg)"
proof -
  let ?sg = "sg\<lparr>sg_opened_segments := insert s (sg_opened_segments sg)\<rparr>"
  have at': "segments_at inv rows ranges pos ?sg e" using at by (simp add: segments_at_def)
  obtain lo hi where lh: "ranges ! s = (lo, hi)" by (cases "ranges ! s")
  have b: "buffer_at rows (lo, hi) 0 (sg_read_buffers sg ! s)" using at s lh by (auto simp: segments_at_def)
  have "\<exists>it sg' e'. with_buffer s (iterator_new read moved init ch s True) ?sg e = Inr (it, sg', e') \<and> iterator_at rows (ranges ! s) s 0 it \<and>
      segments_at inv rows ranges (pos(s := min 1 (range_length (ranges ! s)))) sg' e' \<and> sg_opened_segments sg' = sg_opened_segments ?sg"
    by (rule with_buffer_law[OF at' s(1)]) (use iterator_new_law[OF b _ ch] lh in simp)
  moreover have "sg_reader sg \<noteq> None" "s < sg_num_segments sg" using at s by (auto simp: segments_at_def)
  ultimately show ?thesis using s(3) by (simp add: array_begin_def Let_def)
qed

lemma array_increment_law:
  assumes at: "segments_at inv rows ranges pos sg e" and s: "s < length ranges" "pos s = min (Suc k) (range_length (ranges ! s))"
    and it: "iterator_at rows (ranges ! s) s k it" and ch: "allowed ch"
  shows "\<exists>it' sg' e'. array_increment read moved ch it sg e = Inr (it', sg', e') \<and> iterator_at rows (ranges ! s) s (Suc k) it' \<and>
    segments_at inv rows ranges (pos(s := min (Suc (Suc k)) (range_length (ranges ! s)))) sg' e' \<and>
    sg_opened_segments sg' = sg_opened_segments sg"
proof -
  obtain lo hi where lh: "ranges ! s = (lo, hi)" by (cases "ranges ! s")
  have b: "buffer_at rows (lo, hi) (min (Suc k) (hi - lo)) (sg_read_buffers sg ! s)" using at s lh by (auto simp: segments_at_def)
  have "it_segmentid it = s" using it by (simp add: iterator_at_def lh)
  then show ?thesis unfolding array_increment_def
    by (simp only:) (rule with_buffer_law[OF at s(1)], use iterator_increment_law[OF it[unfolded lh] b _ ch] lh in simp)
qed

end

context array_source
begin

lemma begin_segments_law:
  "segments_at inv rows ranges pos sg e \<Longrightarrow> (\<And>s. k \<le> s \<Longrightarrow> pos s = 0) \<Longrightarrow> sg_opened_segments sg \<subseteq> {..<k} \<Longrightarrow>
   k \<le> length ranges \<Longrightarrow> \<forall>s. allowed (ch s) \<Longrightarrow>
   \<exists>its sg' e'. begin_segments read moved init (map (\<lambda>s. (s, ch s)) [k..<length ranges]) sg e = Inr (its, sg', e') \<and>
     length its = length ranges - k \<and> (\<forall>i<length ranges - k. iterator_at rows (ranges ! (k + i)) (k + i) 0 (its ! i)) \<and>
     segments_at inv rows ranges (\<lambda>s. if k \<le> s then min 1 (range_length (ranges ! s)) else pos s) sg' e'"
proof (induction "length ranges - k" arbitrary: k pos sg e)
  case 0
  then have "k = length ranges" by simp
  moreover have "segments_at inv rows ranges (\<lambda>s. if k \<le> s then min 1 (range_length (ranges ! s)) else pos s) sg e"
    using 0 by (auto simp: segments_at_def)
  ultimately show ?case by simp
next
  case (Suc n)
  then have k: "k < length ranges" by simp
  let ?pos = "pos(k := min 1 (range_length (ranges ! k)))"
  have "k \<notin> sg_opened_segments sg" using Suc.prems(3) by auto
  from array_begin_law[OF Suc.prems(1) k Suc.prems(2)[OF order_refl] this, of "ch k" moved init] Suc.prems(5) obtain it sg1 e1 where
    b: "array_begin read moved init (ch k) k sg e = Inr (it, sg1, e1)" "iterator_at rows (ranges ! k) k 0 it"
      "segments_at inv rows ranges ?pos sg1 e1" "sg_opened_segments sg1 = insert k (sg_opened_segments sg)" by auto
  have "n = length ranges - Suc k" "sg_opened_segments sg1 \<subseteq> {..<Suc k}" using Suc.hyps(2) Suc.prems(3) b(4) by auto
  from Suc.hyps(1)[OF this(1) b(3) _ this(2)] Suc.prems k obtain its sg2 e2 where
    r: "begin_segments read moved init (map (\<lambda>s. (s, ch s)) [Suc k..<length ranges]) sg1 e1 = Inr (its, sg2, e2)"
      "length its = length ranges - Suc k" "\<forall>i<length ranges - Suc k. iterator_at rows (ranges ! (Suc k + i)) (Suc k + i) 0 (its ! i)"
      "segments_at inv rows ranges (\<lambda>s. if Suc k \<le> s then min 1 (range_length (ranges ! s)) else ?pos s) sg2 e2"
    by auto
  have "(\<lambda>s. if Suc k \<le> s then min 1 (range_length (ranges ! s)) else ?pos s) =
      (\<lambda>s. if k \<le> s then min 1 (range_length (ranges ! s)) else pos s)" (is "?f = ?g")
  proof
    show "?f s = ?g s" for s by (cases "s = k") auto
  qed
  moreover have "iterator_at rows (ranges ! (k + i)) (k + i) 0 ((it # its) ! i)" if "i < length ranges - k" for i
    using that b(2) r(3) by (cases i) auto
  ultimately show ?case using b(1) r k by (simp add: upt_conv_Cons)
qed

lemma increments_law:
  assumes "list_all (\<lambda>(s, ch). s < length ranges \<and> allowed ch) ops" "length its = length ranges"
    and "\<forall>s<length ranges. iterator_at rows (ranges ! s) s (ks s) (its ! s)"
    and "segments_at inv rows ranges (\<lambda>s. min (Suc (ks s)) (range_length (ranges ! s))) sg e"
  shows "\<exists>its' sg' e'. increments read moved ops its sg e = Inr (its', sg', e') \<and> length its' = length ranges \<and>
    (\<forall>s<length ranges. iterator_at rows (ranges ! s) s (ks s + count_list (map fst ops) s) (its' ! s)) \<and>
    segments_at inv rows ranges (\<lambda>s. min (Suc (ks s + count_list (map fst ops) s)) (range_length (ranges ! s))) sg' e'"
  using assms
proof (induction ops arbitrary: its ks sg e)
  case (Cons op ops)
  obtain s ch where op: "op = (s, ch)" by (cases op)
  have s: "s < length ranges" "allowed ch" using Cons.prems(1) by (simp_all add: op)
  from array_increment_law[OF Cons.prems(4) s(1) refl _ s(2), of "its ! s" moved] Cons.prems(3) s(1) obtain it sg1 e1 where
    i: "array_increment read moved ch (its ! s) sg e = Inr (it, sg1, e1)" "iterator_at rows (ranges ! s) s (Suc (ks s)) it"
      "segments_at inv rows ranges ((\<lambda>s. min (Suc (ks s)) (range_length (ranges ! s)))(s := min (Suc (Suc (ks s))) (range_length (ranges ! s)))) sg1 e1"
    by blast
  let ?ks = "ks(s := Suc (ks s))"
  have e: "(\<lambda>s. min (Suc (ks s)) (range_length (ranges ! s)))(s := min (Suc (Suc (ks s))) (range_length (ranges ! s))) =
      (\<lambda>s. min (Suc (?ks s)) (range_length (ranges ! s)))" by (auto simp: fun_eq_iff)
  have c: "?ks t + count_list (map fst ops) t = ks t + count_list (map fst (op # ops)) t" for t by (simp add: op)
  have "\<forall>t<length ranges. iterator_at rows (ranges ! t) t (?ks t) (its[s := it] ! t)"
    using Cons.prems(2,3) i(2) by (auto simp: nth_list_update)
  from Cons.IH[OF _ _ this i(3)[unfolded e], unfolded c] Cons.prems(1,2) i(1) show ?case by (simp add: op)
qed simp

lemma segments_ready:
  assumes r: "inv rows r e" and n: "length rows < 2 ^ 64" and c: "ranges_cover rows ranges"
    and sg: "sg_reader sg = Some r" "sg_opened_segments sg = {}"
  shows "\<exists>sg'. create_segment_read_buffers info ranges sg = Inr sg' \<and> segments_at inv rows ranges (\<lambda>_. 0) sg' e \<and>
    sg_opened_segments sg' = {}"
proof -
  have "lo \<le> hi \<and> hi \<le> length rows" if "(lo, hi) \<in> set ranges" for lo hi using c that by (auto simp: ranges_cover_def list_all_iff)
  then have "buffer_at rows (ranges ! s) 0 (case ranges ! s of (a, b) \<Rightarrow> buffer_init (length rows) a b DEFAULT_SARRAY_READER_BUFFER_SIZE)"
    if "s < length ranges" for s
    using that n nth_mem[OF that] by (cases "ranges ! s") (auto intro: buffer_at_init)
  then show ?thesis using r sg size_law[OF r] by (simp add: create_segment_read_buffers_def array_size_def segments_at_def)
qed

text \<open>Making the reader with the segments of the files, or with a number of segments of about equal length.\<close>

lemma array_init_law:
  assumes o: "opener 2 ix e = Inr (r, e')" "inv rows r e'" and n: "length rows < 2 ^ 64"
    and ix: "column_index ix sizes" "sum_list sizes = length rows"
    and num: "\<forall>k. num = Some k \<longrightarrow> 0 < k \<and> k * length rows < 2 ^ 64"
  shows "\<exists>sg. array_init opener info ix num segment_reader_new e = Inr (sg, e') \<and>
    segments_at inv rows (case num of None \<Rightarrow> consecutive_ranges 0 sizes | Some k \<Rightarrow> even_ranges (length rows) k) (\<lambda>_. 0) sg e' \<and>
    sg_opened_segments sg = {}"
proof -
  let ?sg = "segment_reader_new\<lparr>sg_reader := Some r\<rparr> :: ('v, 'r) segment_reader"
  have ofr: "open_format_reader opener ix segment_reader_new e = Inr (?sg, e')"
    using o(1) ix(1) by (simp add: open_format_reader_def column_index_def)
  have l: "length (ifi_segment_sizes ix) = length sizes" using ix(1) by (auto simp: column_index_def)
  have m: "map unat (take (ifi_nsegments ix) (ifi_segment_sizes ix)) = sizes" using ix(1) l by (simp add: column_index_def)
  have size: "array_size info ?sg = Inr (length rows)" using size_law[OF o(2)] by (simp add: array_size_def)
  have sg: "sg_reader ?sg = Some r" "sg_opened_segments ?sg = {}" by (simp_all add: segment_reader_new_def)
  have new: "sg_reader (segment_reader_new :: ('v, 'r) segment_reader) = None" by (simp add: segment_reader_new_def)
  show ?thesis
  proof (cases num)
    case None
    then show ?thesis using segments_ready[OF o(2) n consecutive_ranges_cover[OF ix(2)] sg] ofr m l ix(1) new
      by (auto simp: array_init_def column_index_def)
  next
    case (Some k)
    then show ?thesis using segments_ready[OF o(2) n even_ranges_cover sg, of k] num ofr size new
      by (auto simp: array_init_def)
  qed
qed

end

section \<open>Iterating over an array\<close>

text \<open>The ranges of the segments a reader is made with: those of the files, of the given sizes, or a number of
  ranges of about equal length.\<close>

definition array_ranges :: "nat option \<Rightarrow> nat list \<Rightarrow> (nat \<times> nat) list" where
  "array_ranges num sizes = (case num of None \<Rightarrow> consecutive_ranges 0 sizes | Some k \<Rightarrow> even_ranges (sum_list sizes) k)"

lemma array_ranges_cover:
  assumes "sum_list sizes = length rows" "\<forall>k. num = Some k \<longrightarrow> 0 < k \<and> k * length rows < 2 ^ 64"
  shows "ranges_cover rows (array_ranges num sizes)"
  using assms consecutive_ranges_cover[of sizes rows] even_ranges_cover[of _ rows] by (cases num) (auto simp: array_ranges_def)

lemma iterator_at_end:
  assumes "iterator_at rows (lo, hi) s k it" "buffer_at rows (lo, hi) j b"
  shows "iterator_equal it (iterator_end init s b) \<longleftrightarrow> hi - lo \<le> k"
  using assms buffer_length_at[OF assms(2)] by (auto simp: iterator_at_def iterator_equal_def iterator_end_def min_def)

text \<open>What the iterators to the segments show after the increments \<open>ops\<close>.\<close>

definition iterators_show ::
  "'v list \<Rightarrow> 'v \<Rightarrow> (nat \<times> nat) list \<Rightarrow> (nat \<Rightarrow> nat) \<Rightarrow> 'v sarray_iterator list \<Rightarrow> ('v, 'r) segment_reader \<Rightarrow> bool"
where
  "iterators_show rows init ranges ks its sg \<longleftrightarrow> (\<forall>s<length ranges. \<exists>last. array_end init s sg = Inr last \<and>
     (iterator_equal (its ! s) last \<longleftrightarrow> range_length (ranges ! s) \<le> ks s) \<and>
     (ks s < range_length (ranges ! s) \<longrightarrow> it_current_element (its ! s) = range_rows rows (ranges ! s) ! ks s))"

lemma iterators_showI:
  assumes it: "\<forall>s<length ranges. iterator_at rows (ranges ! s) s (ks s) (its ! s)" and at: "segments_at I rows ranges pos sg e"
    and c: "ranges_cover rows ranges"
  shows "iterators_show rows init ranges ks its sg"
  unfolding iterators_show_def
proof (intro allI impI)
  fix s assume s: "s < length ranges"
  obtain lo hi where lh: "ranges ! s = (lo, hi)" by (cases "ranges ! s")
  have b: "buffer_at rows (lo, hi) (pos s) (sg_read_buffers sg ! s)" and i: "iterator_at rows (lo, hi) s (ks s) (its ! s)"
    using at it s lh by (auto simp: segments_at_def)
  have "hi \<le> length rows" using c nth_mem[OF s] by (auto simp: ranges_cover_def list_all_iff lh)
  then have "ks s < hi - lo \<Longrightarrow> it_current_element (its ! s) = range_rows rows (lo, hi) ! ks s"
    using i by (simp add: iterator_at_def range_rows_def)
  moreover have "array_end init s sg = Inr (iterator_end init s (sg_read_buffers sg ! s))"
    using at s by (auto simp: array_end_def segments_at_def)
  ultimately show "\<exists>last. array_end init s sg = Inr last \<and> (iterator_equal (its ! s) last \<longleftrightarrow> range_length (ranges ! s) \<le> ks s) \<and>
     (ks s < range_length (ranges ! s) \<longrightarrow> it_current_element (its ! s) = range_rows rows (ranges ! s) ! ks s)"
    using iterator_at_end[OF i b, of init] by (simp add: lh)
qed

context array_source
begin

lemma iterators_law:
  assumes o: "opener 2 ix e = Inr (r, e')" "inv rows r e'" and n: "length rows < 2 ^ 64"
    and ix: "column_index ix sizes" "sum_list sizes = length rows"
    and num: "\<forall>k. num = Some k \<longrightarrow> 0 < k \<and> k * length rows < 2 ^ 64"
    and ch: "\<forall>s. allowed (ch s)" and ops: "list_all (\<lambda>(s, ch). s < length (array_ranges num sizes) \<and> allowed ch) ops"
  shows "\<exists>sg its sg1 e1 its' sg2 e2. array_init opener info ix num segment_reader_new e = Inr (sg, e') \<and>
    begin_segments read moved init (map (\<lambda>s. (s, ch s)) [0..<sg_num_segments sg]) sg e' = Inr (its, sg1, e1) \<and>
    increments read moved ops its sg1 e1 = Inr (its', sg2, e2) \<and>
    iterators_show rows init (array_ranges num sizes) (count_list (map fst ops)) its' sg2"
proof -
  let ?rs = "array_ranges num sizes"
  have r: "(case num of None \<Rightarrow> consecutive_ranges 0 sizes | Some k \<Rightarrow> even_ranges (length rows) k) = ?rs"
    by (simp only: array_ranges_def ix(2))
  obtain sg where i: "array_init opener info ix num segment_reader_new e = Inr (sg, e')" "segments_at inv rows ?rs (\<lambda>_. 0) sg e'"
      "sg_opened_segments sg = {}"
    using array_init_law[where opener = opener, OF o n ix num] unfolding r by blast
  have ns: "sg_num_segments sg = length ?rs" using i(2) by (simp add: segments_at_def)
  from begin_segments_law[OF i(2), of 0 ch moved init] i(3) ch obtain its sg1 e1 where
    b: "begin_segments read moved init (map (\<lambda>s. (s, ch s)) [0..<length ?rs]) sg e' = Inr (its, sg1, e1)" "length its = length ?rs"
      "\<forall>s<length ?rs. iterator_at rows (?rs ! s) s 0 (its ! s)" "segments_at inv rows ?rs (\<lambda>s. min 1 (range_length (?rs ! s))) sg1 e1"
    by auto
  have b4: "segments_at inv rows ?rs (\<lambda>s. min (Suc 0) (range_length (?rs ! s))) sg1 e1" using b(4) by simp
  from increments_law[where ks = "\<lambda>_. 0" and moved = moved, OF ops b(2) _ b4] b(3) obtain its' sg2 e2 where
    c: "increments read moved ops its sg1 e1 = Inr (its', sg2, e2)"
      "\<forall>s<length ?rs. iterator_at rows (?rs ! s) s (count_list (map fst ops) s) (its' ! s)"
      "segments_at inv rows ?rs (\<lambda>s. min (Suc (count_list (map fst ops) s)) (range_length (?rs ! s))) sg2 e2" by auto
  show ?thesis using i(1) ns b(1) c(1) iterators_showI[OF c(2,3) array_ranges_cover[OF ix(2) num], of init] by auto
qed

end

text \<open>Any column reader is such a source.\<close>

sublocale column_reader \<subseteq> array: array_source "\<lambda>ch. read fs ch False" sr_index_info
    "\<lambda>rows rd bm. \<exists>blocks. concat blocks = rows \<and> inv fs blocks rd bm" choices_ok
  for fs
proof unfold_locales
  fix rows r e and ch :: "nat \<Rightarrow> 'v choices" and a b out
  assume "\<exists>blocks. concat blocks = rows \<and> inv fs blocks r e" "choices_ok ch"
  then show "\<exists>n r' e'. read fs ch False a b out r e = Inr (n, take (b - a) (drop a rows), r', e') \<and>
      (\<exists>blocks. concat blocks = rows \<and> inv fs blocks r' e')"
    using read_law by blast
next
  fix rows r e
  assume "\<exists>blocks. concat blocks = rows \<and> inv fs blocks r e"
  then show "sum_list (map unat (ifi_segment_sizes (sr_index_info r))) = length rows"
    using inv_column by (auto simp: column_of_def)
qed

section \<open>From the writer to the iterators\<close>

lemma sum_indicator: "distinct xs \<Longrightarrow> sum_list (map (\<lambda>x. if x = a \<and> P then 1 else 0) xs) \<le> (1 :: nat)"
  by (induction xs) (auto simp: sum_list_eq_0_iff)

lemma pushed_total:
  "sum_list (map (\<lambda>s. length (pushed vals reqs s c)) [0..<n]) \<le> sum_list (map (\<lambda>s. length (vals s c)) [0..<n]) + length reqs"
proof (induction reqs arbitrary: vals)
  case (Cons req reqs)
  obtain s' c' t where r: "req = (s', c', t)" by (metis prod_cases3)
  have l: "length (push s' c' t vals s c) = length (vals s c) + (if s = s' \<and> c = c' then 1 else 0)" for s
    by (simp add: push_def)
  have "sum_list (map (\<lambda>s. length (push s' c' t vals s c)) [0..<n]) \<le> sum_list (map (\<lambda>s. length (vals s c)) [0..<n]) + 1"
    unfolding l sum_list_addf using sum_indicator[where xs = "[0..<n]" and a = s' and P = "c = c'"] by simp
  then show ?case using Cons[of "push s' c' t vals"] by (simp add: r del: fun_upd_apply)
qed simp

context column_store
begin

lemma columns_iterated:
  fixes moved :: "'v \<Rightarrow> 'v"
  defines "sizes \<equiv> \<lambda>nsegs reqs c. map (\<lambda>s. length (pushed (\<lambda>_ _. []) reqs s c)) [0..<nsegs]"
  assumes fss: "fs_sound good" and good: "\<forall>s<nsegs. good (segment_filename index_file s) 0"
    and start: "index_file = [] \<or> \<not> isspace (hd index_file)"
    and req: "\<forall>(s, c, t)\<in>set reqs. s < nsegs \<and> c < ncols" "length reqs < 2 ^ 64"
    and ok: "\<forall>s<nsegs. \<forall>c<ncols. \<forall>data. sublist data (pushed (\<lambda>_ _. []) reqs s c) \<longrightarrow> data \<noteq> [] \<longrightarrow> ok data"
    and c: "c < ncols" "c < 2 ^ 63"
    and bm: "manager_step\<^sup>*\<^sup>* block_manager_new bm" "\<forall>s<nsegs. bm_file_to_segments bm (segment_filename index_file s) = None"
    and num: "\<forall>k. num = Some k \<longrightarrow> 0 < k \<and> k * length (column_values nsegs reqs c) < 2 ^ 64"
    and ch: "\<forall>s. choices_ok (ch s)" and ops: "list_all (\<lambda>(s, ch). s < length (array_ranges num (sizes nsegs reqs c)) \<and> choices_ok ch) ops"
  shows "\<exists>r gw fs'. store_group put good index_file nsegs ncols reqs fs = (r, gw, fs') \<and>
    (r = Inl Io_Failure \<and> (\<exists>s<nsegs. \<not> stream_good good (segment_filename index_file s) fs') \<or>
     r = Inr () \<and> (\<exists>sg bm' its sg1 bm1 its' sg2 bm2.
       array_init (\<lambda>_ ix. open_reader mem fs' ix sarray_reader_new) sr_index_info (gi_columns (bw_index_info (gw_writer gw)) ! c) num
         segment_reader_new bm = Inr (sg, bm') \<and>
       begin_segments (\<lambda>ch. read fs' ch False) moved init (map (\<lambda>s. (s, ch s)) [0..<sg_num_segments sg]) sg bm' = Inr (its, sg1, bm1) \<and>
       increments (\<lambda>ch. read fs' ch False) moved ops its sg1 bm1 = Inr (its', sg2, bm2) \<and>
       iterators_show (column_values nsegs reqs c) init (array_ranges num (sizes nsegs reqs c)) (count_list (map fst ops)) its' sg2))"
proof -
  let ?ix = "\<lambda>gw. gi_columns (bw_index_info (gw_writer gw)) ! c" and ?rows = "column_values nsegs reqs c"
  let ?open = "\<lambda>fs' _ ix. open_reader mem fs' ix sarray_reader_new"
  have sum: "sum_list (sizes nsegs reqs c) = length ?rows"
    by (simp add: sizes_def column_values_def length_concat comp_def)
  then have n: "length ?rows < 2 ^ 64" using pushed_total[of "\<lambda>_ _. []" reqs c nsegs] req(2) by (simp add: sizes_def)
  from columns_open[where fs = fs and mem = mem, OF fss good start req ok c bm] obtain r gw fs' where
    w: "store_group put good index_file nsegs ncols reqs fs = (r, gw, fs')" and
    res: "r = Inl Io_Failure \<and> (\<exists>s<nsegs. \<not> stream_good good (segment_filename index_file s) fs') \<or>
      r = Inr () \<and> column_index (?ix gw) (sizes nsegs reqs c) \<and> (\<exists>rd bm' blocks. ?open fs' 2 (?ix gw) bm = Inr (rd, bm') \<and>
        concat blocks = ?rows \<and> column_opened E unlz4 fs' blocks rd bm')"
    unfolding sizes_def by blast
  have "\<exists>sg its sg1 bm1 its' sg2 bm2. array_init (?open fs') sr_index_info (?ix gw) num segment_reader_new bm = Inr (sg, bm') \<and>
      begin_segments (\<lambda>ch. read fs' ch False) moved init (map (\<lambda>s. (s, ch s)) [0..<sg_num_segments sg]) sg bm' = Inr (its, sg1, bm1) \<and>
      increments (\<lambda>ch. read fs' ch False) moved ops its sg1 bm1 = Inr (its', sg2, bm2) \<and>
      iterators_show ?rows init (array_ranges num (sizes nsegs reqs c)) (count_list (map fst ops)) its' sg2"
    if i: "column_index (?ix gw) (sizes nsegs reqs c)" and o: "?open fs' 2 (?ix gw) bm = Inr (rd, bm')"
      "concat blocks = ?rows" "column_opened E unlz4 fs' blocks rd bm'" for rd bm' blocks
  proof -
    have b: "\<exists>blocks. concat blocks = ?rows \<and> inv fs' blocks rd bm'" using opened_inv[OF o(3)] o(2) by blast
    show ?thesis by (rule array.iterators_law[where opener = "?open fs'" and r = rd, OF o(1) b n i sum num ch ops])
  qed
  note read = this
  from res consider "r = Inl Io_Failure \<and> (\<exists>s<nsegs. \<not> stream_good good (segment_filename index_file s) fs')"
    | rd bm' blocks where "r = Inr ()" "column_index (?ix gw) (sizes nsegs reqs c)" "?open fs' 2 (?ix gw) bm = Inr (rd, bm')"
        "concat blocks = ?rows" "column_opened E unlz4 fs' blocks rd bm'" by blast
  then show ?thesis
  proof cases
    case 1
    then show ?thesis using w by (intro exI[of _ r] exI[of _ gw] exI[of _ fs']) simp
  next
    case 2
    from read[OF 2(2-5)] show ?thesis
      by (intro exI[of _ r] exI[of _ gw] exI[of _ fs']) (use w 2(1) in blast)
  qed
qed

end


end
