(* ===== verification/Hash64.thy ===== *)
theory Hash64
  imports Prelude
begin

text \<open>
  The hash of integers (\<open>SimpleIntegerHash64\<close> and \<open>hash64\<close> of \<open>util/cityhash_gl.hpp\<close>). The comment in the
  code says that it is a one-to-one map; it is, and its inverse is given here.
\<close>

definition k0 :: u64 where "k0 = 0xc3a5c85c97cb3127"

definition SimpleIntegerHash64 :: "u64 \<Rightarrow> u64" where
  "SimpleIntegerHash64 s =
     (let m = 0xc6a4a7935bd1e995; k = s XOR k0; k = k * m; k = k XOR drop_bit 47 k; k = k * m in k)"

definition hash64 :: "u64 \<Rightarrow> u64" where
  "hash64 v = SimpleIntegerHash64 v"

definition unhash64 :: "u64 \<Rightarrow> u64" where
  "unhash64 k =
     (let m' = 0x5f7a0ea7e59b19bd; k = k * m'; k = k XOR drop_bit 47 k; k = k * m' in k XOR k0)"

lemma xor_shift_twice: "(k XOR drop_bit 47 k) XOR drop_bit 47 (k XOR drop_bit 47 k) = (k :: u64)"
  by (rule bit_word_eqI) (auto simp: bit_simps dest: bit_imp_le_length)

lemma hash_factors: "(0xc6a4a7935bd1e995 * 0x5f7a0ea7e59b19bd :: u64) = 1" "(0x5f7a0ea7e59b19bd * 0xc6a4a7935bd1e995 :: u64) = 1"
  by simp_all

lemma hash_factor: "(x * 0xc6a4a7935bd1e995) * 0x5f7a0ea7e59b19bd = (x :: u64)"
  "(x * 0x5f7a0ea7e59b19bd) * 0xc6a4a7935bd1e995 = (x :: u64)"
  by (simp_all only: mult.assoc hash_factors mult_1_right)

lemma xor_k0_twice: "(x XOR k0) XOR k0 = x"
  by (simp add: xor.assoc)

lemma unhash64_hash64: "unhash64 (hash64 v) = v"
  unfolding unhash64_def hash64_def SimpleIntegerHash64_def Let_def hash_factor xor_shift_twice xor_k0_twice ..

lemma hash64_unhash64: "hash64 (unhash64 v) = v"
  unfolding unhash64_def hash64_def SimpleIntegerHash64_def Let_def hash_factor xor_shift_twice xor_k0_twice ..

text \<open>C33. The hash of 64-bit integers is a bijection.\<close>

theorem hash64_bijection: "bij hash64"
  by (rule bij_betw_byWitness[where f' = unhash64]) (auto simp: unhash64_hash64 hash64_unhash64)

end
