(* ===== verification/Sketches.thy ===== *)
theory Sketches
  imports Hash64
begin

text \<open>
  The count-min sketch (\<open>sketches/countmin.hpp\<close>) and the buckets of the hyperloglog sketch
  (\<open>sketches/hyperloglog.hpp\<close>). \<open>hsh\<close> is \<open>std::hash\<close> on the type of the items. The draws of the random
  generator are the argument \<open>seeds\<close> of the constructor.
\<close>

section \<open>Count-min\<close>

record countmin =
  cm_num_hash :: nat
  cm_num_bits :: nat
  cm_num_bins :: nat
  cm_seeds :: "u64 list"
  cm_counts :: "u64 list list"

text \<open>\<open>1 << num_bits\<close> is computed in \<open>int\<close>.\<close>

definition countmin_new :: "nat \<Rightarrow> u64 list \<Rightarrow> error + countmin" where
  "countmin_new bits seeds =
     (if \<not> bits < 31 then Inl Undefined_Behaviour
      else if \<not> 2 ^ bits \<ge> (16 :: nat) then Inl Assertion_Failed
      else Inr \<lparr>cm_num_hash = length seeds, cm_num_bits = bits, cm_num_bins = 2 ^ bits, cm_seeds = seeds,
        cm_counts = replicate (length seeds) (replicate (2 ^ bits) 0)\<rparr>)"

definition cm_bin :: "countmin \<Rightarrow> nat \<Rightarrow> u64 \<Rightarrow> nat" where
  "cm_bin cm j i = unat (hash64 (cm_seeds cm ! j XOR i)) mod cm_num_bins cm"

definition cm_add :: "('a \<Rightarrow> u64) \<Rightarrow> 'a \<Rightarrow> u64 \<Rightarrow> countmin \<Rightarrow> countmin" where
  "cm_add hsh t count cm =
     (let i = hash64 (hsh t)
      in cm\<lparr>cm_counts := foldl (\<lambda>counts j. counts[j := (counts ! j)[cm_bin cm j i := counts ! j ! cm_bin cm j i + count]])
            (cm_counts cm) [0..<cm_num_hash cm]\<rparr>)"

definition cm_estimate :: "('a \<Rightarrow> u64) \<Rightarrow> 'a \<Rightarrow> countmin \<Rightarrow> u64" where
  "cm_estimate hsh t cm =
     (let i = hash64 (hsh t)
      in foldl (\<lambda>E j. if cm_counts cm ! j ! cm_bin cm j i < E then cm_counts cm ! j ! cm_bin cm j i else E)
           (- 1) [0..<cm_num_hash cm])"

definition cm_combine :: "countmin \<Rightarrow> countmin \<Rightarrow> error + countmin" where
  "cm_combine cm other =
     (if cm_num_bins cm \<noteq> cm_num_bins other \<or> cm_num_hash cm \<noteq> cm_num_hash other then Inl Assertion_Failed
      else Inr (cm\<lparr>cm_counts := foldl (\<lambda>counts j. counts[j := foldl (\<lambda>row b. row[b := row ! b + cm_counts other ! j ! b])
             (counts ! j) [0..<cm_num_bins cm]]) (cm_counts cm) [0..<cm_num_hash cm]\<rparr>))"

fun cm_add_all :: "('a \<Rightarrow> u64) \<Rightarrow> ('a \<times> u64) list \<Rightarrow> countmin \<Rightarrow> countmin" where
  "cm_add_all hsh [] cm = cm"
| "cm_add_all hsh ((t, count) # xs) cm = cm_add_all hsh xs (cm_add hsh t count cm)"

subsection \<open>Loops over an array\<close>

lemma foldl_update:
  "length (foldl (\<lambda>xs j. xs[j := f j (xs ! j)]) xs [0..<n]) = length xs \<and>
   (\<forall>k<length xs. foldl (\<lambda>xs j. xs[j := f j (xs ! j)]) xs [0..<n] ! k = (if k < n then f k (xs ! k) else xs ! k))"
proof (induction n)
  case (Suc n)
  then show ?case by (auto simp: nth_list_update less_Suc_eq)
qed simp

lemma foldl_update_length [simp]: "length (foldl (\<lambda>xs j. xs[j := f j (xs ! j)]) xs [0..<n]) = length xs"
  using foldl_update by blast

lemma foldl_update_nth [simp]:
  "k < n \<Longrightarrow> n \<le> length xs \<Longrightarrow> foldl (\<lambda>xs j. xs[j := f j (xs ! j)]) xs [0..<n] ! k = f k (xs ! k)"
  using foldl_update[of f xs n] by auto

subsection \<open>What the counters hold\<close>

text \<open>The sum of the counts of the items that fall into a bin.\<close>

definition bin_total :: "('a \<Rightarrow> u64) \<Rightarrow> countmin \<Rightarrow> nat \<Rightarrow> nat \<Rightarrow> ('a \<times> u64) list \<Rightarrow> nat" where
  "bin_total hsh cm j b xs = sum_list (map (unat \<circ> snd) (filter (\<lambda>(t, _). cm_bin cm j (hash64 (hsh t)) = b) xs))"

definition item_total :: "'a \<Rightarrow> ('a \<times> u64) list \<Rightarrow> nat" where
  "item_total t xs = sum_list (map (unat \<circ> snd) (filter (\<lambda>(t', _). t' = t) xs))"

definition stream_total :: "('a \<times> u64) list \<Rightarrow> nat" where
  "stream_total xs = sum_list (map (unat \<circ> snd) xs)"

definition cm_wf :: "countmin \<Rightarrow> bool" where
  "cm_wf cm \<longleftrightarrow> 0 < cm_num_bins cm \<and> length (cm_seeds cm) = cm_num_hash cm \<and> length (cm_counts cm) = cm_num_hash cm \<and>
     (\<forall>j<cm_num_hash cm. length (cm_counts cm ! j) = cm_num_bins cm)"

text \<open>The sketch holds the items \<open>xs\<close>.\<close>

definition cm_holds :: "('a \<Rightarrow> u64) \<Rightarrow> ('a \<times> u64) list \<Rightarrow> countmin \<Rightarrow> bool" where
  "cm_holds hsh xs cm \<longleftrightarrow> cm_wf cm \<and>
     (\<forall>j<cm_num_hash cm. \<forall>b<cm_num_bins cm. cm_counts cm ! j ! b = of_nat (bin_total hsh cm j b xs))"

definition same_hash :: "countmin \<Rightarrow> countmin \<Rightarrow> bool" where
  "same_hash cm cm' \<longleftrightarrow> cm_num_hash cm' = cm_num_hash cm \<and> cm_num_bins cm' = cm_num_bins cm \<and> cm_seeds cm' = cm_seeds cm"

lemma same_hash_bin: "same_hash cm cm' \<Longrightarrow> cm_bin cm' j i = cm_bin cm j i"
  by (simp add: same_hash_def cm_bin_def)

lemma same_hash_total: "same_hash cm cm' \<Longrightarrow> bin_total hsh cm' j b xs = bin_total hsh cm j b xs"
  by (simp add: bin_total_def same_hash_bin)

lemma bin_total_append: "bin_total hsh cm j b (xs @ ys) = bin_total hsh cm j b xs + bin_total hsh cm j b ys"
  by (simp add: bin_total_def)

lemma cm_bin_less: "cm_wf cm \<Longrightarrow> cm_bin cm j i < cm_num_bins cm"
  by (simp add: cm_wf_def cm_bin_def)

lemma cm_add_holds:
  assumes "cm_holds hsh xs cm"
  shows "cm_holds hsh (xs @ [(t, count)]) (cm_add hsh t count cm)" "same_hash cm (cm_add hsh t count cm)"
proof -
  let ?i = "hash64 (hsh t)" and ?cm = "cm_add hsh t count cm"
  have wf: "cm_wf cm" using assms by (simp add: cm_holds_def)
  show s: "same_hash cm ?cm" by (simp add: same_hash_def cm_add_def Let_def)
  have row: "cm_counts ?cm ! j = (cm_counts cm ! j)[cm_bin cm j ?i := cm_counts cm ! j ! cm_bin cm j ?i + count]"
    if "j < cm_num_hash cm" for j
    using that wf foldl_update_nth[where f = "\<lambda>j row. row[cm_bin cm j ?i := row ! cm_bin cm j ?i + count]"
        and n = "cm_num_hash cm" and xs = "cm_counts cm"] by (simp add: cm_add_def Let_def cm_wf_def)
  have len: "length (cm_counts ?cm) = length (cm_counts cm)"
    using foldl_update_length[where f = "\<lambda>j row. row[cm_bin cm j ?i := row ! cm_bin cm j ?i + count]"]
    by (simp add: cm_add_def Let_def)
  have "cm_wf ?cm" using wf s row len by (simp add: cm_wf_def same_hash_def)
  moreover have "cm_counts ?cm ! j ! b = of_nat (bin_total hsh cm j b (xs @ [(t, count)]))"
    if "j < cm_num_hash cm" "b < cm_num_bins cm" for j b
  proof -
    have "cm_counts cm ! j ! b = of_nat (bin_total hsh cm j b xs)" "length (cm_counts cm ! j) = cm_num_bins cm"
      using assms wf that by (simp_all add: cm_holds_def cm_wf_def)
    then show ?thesis using that row cm_bin_less[OF wf, of j ?i] by (auto simp: nth_list_update bin_total_def)
  qed
  ultimately show "cm_holds hsh (xs @ [(t, count)]) ?cm"
    using s by (simp add: cm_holds_def same_hash_total[OF s]) (simp add: same_hash_def)
qed

lemma cm_add_all_holds:
  "cm_holds hsh ys cm \<Longrightarrow> cm_holds hsh (ys @ xs) (cm_add_all hsh xs cm) \<and> same_hash cm (cm_add_all hsh xs cm)"
proof (induction xs arbitrary: ys cm)
  case (Cons x xs)
  obtain t count where x: "x = (t, count)" by (metis prod.exhaust)
  from Cons.IH[OF cm_add_holds(1)[OF Cons.prems, of t count]] cm_add_holds(2)[OF Cons.prems, of t count]
  show ?case by (auto simp: x same_hash_def)
qed (simp add: same_hash_def)

lemma countmin_new_holds: "countmin_new bits seeds = Inr cm \<Longrightarrow> cm_holds hsh [] cm"
  by (auto simp: countmin_new_def cm_holds_def cm_wf_def bin_total_def split: if_splits)

subsection \<open>The estimate\<close>

lemma foldl_min:
  fixes f :: "nat \<Rightarrow> u64"
  shows "foldl (\<lambda>E j. if f j < E then f j else E) e js \<le> e \<and>
    (\<forall>j\<in>set js. foldl (\<lambda>E j. if f j < E then f j else E) e js \<le> f j) \<and>
    (foldl (\<lambda>E j. if f j < E then f j else E) e js = e \<or> (\<exists>j\<in>set js. foldl (\<lambda>E j. if f j < E then f j else E) e js = f j))"
proof (induction js arbitrary: e)
  case (Cons j js)
  let ?e = "if f j < e then f j else e"
  from Cons[of ?e] show ?case by (auto split: if_splits intro: order.trans less_imp_le)
qed simp

lemma sum_filter_mono: "(\<forall>x\<in>set xs. P x \<longrightarrow> Q x) \<Longrightarrow> sum_list (map f (filter P xs)) \<le> sum_list (map f (filter Q xs) :: nat list)"
  by (induction xs) auto

lemma sum_filter_le: "sum_list (map f (filter P xs)) \<le> sum_list (map f xs :: nat list)"
  by (induction xs) auto

lemma cm_estimate_law:
  assumes h: "cm_holds hsh xs cm" and small: "stream_total xs < 2 ^ 64" and n: "0 < cm_num_hash cm"
  shows "item_total t xs \<le> unat (cm_estimate hsh t cm) \<and> unat (cm_estimate hsh t cm) \<le> stream_total xs"
proof -
  let ?f = "\<lambda>j. cm_counts cm ! j ! cm_bin cm j (hash64 (hsh t))" and ?n = "cm_num_hash cm"
  have f: "item_total t xs \<le> unat (?f j) \<and> unat (?f j) \<le> stream_total xs" if "j < ?n" for j
  proof -
    let ?T = "bin_total hsh cm j (cm_bin cm j (hash64 (hsh t))) xs"
    have wf: "cm_wf cm" using h by (simp add: cm_holds_def)
    have "?f j = of_nat ?T" using h that cm_bin_less[OF wf] by (simp add: cm_holds_def)
    moreover have "?T \<le> stream_total xs" unfolding bin_total_def stream_total_def by (rule sum_filter_le)
    moreover have "item_total t xs \<le> ?T" unfolding bin_total_def item_total_def by (rule sum_filter_mono) auto
    ultimately show ?thesis using small by (simp add: unat_of_nat_u64)
  qed
  let ?E = "foldl (\<lambda>E j. if ?f j < E then ?f j else E) (- 1) [0..<?n]"
  have E: "cm_estimate hsh t cm = ?E" by (simp add: cm_estimate_def Let_def)
  note m = foldl_min[of ?f "- 1" "[0..<?n]"]
  have "\<exists>j<?n. ?E = ?f j"
  proof (cases "?E = - 1")
    case True
    then have "- 1 \<le> ?f 0" using m n by auto
    then have "?f 0 = - 1" by (simp add: word_order.extremum_unique)
    then show ?thesis using n True by auto
  qed (use m in auto)
  then show ?thesis unfolding E using f by auto
qed

subsection \<open>Combining\<close>

lemma cm_combine_holds:
  assumes a: "cm_holds hsh xs cm" and b: "cm_holds hsh ys cm'" and s: "same_hash cm cm'" and c: "cm_combine cm cm' = Inr r"
  shows "cm_holds hsh (xs @ ys) r" "same_hash cm r"
proof -
  let ?n = "cm_num_bins cm"
  have wf: "cm_wf cm" using a by (simp add: cm_holds_def)
  have r: "r = cm\<lparr>cm_counts := foldl (\<lambda>counts j. counts[j := foldl (\<lambda>row b. row[b := row ! b + cm_counts cm' ! j ! b])
             (counts ! j) [0..<?n]]) (cm_counts cm) [0..<cm_num_hash cm]\<rparr>"
    using c by (simp add: cm_combine_def split: if_splits)
  show sh: "same_hash cm r" by (simp add: same_hash_def r)
  have row: "cm_counts r ! j = foldl (\<lambda>row b. row[b := row ! b + cm_counts cm' ! j ! b]) (cm_counts cm ! j) [0..<?n]"
    if "j < cm_num_hash cm" for j
    using that wf foldl_update_nth[where f = "\<lambda>j row. foldl (\<lambda>row b. row[b := row ! b + cm_counts cm' ! j ! b]) row [0..<?n]"
        and n = "cm_num_hash cm" and xs = "cm_counts cm"] by (simp add: r cm_wf_def)
  have cell: "cm_counts r ! j ! k = cm_counts cm ! j ! k + cm_counts cm' ! j ! k" if "j < cm_num_hash cm" "k < ?n" for j k
    using that wf row foldl_update_nth[where f = "\<lambda>b x. x + cm_counts cm' ! j ! b" and n = ?n and xs = "cm_counts cm ! j"]
    by (simp add: cm_wf_def)
  have len: "length (cm_counts r) = length (cm_counts cm)"
    using foldl_update_length[where f = "\<lambda>j row. foldl (\<lambda>row b. row[b := row ! b + cm_counts cm' ! j ! b]) row [0..<?n]"]
    by (simp add: r)
  have "length (cm_counts r ! j) = ?n" if "j < cm_num_hash cm" for j
    using that row wf foldl_update_length[where f = "\<lambda>b x. x + cm_counts cm' ! j ! b"] by (simp add: cm_wf_def)
  then have "cm_wf r" using wf sh len by (simp add: cm_wf_def same_hash_def)
  then show "cm_holds hsh (xs @ ys) r"
    using a b sh s cell
    by (simp add: cm_holds_def same_hash_total[OF sh] same_hash_total[OF s] bin_total_append) (simp add: same_hash_def)
qed

section \<open>Hyperloglog\<close>

record hyperloglog =
  hll_b :: nat
  hll_m :: nat
  hll_buckets :: "byte list"

definition hyperloglog_new :: "nat \<Rightarrow> error + hyperloglog" where
  "hyperloglog_new b =
     (if \<not> b < 31 then Inl Undefined_Behaviour
      else if \<not> 2 ^ b \<ge> (16 :: nat) then Inl Assertion_Failed
      else Inr \<lparr>hll_b = b, hll_m = 2 ^ b, hll_buckets = replicate (2 ^ b) 0\<rparr>)"

text \<open>\<open>__builtin_clz\<close> takes an \<open>unsigned int\<close>: the 64-bit argument loses its upper half. It is undefined at 0.\<close>

definition builtin_clz :: "u32 \<Rightarrow> nat option" where
  "builtin_clz x = (if x = 0 then None else Some (length (takeWhile (\<lambda>i. \<not> bit x i) (rev [0..<32]))))"

definition hll_pos :: "u64 \<Rightarrow> byte option" where
  "hll_pos h = (if h \<noteq> 0 then map_option (\<lambda>n. of_nat (1 + n)) (builtin_clz (ucast h)) else Some 8)"

definition hll_index :: "hyperloglog \<Rightarrow> u64 \<Rightarrow> nat" where
  "hll_index hll h = unat (drop_bit (64 - hll_b hll) h)"

definition hll_add :: "('a \<Rightarrow> u64) \<Rightarrow> 'a \<Rightarrow> hyperloglog \<Rightarrow> error + hyperloglog" where
  "hll_add hsh t hll =
     (let h = hash64 (hash64 (hsh t)); index = hll_index hll h
      in if \<not> index < length (hll_buckets hll) then Inl Assertion_Failed
         else case hll_pos h of
           None \<Rightarrow> Inl Undefined_Behaviour
         | Some pos \<Rightarrow> Inr (hll\<lparr>hll_buckets := (hll_buckets hll)[index := max (hll_buckets hll ! index) pos]\<rparr>))"

definition hll_combine :: "hyperloglog \<Rightarrow> hyperloglog \<Rightarrow> error + hyperloglog" where
  "hll_combine hll other =
     (if length (hll_buckets hll) \<noteq> length (hll_buckets other) then Inl Assertion_Failed
      else Inr (hll\<lparr>hll_buckets := foldl (\<lambda>bs i. bs[i := max (bs ! i) (hll_buckets other ! i)])
             (hll_buckets hll) [0..<length (hll_buckets hll)]\<rparr>))"

fun hll_add_all :: "('a \<Rightarrow> u64) \<Rightarrow> 'a list \<Rightarrow> hyperloglog \<Rightarrow> error + hyperloglog" where
  "hll_add_all hsh [] hll = Inr hll"
| "hll_add_all hsh (t # ts) hll = (case hll_add hsh t hll of Inl e \<Rightarrow> Inl e | Inr hll \<Rightarrow> hll_add_all hsh ts hll)"

text \<open>A bucket holds the largest position of the items that fall into it.\<close>

definition hll_position :: "('a \<Rightarrow> u64) \<Rightarrow> hyperloglog \<Rightarrow> nat \<Rightarrow> 'a \<Rightarrow> byte" where
  "hll_position hsh hll k t =
     (if hll_index hll (hash64 (hash64 (hsh t))) = k then the (hll_pos (hash64 (hash64 (hsh t)))) else 0)"

definition hll_holds :: "('a \<Rightarrow> u64) \<Rightarrow> 'a set \<Rightarrow> hyperloglog \<Rightarrow> bool" where
  "hll_holds hsh A hll \<longleftrightarrow> 4 \<le> hll_b hll \<and> hll_b hll < 31 \<and> length (hll_buckets hll) = 2 ^ hll_b hll \<and> finite A \<and>
     (\<forall>k<2 ^ hll_b hll. hll_buckets hll ! k = Max (insert 0 (hll_position hsh hll k ` A)))"

definition hashable :: "('a \<Rightarrow> u64) \<Rightarrow> 'a \<Rightarrow> bool" where
  "hashable hsh t \<longleftrightarrow> hll_pos (hash64 (hash64 (hsh t))) \<noteq> None"

lemma Max_insert_zero:
  fixes A :: "byte set"
  assumes "finite A"
  shows "Max (insert 0 (insert x A)) = max (Max (insert 0 A)) x"
  using Max_insert[of "insert 0 A" x] assms by (simp add: insert_commute max.commute)

lemma hll_index_less: "hll_b hll \<le> 64 \<Longrightarrow> hll_index hll h < 2 ^ hll_b hll"
proof -
  assume b: "hll_b hll \<le> 64"
  have "unat (drop_bit (64 - hll_b hll) h) = unat h div 2 ^ (64 - hll_b hll)"
  proof -
    have "take_bit 64 (unat h) = unat h" using unsigned_less[of h, where 'a = nat] by (simp add: take_bit_nat_eq_self)
    then show ?thesis using unsigned_drop_bit_eq[of "64 - hll_b hll" h, where 'a = nat] unfolding drop_bit_eq_div by simp
  qed
  moreover have "unat h < 2 ^ (64 - hll_b hll) * 2 ^ hll_b hll" using unsigned_less[of h] b by (simp flip: power_add)
  ultimately show ?thesis by (simp add: hll_index_def less_mult_imp_div_less mult.commute)
qed

lemma hll_add_holds:
  assumes h: "hll_holds hsh A hll" and t: "hashable hsh t"
  shows "\<exists>hll'. hll_add hsh t hll = Inr hll' \<and> hll_holds hsh (insert t A) hll' \<and> hll_b hll' = hll_b hll"
proof -
  let ?h = "hash64 (hash64 (hsh t))"
  let ?i = "hll_index hll ?h"
  obtain pos where pos: "hll_pos ?h = Some pos" using t by (auto simp: hashable_def)
  let ?hll = "hll\<lparr>hll_buckets := (hll_buckets hll)[?i := max (hll_buckets hll ! ?i) pos]\<rparr>"
  have i: "?i < length (hll_buckets hll)" using h hll_index_less[of hll ?h] by (simp add: hll_holds_def)
  have p: "hll_position hsh ?hll k = hll_position hsh hll k" for k by (simp add: hll_position_def hll_index_def fun_eq_iff)
  have "hll_buckets ?hll ! k = Max (insert 0 (hll_position hsh ?hll k ` insert t A))" if k: "k < 2 ^ hll_b hll" for k
  proof -
    have fin: "finite (hll_position hsh hll k ` A)" and b: "hll_buckets hll ! k = Max (insert 0 (hll_position hsh hll k ` A))"
      using h k by (simp_all add: hll_holds_def)
    have "Max (insert 0 (hll_position hsh hll k ` insert t A)) = max (hll_buckets hll ! k) (hll_position hsh hll k t)"
      unfolding image_insert Max_insert_zero[OF fin] b ..
    moreover have "hll_position hsh hll k t = (if ?i = k then pos else 0)" by (simp add: hll_position_def pos)
    ultimately show ?thesis using i unfolding p by (auto simp: nth_list_update)
  qed
  then have "hll_holds hsh (insert t A) ?hll" using h by (simp add: hll_holds_def)
  then show ?thesis using i pos by (simp add: hll_add_def Let_def)
qed

lemma hll_add_all_holds:
  "hll_holds hsh A hll \<Longrightarrow> list_all (hashable hsh) ts \<Longrightarrow>
   \<exists>hll'. hll_add_all hsh ts hll = Inr hll' \<and> hll_holds hsh (A \<union> set ts) hll' \<and> hll_b hll' = hll_b hll"
proof (induction ts arbitrary: A hll)
  case (Cons t ts)
  then obtain h1 where h1: "hll_add hsh t hll = Inr h1" "hll_holds hsh (insert t A) h1" "hll_b h1 = hll_b hll"
    using hll_add_holds[of hsh A hll t] by auto
  from Cons.IH[OF h1(2)] Cons.prems(2) h1 show ?case by auto
qed auto

lemma hyperloglog_new_holds: "hyperloglog_new b = Inr hll \<Longrightarrow> hll_holds hsh {} hll"
proof -
  assume n: "hyperloglog_new b = Inr hll"
  have "4 \<le> b" if "16 \<le> (2 :: nat) ^ b"
  proof (rule ccontr)
    assume "\<not> 4 \<le> b"
    then have "(2 :: nat) ^ b \<le> 2 ^ 3" by (intro power_increasing) simp_all
    then show False using that by simp
  qed
  then show ?thesis using n by (auto simp: hyperloglog_new_def hll_holds_def split: if_splits)
qed

text \<open>The items determine the sketch.\<close>

lemma hll_holds_unique:
  assumes "hll_holds hsh A h1" "hll_holds hsh A h2" "hll_b h1 = hll_b h2"
  shows "hll_buckets h1 = hll_buckets h2"
proof -
  have "hll_position hsh h1 k = hll_position hsh h2 k" for k using assms(3) by (simp add: hll_position_def hll_index_def fun_eq_iff)
  then show ?thesis using assms by (intro nth_equalityI) (auto simp: hll_holds_def)
qed

lemma hll_combine_holds:
  assumes a: "hll_holds hsh A h1" and b: "hll_holds hsh B h2" and s: "hll_b h1 = hll_b h2"
  shows "\<exists>r. hll_combine h1 h2 = Inr r \<and> hll_holds hsh (A \<union> B) r \<and> hll_b r = hll_b h1"
proof -
  let ?n = "length (hll_buckets h1)"
  let ?bs = "foldl (\<lambda>bs i. bs[i := max (bs ! i) (hll_buckets h2 ! i)]) (hll_buckets h1) [0..<?n]"
  have len: "length (hll_buckets h1) = length (hll_buckets h2)" "?n = 2 ^ hll_b h1" using a b s by (simp_all add: hll_holds_def)
  have r: "hll_combine h1 h2 = Inr (h1\<lparr>hll_buckets := ?bs\<rparr>)" using len by (simp add: hll_combine_def)
  have pos: "hll_position hsh h2 k = hll_position hsh h1 k" "hll_position hsh (h1\<lparr>hll_buckets := ?bs\<rparr>) k = hll_position hsh h1 k" for k
    using s by (simp_all add: hll_position_def hll_index_def fun_eq_iff)
  have "?bs ! k = Max (insert 0 (hll_position hsh h1 k ` (A \<union> B)))" if k: "k < ?n" for k
  proof -
    let ?p = "hll_position hsh h1 k"
    have "?bs ! k = max (hll_buckets h1 ! k) (hll_buckets h2 ! k)"
      using foldl_update_nth[where f = "\<lambda>i x. max x (hll_buckets h2 ! i)" and n = ?n and xs = "hll_buckets h1"] k by simp
    also have "\<dots> = max (Max (insert 0 (?p ` A))) (Max (insert 0 (?p ` B)))" using a b k len pos s by (simp add: hll_holds_def)
    also have "\<dots> = Max (insert 0 (?p ` A) \<union> insert 0 (?p ` B))"
      using a b by (intro Max_Un[symmetric]) (simp_all add: hll_holds_def)
    finally show ?thesis by (simp add: image_Un Un_commute insert_commute)
  qed
  moreover have "length ?bs = ?n" using foldl_update_length[where f = "\<lambda>i x. max x (hll_buckets h2 ! i)"] by simp
  ultimately have "hll_holds hsh (A \<union> B) (h1\<lparr>hll_buckets := ?bs\<rparr>)" using a b len pos by (simp add: hll_holds_def)
  then show ?thesis using r by simp
qed

section \<open>Properties\<close>

text \<open>C25. The estimate of a count-min sketch is never below the number of times an item was added, and never
  above the number of all additions, as long as these fit 64 bits.\<close>

theorem countmin_bounds:
  assumes "countmin_new bits seeds = Inr cm" "seeds \<noteq> []" "stream_total xs < 2 ^ 64"
  shows "item_total t xs \<le> unat (cm_estimate hsh t (cm_add_all hsh xs cm)) \<and>
    unat (cm_estimate hsh t (cm_add_all hsh xs cm)) \<le> stream_total xs"
proof -
  have "0 < cm_num_hash cm" using assms(1,2) by (auto simp: countmin_new_def split: if_splits)
  then show ?thesis
    using cm_add_all_holds[OF countmin_new_holds[OF assms(1)], of hsh xs] cm_estimate_law[OF _ assms(3)]
    by (simp add: same_hash_def)
qed

theorem countmin_bounds_witness:
  "\<exists>cm. countmin_new 4 [3, 5] = Inr cm \<and>
    3 \<le> unat (cm_estimate (\<lambda>x. x) 7 (cm_add_all (\<lambda>x. x) [(7, 1), (8, 1), (7, 2)] cm)) \<and>
    unat (cm_estimate (\<lambda>x. x) 7 (cm_add_all (\<lambda>x. x) [(7, 1), (8, 1), (7, 2)] cm)) \<le> 4"
proof -
  obtain cm where cm: "countmin_new 4 [3, 5] = Inr cm" by (simp add: countmin_new_def)
  from countmin_bounds[OF this, of "[(7, 1), (8, 1), (7, 2)]" 7 "\<lambda>x. x"] cm show ?thesis
    by (simp add: item_total_def stream_total_def)
qed

text \<open>C31. Combining two count-min sketches that were constructed with the same seeds gives the sketch of both
  streams: the estimate of every item is that of one sketch to which all items were added.\<close>

theorem countmin_combine_streams:
  assumes "countmin_new bits seeds = Inr cm"
  shows "\<exists>r. cm_combine (cm_add_all hsh xs cm) (cm_add_all hsh ys cm) = Inr r \<and>
    (\<forall>t. cm_estimate hsh t r = cm_estimate hsh t (cm_add_all hsh (xs @ ys) cm))"
proof -
  let ?a = "cm_add_all hsh xs cm" and ?b = "cm_add_all hsh ys cm" and ?c = "cm_add_all hsh (xs @ ys) cm"
  note h = cm_add_all_holds[OF countmin_new_holds[OF assms], of hsh]
  have ab: "same_hash ?a ?b" using h[of xs] h[of ys] by (simp add: same_hash_def)
  then obtain r where r: "cm_combine ?a ?b = Inr r" by (simp add: cm_combine_def same_hash_def)
  have rh: "cm_holds hsh (xs @ ys) r" "same_hash ?a r" using cm_combine_holds[OF _ _ ab r, of hsh xs ys] h[of xs] h[of ys] by simp_all
  have rc: "same_hash r ?c" "cm_holds hsh (xs @ ys) ?c" using rh(2) h[of xs] h[of "xs @ ys"] by (simp_all add: same_hash_def)
  have cell: "cm_counts r ! j ! b = cm_counts ?c ! j ! b" if "j < cm_num_hash r" "b < cm_num_bins r" for j b
    using that rh(1) rc by (simp add: cm_holds_def same_hash_total[OF rc(1)]) (simp add: same_hash_def)
  have "cm_estimate hsh t r = cm_estimate hsh t ?c" for t
    unfolding cm_estimate_def Let_def
    using cell cm_bin_less[of r] rh(1) rc(1) same_hash_bin[OF rc(1)]
    by (intro foldl_cong) (auto simp: same_hash_def cm_holds_def)
  then show ?thesis using r by blast
qed

theorem countmin_combine_streams_witness:
  "\<exists>cm r. countmin_new 4 [3, 5] = Inr cm \<and>
    cm_combine (cm_add_all (\<lambda>x. x) [(7, 1)] cm) (cm_add_all (\<lambda>x. x) [(7, 2)] cm) = Inr r \<and>
    cm_estimate (\<lambda>x. x) 7 r = cm_estimate (\<lambda>x. x) 7 (cm_add_all (\<lambda>x. x) [(7, 1), (7, 2)] cm)"
proof -
  obtain cm where cm: "countmin_new 4 [3, 5] = Inr cm" by (simp add: countmin_new_def)
  from countmin_combine_streams[OF this, of "\<lambda>x. x" "[(7, 1)]" "[(7, 2)]"] cm show ?thesis by auto
qed


text \<open>C32. Combining two hyperloglog sketches gives the buckets of one sketch to which the items of both
  streams were added, in whatever order, as long as no hash is one at which \<open>add\<close> is undefined.\<close>

theorem hyperloglog_combine_streams:
  assumes "hyperloglog_new b = Inr hll" "list_all (hashable hsh) (xs @ ys)" "set zs = set (xs @ ys)"
  shows "\<exists>h1 h2 h3 r. hll_add_all hsh xs hll = Inr h1 \<and> hll_add_all hsh ys hll = Inr h2 \<and> hll_add_all hsh zs hll = Inr h3 \<and>
    hll_combine h1 h2 = Inr r \<and> hll_buckets r = hll_buckets h3"
proof -
  note h = hll_add_all_holds[OF hyperloglog_new_holds[OF assms(1)], of hsh]
  obtain h1 h2 where 1: "hll_add_all hsh xs hll = Inr h1" "hll_holds hsh (set xs) h1" "hll_b h1 = hll_b hll"
    and 2: "hll_add_all hsh ys hll = Inr h2" "hll_holds hsh (set ys) h2" "hll_b h2 = hll_b hll"
    using h[of xs] h[of ys] assms(2) by auto
  have "list_all (hashable hsh) zs" using assms(2,3) by (auto simp: list_all_iff)
  then obtain h3 where 3: "hll_add_all hsh zs hll = Inr h3" "hll_holds hsh (set xs \<union> set ys) h3" "hll_b h3 = hll_b hll"
    using h[of zs] assms(3) by auto
  have "hll_b h1 = hll_b h2" using 1 2 by simp
  from hll_combine_holds[OF 1(2) 2(2) this] obtain r where
    r: "hll_combine h1 h2 = Inr r" "hll_holds hsh (set xs \<union> set ys) r" "hll_b r = hll_b h1" by blast
  then show ?thesis using 1 2 3 hll_holds_unique[OF r(2) 3(2)] by auto
qed

theorem hyperloglog_combine_streams_witness:
  defines "x \<equiv> unhash64 (unhash64 1)" and "y \<equiv> unhash64 (unhash64 5)"
  shows "\<exists>hll h1 h2 h3 r. hyperloglog_new 4 = Inr hll \<and> hll_add_all (\<lambda>x. x) [x] hll = Inr h1 \<and>
    hll_add_all (\<lambda>x. x) [y] hll = Inr h2 \<and> hll_add_all (\<lambda>x. x) [y, x, y] hll = Inr h3 \<and>
    hll_combine h1 h2 = Inr r \<and> hll_buckets r = hll_buckets h3"
proof -
  obtain hll where hll: "hyperloglog_new 4 = Inr hll" by (simp add: hyperloglog_new_def)
  have "list_all (hashable (\<lambda>x. x)) ([x] @ [y])"
    by (simp add: x_def y_def hashable_def hash64_unhash64 hll_pos_def builtin_clz_def)
  from hyperloglog_combine_streams[OF hll this, of "[y, x, y]"] hll show ?thesis by auto
qed



end
