(* ===== verification/String_Escape.thy ===== *)
theory String_Escape
  imports Archive
begin

text \<open>
  Escaping of strings (\<open>flexible_type/string_escape.cpp\<close> and \<open>sframe/comma_escape_string.hpp\<close>). Characters
  are bytes. The escaping functions write through a pointer into a string that was resized before; a write
  past its end is undefined behaviour, which is \<open>None\<close>.
\<close>

section \<open>Definitions\<close>

text \<open>\<open>(*cur_out++) = c\<close> for the characters of a list, with \<open>cur_out\<close> as an index.\<close>

fun emit :: "byte list \<Rightarrow> byte list \<times> nat \<Rightarrow> (byte list \<times> nat) option" where
  "emit [] s = Some s"
| "emit (c # cs) (out, k) = (if k < length out then emit cs (out[k := c], k + 1) else None)"

definition grow_to :: "nat \<Rightarrow> byte list \<Rightarrow> byte list" where
  "grow_to n output = (if length output < n then output @ replicate (n - length output) 0 else output)"

text \<open>The characters the loop of \<open>escape_string\<close> writes for \<open>c\<close>; \<open>rest\<close> is what follows \<open>c\<close>.\<close>

definition escape_of :: "byte \<Rightarrow> bool \<Rightarrow> byte \<Rightarrow> byte list \<Rightarrow> byte list" where
  "escape_of escape_char double_quote c rest =
     (if c = 39 then [escape_char, 39]
      else if c = 34 then (if double_quote then [34, 34] else [escape_char, 34])
      else if c = 92 then
        (if rest \<noteq> [] \<and> (hd rest = 117 \<or> hd rest = 120) then [c] else [escape_char, 92])
      else if c = 9 then [escape_char, 116]
      else if c = 8 then [escape_char, 98]
      else if c = 13 then [escape_char, 114]
      else if c = 10 then [escape_char, 110]
      else if c = 0 then [escape_char, 0]
      else [c])"

fun escape_loop :: "byte \<Rightarrow> bool \<Rightarrow> byte list \<Rightarrow> byte list \<times> nat \<Rightarrow> (byte list \<times> nat) option" where
  "escape_loop escape_char double_quote [] s = Some s"
| "escape_loop escape_char double_quote (c # rest) s =
     Option.bind (emit (escape_of escape_char double_quote c rest) s) (escape_loop escape_char double_quote rest)"

definition escape_string ::
  "byte list \<Rightarrow> byte \<Rightarrow> byte \<Rightarrow> bool \<Rightarrow> bool \<Rightarrow> byte list \<Rightarrow> (byte list \<times> nat) option" where
  "escape_string val escape_char quote_char use_quote_char double_quote output =
     (let output = grow_to (2 + 2 * length val) output; quote = (if use_quote_char then [quote_char] else [])
      in Option.bind (emit quote (output, 0)) (\<lambda>s.
         Option.bind (escape_loop escape_char double_quote val s) (emit quote)))"

text \<open>In place; \<open>i\<close> and \<open>k\<close> are the indices \<open>in\<close> and \<open>out\<close>. \<open>unescape_of\<close> is the \<open>switch\<close>: the character that
  replaces the escape character and \<open>echar\<close>.\<close>

definition unescape_of :: "byte \<Rightarrow> byte option" where
  "unescape_of echar =
     (if echar = 39 then Some 39 else if echar = 34 then Some 34 else if echar = 92 then Some 92
      else if echar = 47 then Some 47 else if echar = 116 then Some 9 else if echar = 98 then Some 8
      else if echar = 114 then Some 13 else if echar = 110 then Some 10 else None)"

function unescape_loop :: "byte \<Rightarrow> nat \<Rightarrow> nat \<Rightarrow> byte list \<Rightarrow> byte list" where
  "unescape_loop escape_char i k cal =
     (if i < length cal then
        if cal ! i = escape_char \<and> i + 1 < length cal then
          case unescape_of (cal ! (i + 1)) of
            Some c \<Rightarrow> unescape_loop escape_char (i + 2) (k + 1) (cal[k := c])
          | None \<Rightarrow> unescape_loop escape_char (i + 1) (k + 1) (cal[k := cal ! i])
        else unescape_loop escape_char (i + 1) (k + 1) (cal[k := cal ! i])
      else take k cal)"
  by pat_completeness auto
termination by (relation "measure (\<lambda>(_, i, _, cal). length cal - i)") auto

declare unescape_loop.simps [simp del]

definition unescape_string :: "byte list \<Rightarrow> byte \<Rightarrow> byte list" where
  "unescape_string cal escape_char = unescape_loop escape_char 0 0 cal"

text \<open>Strings for a file whose separator is the comma.\<close>

definition replace_char :: byte where "replace_char = 0x1F"

definition comma_escape_of :: "byte \<Rightarrow> byte list \<Rightarrow> byte list" where
  "comma_escape_of c rest =
     (if c = 92 then (if rest \<noteq> [] \<and> (hd rest = 117 \<or> hd rest = 120) then [c] else [92, c])
      else if c = 44 then [92, replace_char]
      else if c = 39 then [92, 39]
      else if c = 34 then [92, 34]
      else if c = 9 then [92, 116]
      else if c = 13 then [92, 114]
      else if c = 8 then [92, 98]
      else if c = 10 then [92, 110]
      else [c])"

fun comma_escape_loop :: "byte list \<Rightarrow> byte list \<times> nat \<Rightarrow> (byte list \<times> nat) option" where
  "comma_escape_loop [] s = Some s"
| "comma_escape_loop (c # rest) s = Option.bind (emit (comma_escape_of c rest) s) (comma_escape_loop rest)"

definition comma_escape_string :: "byte list \<Rightarrow> byte list \<Rightarrow> (byte list \<times> nat) option" where
  "comma_escape_string val output = comma_escape_loop val (grow_to (2 * length val) output, 0)"

definition comma_unescape_of :: "byte \<Rightarrow> byte option" where
  "comma_unescape_of c =
     (if c = 92 then Some 92 else if c = replace_char then Some 44 else if c = 39 then Some 39
      else if c = 34 then Some 34 else if c = 110 then Some 10 else if c = 98 then Some 8
      else if c = 116 then Some 9 else if c = 114 then Some 13 else None)"

fun comma_unescape_loop :: "byte list \<Rightarrow> byte list \<times> nat \<Rightarrow> (byte list \<times> nat) option" where
  "comma_unescape_loop [] s = Some s"
| "comma_unescape_loop [c] s = emit [c] s"
| "comma_unescape_loop (c # d # rest) s =
     (case (if c = 92 then comma_unescape_of d else None) of
        Some e \<Rightarrow> Option.bind (emit [e] s) (comma_unescape_loop rest)
      | None \<Rightarrow> Option.bind (emit [c] s) (comma_unescape_loop (d # rest)))"

definition comma_unescape_string :: "byte list \<Rightarrow> byte list \<Rightarrow> (byte list \<times> nat) option" where
  "comma_unescape_string val output = comma_unescape_loop val (grow_to (length val) output, 0)"

section \<open>Writing through the pointer\<close>

lemma emit_law: "k + length cs \<le> length out \<Longrightarrow> emit cs (out, k) = Some (take k out @ cs @ drop (k + length cs) out, k + length cs)"
proof (induction cs arbitrary: out k)
  case (Cons c cs)
  then have "emit cs (out[k := c], k + 1) = Some (take (k + 1) (out[k := c]) @ cs @ drop (k + 1 + length cs) (out[k := c]), k + 1 + length cs)"
    by simp
  moreover have "take (k + 1) (out[k := c]) = take k out @ [c]" using Cons.prems by (simp add: take_Suc_conv_app_nth)
  ultimately show ?case using Cons.prems by simp
qed simp

text \<open>The state after \<open>cs\<close> was written from the start of \<open>out\<close>.\<close>

definition written :: "byte list \<Rightarrow> byte list \<Rightarrow> byte list \<times> nat" where
  "written cs out = (cs @ drop (length cs) out, length cs)"

lemma emit_written: "length cs + length ds \<le> length out \<Longrightarrow> emit ds (written cs out) = Some (written (cs @ ds) out)"
  by (simp add: written_def emit_law add.commute)

lemma written_start: "(out, 0) = written [] out"
  by (simp add: written_def)

lemma length_grow_to: "n \<le> length (grow_to n output)" by (simp add: grow_to_def)

lemma length_escape_of: "length (escape_of ec dq c rest) \<le> 2" by (simp add: escape_of_def)

fun escape_all :: "byte \<Rightarrow> bool \<Rightarrow> byte list \<Rightarrow> byte list" where
  "escape_all ec dq [] = []"
| "escape_all ec dq (c # rest) = escape_of ec dq c rest @ escape_all ec dq rest"

lemma length_escape_all: "length (escape_all ec dq val) \<le> 2 * length val"
proof (induction val)
  case (Cons c rest)
  then show ?case using length_escape_of[of ec dq c rest] by simp
qed simp

lemma escape_loop_law:
  "length cs + 2 * length val \<le> length out \<Longrightarrow> escape_loop ec dq val (written cs out) = Some (written (cs @ escape_all ec dq val) out)"
proof (induction val arbitrary: cs)
  case (Cons c rest)
  have l: "length (escape_of ec dq c rest) \<le> 2" by (rule length_escape_of)
  have "emit (escape_of ec dq c rest) (written cs out) = Some (written (cs @ escape_of ec dq c rest) out)"
    by (rule emit_written) (use l Cons.prems in simp)
  moreover have "escape_loop ec dq rest (written (cs @ escape_of ec dq c rest) out) =
      Some (written ((cs @ escape_of ec dq c rest) @ escape_all ec dq rest) out)"
    by (rule Cons.IH) (use l Cons.prems in simp)
  ultimately show ?case by simp
qed simp

lemma escape_string_law:
  "\<exists>out'. escape_string val ec qc uq dq output = Some (out', length ((if uq then [qc] else []) @ escape_all ec dq val @ (if uq then [qc] else []))) \<and>
     take (length ((if uq then [qc] else []) @ escape_all ec dq val @ (if uq then [qc] else []))) out' =
       (if uq then [qc] else []) @ escape_all ec dq val @ (if uq then [qc] else [])"
proof -
  let ?q = "if uq then [qc] else []" and ?out = "grow_to (2 + 2 * length val) output"
  let ?e = "escape_all ec dq val"
  have l: "2 + 2 * length val \<le> length ?out" "length ?q \<le> 1" "length ?e \<le> 2 * length val"
    by (rule length_grow_to) (simp_all add: length_escape_all)
  have "emit ?q (written [] ?out) = Some (written ?q ?out)" using emit_written[of "[]" ?q ?out] l by simp
  moreover have "escape_loop ec dq val (written ?q ?out) = Some (written (?q @ ?e) ?out)"
    by (rule escape_loop_law) (use l in linarith)
  moreover have "emit ?q (written (?q @ ?e) ?out) = Some (written ((?q @ ?e) @ ?q) ?out)"
    by (rule emit_written) (use l in simp)
  ultimately have "escape_string val ec qc uq dq output = Some (written ((?q @ ?e) @ ?q) ?out)"
    by (simp only: escape_string_def Let_def written_start Option.bind.simps bind.simps)
  then show ?thesis by (simp add: written_def)
qed

section \<open>Unescaping\<close>

text \<open>What unescaping yields, out of place.\<close>

fun unescape_all :: "byte \<Rightarrow> byte list \<Rightarrow> byte list" where
  "unescape_all ec [] = []"
| "unescape_all ec [c] = [c]"
| "unescape_all ec (c # d # rest) =
     (case (if c = ec then unescape_of d else None) of
        Some e \<Rightarrow> e # unescape_all ec rest | None \<Rightarrow> c # unescape_all ec (d # rest))"

lemma unescape_loop_law:
  "k \<le> i \<Longrightarrow> i \<le> length cal \<Longrightarrow> unescape_loop ec i k cal = take k cal @ unescape_all ec (drop i cal)"
proof (induction ec i k cal rule: unescape_loop.induct)
  case (1 ec i k cal)
  show ?case
  proof (cases "i < length cal")
    case True
    have t: "take (k + 1) (cal[k := c]) = take k cal @ [c]" for c using True 1(4) by (simp add: take_Suc_conv_app_nth)
    have d: "drop j (cal[k := c]) = drop j cal" if "k < j" for j c using that by simp
    show ?thesis
    proof (cases "i + 1 < length cal")
      case True
      then have dr: "drop i cal = cal ! i # cal ! (i + 1) # drop (i + 2) cal"
        by (metis Cons_nth_drop_Suc Suc_eq_plus1 add_2_eq_Suc' add_lessD1)
      have dr1: "drop (i + 1) cal = cal ! (i + 1) # drop (i + 2) cal"
        using True by (metis Cons_nth_drop_Suc Suc_eq_plus1 add_2_eq_Suc')
      show ?thesis
      proof (cases "cal ! i = ec \<and> unescape_of (cal ! (i + 1)) \<noteq> None")
        case True
        then obtain c where c: "cal ! i = ec" "unescape_of (cal ! (i + 1)) = Some c" by auto
        then show ?thesis using 1(2)[OF \<open>i < length cal\<close> _ c(2)] 1(4,5) \<open>i + 1 < length cal\<close> t d dr
          by (simp add: unescape_loop.simps[of ec i k cal])
      next
        case False
        then have "unescape_loop ec i k cal = unescape_loop ec (i + 1) (k + 1) (cal[k := cal ! i])"
          using \<open>i + 1 < length cal\<close> by (auto simp: unescape_loop.simps[of ec i k cal] split: option.splits)
        moreover have "unescape_loop ec (i + 1) (k + 1) (cal[k := cal ! i]) = take k cal @ cal ! i # unescape_all ec (drop (i + 1) cal)"
          using 1(1,3) False 1(4,5) \<open>i + 1 < length cal\<close> t d by (cases "cal ! i = ec") auto
        moreover have "unescape_all ec (drop i cal) = cal ! i # unescape_all ec (drop (i + 1) cal)"
          unfolding dr dr1 using False by auto
        ultimately show ?thesis by (simp only:)
      qed
    next
      case False
      then have "drop i cal = [cal ! i]" "drop (i + 1) cal = []" using \<open>i < length cal\<close> by (simp_all add: Cons_nth_drop_Suc[symmetric])
      then show ?thesis using False 1(3) 1(4,5) \<open>i < length cal\<close> t d
        by (simp add: unescape_loop.simps[of ec i k cal])
    qed
  next
    case False
    then have "i = length cal" using 1(5) by simp
    then show ?thesis using 1(4) by (simp add: unescape_loop.simps[of ec "length cal"])
  qed
qed

lemma unescape_all_other: "c \<noteq> ec \<Longrightarrow> unescape_all ec (c # cs) = c # unescape_all ec cs"
  by (cases cs) auto

text \<open>A backslash before \<open>u\<close> or \<open>x\<close> is not escaped, and stays when the string is unescaped.\<close>

lemma unescape_escape_of:
  assumes "c \<noteq> 0"
  shows "unescape_all 92 (escape_of 92 False c rest @ escape_all 92 False rest) = c # unescape_all 92 (escape_all 92 False rest)"
proof (cases "c = 92 \<and> rest \<noteq> [] \<and> (hd rest = 117 \<or> hd rest = 120)")
  case True
  then obtain d rest' where "rest = d # rest'" "d = 117 \<or> d = 120" by (cases rest) auto
  then show ?thesis using True by (auto simp: escape_of_def unescape_of_def)
next
  case False
  consider "c \<in> {39, 34, 92, 9, 8, 13, 10}" | "c \<notin> {39, 34, 92, 9, 8, 13, 10}" by blast
  then show ?thesis
  proof cases
    case 1
    then show ?thesis using False by (auto simp: escape_of_def unescape_of_def)
  next
    case 2
    then have "escape_of 92 False c rest = [c]" using assms by (auto simp: escape_of_def)
    then show ?thesis using 2 unescape_all_other[of c 92] by simp
  qed
qed

lemma unescape_escape_all: "0 \<notin> set val \<Longrightarrow> unescape_all 92 (escape_all 92 False val) = val"
  by (induction val) (simp_all add: unescape_escape_of)

section \<open>Strings without commas\<close>

fun comma_escape_all :: "byte list \<Rightarrow> byte list" where
  "comma_escape_all [] = []"
| "comma_escape_all (c # rest) = comma_escape_of c rest @ comma_escape_all rest"

fun comma_unescape_all :: "byte list \<Rightarrow> byte list" where
  "comma_unescape_all [] = []"
| "comma_unescape_all [c] = [c]"
| "comma_unescape_all (c # d # rest) =
     (case (if c = 92 then comma_unescape_of d else None) of
        Some e \<Rightarrow> e # comma_unescape_all rest | None \<Rightarrow> c # comma_unescape_all (d # rest))"

lemma length_comma_escape_of: "length (comma_escape_of c rest) \<le> 2" by (simp add: comma_escape_of_def)

lemma length_comma_escape_all: "length (comma_escape_all val) \<le> 2 * length val"
proof (induction val)
  case (Cons c rest)
  then show ?case using length_comma_escape_of[of c rest] by simp
qed simp

lemma length_comma_unescape_all: "length (comma_unescape_all val) \<le> length val"
  by (induction val rule: comma_unescape_all.induct) (auto split: option.splits)

lemma comma_escape_loop_law:
  "length cs + 2 * length val \<le> length out \<Longrightarrow> comma_escape_loop val (written cs out) = Some (written (cs @ comma_escape_all val) out)"
proof (induction val arbitrary: cs)
  case (Cons c rest)
  have l: "length (comma_escape_of c rest) \<le> 2" by (rule length_comma_escape_of)
  have "emit (comma_escape_of c rest) (written cs out) = Some (written (cs @ comma_escape_of c rest) out)"
    by (rule emit_written) (use l Cons.prems in simp)
  moreover have "comma_escape_loop rest (written (cs @ comma_escape_of c rest) out) =
      Some (written ((cs @ comma_escape_of c rest) @ comma_escape_all rest) out)"
    by (rule Cons.IH) (use l Cons.prems in simp)
  ultimately show ?case by simp
qed simp

lemma comma_unescape_loop_law:
  "length cs + length val \<le> length out \<Longrightarrow> comma_unescape_loop val (written cs out) = Some (written (cs @ comma_unescape_all val) out)"
proof (induction val arbitrary: cs rule: comma_unescape_all.induct)
  case (2 c)
  then show ?case using emit_written[of cs "[c]" out] by simp
next
  case (3 c d rest)
  show ?case
  proof (cases "if c = 92 then comma_unescape_of d else None")
    case None
    then show ?thesis using 3(1)[OF None, of "cs @ [c]"] 3(3) emit_written[of cs "[c]" out]
      by (simp split del: if_split)
  next
    case (Some e)
    then show ?thesis using 3(2)[OF Some, of "cs @ [e]"] 3(3) emit_written[of cs "[e]" out]
      by (simp split del: if_split)
  qed
qed simp

lemma comma_unescape_all_other: "c \<noteq> 92 \<Longrightarrow> comma_unescape_all (c # cs) = c # comma_unescape_all cs"
  by (cases cs) auto

lemma comma_unescape_escape_of:
  "comma_unescape_all (comma_escape_of c rest @ comma_escape_all rest) = c # comma_unescape_all (comma_escape_all rest)"
proof (cases "c = 92 \<and> rest \<noteq> [] \<and> (hd rest = 117 \<or> hd rest = 120)")
  case True
  then obtain d rest' where "rest = d # rest'" "d = 117 \<or> d = 120" by (cases rest) auto
  then show ?thesis using True by (auto simp: comma_escape_of_def comma_unescape_of_def replace_char_def)
next
  case False
  consider "c \<in> {92, 44, 39, 34, 9, 13, 8, 10}" | "c \<notin> {92, 44, 39, 34, 9, 13, 8, 10}" by blast
  then show ?thesis
  proof cases
    case 1
    then show ?thesis using False by (auto simp: comma_escape_of_def comma_unescape_of_def replace_char_def)
  next
    case 2
    then have "comma_escape_of c rest = [c]" by (auto simp: comma_escape_of_def)
    then show ?thesis using 2 comma_unescape_all_other[of c] by simp
  qed
qed

lemma comma_unescape_escape_all: "comma_unescape_all (comma_escape_all val) = val"
  by (induction val) (simp_all add: comma_unescape_escape_of)

lemma comma_escape_all_comma: "44 \<notin> set (comma_escape_all val)"
  by (induction val) (auto simp: comma_escape_of_def replace_char_def)

lemma take_full: "take (length ys) xs = ys \<Longrightarrow> length ys \<le> length xs"
  by (metis length_take min.cobounded1)

section \<open>Properties\<close>

text \<open>C34. Escaping with the backslash writes at most two characters for each character of the string, and
  two quotes, inside the buffer, and unescaping what is between the quotes gives the string back, when it
  has no NUL character and double quotes are not doubled.\<close>

theorem escape_unescape_roundtrip:
  assumes "0 \<notin> set val"
  shows "\<exists>output' len body. escape_string val 92 quote_char use_quote_char False output = Some (output', len) \<and>
    len \<le> 2 + 2 * length val \<and> len \<le> length output' \<and>
    take len output' = (if use_quote_char then [quote_char] else []) @ body @ (if use_quote_char then [quote_char] else []) \<and>
    unescape_string body 92 = val"
proof -
  let ?q = "if use_quote_char then [quote_char] else []" and ?e = "escape_all 92 False val"
  obtain out' where e: "escape_string val 92 quote_char use_quote_char False output = Some (out', length (?q @ ?e @ ?q))"
    "take (length (?q @ ?e @ ?q)) out' = ?q @ ?e @ ?q" using escape_string_law by blast
  have "length (?q @ ?e @ ?q) \<le> 2 + 2 * length val" using length_escape_all[of 92 False val] by simp
  moreover have "length (?q @ ?e @ ?q) \<le> length out'" by (rule take_full[OF e(2)])
  moreover have "unescape_string ?e 92 = val"
    using unescape_loop_law[of 0 0 ?e 92] unescape_escape_all[OF assms] by (simp add: unescape_string_def)
  ultimately show ?thesis using e by blast
qed

theorem escape_unescape_roundtrip_witness:
  "\<exists>output' len body. escape_string [92, 117, 34, 10, 65, 92] 92 34 True False [] = Some (output', len) \<and>
    len \<le> 14 \<and> len \<le> length output' \<and> take len output' = [34] @ body @ [34] \<and>
    unescape_string body 92 = [92, 117, 34, 10, 65, 92]"
  using escape_unescape_roundtrip[of "[92, 117, 34, 10, 65, 92]" 34 True "[]"] by simp

text \<open>A NUL character is not restored: it is escaped, but unescaping does not know the escape and
  leaves the backslash before it.\<close>

lemma escaped_nul_not_restored:
  "\<exists>output'. escape_string [0] 92 34 False False output = Some (output', 2) \<and>
    unescape_string (take 2 output') 92 = [92, 0]"
proof -
  have e: "escape_all 92 False [0] = [92, 0]" by (simp add: escape_of_def)
  obtain out' where "escape_string [0] 92 34 False False output = Some (out', 2)" "take 2 out' = [92, 0]"
    using escape_string_law[of "[0]" 92 34 False False "output"] unfolding e by (auto simp: eval_nat_numeral)
  then show ?thesis using unescape_loop_law[of 0 0 "[92, 0]" 92]
    by (simp add: unescape_string_def unescape_of_def)
qed

text \<open>C35. Escaping of commas is inverted by \<open>comma_unescape_string\<close>, on every string, both stay inside their
  buffers, and the escaped string has no comma.\<close>

theorem comma_escape_roundtrip:
  "\<exists>output' len. comma_escape_string val output = Some (output', len) \<and> len \<le> length output' \<and> 44 \<notin> set (take len output') \<and>
    (\<exists>output2'. comma_unescape_string (take len output') output2 = Some (output2', length val) \<and> take (length val) output2' = val)"
proof -
  let ?e = "comma_escape_all val"
  have l: "2 * length val \<le> length (grow_to (2 * length val) output)" by (rule length_grow_to)
  then have "comma_escape_string val output = Some (written ?e (grow_to (2 * length val) output))"
    using comma_escape_loop_law[of "[]" val] by (simp add: comma_escape_string_def written_start)
  moreover have "comma_unescape_string ?e output2 = Some (written val (grow_to (length ?e) output2))"
    using comma_unescape_loop_law[of "[]" ?e "grow_to (length ?e) output2"] length_grow_to[of "length ?e" output2]
    by (simp add: comma_unescape_string_def written_start comma_unescape_escape_all)
  moreover have "length ?e \<le> length (grow_to (2 * length val) output)" using length_comma_escape_all[of val] l by linarith
  ultimately show ?thesis by (auto simp: written_def comma_escape_all_comma)
qed

end
