(* ===== verification/Csv.thy ===== *)
theory Csv
  imports String_Escape Flexible_Type
begin

text \<open>
  Lines of CSV files: the writer (\<open>sframe/csv_writer.cpp\<close>) and the tokenizer
  (\<open>sframe/csv_line_tokenizer.cpp\<close>).

  A pointer into a string is an index into the memory that holds it, which may extend beyond the line; a
  read past the memory is undefined behaviour. The grammars of \<open>flexible_type_parser\<close> are built with
  Boost.Spirit and are a record of functions: from the characters they are given to the value, whether
  they succeeded, and the number of characters they consumed. The conversion of numbers and vectors to
  strings is the argument \<open>tostr\<close>.
\<close>

section \<open>The writer\<close>

record csv_writer =
  cw_delimiter :: "byte list"
  cw_escape_char :: byte
  cw_double_quote :: bool
  cw_quote_char :: byte
  cw_use_quote_char :: bool
  cw_header :: bool

text \<open>The stream is the list of the characters written to it; the second component of the state is the
  buffer for escaped strings.\<close>

function (sequential) csv_print ::
  "csv_writer \<Rightarrow> (flexible_type \<Rightarrow> byte list) \<Rightarrow> flexible_type \<Rightarrow> byte list \<times> byte list \<Rightarrow> (byte list \<times> byte list) option"
  and csv_print_list ::
  "csv_writer \<Rightarrow> (flexible_type \<Rightarrow> byte list) \<Rightarrow> flexible_type list \<Rightarrow> byte list \<times> byte list \<Rightarrow> (byte list \<times> byte list) option"
  and csv_print_dict ::
  "csv_writer \<Rightarrow> (flexible_type \<Rightarrow> byte list) \<Rightarrow> (flexible_type \<times> flexible_type) list \<Rightarrow> byte list \<times> byte list \<Rightarrow> (byte list \<times> byte list) option"
where
  "csv_print w tostr (FlexInt i) s = Some (fst s @ tostr (FlexInt i), snd s)"
| "csv_print w tostr (FlexFloat f) s = Some (fst s @ tostr (FlexFloat f), snd s)"
| "csv_print w tostr (FlexVec v) s = Some (fst s @ tostr (FlexVec v), snd s)"
| "csv_print w tostr (FlexString v) s =
     map_option (\<lambda>(buf, len). (fst s @ take len buf, buf))
       (escape_string v (cw_escape_char w) (cw_quote_char w) (cw_use_quote_char w) (cw_double_quote w) (snd s))"
| "csv_print w tostr (FlexList v) s =
     map_option (\<lambda>(out, buf). (out @ [93], buf)) (csv_print_list w tostr v (fst s @ [91], snd s))"
| "csv_print w tostr (FlexDict v) s =
     map_option (\<lambda>(out, buf). (out @ [125], buf)) (csv_print_dict w tostr v (fst s @ [123], snd s))"
| "csv_print w tostr FlexUndefined s = Some s"
| "csv_print w tostr (FlexDateTime t z) s = Some s"
| "csv_print w tostr (FlexImage i) s = Some s"
| "csv_print_list w tostr [] s = Some s"
| "csv_print_list w tostr (v # vs) s =
     Option.bind (csv_print w tostr v s) (\<lambda>(out, buf). csv_print_list w tostr vs (out @ (if vs \<noteq> [] then [44] else []), buf))"
| "csv_print_dict w tostr [] s = Some s"
| "csv_print_dict w tostr ((k, v) # vs) s =
     Option.bind (csv_print w tostr k s) (\<lambda>(out, buf).
     Option.bind (csv_print w tostr v (out @ [58], buf)) (\<lambda>(out, buf).
     csv_print_dict w tostr vs (out @ (if vs \<noteq> [] then [44] else []), buf)))"
  by pat_completeness auto
termination
  by (relation "measure (\<lambda>x. case x of Inl (_, _, v, _) \<Rightarrow> size v
        | Inr (Inl (_, _, vs, _)) \<Rightarrow> size_list size vs
        | Inr (Inr (_, _, vs, _)) \<Rightarrow> size_list (size_prod size size) vs)") auto

fun csv_write_from ::
  "csv_writer \<Rightarrow> (flexible_type \<Rightarrow> byte list) \<Rightarrow> flexible_type list \<Rightarrow> byte list \<times> byte list \<Rightarrow> (byte list \<times> byte list) option"
where
  "csv_write_from w tostr [] s = Some s"
| "csv_write_from w tostr (v # vs) s =
     Option.bind (csv_print w tostr v s) (\<lambda>(out, buf).
     csv_write_from w tostr vs (out @ (if vs \<noteq> [] then cw_delimiter w else []), buf))"

definition csv_write ::
  "csv_writer \<Rightarrow> (flexible_type \<Rightarrow> byte list) \<Rightarrow> flexible_type list \<Rightarrow> byte list \<times> byte list \<Rightarrow> (byte list \<times> byte list) option"
where
  "csv_write w tostr row s = map_option (\<lambda>(out, buf). (out @ [10], buf)) (csv_write_from w tostr row s)"

fun write_verbatim_from :: "csv_writer \<Rightarrow> byte list list \<Rightarrow> byte list \<Rightarrow> byte list" where
  "write_verbatim_from w [] out = out"
| "write_verbatim_from w (s # row) out =
     write_verbatim_from w row (out @ s @ (if row \<noteq> [] then cw_delimiter w else []))"

definition write_verbatim :: "csv_writer \<Rightarrow> byte list list \<Rightarrow> byte list \<Rightarrow> byte list" where
  "write_verbatim w row out = write_verbatim_from w row out @ [10]"

section \<open>The tokenizer\<close>

record csv_line_tokenizer =
  ct_preserve_quoting :: bool
  ct_escape_char :: byte
  ct_skip_initial_space :: bool
  ct_delimiter :: "byte list"
  ct_comment_char :: byte
  ct_double_quote :: bool
  ct_quote_char :: byte
  ct_na_values :: "byte list list"
  ct_field_buffer :: "byte list"
  ct_delimiter_is_new_line :: bool
  ct_delimiter_is_space :: bool
  ct_delimiter_first_character :: byte
  ct_delimiter_is_singlechar :: bool
  ct_has_parser :: bool

definition csv_line_tokenizer_new :: csv_line_tokenizer where
  "csv_line_tokenizer_new = \<lparr>ct_preserve_quoting = False, ct_escape_char = 92, ct_skip_initial_space = True,
     ct_delimiter = [44], ct_comment_char = 35, ct_double_quote = False, ct_quote_char = 34, ct_na_values = [],
     ct_field_buffer = replicate 1024 0, ct_delimiter_is_new_line = False, ct_delimiter_is_space = False,
     ct_delimiter_first_character = 0, ct_delimiter_is_singlechar = False, ct_has_parser = False\<rparr>"

definition is_space :: "byte \<Rightarrow> bool" where
  "is_space c \<longleftrightarrow> c \<in> {9, 10, 11, 12, 13, 32}"

definition tokenizer_init :: "csv_line_tokenizer \<Rightarrow> csv_line_tokenizer option" where
  "tokenizer_init tz =
     (if length (ct_delimiter tz) = 0 then None
      else Some (tz\<lparr>ct_delimiter_is_new_line := ct_delimiter tz = [10] \<or> ct_delimiter tz = [13] \<or> ct_delimiter tz = [13, 10],
                    ct_delimiter_is_space := list_all is_space (ct_delimiter tz),
                    ct_delimiter_first_character := hd (ct_delimiter tz),
                    ct_delimiter_is_singlechar := length (ct_delimiter tz) = 1, ct_has_parser := True\<rparr>))"

datatype tokenizer_state = START_FIELD | IN_FIELD | IN_QUOTED_FIELD

text \<open>The variables of \<open>tokenize_line_impl\<close>; \<open>tk_user\<close> is what the callbacks change.\<close>

record 's tokenizing =
  tk_buf :: nat
  tk_good :: bool
  tk_keep_parsing :: bool
  tk_delimiter_encountered :: bool
  tk_escape_sequence :: bool
  tk_state :: tokenizer_state
  tk_field_buffer :: "byte list"
  tk_field_buffer_len :: nat
  tk_user :: 's

text \<open>The callbacks: \<open>add_token\<close> gets the memory of the token and its length, \<open>lookahead\<close> the memory of the
  line, the index it is called at and the end of the line.\<close>

record 's callbacks =
  cb_add_token :: "byte list \<Rightarrow> nat \<Rightarrow> 's \<Rightarrow> error + (bool \<times> 's)"
  cb_lookahead :: "byte list \<Rightarrow> nat \<Rightarrow> nat \<Rightarrow> 's \<Rightarrow> error + (bool \<times> nat \<times> 's)"
  cb_canceltoken :: "'s \<Rightarrow> 's"

text \<open>The macros. The field buffer is never empty, so doubling it makes room.\<close>

definition push_char :: "csv_line_tokenizer \<Rightarrow> byte \<Rightarrow> 's tokenizing \<Rightarrow> 's tokenizing" where
  "push_char tz c st =
     (let fb = tk_field_buffer st; n = tk_field_buffer_len st;
          fb = (if n \<ge> length fb then fb @ replicate (length fb) 0 else fb)
      in st\<lparr>tk_field_buffer := fb[n := c], tk_field_buffer_len := n + 1, tk_escape_sequence := (c = ct_escape_char tz)\<rparr>)"

definition end_field ::
  "'s callbacks \<Rightarrow> 's tokenizing \<Rightarrow> ('s tokenizing \<Rightarrow> 's tokenizing) \<Rightarrow> error + 's tokenizing" where
  "end_field cb st k =
     (case cb_add_token cb (tk_field_buffer st) (tk_field_buffer_len st) (tk_user st) of
        Inl e \<Rightarrow> Inl e
      | Inr (True, u) \<Rightarrow> Inr (k (st\<lparr>tk_user := u, tk_field_buffer_len := 0\<rparr>))
      | Inr (False, u) \<Rightarrow> Inr (st\<lparr>tk_user := u, tk_good := False, tk_keep_parsing := False\<rparr>))"

definition test_is_delimiter :: "byte list \<Rightarrow> nat \<Rightarrow> nat \<Rightarrow> byte list \<Rightarrow> bool" where
  "test_is_delimiter mem c bufend delimiter =
     (\<not> length delimiter > bufend - c \<and> take (length delimiter) (drop c mem) = delimiter)"

definition delimiter_test :: "csv_line_tokenizer \<Rightarrow> byte list \<Rightarrow> nat \<Rightarrow> nat \<Rightarrow> bool" where
  "delimiter_test tz mem bufend buf \<longleftrightarrow> mem ! buf = ct_delimiter_first_character tz \<and>
     (ct_delimiter_is_singlechar tz \<or> test_is_delimiter mem buf bufend (ct_delimiter tz))"

text \<open>\<open>while (*buf == ' ') ++buf\<close>; the code does not look for the end of the line.\<close>

function skip_spaces :: "byte list \<Rightarrow> nat \<Rightarrow> nat option" where
  "skip_spaces mem buf =
     (if \<not> buf < length mem then None else if mem ! buf = 32 then skip_spaces mem (buf + 1) else Some buf)"
  by pat_completeness auto
termination by (relation "measure (\<lambda>(mem, buf). length mem - buf)") auto

declare skip_spaces.simps [simp del]

text \<open>The cases of the \<open>switch\<close>. \<open>reset\<close> is \<open>reset_escape_sequence\<close>, which a \<open>continue\<close> skips.\<close>

definition after_switch :: "bool \<Rightarrow> 's tokenizing \<Rightarrow> 's tokenizing" where
  "after_switch reset st = (if reset then st\<lparr>tk_escape_sequence := False\<rparr> else st)"

definition regular_character :: "csv_line_tokenizer \<Rightarrow> byte \<Rightarrow> 's tokenizing \<Rightarrow> 's tokenizing" where
  "regular_character tz c st = (push_char tz c (st\<lparr>tk_delimiter_encountered := False\<rparr>))\<lparr>tk_state := IN_FIELD\<rparr>"

definition bracket_field ::
  "csv_line_tokenizer \<Rightarrow> 's callbacks \<Rightarrow> byte list \<Rightarrow> nat \<Rightarrow> bool \<Rightarrow> byte \<Rightarrow> 's tokenizing \<Rightarrow> error + 's tokenizing"
where
  "bracket_field tz cb mem bufend reset c st =
     (let prev = tk_buf st; st = st\<lparr>tk_delimiter_encountered := False\<rparr>
      in if prev > bufend then Inl Undefined_Behaviour
         else case cb_lookahead cb mem (prev - 1) bufend (tk_user st) of
           Inl e \<Rightarrow> Inl e
         | Inr (False, _, u) \<Rightarrow>
             Inr (after_switch reset (regular_character tz c (st\<lparr>tk_user := u, tk_buf := prev\<rparr>)))
         | Inr (True, buf, u) \<Rightarrow>
             (case skip_spaces mem buf of
                None \<Rightarrow> Inl Undefined_Behaviour
              | Some buf \<Rightarrow>
                  let st = st\<lparr>tk_user := u, tk_buf := buf\<rparr>
                  in if buf = bufend then Inr st
                     else if delimiter_test tz mem bufend buf then
                       Inr (st\<lparr>tk_delimiter_encountered := True, tk_buf := buf + length (ct_delimiter tz)\<rparr>)
                     else if ct_delimiter_is_space tz then Inr st
                     else Inr (after_switch reset (regular_character tz c
                            (st\<lparr>tk_user := cb_canceltoken cb u, tk_buf := prev\<rparr>)))))"

definition start_field ::
  "csv_line_tokenizer \<Rightarrow> 's callbacks \<Rightarrow> byte list \<Rightarrow> nat \<Rightarrow> bool \<Rightarrow> bool \<Rightarrow> byte \<Rightarrow> 's tokenizing \<Rightarrow> error + 's tokenizing"
where
  "start_field tz cb mem bufend is_delimiter reset c st =
     (if c = ct_quote_char tz then
        Inr (after_switch reset ((push_char tz c (st\<lparr>tk_delimiter_encountered := False, tk_field_buffer_len := 0\<rparr>))
          \<lparr>tk_state := (if ct_preserve_quoting tz then IN_FIELD else IN_QUOTED_FIELD)\<rparr>))
      else if c = 32 \<and> ct_skip_initial_space tz then Inr (after_switch reset st)
      else if is_delimiter then
        map_sum id (after_switch reset)
          (end_field cb (st\<lparr>tk_delimiter_encountered := True, tk_field_buffer_len := 0\<rparr>) (\<lambda>st. st))
      else if c = ct_comment_char tz then
        Inr (after_switch reset (st\<lparr>tk_delimiter_encountered := False, tk_keep_parsing := False\<rparr>))
      else if c = 91 \<or> c = 123 then bracket_field tz cb mem bufend reset c st
      else Inr (after_switch reset (regular_character tz c st)))"

definition in_field ::
  "csv_line_tokenizer \<Rightarrow> 's callbacks \<Rightarrow> bool \<Rightarrow> bool \<Rightarrow> byte \<Rightarrow> 's tokenizing \<Rightarrow> error + 's tokenizing"
where
  "in_field tz cb is_delimiter reset c st =
     (if is_delimiter then
        map_sum id (after_switch reset)
          (end_field cb st (\<lambda>st. st\<lparr>tk_delimiter_encountered := True, tk_state := START_FIELD\<rparr>))
      else if c = ct_comment_char tz then
        map_sum id (after_switch reset)
          (end_field cb st (\<lambda>st. st\<lparr>tk_state := START_FIELD, tk_keep_parsing := False\<rparr>))
      else Inr (after_switch reset (push_char tz c st)))"

definition in_quoted_field ::
  "csv_line_tokenizer \<Rightarrow> byte list \<Rightarrow> nat \<Rightarrow> bool \<Rightarrow> byte \<Rightarrow> 's tokenizing \<Rightarrow> 's tokenizing"
where
  "in_quoted_field tz mem bufend reset c st =
     after_switch reset
       (if c = ct_quote_char tz \<and> \<not> tk_escape_sequence st then
          if ct_double_quote tz \<and> tk_buf st + 1 < bufend \<and> mem ! tk_buf st = ct_quote_char tz
          then (push_char tz c st)\<lparr>tk_buf := tk_buf st + 1\<rparr>
          else (push_char tz c st)\<lparr>tk_state := IN_FIELD\<rparr>
        else push_char tz c st)"

text \<open>One round of the loop. The index skips to the last character of a delimiter in every state.\<close>

definition token_step ::
  "csv_line_tokenizer \<Rightarrow> 's callbacks \<Rightarrow> byte list \<Rightarrow> nat \<Rightarrow> 's tokenizing \<Rightarrow> error + 's tokenizing"
where
  "token_step tz cb mem bufend st =
     (if \<not> tk_buf st < length mem then Inl Undefined_Behaviour
      else let is_delimiter = delimiter_test tz mem bufend (tk_buf st);
               reset = tk_escape_sequence st;
               buf = (if is_delimiter then tk_buf st + (length (ct_delimiter tz) - 1) else tk_buf st)
           in if \<not> buf < length mem then Inl Undefined_Behaviour
              else let c = mem ! buf; st = st\<lparr>tk_buf := buf + 1\<rparr>
                   in case tk_state st of
                        START_FIELD \<Rightarrow> start_field tz cb mem bufend is_delimiter reset c st
                      | IN_FIELD \<Rightarrow> in_field tz cb is_delimiter reset c st
                      | IN_QUOTED_FIELD \<Rightarrow> Inr (in_quoted_field tz mem bufend reset c st))"

text \<open>A lookahead that succeeds without consuming anything can make the loop run forever.\<close>

partial_function (option) tokenize_loop ::
  "csv_line_tokenizer \<Rightarrow> 's callbacks \<Rightarrow> byte list \<Rightarrow> nat \<Rightarrow> 's tokenizing \<Rightarrow> (error + 's tokenizing) option"
where
  [code]: "tokenize_loop tz cb mem bufend st =
     (if tk_keep_parsing st \<and> tk_buf st \<noteq> bufend then
        case token_step tz cb mem bufend st of
          Inl e \<Rightarrow> Some (Inl e)
        | Inr st \<Rightarrow> tokenize_loop tz cb mem bufend st
      else Some (Inr st))"

definition tokenize_cleanup :: "'s callbacks \<Rightarrow> 's tokenizing \<Rightarrow> error + (bool \<times> 's \<times> byte list)" where
  "tokenize_cleanup cb st =
     (if \<not> tk_good st then Inr (False, tk_user st, tk_field_buffer st)
      else if tk_state st \<noteq> START_FIELD then
        map_sum id (\<lambda>(ok, u). (ok, u, tk_field_buffer st))
          (cb_add_token cb (tk_field_buffer st) (tk_field_buffer_len st) (tk_user st))
      else if tk_delimiter_encountered st then
        map_sum id (\<lambda>(ok, u). (ok, u, tk_field_buffer st)) (cb_add_token cb [] 0 (tk_user st))
      else Inr (True, tk_user st, tk_field_buffer st))"

text \<open>The result, what the callbacks made of \<open>u\<close>, and the field buffer the next call starts with.\<close>

definition tokenize_line_impl ::
  "csv_line_tokenizer \<Rightarrow> 's callbacks \<Rightarrow> byte list \<Rightarrow> nat \<Rightarrow> 's \<Rightarrow> (error + (bool \<times> 's \<times> byte list)) option"
where
  "tokenize_line_impl tz cb mem len u =
     (if \<not> ct_has_parser tz then Some (Inl Assertion_Failed)
      else if ct_delimiter_is_new_line tz then
        Some (map_sum id (\<lambda>(_, u). (True, u, ct_field_buffer tz)) (cb_add_token cb mem len u))
      else map_option (\<lambda>r. case r of Inl e \<Rightarrow> Inl e | Inr st \<Rightarrow> tokenize_cleanup cb st)
        (tokenize_loop tz cb mem len
           \<lparr>tk_buf = 0, tk_good = True, tk_keep_parsing = True, tk_delimiter_encountered = False,
            tk_escape_sequence = False, tk_state = START_FIELD, tk_field_buffer = ct_field_buffer tz,
            tk_field_buffer_len = 0, tk_user = u\<rparr>))"

section \<open>Values\<close>

record flex_parser =
  fp_int :: "byte list \<Rightarrow> flexible_type \<times> bool \<times> nat"
  fp_double :: "byte list \<Rightarrow> flexible_type \<times> bool \<times> nat"
  fp_vector :: "byte list \<Rightarrow> flexible_type \<times> bool \<times> nat"
  fp_dict :: "byte list \<Rightarrow> flexible_type \<times> bool \<times> nat"
  fp_recursive :: "byte list \<Rightarrow> flexible_type \<times> bool \<times> nat"
  fp_general :: "byte list \<Rightarrow> flexible_type \<times> bool \<times> nat"

text \<open>\<open>while (len > 0 && buf[len - 1] == ' ') len--\<close>\<close>

fun right_trim :: "byte list \<Rightarrow> nat \<Rightarrow> nat \<Rightarrow> nat" where
  "right_trim mem buf 0 = 0"
| "right_trim mem buf (Suc len) = (if mem ! (buf + len) = 32 then right_trim mem buf len else Suc len)"

fun strncmp_equal :: "byte list \<Rightarrow> byte list \<Rightarrow> bool" where
  "strncmp_equal (a # as) (b # bs) \<longleftrightarrow> a = b \<and> (a = 0 \<or> strncmp_equal as bs)"
| "strncmp_equal _ _ \<longleftrightarrow> True"

definition parse_missing ::
  "csv_line_tokenizer \<Rightarrow> byte list \<Rightarrow> nat \<Rightarrow> nat \<Rightarrow> bool \<Rightarrow> flexible_type \<Rightarrow> error + (bool \<times> nat \<times> flexible_type)"
where
  "parse_missing tz mem buf len success out =
     (if ct_na_values tz \<noteq> [] \<and>
         (\<not> success \<and> get_type out \<noteq> STRING \<or> success \<and> get_type out = STRING) then
        if len > 0 \<and> \<not> buf + len \<le> length mem then Inl Undefined_Behaviour
        else let len = right_trim mem buf len
             in if list_ex (\<lambda>na. length na = len \<and> strncmp_equal (take len (drop buf mem)) na) (ct_na_values tz)
                then Inr (True, buf, FlexUndefined) else Inr (success, buf, out)
      else Inr (success, buf, out))"

definition parse_with ::
  "csv_line_tokenizer \<Rightarrow> byte list \<Rightarrow> nat \<Rightarrow> nat \<Rightarrow> (byte list \<Rightarrow> flexible_type \<times> bool \<times> nat) \<Rightarrow> error + (bool \<times> nat \<times> flexible_type)"
where
  "parse_with tz mem buf len parse =
     (case parse (take len (drop buf mem)) of (out, success, k) \<Rightarrow> parse_missing tz mem (buf + k) len success out)"

definition parse_as ::
  "csv_line_tokenizer \<Rightarrow> flex_parser \<Rightarrow> byte list \<Rightarrow> nat \<Rightarrow> nat \<Rightarrow> flexible_type \<Rightarrow> error + (bool \<times> nat \<times> flexible_type)"
where
  "parse_as tz fp mem buf len out =
     (if \<not> buf + len \<le> length mem then Inl Undefined_Behaviour
      else case get_type out of
        INTEGER \<Rightarrow> parse_with tz mem buf len (fp_int fp)
      | FLOAT \<Rightarrow> parse_with tz mem buf len (fp_double fp)
      | VECTOR \<Rightarrow> parse_with tz mem buf len (fp_vector fp)
      | STRING \<Rightarrow>
          let len = right_trim mem buf len;
              s = (if len \<ge> 2 \<and> mem ! (buf + len - 1) = 34 \<and> mem ! buf = 34
                   then take (len - 2) (drop (buf + 1) mem) else take len (drop buf mem))
          in parse_missing tz mem buf len True (FlexString (unescape_string s (ct_escape_char tz)))
      | DICT \<Rightarrow> parse_with tz mem buf len (fp_dict fp)
      | LIST \<Rightarrow> parse_with tz mem buf len (fp_recursive fp)
      | UNDEFINED \<Rightarrow> parse_with tz mem buf len (fp_general fp)
      | _ \<Rightarrow> Inr (False, buf, out))"

text \<open>Tokens as values; the callbacks change the counter and the output.\<close>

definition flex_add_token ::
  "csv_line_tokenizer \<Rightarrow> flex_parser \<Rightarrow> bool \<Rightarrow> byte list \<Rightarrow> nat \<Rightarrow> nat \<times> flexible_type list \<Rightarrow>
     error + (bool \<times> nat \<times> flexible_type list)"
where
  "flex_add_token tz fp permit_undefined mem len = (\<lambda>(ctr, output).
     if ctr \<ge> length output then
       Inr (ct_delimiter_is_space tz \<and> list_all (\<lambda>c. c = 32) (take len mem), ctr, output)
     else if len = 0 \<and> permit_undefined \<and> get_type (output ! ctr) \<noteq> STRING then
       Inr (True, ctr + 1, output[ctr := FlexUndefined])
     else case parse_as tz fp mem 0 len (output ! ctr) of
       Inl e \<Rightarrow> Inl e
     | Inr (success, _, out) \<Rightarrow> Inr (success, if success then ctr + 1 else ctr, output[ctr := out]))"

definition flex_lookahead ::
  "csv_line_tokenizer \<Rightarrow> flex_parser \<Rightarrow> byte list \<Rightarrow> nat \<Rightarrow> nat \<Rightarrow> nat \<times> flexible_type list \<Rightarrow>
     error + (bool \<times> nat \<times> nat \<times> flexible_type list)"
where
  "flex_lookahead tz fp mem buf bufend = (\<lambda>(ctr, output).
     if ctr \<ge> length output then Inr (False, buf, ctr, output)
     else if get_type (output ! ctr) = STRING then
       (case fp_general fp (take (bufend - buf) (drop buf mem)) of
          (_, _, k) \<Rightarrow>
            if k \<noteq> 0 then
              Inr (True, buf + k, ctr + 1,
                output[ctr := FlexString (unescape_string (take k (drop buf mem)) (ct_escape_char tz))])
            else Inr (False, buf, ctr, output))
     else case parse_as tz fp mem buf (bufend - buf) (output ! ctr) of
       Inl e \<Rightarrow> Inl e
     | Inr (success, buf, out) \<Rightarrow> Inr (success, buf, if success then ctr + 1 else ctr, output[ctr := out]))"

definition flex_callbacks :: "csv_line_tokenizer \<Rightarrow> flex_parser \<Rightarrow> bool \<Rightarrow> (nat \<times> flexible_type list) callbacks" where
  "flex_callbacks tz fp permit_undefined = \<lparr>cb_add_token = flex_add_token tz fp permit_undefined,
     cb_lookahead = flex_lookahead tz fp, cb_canceltoken = (\<lambda>(ctr, output). (ctr - 1, output))\<rparr>"

definition tokenize_line_flex ::
  "csv_line_tokenizer \<Rightarrow> flex_parser \<Rightarrow> bool \<Rightarrow> byte list \<Rightarrow> nat \<Rightarrow> flexible_type list \<Rightarrow>
     (error + (nat \<times> flexible_type list \<times> csv_line_tokenizer)) option"
where
  "tokenize_line_flex tz fp permit_undefined mem len output =
     map_option (map_sum id (\<lambda>(success, (ctr, output), fb). (if success then ctr else 0, output, tz\<lparr>ct_field_buffer := fb\<rparr>)))
       (tokenize_line_impl tz (flex_callbacks tz fp permit_undefined) mem len (0, output))"

text \<open>Tokens as strings. Cancelling a token does nothing.\<close>

definition string_callbacks :: "flex_parser \<Rightarrow> byte list list callbacks" where
  "string_callbacks fp = \<lparr>
     cb_add_token = (\<lambda>mem len output.
       if len > length mem then Inl Undefined_Behaviour
       else Inr (True, output @ [take (right_trim mem 0 len) mem])),
     cb_lookahead = (\<lambda>mem buf bufend output.
       case fp_general fp (take (bufend - buf) (drop buf mem)) of
         (_, _, k) \<Rightarrow> if k \<noteq> 0 then Inr (True, buf + k, output @ [take k (drop buf mem)]) else Inr (False, buf, output)),
     cb_canceltoken = (\<lambda>output. output)\<rparr>"

text \<open>Tokens handed to a function \<open>fn\<close>, which may stop the tokenizer; what it returns for a token found by a
  lookahead is ignored.\<close>

definition function_callbacks :: "flex_parser \<Rightarrow> (byte list \<Rightarrow> nat \<Rightarrow> 's \<Rightarrow> bool \<times> 's) \<Rightarrow> 's callbacks" where
  "function_callbacks fp fn = \<lparr>
     cb_add_token = (\<lambda>mem len s. if len > length mem then Inl Undefined_Behaviour else Inr (fn (take len mem) len s)),
     cb_lookahead = (\<lambda>mem buf bufend s.
       case fp_general fp (take (bufend - buf) (drop buf mem)) of
         (_, _, k) \<Rightarrow> if k \<noteq> 0 then let v = take k (drop buf mem) in Inr (True, buf + k, snd (fn v (length v) s))
           else Inr (False, buf, s)),
     cb_canceltoken = (\<lambda>s. s)\<rparr>"

definition tokenize_line_fn ::
  "csv_line_tokenizer \<Rightarrow> flex_parser \<Rightarrow> byte list \<Rightarrow> nat \<Rightarrow> (byte list \<Rightarrow> nat \<Rightarrow> 's \<Rightarrow> bool \<times> 's) \<Rightarrow> 's \<Rightarrow>
     (error + (bool \<times> 's \<times> csv_line_tokenizer)) option"
where
  "tokenize_line_fn tz fp mem len fn s =
     map_option (map_sum id (\<lambda>(success, s, fb). (success, s, tz\<lparr>ct_field_buffer := fb\<rparr>)))
       (tokenize_line_impl tz (function_callbacks fp fn) mem len s)"

definition tokenize_line_strings ::
  "csv_line_tokenizer \<Rightarrow> flex_parser \<Rightarrow> byte list \<Rightarrow> nat \<Rightarrow>
     (error + (bool \<times> byte list list \<times> csv_line_tokenizer)) option"
where
  "tokenize_line_strings tz fp mem len =
     map_option (map_sum id (\<lambda>(success, output, fb). (success, output, tz\<lparr>ct_field_buffer := fb\<rparr>)))
       (tokenize_line_impl tz (string_callbacks fp) mem len [])"

section \<open>Rows of strings\<close>

definition quoted :: "byte list \<Rightarrow> byte list" where
  "quoted v = 34 # escape_all 92 False v @ [34]"

fun quoted_line :: "byte list \<Rightarrow> byte list list \<Rightarrow> byte list" where
  "quoted_line d [] = []"
| "quoted_line d (v # vs) = quoted v @ (if vs \<noteq> [] then d else []) @ quoted_line d vs"

definition plain_writer :: "csv_writer \<Rightarrow> bool" where
  "plain_writer w \<longleftrightarrow> cw_escape_char w = 92 \<and> \<not> cw_double_quote w \<and> cw_quote_char w = 34 \<and> cw_use_quote_char w"

lemma csv_print_string:
  "plain_writer w \<Longrightarrow> \<exists>buf'. csv_print w tostr (FlexString v) (out, buf) = Some (out @ quoted v, buf')"
  using escape_string_law[of v 92 34 True False buf] by (auto simp: plain_writer_def quoted_def)

lemma csv_write_from_strings:
  "plain_writer w \<Longrightarrow>
   \<exists>buf'. csv_write_from w tostr (map FlexString row) (out, buf) = Some (out @ quoted_line (cw_delimiter w) row, buf')"
proof (induction row arbitrary: out buf)
  case (Cons v row)
  obtain buf' where p: "csv_print w tostr (FlexString v) (out, buf) = Some (out @ quoted v, buf')"
    using csv_print_string[OF Cons.prems] by blast
  show ?case
    using Cons.IH[OF Cons.prems, of "(out @ quoted v) @ (if row \<noteq> [] then cw_delimiter w else [])" buf']
    by (simp only: list.map csv_write_from.simps p Option.bind.bind_lunit prod.case quoted_line.simps
        append_assoc list.map_disc_iff)
qed simp

text \<open>An escaped string has no line break and no quote that is not escaped, and does not end in the middle
  of an escape sequence: \<open>quoted_scan\<close> follows the flag of the tokenizer.\<close>

fun quoted_scan :: "bool \<Rightarrow> byte list \<Rightarrow> bool option" where
  "quoted_scan e [] = Some e"
| "quoted_scan e (c # cs) = (if c = 34 \<and> \<not> e then None else quoted_scan (\<not> e \<and> c = 92) cs)"

lemma quoted_scan_append:
  "quoted_scan e (cs @ ds) = Option.bind (quoted_scan e cs) (\<lambda>e. quoted_scan e ds)"
  by (induction cs arbitrary: e) auto

lemma quoted_scan_escaped: "quoted_scan False (escape_all 92 False v) = Some False"
proof (induction v)
  case (Cons c v)
  show ?case
  proof (cases "c = 92 \<and> v \<noteq> [] \<and> (hd v = 117 \<or> hd v = 120)")
    case True
    then obtain x w where v: "v = x # w" and x: "x = 117 \<or> x = 120" by (cases v) auto
    have "escape_of 92 False x w = [x]" using x by (auto simp: escape_of_def)
    moreover have "escape_of 92 False c v = [92]" using True by (simp add: escape_of_def)
    ultimately show ?thesis using Cons x unfolding v by auto
  next
    case False
    then have "quoted_scan False (escape_of 92 False c v) = Some False" by (auto simp: escape_of_def)
    then show ?thesis using Cons by (simp add: quoted_scan_append)
  qed
qed simp

lemma escaped_no_newline: "10 \<notin> set (escape_all 92 False v)"
  by (induction v) (auto simp: escape_of_def)

lemma quoted_line_no_newline: "10 \<notin> set d \<Longrightarrow> 10 \<notin> set (quoted_line d row)"
  by (induction row) (auto simp: quoted_def escaped_no_newline)

text \<open>The state of the tokenizer: the index, the state, the escape flag, the characters of the field, and
  what the callbacks made.\<close>

definition tokenizing_at ::
  "'s tokenizing \<Rightarrow> nat \<Rightarrow> tokenizer_state \<Rightarrow> bool \<Rightarrow> byte list \<Rightarrow> 's \<Rightarrow> bool"
where
  "tokenizing_at st p s e f u \<longleftrightarrow> tk_buf st = p \<and> tk_state st = s \<and> tk_escape_sequence st = e \<and> tk_user st = u \<and>
     tk_good st \<and> tk_keep_parsing st \<and> take (tk_field_buffer_len st) (tk_field_buffer st) = f \<and>
     tk_field_buffer_len st \<le> length (tk_field_buffer st) \<and> tk_field_buffer st \<noteq> []"

lemma tokenizing_atD:
  assumes "tokenizing_at st p s e f u"
  shows "tk_buf st = p" "tk_state st = s" "tk_escape_sequence st = e" "tk_user st = u" "tk_good st"
    "tk_keep_parsing st" "take (tk_field_buffer_len st) (tk_field_buffer st) = f"
    "tk_field_buffer_len st \<le> length (tk_field_buffer st)" "tk_field_buffer st \<noteq> []"
  using assms by (simp_all add: tokenizing_at_def)

lemma push_char_field:
  assumes "tk_field_buffer_len st \<le> length (tk_field_buffer st)" "tk_field_buffer st \<noteq> []"
  shows "take (tk_field_buffer_len (push_char tz c st)) (tk_field_buffer (push_char tz c st)) =
           take (tk_field_buffer_len st) (tk_field_buffer st) @ [c]"
    and "tk_field_buffer_len (push_char tz c st) \<le> length (tk_field_buffer (push_char tz c st))"
    and "tk_field_buffer (push_char tz c st) \<noteq> []"
proof -
  define n fb where "n = tk_field_buffer_len st"
    and "fb = (if n \<ge> length (tk_field_buffer st)
           then tk_field_buffer st @ replicate (length (tk_field_buffer st)) 0 else tk_field_buffer st)"
  have n: "n < length fb" using assms by (cases "n = length (tk_field_buffer st)") (auto simp: fb_def n_def)
  have t: "take n fb = take n (tk_field_buffer st)" using assms by (simp add: fb_def n_def)
  have s: "tk_field_buffer (push_char tz c st) = fb[n := c]" "tk_field_buffer_len (push_char tz c st) = Suc n"
    by (simp_all add: push_char_def Let_def fb_def n_def)
  show "take (tk_field_buffer_len (push_char tz c st)) (tk_field_buffer (push_char tz c st)) =
           take (tk_field_buffer_len st) (tk_field_buffer st) @ [c]"
    unfolding s using n t by (simp add: take_Suc_conv_app_nth n_def)
  show "tk_field_buffer_len (push_char tz c st) \<le> length (tk_field_buffer (push_char tz c st))"
    unfolding s using n by simp
  show "tk_field_buffer (push_char tz c st) \<noteq> []" unfolding s using n by auto
qed

lemma push_char_other [simp]:
  "tk_buf (push_char tz c st) = tk_buf st" "tk_state (push_char tz c st) = tk_state st"
  "tk_user (push_char tz c st) = tk_user st" "tk_good (push_char tz c st) = tk_good st"
  "tk_keep_parsing (push_char tz c st) = tk_keep_parsing st"
  "tk_escape_sequence (push_char tz c st) \<longleftrightarrow> c = ct_escape_char tz"
  "tk_delimiter_encountered (push_char tz c st) = tk_delimiter_encountered st"
  by (simp_all add: push_char_def Let_def)

text \<open>The options under which the writer and the tokenizer agree.\<close>

definition plain_tokenizer :: "csv_line_tokenizer \<Rightarrow> byte \<Rightarrow> bool" where
  "plain_tokenizer tz d \<longleftrightarrow> ct_delimiter tz = [d] \<and> ct_delimiter_is_singlechar tz \<and> ct_delimiter_first_character tz = d \<and>
     ct_quote_char tz = 34 \<and> ct_escape_char tz = 92 \<and> \<not> ct_double_quote tz \<and> \<not> ct_preserve_quoting tz \<and>
     \<not> ct_delimiter_is_new_line tz \<and> ct_has_parser tz \<and> ct_na_values tz = [] \<and> ct_field_buffer tz \<noteq> [] \<and> d \<noteq> 34"

text \<open>One round of the loop, by the index \<open>q\<close> of the character it looks at.\<close>

definition quoting_tokenizer :: "csv_line_tokenizer \<Rightarrow> bool" where
  "quoting_tokenizer tz \<longleftrightarrow>
     ct_quote_char tz = 34 \<and> ct_escape_char tz = 92 \<and> \<not> ct_double_quote tz \<and> \<not> ct_preserve_quoting tz"

definition looks_at :: "csv_line_tokenizer \<Rightarrow> byte list \<Rightarrow> nat \<Rightarrow> nat \<Rightarrow> nat" where
  "looks_at tz mem bufend p = (if delimiter_test tz mem bufend p then p + (length (ct_delimiter tz) - 1) else p)"

lemma plain_quoting: "plain_tokenizer tz d \<Longrightarrow> quoting_tokenizer tz"
  by (simp add: plain_tokenizer_def quoting_tokenizer_def)

lemma plain_looks_at: "plain_tokenizer tz d \<Longrightarrow> looks_at tz mem bufend p = p"
  by (simp add: plain_tokenizer_def looks_at_def)

lemma plain_delimiter_test: "plain_tokenizer tz d \<Longrightarrow> delimiter_test tz mem bufend p \<longleftrightarrow> mem ! p = d"
  by (auto simp: plain_tokenizer_def delimiter_test_def)

lemma token_step_at:
  assumes "looks_at tz mem bufend (tk_buf st) = q" "q < length mem"
  shows "token_step tz cb mem bufend st =
    (let c = mem ! q; is_delimiter = delimiter_test tz mem bufend (tk_buf st);
         reset = tk_escape_sequence st; st' = st\<lparr>tk_buf := q + 1\<rparr>
     in case tk_state st of
          START_FIELD \<Rightarrow> start_field tz cb mem bufend is_delimiter reset c st'
        | IN_FIELD \<Rightarrow> in_field tz cb is_delimiter reset c st'
        | IN_QUOTED_FIELD \<Rightarrow> Inr (in_quoted_field tz mem bufend reset c st'))"
proof -
  have "tk_buf st < length mem" using assms by (auto simp: looks_at_def split: if_splits)
  then show ?thesis using assms unfolding token_step_def looks_at_def[symmetric] Let_def
    by (simp cong: tokenizer_state.case_cong)
qed

lemma tokenize_loop_step:
  assumes "tk_keep_parsing st" "tk_buf st \<noteq> bufend" "token_step tz cb mem bufend st = Inr st'"
  shows "tokenize_loop tz cb mem bufend st = tokenize_loop tz cb mem bufend st'"
  using assms by (subst tokenize_loop.simps) simp

lemma open_quote_step:
  assumes o: "quoting_tokenizer tz" and q: "looks_at tz mem bufend p = q" "p \<noteq> bufend" "q < length mem" "mem ! q = 34"
    and a: "tokenizing_at st p START_FIELD False f u"
  shows "\<exists>st'. tokenize_loop tz cb mem bufend st = tokenize_loop tz cb mem bufend st' \<and>
     tokenizing_at st' (q + 1) IN_QUOTED_FIELD False [34] u"
proof -
  note a = tokenizing_atD[OF a]
  let ?s = "st\<lparr>tk_buf := q + 1, tk_delimiter_encountered := False, tk_field_buffer_len := 0\<rparr>"
  let ?st = "(push_char tz 34 ?s)\<lparr>tk_state := IN_QUOTED_FIELD\<rparr>"
  have "token_step tz cb mem bufend st = Inr ?st"
    using o a q by (simp add: token_step_at[of tz mem bufend st q] Let_def start_field_def quoting_tokenizer_def after_switch_def)
  moreover have "tokenizing_at ?st (q + 1) IN_QUOTED_FIELD False [34] u"
    using o a push_char_field[of ?s tz 34] by (simp add: tokenizing_at_def quoting_tokenizer_def)
  ultimately show ?thesis using tokenize_loop_step[of st bufend tz cb mem ?st] a q by auto
qed

lemma quoted_char_step:
  assumes o: "quoting_tokenizer tz" and q: "looks_at tz mem bufend p = q" "p \<noteq> bufend" "q < length mem" and c: "mem ! q = c"
    and a: "tokenizing_at st p IN_QUOTED_FIELD e f u"
  shows "\<exists>st'. tokenize_loop tz cb mem bufend st = tokenize_loop tz cb mem bufend st' \<and>
     tokenizing_at st' (q + 1) (if c = 34 \<and> \<not> e then IN_FIELD else IN_QUOTED_FIELD) (\<not> e \<and> c = 92) (f @ [c]) u"
proof -
  note a = tokenizing_atD[OF a]
  let ?s = "st\<lparr>tk_buf := q + 1\<rparr>"
  let ?st = "in_quoted_field tz mem bufend e c ?s"
  have "token_step tz cb mem bufend st = Inr ?st"
    using a q c by (simp add: token_step_at[of tz mem bufend st q] Let_def)
  moreover have "tokenizing_at ?st (q + 1) (if c = 34 \<and> \<not> e then IN_FIELD else IN_QUOTED_FIELD) (\<not> e \<and> c = 92) (f @ [c]) u"
    using o a push_char_field[of ?s tz c]
    by (auto simp: tokenizing_at_def quoting_tokenizer_def in_quoted_field_def after_switch_def)
  ultimately show ?thesis using tokenize_loop_step[of st bufend tz cb mem ?st] a q by auto
qed

lemmas plain_open_quote_step = open_quote_step[OF plain_quoting plain_looks_at]
lemmas plain_quoted_char_step = quoted_char_step[OF plain_quoting plain_looks_at]

lemma quoted_chars:
  assumes o: "plain_tokenizer tz d" and "bufend \<le> length mem"
  shows "quoted_scan e cs = Some e' \<Longrightarrow> take (length cs) (drop p mem) = cs \<Longrightarrow> p + length cs \<le> bufend \<Longrightarrow>
    tokenizing_at st p IN_QUOTED_FIELD e f u \<Longrightarrow>
    \<exists>st'. tokenize_loop tz cb mem bufend st = tokenize_loop tz cb mem bufend st' \<and>
      tokenizing_at st' (p + length cs) IN_QUOTED_FIELD e' (f @ cs) u"
proof (induction cs arbitrary: e p f st)
  case (Cons c cs)
  have p: "p < length mem" using Cons.prems(3) assms(2) by simp
  then have m: "drop p mem = mem ! p # drop (Suc p) mem" by (simp add: Cons_nth_drop_Suc)
  have c: "mem ! p = c" and cs: "take (length cs) (drop (p + 1) mem) = cs" using Cons.prems(2) by (simp_all add: m)
  have e: "\<not> (c = 34 \<and> \<not> e)" and r: "quoted_scan (\<not> e \<and> c = 92) cs = Some e'"
    using Cons.prems(1) by (auto split: if_splits)
  obtain st' where "tokenize_loop tz cb mem bufend st = tokenize_loop tz cb mem bufend st'"
    and t: "tokenizing_at st' (p + 1) IN_QUOTED_FIELD (\<not> e \<and> c = 92) (f @ [c]) u"
    using plain_quoted_char_step[OF o o _ p c Cons.prems(4), of bufend cb] Cons.prems(3) e by auto
  then show ?case using Cons.IH[OF r cs _ t] Cons.prems(3) by simp
qed auto

lemma quoted_field:
  assumes o: "plain_tokenizer tz d" and b: "bufend \<le> length mem" "p + length (quoted v) \<le> bufend"
    and m: "drop p mem = quoted v @ ys" and a: "tokenizing_at st p START_FIELD False f u"
  shows "\<exists>st'. tokenize_loop tz cb mem bufend st = tokenize_loop tz cb mem bufend st' \<and>
     tokenizing_at st' (p + length (quoted v)) IN_FIELD False (quoted v) u"
proof -
  let ?e = "escape_all 92 False v" and ?L = "tokenize_loop tz cb mem bufend"
  have d: "drop (p + 1) mem = ?e @ 34 # ys" "drop (p + 1 + length ?e) mem = 34 # ys"
    using arg_cong[OF m, of "drop 1"] arg_cong[OF m, of "drop (1 + length ?e)"] by (simp_all add: quoted_def add.commute)
  have n: "mem ! p = 34" "take (length ?e) (drop (p + 1) mem) = ?e" "mem ! (p + 1 + length ?e) = 34"
    using m nth_via_drop[OF d(2)] by (simp_all only: d(1)) (simp_all add: quoted_def nth_via_drop)
  have l: "p < bufend" "p + 1 + length ?e \<le> bufend" "p + 1 + length ?e < bufend"
    using b(2) by (simp_all add: quoted_def)
  obtain s1 where 1: "?L st = ?L s1" "tokenizing_at s1 (p + 1) IN_QUOTED_FIELD False [34] u"
    using plain_open_quote_step[OF o o _ _ n(1) a, of bufend cb] l b by auto
  obtain s2 where 2: "?L s1 = ?L s2" "tokenizing_at s2 (p + 1 + length ?e) IN_QUOTED_FIELD False ([34] @ ?e) u"
    using quoted_chars[OF o b(1) quoted_scan_escaped n(2) l(2) 1(2)] by blast
  obtain s3 where "?L s2 = ?L s3" "tokenizing_at s3 (p + 1 + length ?e + 1) IN_FIELD False (([34] @ ?e) @ [34]) u"
    using plain_quoted_char_step[OF o o _ _ n(3) 2(2), of bufend cb] l b by auto
  then show ?thesis using 1 2 by (auto simp: quoted_def)
qed

lemma flex_add_quoted:
  assumes o: "ct_escape_char tz = 92" "ct_na_values tz = []" and z: "0 \<notin> set v" and m: "take len mem = quoted v" "len \<le> length mem"
    and t: "ctr < length output" "get_type (output ! ctr) = STRING"
  shows "cb_add_token (flex_callbacks tz fp permit) mem len (ctr, output) = Inr (True, ctr + 1, output[ctr := FlexString v])"
proof -
  let ?e = "escape_all 92 False v"
  have l: "len = Suc (Suc (length ?e))" using arg_cong[OF m(1), of length] m(2) by (simp add: quoted_def)
  have i: "mem ! i = quoted v ! i" if "i < len" for i using that m(1)[symmetric] by simp
  have n: "mem ! Suc (length ?e) = 34" "mem ! 0 = 34" using i[of "Suc (length ?e)"] i[of 0] l by (simp_all add: quoted_def nth_append)
  have r: "right_trim mem 0 len = len" using n unfolding l by simp
  have s: "take (len - 2) (drop 1 mem) = ?e"
    using arg_cong[OF m(1), of "\<lambda>x. take (len - 2) (drop 1 x)"] by (simp add: quoted_def l drop_take)
  have u: "unescape_string ?e 92 = v"
    using unescape_loop_law[of 0 0 ?e 92] unescape_escape_all[OF z] by (simp add: unescape_string_def)
  have "parse_as tz fp mem 0 len (output ! ctr) = Inr (True, 0, FlexString v)"
    using o m(2) s u n t r by (simp add: parse_as_def Let_def parse_missing_def l)
  then show ?thesis using t l by (simp add: flex_callbacks_def flex_add_token_def)
qed

lemma delimiter_step:
  assumes o: "plain_tokenizer tz d" and b: "p < bufend" "bufend \<le> length mem" "mem ! p = d"
    and a: "tokenizing_at st p IN_FIELD False f u"
    and t: "cb_add_token cb (tk_field_buffer st) (tk_field_buffer_len st) u = Inr (True, u')"
  shows "\<exists>st'. tokenize_loop tz cb mem bufend st = tokenize_loop tz cb mem bufend st' \<and>
     tokenizing_at st' (p + 1) START_FIELD False [] u'"
proof -
  note a = tokenizing_atD[OF a]
  let ?st = "st\<lparr>tk_buf := p + 1, tk_user := u', tk_field_buffer_len := 0, tk_delimiter_encountered := True, tk_state := START_FIELD\<rparr>"
  have "token_step tz cb mem bufend st = Inr ?st"
    using a b t by (simp add: token_step_at[OF plain_looks_at[OF o]] plain_delimiter_test[OF o] Let_def in_field_def
        end_field_def after_switch_def)
  moreover have "tokenizing_at ?st (p + 1) START_FIELD False [] u'" using a by (simp add: tokenizing_at_def)
  ultimately show ?thesis using tokenize_loop_step[of st bufend tz cb mem ?st] a b by auto
qed

lemma tokenize_loop_end: "tk_buf st = bufend \<Longrightarrow> tokenize_loop tz cb mem bufend st = Some (Inr st)"
  by (subst tokenize_loop.simps) simp

lemma flex_add_next:
  assumes o: "plain_tokenizer tz d" and z: "0 \<notin> set v" and a: "tokenizing_at st p s e (quoted v) u"
    and x: "get_type x = STRING"
  shows "cb_add_token (flex_callbacks tz fp permit) (tk_field_buffer st) (tk_field_buffer_len st) (length ws, map FlexString ws @ x # todo) =
     Inr (True, length (ws @ [v]), map FlexString (ws @ [v]) @ todo)"
  using flex_add_quoted[OF _ _ z tokenizing_atD(7,8)[OF a], of tz "length ws" "map FlexString ws @ x # todo" fp permit] x o
  by (simp add: list_update_append nth_append plain_tokenizer_def)

lemma quoted_rows:
  assumes o: "plain_tokenizer tz d"
  shows "\<forall>v \<in> set (v # vs). 0 \<notin> set v \<Longrightarrow> drop p mem = quoted_line [d] (v # vs) @ ys \<Longrightarrow>
    bufend = p + length (quoted_line [d] (v # vs)) \<Longrightarrow> length todo = length (v # vs) \<Longrightarrow>
    \<forall>x \<in> set todo. get_type x = STRING \<Longrightarrow>
    tokenizing_at st p START_FIELD False f (length ws, map FlexString ws @ todo) \<Longrightarrow>
    \<exists>st' fb. tokenize_loop tz (flex_callbacks tz fp permit) mem bufend st = Some (Inr st') \<and>
      tokenize_cleanup (flex_callbacks tz fp permit) st' =
        Inr (True, (length (ws @ v # vs), map FlexString (ws @ v # vs)), fb)"
proof (induction vs arbitrary: v p st f ws todo)
  let ?cb = "flex_callbacks tz fp permit"
  let ?L = "tokenize_loop tz ?cb mem bufend"
  case Nil
  then obtain x where todo: "todo = [x]" by (auto simp: length_Suc_conv)
  have m: "p + length (quoted v) = bufend" "drop p mem = quoted v @ ys" using Nil.prems by simp_all
  moreover have "bufend \<le> length mem" using m(1) arg_cong[OF m(2), of length] by (simp add: quoted_def)
  ultimately obtain st' where 1: "?L st = ?L st'" "tokenizing_at st' bufend IN_FIELD False (quoted v) (length ws, map FlexString ws @ [x])"
    using quoted_field[OF o _ _ _ Nil.prems(6), of bufend mem v ys ?cb] by (auto simp: todo)
  have "?L st' = Some (Inr st')" using 1(2) by (simp add: tokenize_loop_end tokenizing_at_def)
  moreover have "tokenize_cleanup ?cb st' = Inr (True, (length (ws @ [v]), map FlexString (ws @ [v])), tk_field_buffer st')"
    using flex_add_next[OF o _ 1(2), of x fp permit ws "[]"] Nil.prems tokenizing_atD[OF 1(2)]
    by (simp add: tokenize_cleanup_def todo)
  ultimately show ?case using 1(1) by auto
next
  let ?cb = "flex_callbacks tz fp permit"
  let ?L = "tokenize_loop tz ?cb mem bufend"
  case (Cons v' vs)
  then obtain x todo' where todo: "todo = x # todo'" by (cases todo) auto
  let ?q = "p + length (quoted v)"
  have m: "drop p mem = quoted v @ (d # quoted_line [d] (v' # vs) @ ys)" using Cons.prems(2) by simp
  have e: "bufend = ?q + 1 + length (quoted_line [d] (v' # vs))" using Cons.prems(3) by simp
  have m2: "drop ?q mem = d # quoted_line [d] (v' # vs) @ ys" and m3: "drop (?q + 1) mem = quoted_line [d] (v' # vs) @ ys"
    using arg_cong[OF m, of "drop (length (quoted v))"] arg_cong[OF m, of "drop (length (quoted v) + 1)"]
    by (simp_all only: drop_drop add.commute add.left_commute) simp_all
  have b: "bufend \<le> length mem" "?q \<le> bufend" "?q < bufend" using arg_cong[OF m2, of length] e by simp_all
  obtain s1 where 1: "?L st = ?L s1" "tokenizing_at s1 ?q IN_FIELD False (quoted v) (length ws, map FlexString ws @ x # todo')"
    using quoted_field[OF o b(1,2) m Cons.prems(6)] by (auto simp: todo)
  have a: "cb_add_token ?cb (tk_field_buffer s1) (tk_field_buffer_len s1) (length ws, map FlexString ws @ x # todo') =
     Inr (True, length (ws @ [v]), map FlexString (ws @ [v]) @ todo')"
    using flex_add_next[OF o _ 1(2)] Cons.prems by (simp add: todo)
  obtain s2 where 2: "?L s1 = ?L s2" "tokenizing_at s2 (?q + 1) START_FIELD False [] (length (ws @ [v]), map FlexString (ws @ [v]) @ todo')"
    using delimiter_step[OF o b(3,1) nth_via_drop[OF m2] 1(2) a] by blast
  show ?case using Cons.IH[OF _ m3 e _ _ 2(2)] Cons.prems(1,4,5) 1(1) 2(1) by (simp add: todo)
qed

text \<open>C26. A row of strings without NUL characters that \<open>csv_writer::write\<close> writes with quotes is one line, and
  \<open>csv_line_tokenizer::tokenize_line\<close> reads back exactly these strings from it, whatever characters they hold
  (delimiters, quotes, line breaks, backslashes, comment characters) and whatever follows the line in memory,
  when both use the same single-character delimiter, the quote character \<open>"\<close>, the escape character \<open>\\<close> and no
  doubled quotes.\<close>

theorem csv_row_roundtrip:
  assumes "cw_escape_char w = 92" "cw_quote_char w = 34" "cw_use_quote_char w" "\<not> cw_double_quote w"
    and "cw_delimiter w = [d]" "ct_delimiter tz = [d]" "d \<notin> {10, 13, 34}"
    and "ct_escape_char tz = 92" "ct_quote_char tz = 34" "\<not> ct_double_quote tz" "\<not> ct_preserve_quoting tz"
    and "ct_na_values tz = []" "ct_field_buffer tz \<noteq> []" "tokenizer_init tz = Some tz'"
    and "\<forall>v \<in> set row. 0 \<notin> set v"
    and "length columns = length row" "\<forall>x \<in> set columns. get_type x = STRING"
  shows "\<exists>line buf' tz''. csv_write w tostr (map FlexString row) (out, buf) = Some (out @ line @ [10], buf') \<and>
    10 \<notin> set line \<and>
    tokenize_line_flex tz' fp permit_undefined (line @ rest) (length line) columns =
      Some (Inr (length row, map FlexString row, tz''))"
proof -
  let ?l = "quoted_line [d] row" and ?cb = "flex_callbacks tz' fp permit_undefined"
  have w: "\<exists>buf'. csv_write w tostr (map FlexString row) (out, buf) = Some (out @ ?l @ [10], buf')"
    using csv_write_from_strings[of w tostr row out buf] assms(1-5) by (auto simp: csv_write_def plain_writer_def)
  have o: "plain_tokenizer tz' d" using assms by (auto simp: tokenizer_init_def plain_tokenizer_def)
  have "\<exists>fb. tokenize_line_impl tz' ?cb (?l @ rest) (length ?l) (0, columns) = Some (Inr (True, (length row, map FlexString row), fb))"
  proof (cases row)
    case Nil
    then show ?thesis using o assms(16)
      by (simp add: tokenize_line_impl_def plain_tokenizer_def tokenize_loop_end tokenize_cleanup_def)
  next
    case (Cons v vs)
    define st where "st = \<lparr>tk_buf = 0, tk_good = True, tk_keep_parsing = True, tk_delimiter_encountered = False,
      tk_escape_sequence = False, tk_state = START_FIELD, tk_field_buffer = ct_field_buffer tz',
      tk_field_buffer_len = 0, tk_user = (0 :: nat, columns)\<rparr>"
    have "tokenizing_at st 0 START_FIELD False [] (length [], map FlexString [] @ columns)"
      using o by (simp add: tokenizing_at_def st_def plain_tokenizer_def)
    from quoted_rows[OF o _ _ _ _ _ this, of v vs "?l @ rest" rest "length ?l" fp permit_undefined]
    show ?thesis using assms(15-17) o by (auto simp: tokenize_line_impl_def plain_tokenizer_def st_def Cons)
  qed
  then show ?thesis using w quoted_line_no_newline[of "[d]" row] assms(7)
    by (fastforce simp: tokenize_line_flex_def)
qed

theorem csv_row_roundtrip_witness:
  "\<exists>tz' line buf' tz''. tokenizer_init csv_line_tokenizer_new = Some tz' \<and>
    csv_write \<lparr>cw_delimiter = [44], cw_escape_char = 92, cw_double_quote = False, cw_quote_char = 34, cw_use_quote_char = True, cw_header = True\<rparr>
      (\<lambda>_. []) (map FlexString [[97, 44, 34], []]) ([], []) = Some ([] @ line @ [10], buf') \<and> 10 \<notin> set line \<and>
    tokenize_line_flex tz' \<lparr>fp_int = \<lambda>_. (FlexInt 0, False, 0), fp_double = \<lambda>_. (FlexInt 0, False, 0),
        fp_vector = \<lambda>_. (FlexVec [], False, 0), fp_dict = \<lambda>_. (FlexDict [], False, 0),
        fp_recursive = \<lambda>_. (FlexList [], False, 0), fp_general = \<lambda>_. (FlexInt 0, False, 0)\<rparr> True
      (line @ [10, 35]) (length line) [FlexString [], FlexString []] =
      Some (Inr (length [[97, 44, 34 :: byte], []], map FlexString [[97, 44, 34], []], tz''))"
proof -
  obtain tz' where i: "tokenizer_init csv_line_tokenizer_new = Some tz'"
    by (simp add: tokenizer_init_def csv_line_tokenizer_new_def)
  show ?thesis
    using csv_row_roundtrip[where tz = csv_line_tokenizer_new and tz' = tz' and d = 44 and row = "[[97, 44, 34], []]"
        and columns = "[FlexString [], FlexString []]" and out = "[]" and buf = "[]" and rest = "[10, 35]" and permit_undefined = True
        and w = "\<lparr>cw_delimiter = [44], cw_escape_char = 92, cw_double_quote = False, cw_quote_char = 34, cw_use_quote_char = True, cw_header = True\<rparr>"]
      i
    by (simp add: csv_line_tokenizer_new_def)
qed


section \<open>The types of the columns\<close>


definition type_kept :: "flex_type_enum \<Rightarrow> flexible_type \<Rightarrow> bool" where
  "type_kept t x \<longleftrightarrow> t = UNDEFINED \<or> get_type x = t"

definition typed_output :: "flex_type_enum list \<Rightarrow> nat \<times> flexible_type list \<Rightarrow> bool" where
  "typed_output ts u \<longleftrightarrow> length (snd u) = length ts \<and> fst u \<le> length ts \<and>
     (\<forall>i < length ts. type_kept (ts ! i) (snd u ! i) \<or> i < fst u \<and> snd u ! i = FlexUndefined)"

text \<open>After a lookahead that fails on a column of floats the entry has become an integer.\<close>

definition type_lost :: "flex_type_enum list \<Rightarrow> nat \<times> flexible_type list \<Rightarrow> bool" where
  "type_lost ts u \<longleftrightarrow> fst u < length ts \<and> length (snd u) = length ts \<and> get_type (snd u ! fst u) = INTEGER"













definition typed_tokenizing :: "flex_type_enum list \<Rightarrow> (nat \<times> flexible_type list) tokenizing \<Rightarrow> bool" where
  "typed_tokenizing ts st \<longleftrightarrow> length (snd (tk_user st)) = length ts \<and> tk_field_buffer st \<noteq> [] \<and>
     tk_field_buffer_len st \<le> length (tk_field_buffer st) \<and> (tk_keep_parsing st \<longrightarrow> tk_good st) \<and>
     (tk_good st \<longrightarrow> (tk_state st = START_FIELD \<longrightarrow> tk_field_buffer_len st = 0) \<and>
        (typed_output ts (tk_user st) \<or>
         type_lost ts (tk_user st) \<and> tk_state st = IN_FIELD \<and> 0 < tk_field_buffer_len st \<and> tk_field_buffer st ! 0 \<in> {91, 123}))"

lemma after_switch_typed [simp]: "typed_tokenizing ts (after_switch reset st) = typed_tokenizing ts st"
  by (simp add: after_switch_def typed_tokenizing_def)



















end
