(* ===== verification/Buffer_Pool.thy ===== *)
theory Buffer_Pool
  imports Main
begin

text \<open>
  The pool of buffers of \<open>util/buffer_pool.hpp\<close>. A buffer is an address; a shared pointer to it is an
  occurrence of the address in the pool, in the free list or among the pointers the callers hold, and
  \<open>use_count\<close> counts them all. Calls are atomic.
\<close>

section \<open>Definitions\<close>

record 'a buffer_pool =
  bp_buffer_size :: nat
  bp_buffer_pool :: "nat list"
  bp_free_buffers :: "nat list"
  bp_held :: "nat list"
  bp_contents :: "nat \<Rightarrow> 'a list"
  bp_next :: nat

definition buffer_pool_new :: "nat \<Rightarrow> 'a buffer_pool" where
  "buffer_pool_new buffer_size = \<lparr>bp_buffer_size = buffer_size, bp_buffer_pool = [], bp_free_buffers = [],
     bp_held = [], bp_contents = (\<lambda>_. []), bp_next = 0\<rparr>"

definition pool_init :: "nat \<Rightarrow> 'a buffer_pool \<Rightarrow> 'a buffer_pool" where
  "pool_init buffer_size bp = bp\<lparr>bp_buffer_size := buffer_size\<rparr>"

definition use_count :: "'a buffer_pool \<Rightarrow> nat \<Rightarrow> nat" where
  "use_count bp a = count_list (bp_buffer_pool bp) a + count_list (bp_free_buffers bp) a + count_list (bp_held bp) a"

text \<open>The search for buffers only the pool points to. The head of the free list is the top of the stack.\<close>

fun push_unique :: "nat list \<Rightarrow> 'a buffer_pool \<Rightarrow> 'a buffer_pool" where
  "push_unique [] bp = bp"
| "push_unique (a # as) bp =
     push_unique as (if use_count bp a = 1 then bp\<lparr>bp_free_buffers := a # bp_free_buffers bp\<rparr> else bp)"

definition get_new_buffer :: "'a buffer_pool \<Rightarrow> nat \<times> 'a buffer_pool" where
  "get_new_buffer bp =
     (let bp = (if bp_free_buffers bp = [] then push_unique (bp_buffer_pool bp) bp else bp)
      in case bp_free_buffers bp of
           a # free \<Rightarrow> (a, bp\<lparr>bp_free_buffers := free, bp_held := a # bp_held bp\<rparr>)
         | [] \<Rightarrow>
             let a = bp_next bp
             in (a, bp\<lparr>bp_next := a + 1, bp_contents := (bp_contents bp)(a := []), bp_held := a # bp_held bp,
                   bp_buffer_pool := (if length (bp_buffer_pool bp) < bp_buffer_size bp
                                      then bp_buffer_pool bp @ [a] else bp_buffer_pool bp)\<rparr>))"

text \<open>The pointer of the caller is moved to the free list, or dropped.\<close>

definition release_buffer :: "nat option \<Rightarrow> 'a buffer_pool \<Rightarrow> 'a buffer_pool" where
  "release_buffer buffer bp =
     (case buffer of
        None \<Rightarrow> bp
      | Some a \<Rightarrow>
          bp\<lparr>bp_contents := (bp_contents bp)(a := []), bp_held := remove1 a (bp_held bp),
             bp_free_buffers :=
               (if length (bp_buffer_pool bp) + length (bp_free_buffers bp) < bp_buffer_size bp
                then a # bp_free_buffers bp else bp_free_buffers bp)\<rparr>)"

text \<open>
  What callers do: get buffers, fill the ones they hold, copy and drop pointers, and release a buffer they
  hold the only pointer to.
\<close>

inductive pool_step :: "'a buffer_pool \<Rightarrow> 'a buffer_pool \<Rightarrow> bool" where
  step_init: "pool_step bp (pool_init n bp)"
| step_get: "get_new_buffer bp = (a, bp') \<Longrightarrow> pool_step bp bp'"
| step_fill: "a \<in> set (bp_held bp) \<Longrightarrow> pool_step bp (bp\<lparr>bp_contents := (bp_contents bp)(a := xs)\<rparr>)"
| step_copy: "a \<in> set (bp_held bp) \<Longrightarrow> pool_step bp (bp\<lparr>bp_held := a # bp_held bp\<rparr>)"
| step_drop: "pool_step bp (bp\<lparr>bp_held := remove1 a (bp_held bp)\<rparr>)"
| step_release: "count_list (bp_held bp) a = 1 \<Longrightarrow> pool_step bp (release_buffer (Some a) bp)"
| step_release_null: "pool_step bp (release_buffer None bp)"

section \<open>The invariant\<close>

definition pool_inv :: "'a buffer_pool \<Rightarrow> bool" where
  "pool_inv bp \<longleftrightarrow> distinct (bp_buffer_pool bp) \<and> distinct (bp_free_buffers bp) \<and>
     set (bp_free_buffers bp) \<inter> set (bp_held bp) = {} \<and>
     (\<forall>a\<in>set (bp_buffer_pool bp) \<union> set (bp_free_buffers bp) \<union> set (bp_held bp). a < bp_next bp)"

lemma push_unique_fields [simp]:
  "bp_buffer_pool (push_unique as bp) = bp_buffer_pool bp" "bp_held (push_unique as bp) = bp_held bp"
  "bp_next (push_unique as bp) = bp_next bp" "bp_buffer_size (push_unique as bp) = bp_buffer_size bp"
  "bp_contents (push_unique as bp) = bp_contents bp"
  by (induction as arbitrary: bp) simp_all

lemma count_list_pos: "a \<in> set xs \<Longrightarrow> 0 < count_list xs a"
  by (induction xs) auto

text \<open>A buffer found by the search is in the pool and nowhere else.\<close>

lemma use_count_unique:
  assumes "a \<in> set (bp_buffer_pool bp)" "use_count bp a = 1"
  shows "a \<notin> set (bp_free_buffers bp)" "a \<notin> set (bp_held bp)"
  using assms count_list_pos[of a "bp_buffer_pool bp"] count_list_pos[of a "bp_free_buffers bp"] count_list_pos[of a "bp_held bp"]
  by (auto simp: use_count_def)

lemma push_unique_inv: "pool_inv bp \<Longrightarrow> set as \<subseteq> set (bp_buffer_pool bp) \<Longrightarrow> pool_inv (push_unique as bp)"
proof (induction as arbitrary: bp)
  case (Cons a as)
  let ?bp = "if use_count bp a = 1 then bp\<lparr>bp_free_buffers := a # bp_free_buffers bp\<rparr> else bp"
  have "a \<in> set (bp_buffer_pool bp)" using Cons.prems(2) by simp
  then have "pool_inv ?bp" using Cons.prems(1) use_count_unique[of a bp] by (auto simp: pool_inv_def)
  moreover have "set as \<subseteq> set (bp_buffer_pool ?bp)" using Cons.prems(2) by simp
  ultimately show ?case using Cons.IH[of ?bp] by simp
qed simp

lemma get_new_buffer_inv:
  assumes inv: "pool_inv bp" and g: "get_new_buffer bp = (a, bp')"
  shows "pool_inv bp'" "a \<notin> set (bp_held bp)" "bp_held bp' = a # bp_held bp"
proof -
  define b where "b = (if bp_free_buffers bp = [] then push_unique (bp_buffer_pool bp) bp else bp)"
  have i: "pool_inv b" and h: "bp_held b = bp_held bp" using push_unique_inv[OF inv] inv by (simp_all add: b_def)
  have "pool_inv bp' \<and> a \<notin> set (bp_held b) \<and> bp_held bp' = a # bp_held b"
    using g i unfolding get_new_buffer_def Let_def b_def[symmetric]
    by (cases "bp_free_buffers b") (auto simp: pool_inv_def less_Suc_eq split: if_splits)
  then show "pool_inv bp'" "a \<notin> set (bp_held bp)" "bp_held bp' = a # bp_held bp" unfolding h by blast+
qed

lemma remove1_count_one: "count_list xs a = 1 \<Longrightarrow> a \<notin> set (remove1 a xs)"
  by (induction xs) (auto split: if_splits dest: count_list_pos)

lemma pool_step_inv: "pool_step bp bp' \<Longrightarrow> pool_inv bp \<Longrightarrow> pool_inv bp'"
proof (induction rule: pool_step.induct)
  case (step_get bp a bp')
  then show ?case by (rule get_new_buffer_inv(1)[rotated])
next
  case (step_drop bp a)
  have "set (remove1 a (bp_held bp)) \<subseteq> set (bp_held bp)" by (rule set_remove1_subset)
  then show ?case using step_drop unfolding pool_inv_def by auto
next
  case (step_release bp a)
  then have "a \<in> set (bp_held bp)" by (metis count_notin zero_neq_one)
  then show ?case using step_release remove1_count_one[of "bp_held bp" a] set_remove1_subset[of a "bp_held bp"]
    unfolding pool_inv_def release_buffer_def by auto
qed (auto simp: pool_inv_def pool_init_def release_buffer_def)

lemma pool_reachable: "pool_step\<^sup>*\<^sup>* (buffer_pool_new n) bp \<Longrightarrow> pool_inv bp"
proof (induction rule: rtranclp_induct)
  case base
  show ?case by (simp add: pool_inv_def buffer_pool_new_def)
qed (rule pool_step_inv)

section \<open>Properties\<close>

text \<open>C24. However callers get, copy, drop and release buffers, the pool never hands out a buffer that a caller
  still holds, provided that a released buffer is not shared.\<close>

theorem pool_buffer_not_in_use:
  assumes "pool_step\<^sup>*\<^sup>* (buffer_pool_new n) bp" "get_new_buffer bp = (a, bp')"
  shows "a \<notin> set (bp_held bp) \<and> count_list (bp_held bp') a = 1"
  using get_new_buffer_inv(2,3)[OF pool_reachable[OF assms(1)] assms(2)] by (simp_all add: count_notin)

theorem pool_buffer_not_in_use_witness:
  defines "bp1 \<equiv> snd (get_new_buffer (buffer_pool_new 2 :: nat buffer_pool))"
  shows "fst (get_new_buffer bp1) = 1 \<and> bp_held bp1 = [0] \<and> 1 \<notin> set (bp_held bp1) \<and>
    fst (get_new_buffer (release_buffer (Some 0) bp1)) = 0 \<and> count_list (bp_held (snd (get_new_buffer (release_buffer (Some 0) bp1)))) 0 = 1"
proof -
  have g1: "get_new_buffer (buffer_pool_new 2 :: nat buffer_pool) = (0, bp1)"
    by (simp add: bp1_def get_new_buffer_def buffer_pool_new_def)
  have h: "bp_held bp1 = [0]" and g2: "fst (get_new_buffer bp1) = 1" "fst (get_new_buffer (release_buffer (Some 0) bp1)) = 0"
    by (simp_all add: bp1_def get_new_buffer_def buffer_pool_new_def use_count_def release_buffer_def)
  have r1: "pool_step\<^sup>*\<^sup>* (buffer_pool_new 2) bp1" using step_get[OF g1] by blast
  have "pool_step bp1 (release_buffer (Some 0) bp1)" by (rule step_release) (simp add: h)
  then have r2: "pool_step\<^sup>*\<^sup>* (buffer_pool_new 2) (release_buffer (Some 0) bp1)" using r1 by simp
  show ?thesis
    using pool_buffer_not_in_use[OF r1, of "fst (get_new_buffer bp1)" "snd (get_new_buffer bp1)"] g2 h
      pool_buffer_not_in_use[OF r2, of 0 "snd (get_new_buffer (release_buffer (Some 0) bp1))"]
    by (simp add: prod_eq_iff)
qed

end
