(* ===== verification/Hopscotch_Table.thy ===== *)
theory Hopscotch_Table
  imports Prelude "HOL-Library.Multiset"
begin

text \<open>
  The hopscotch hash table (\<open>graphlab/util/hopscotch_table.hpp\<close>). The array of a table of length \<open>n\<close> has
  \<open>n + 32\<close> slots. The field of a slot tells, for each of the next 31 slots, whether it holds an element whose hash
  falls on the slot. An element is stored at a distance below 31 from the slot of its hash; an insertion that finds
  no free slot that near moves other elements up.

  Iterators are positions in the array, the end is its length. \<open>DASSERT_TRUE\<close> fails the call here, and the
  laws below show that it never does, so that builds without assertions behave the same.
\<close>

section \<open>Definitions\<close>

record 'a element =
  el_hasdata :: bool
  el_field :: "31 word"
  el_elem :: 'a

record 'a hopscotch_table =
  ht_data :: "'a element list"
  ht_numel :: u64
  ht_mask :: u64

text \<open>The parameters of the template: \<open>Hash\<close>, \<open>KeyEqual\<close>, the value \<open>T()\<close>, and the perturbation of the hash
  that \<open>compute_hash\<close> is compiled with, which is the CRC32 instruction or the mix function below.\<close>

record 'a table_params =
  tp_hashfun :: "'a \<Rightarrow> u64"
  tp_equalfun :: "'a \<Rightarrow> 'a \<Rightarrow> bool"
  tp_default :: 'a
  tp_perturb :: "u64 \<Rightarrow> u64"

definition next_powerof2 :: "u64 \<Rightarrow> u64" where
  "next_powerof2 val =
     (let val = val - 1;
          val = val OR drop_bit 1 val;
          val = val OR drop_bit 2 val;
          val = val OR drop_bit 4 val;
          val = val OR drop_bit 8 val;
          val = val OR drop_bit 16 val;
          val = val OR drop_bit 32 val
      in val + 1)"

definition jenkins_mix :: "u64 \<Rightarrow> u64" where
  "jenkins_mix state =
     (let state = state + push_bit 12 state;
          state = state XOR drop_bit 22 state;
          state = state + push_bit 4 state;
          state = state XOR drop_bit 9 state;
          state = state + push_bit 10 state;
          state = state XOR drop_bit 2 state;
          state = state + push_bit 7 state;
          state = state XOR drop_bit 12 state
      in state)"

definition compute_hash :: "'a table_params \<Rightarrow> 'a \<Rightarrow> u64" where
  "compute_hash P d = tp_perturb P (tp_hashfun P d)"

definition hopscotch_table_new :: "'a table_params \<Rightarrow> u64 \<Rightarrow> 'a hopscotch_table" where
  "hopscotch_table_new P len =
     (let size = next_powerof2 len + 32
      in \<lparr>ht_data = replicate (unat size) \<lparr>el_hasdata = False, el_field = 0, el_elem = tp_default P\<rparr>,
          ht_numel = 0, ht_mask = size - 32 - 1\<rparr>)"

text \<open>The slot an element hashes to.\<close>

definition ht_target :: "'a table_params \<Rightarrow> 'a hopscotch_table \<Rightarrow> 'a \<Rightarrow> nat" where
  "ht_target P t d = unat (compute_hash P d AND ht_mask t)"

text \<open>\<open>__builtin_ctz\<close>; no call is made at 0.\<close>

definition builtin_ctz :: "u32 \<Rightarrow> nat" where
  "builtin_ctz x = length (takeWhile (\<lambda>i. \<not> bit x i) [0..<32])"

lemma builtin_ctz:
  assumes "x \<noteq> 0"
  shows "bit x (builtin_ctz x)" "j < builtin_ctz x \<Longrightarrow> \<not> bit x j"
proof -
  let ?P = "\<lambda>i. \<not> bit x i" and ?n = "builtin_ctz x"
  have n: "?n = length (takeWhile ?P [0..<32])" by (simp add: builtin_ctz_def)
  obtain i where "bit x i" using assms by (auto simp: bit_eq_iff)
  moreover have "i < 32" using \<open>bit x i\<close> bit_imp_le_length by fastforce
  ultimately have "takeWhile ?P [0..<32] \<noteq> [0..<32]" by (auto simp: takeWhile_eq_all_conv)
  then have "?n < 32"
    unfolding n by (metis append_Nil2 diff_zero length_takeWhile_le length_upt less_le takeWhile_dropWhile_id length_append add_cancel_right_right length_0_conv)
  then show "bit x ?n" using nth_length_takeWhile[of ?P "[0..<32]"] by (simp add: n)
  show "\<not> bit x j" if "j < ?n"
    using that \<open>?n < 32\<close> takeWhile_nth[of j ?P "[0..<32]"] nth_mem[of j "takeWhile ?P [0..<32]"]
      set_takeWhileD[of j ?P "[0..<32]"] by (simp add: n)
qed

lemma unat_clear_bit: "bit x n \<Longrightarrow> unat (x AND NOT (push_bit n 1)) < unat (x :: u32)"
proof -
  assume b: "bit x n"
  have "x AND NOT (push_bit n 1) \<le> x" by (rule word_and_le2)
  moreover have "bit x n \<noteq> bit (x AND NOT (push_bit n 1)) n"
    using b bit_imp_le_length[OF b] by (simp add: bit_simps)
  then have "x AND NOT (push_bit n 1) \<noteq> x" by metis
  ultimately show ?thesis by (simp add: word_less_nat_alt[symmetric])
qed

subsection \<open>Searching\<close>

function find_loop :: "'a table_params \<Rightarrow> 'a element list \<Rightarrow> 'a \<Rightarrow> nat \<Rightarrow> u32 \<Rightarrow> error + nat" where
  "find_loop P data key target field =
     (if field > 0 then
        let r = builtin_ctz field
        in if \<not> target + r < length data then Inl Undefined_Behaviour
           else if el_hasdata (data ! (target + r)) \<and> tp_equalfun P (el_elem (data ! (target + r))) key then Inr (target + r)
           else find_loop P data key target (field AND NOT (push_bit r 1))
      else Inr (length data))"
  by pat_completeness auto
termination
  by (relation "measure (\<lambda>(_, _, _, _, field). unat field)") (auto simp del: push_bit_of_1 intro!: unat_clear_bit builtin_ctz)

declare find_loop.simps [simp del]

definition find_impl :: "'a table_params \<Rightarrow> 'a hopscotch_table \<Rightarrow> 'a \<Rightarrow> nat \<Rightarrow> error + nat" where
  "find_impl P t key target =
     (if \<not> target < length (ht_data t) then Inl Undefined_Behaviour
      else find_loop P (ht_data t) key target (ucast (el_field (ht_data t ! target))))"

definition ht_find :: "'a table_params \<Rightarrow> 'a \<Rightarrow> 'a hopscotch_table \<Rightarrow> error + nat" where
  "ht_find P key t = find_impl P t key (ht_target P t key)"

definition ht_count :: "'a table_params \<Rightarrow> 'a \<Rightarrow> 'a hopscotch_table \<Rightarrow> error + bool" where
  "ht_count P v t = result_bind (ht_find P v t) (\<lambda>i. Inr (i \<noteq> length (ht_data t)))"

definition ht_get :: "'a table_params \<Rightarrow> 'a \<Rightarrow> 'a hopscotch_table \<Rightarrow> error + (bool \<times> 'a)" where
  "ht_get P v t = result_bind (ht_find P v t) (\<lambda>i.
     if i \<noteq> length (ht_data t) \<and> el_hasdata (ht_data t ! i) \<and> tp_equalfun P (el_elem (ht_data t ! i)) v
     then Inr (True, el_elem (ht_data t ! i)) else Inr (False, tp_default P))"

subsection \<open>Insertion\<close>

text \<open>The first free slot from \<open>i\<close> on, below \<open>limit\<close>.\<close>

function find_empty :: "'a element list \<Rightarrow> nat \<Rightarrow> nat \<Rightarrow> nat option" where
  "find_empty data i limit =
     (if i < limit then if \<not> el_hasdata (data ! i) then Some i else find_empty data (i + 1) limit else None)"
  by pat_completeness auto
termination
  by (relation "measure (\<lambda>(_, i, limit). limit - i)") auto

declare find_empty.simps [simp del]

definition move_elem :: "'a \<Rightarrow> nat \<Rightarrow> nat \<Rightarrow> 'a element list \<Rightarrow> 'a element list" where
  "move_elem dflt from_pos to_pos data =
     (let data = data[to_pos := (data ! to_pos)\<lparr>el_elem := el_elem (data ! from_pos), el_hasdata := True\<rparr>]
      in data[from_pos := (data ! from_pos)\<lparr>el_hasdata := False, el_elem := dflt\<rparr>])"

definition set_field :: "nat \<Rightarrow> u32 \<Rightarrow> 'a element list \<Rightarrow> 'a element list" where
  "set_field h field data = data[h := (data ! h)\<lparr>el_field := ucast field\<rparr>]"

text \<open>The loop over \<open>i\<close> from 30 down to 1: the first slot \<open>shift_target - i\<close> that has an element before
  \<open>shift_target\<close> moves its nearest one there.\<close>

fun hop_back :: "'a \<Rightarrow> 'a element list \<Rightarrow> nat \<Rightarrow> nat \<Rightarrow> error + (nat \<times> 'a element list) option" where
  "hop_back dflt data shift_target 0 = Inr None"
| "hop_back dflt data shift_target (Suc k) =
     (let i = Suc k
      in if \<not> (i \<le> shift_target \<and> shift_target < length data) then Inl Undefined_Behaviour
         else let field = ucast (el_field (data ! (shift_target - i))) :: u32; r = builtin_ctz field
              in if field \<noteq> 0 \<and> r \<le> i then
                   let new_shift_target = shift_target - i + r
                   in if \<not> el_hasdata (data ! new_shift_target) then Inl Assertion_Failed
                      else Inr (Some (new_shift_target,
                        set_field (shift_target - i) ((field AND NOT (push_bit r 1)) OR push_bit i 1)
                          (move_elem dflt new_shift_target shift_target data)))
                 else hop_back dflt data shift_target k)"

text \<open>The loop that brings the free slot near enough to \<open>target\<close>; it gives up when no element can be moved.\<close>

partial_function (option) hop_near ::
  "'a \<Rightarrow> nat \<Rightarrow> nat \<Rightarrow> 'a element list \<Rightarrow> (error + nat option \<times> 'a element list) option" where
  "hop_near dflt target shift_target data =
     (if shift_target - target \<ge> 31 then
        case hop_back dflt data shift_target 30 of
          Inl e \<Rightarrow> Some (Inl e)
        | Inr None \<Rightarrow> Some (Inr (None, data))
        | Inr (Some (new_shift_target, data)) \<Rightarrow> hop_near dflt target new_shift_target data
      else Some (Inr (Some shift_target, data)))"

declare hop_near.simps [code]

definition place_elem :: "'a \<Rightarrow> nat \<Rightarrow> nat \<Rightarrow> 'a element list \<Rightarrow> 'a element list" where
  "place_elem newdata target shift_target data =
     (let data = data[shift_target := (data ! shift_target)\<lparr>el_elem := newdata\<rparr>];
          data = set_field target (ucast (el_field (data ! target)) OR push_bit (shift_target - target) 1) data
      in data[shift_target := (data ! shift_target)\<lparr>el_hasdata := True\<rparr>])"

definition insert_impl ::
  "'a table_params \<Rightarrow> 'a \<Rightarrow> bool \<Rightarrow> 'a hopscotch_table \<Rightarrow> (error + nat \<times> 'a hopscotch_table) option" where
  "insert_impl P newdata over t =
     (let target = ht_target P t newdata; data = ht_data t
      in case find_impl P t newdata target of
           Inl e \<Rightarrow> Some (Inl e)
         | Inr i \<Rightarrow>
             if i \<noteq> length data
             then Some (Inr (i, if over then t\<lparr>ht_data := data[i := (data ! i)\<lparr>el_elem := newdata\<rparr>]\<rparr> else t))
             else case find_empty data target (min (length data) (target + 31 * 20)) of
               None \<Rightarrow> Some (Inr (length data, t))
             | Some shift_target \<Rightarrow>
                 run_bind (hop_near (tp_default P) target shift_target data) (\<lambda>(res, data). case res of
                   None \<Rightarrow> Some (Inr (length data, t\<lparr>ht_data := data\<rparr>))
                 | Some shift_target \<Rightarrow>
                     Some (Inr (shift_target, t\<lparr>ht_data := place_elem newdata target shift_target data,
                                                ht_numel := ht_numel t + 1\<rparr>))))"

definition ht_insert :: "'a table_params \<Rightarrow> 'a \<Rightarrow> 'a hopscotch_table \<Rightarrow> (error + nat \<times> 'a hopscotch_table) option" where
  "ht_insert P newdata = insert_impl P newdata True"

definition insert_do_not_overwrite ::
  "'a table_params \<Rightarrow> 'a \<Rightarrow> 'a hopscotch_table \<Rightarrow> (error + nat \<times> 'a hopscotch_table) option" where
  "insert_do_not_overwrite P newdata = insert_impl P newdata False"

subsection \<open>Removal and iteration\<close>

definition ht_clear :: "'a table_params \<Rightarrow> 'a hopscotch_table \<Rightarrow> 'a hopscotch_table" where
  "ht_clear P t = t\<lparr>ht_data := map (\<lambda>el. el\<lparr>el_hasdata := False, el_field := 0, el_elem := tp_default P\<rparr>) (ht_data t),
     ht_numel := 0\<rparr>"

definition ht_erase_at :: "'a table_params \<Rightarrow> nat \<Rightarrow> 'a hopscotch_table \<Rightarrow> error + bool \<times> 'a hopscotch_table" where
  "ht_erase_at P i t =
     (let data = ht_data t
      in if i = length data then Inr (False, t)
         else if \<not> i < length data then Inl Undefined_Behaviour
         else if \<not> el_hasdata (data ! i) then Inl Assertion_Failed
         else let target = ht_target P t (el_elem (data ! i))
              in if \<not> (target \<le> i \<and> i - target < 31) then Inl Assertion_Failed
                 else let data = data[i := (data ! i)\<lparr>el_hasdata := False, el_elem := tp_default P\<rparr>]
                      in Inr (True, t\<lparr>ht_numel := ht_numel t - 1,
                           ht_data := set_field target (ucast (el_field (data ! target)) AND NOT (push_bit (i - target) 1)) data\<rparr>))"

definition ht_erase :: "'a table_params \<Rightarrow> 'a \<Rightarrow> 'a hopscotch_table \<Rightarrow> error + bool \<times> 'a hopscotch_table" where
  "ht_erase P key t = result_bind (ht_find P key t) (\<lambda>i. ht_erase_at P i t)"

text \<open>The loop of \<open>begin\<close> and of the increment of an iterator.\<close>

function skip_unused :: "'a element list \<Rightarrow> nat \<Rightarrow> nat" where
  "skip_unused data i = (if i < length data \<and> \<not> el_hasdata (data ! i) then skip_unused data (i + 1) else i)"
  by pat_completeness auto
termination
  by (relation "measure (\<lambda>(data, i). length data - i)") auto

declare skip_unused.simps [simp del]

definition ht_begin :: "'a hopscotch_table \<Rightarrow> nat" where
  "ht_begin t = skip_unused (ht_data t) 0"

definition ht_next :: "'a hopscotch_table \<Rightarrow> nat \<Rightarrow> nat" where
  "ht_next t i = skip_unused (ht_data t) (i + 1)"

section \<open>What a table holds\<close>

definition entries :: "'a element list \<Rightarrow> 'a multiset" where
  "entries data = mset (map el_elem (filter el_hasdata data))"

definition slot :: "'a element list \<Rightarrow> nat \<Rightarrow> 'a \<Rightarrow> bool" where
  "slot data i x \<longleftrightarrow> i < length data \<and> el_hasdata (data ! i) \<and> el_elem (data ! i) = x"

lemma entries_iff_slot: "x \<in># entries data \<longleftrightarrow> (\<exists>i. slot data i x)"
  by (auto simp: entries_def slot_def in_set_conv_nth)

lemma entries_update:
  "i < length data \<Longrightarrow> entries (data[i := e]) + (if el_hasdata (data ! i) then {#el_elem (data ! i)#} else {#}) =
     entries data + (if el_hasdata e then {#el_elem e#} else {#})"
  by (subst (2) id_take_nth_drop[of i data])
    (auto simp: entries_def upd_conv_take_nth_drop)

lemma entries_field [simp]: "entries (set_field h f data) = entries data"
proof (cases "h < length data")
  case True
  have "entries (set_field h f data) + (if el_hasdata (data ! h) then {#el_elem (data ! h)#} else {#}) =
    entries data + (if el_hasdata (data ! h) then {#el_elem (data ! h)#} else {#})"
    unfolding set_field_def using entries_update[OF True] by simp
  then show ?thesis by (rule add_right_imp_eq)
qed (simp add: set_field_def list_update_beyond)

lemma length_set_field [simp]: "length (set_field h f data) = length data"
  by (simp add: set_field_def)

lemma nth_set_field: "i < length data \<Longrightarrow>
  set_field h f data ! i = (if i = h then (data ! i)\<lparr>el_field := ucast f\<rparr> else data ! i)"
  by (auto simp: set_field_def nth_list_update)

text \<open>
  The invariant of the array, for the map \<open>home\<close> from elements to the slots they hash to: the fields are exact, and
  every element is near the slot it hashes to.
\<close>

definition hop_wf :: "('a \<Rightarrow> nat) \<Rightarrow> 'a element list \<Rightarrow> bool" where
  "hop_wf home data \<longleftrightarrow>
     (\<forall>h<length data. \<forall>r. bit (el_field (data ! h)) r \<longleftrightarrow>
        r < 31 \<and> h + r < length data \<and> el_hasdata (data ! (h + r)) \<and> home (el_elem (data ! (h + r))) = h) \<and>
     (\<forall>i<length data. el_hasdata (data ! i) \<longrightarrow> home (el_elem (data ! i)) \<le> i \<and> i < home (el_elem (data ! i)) + 31)"

lemma hop_wf_bit:
  "hop_wf home data \<Longrightarrow> h < length data \<Longrightarrow> bit (el_field (data ! h)) r \<longleftrightarrow>
     r < 31 \<and> h + r < length data \<and> el_hasdata (data ! (h + r)) \<and> home (el_elem (data ! (h + r))) = h"
  by (simp add: hop_wf_def)

lemma hop_wf_near:
  "hop_wf home data \<Longrightarrow> slot data i x \<Longrightarrow> home x \<le> i \<and> i < home x + 31"
  by (auto simp: hop_wf_def slot_def)

lemma bit_ucast_field: "bit (ucast (f :: 31 word) :: u32) r \<longleftrightarrow> bit f r"
  by (auto simp: bit_simps dest: bit_imp_le_length)

subsection \<open>Searching\<close>

lemma find_loop_law:
  assumes "\<forall>r. bit field r \<longrightarrow> target + r < length data"
  shows "\<exists>i. find_loop P data key target field = Inr i \<and>
    (i = length data \<and> (\<forall>r. bit field r \<longrightarrow> \<not> (el_hasdata (data ! (target + r)) \<and> tp_equalfun P (el_elem (data ! (target + r))) key)) \<or>
     (\<exists>r. i = target + r \<and> bit field r \<and> el_hasdata (data ! i) \<and> tp_equalfun P (el_elem (data ! i)) key))"
  using assms
proof (induction P data key target field rule: find_loop.induct)
  case (1 P data key target field)
  show ?case
  proof (cases "field = 0")
    case False
    let ?r = "builtin_ctz field" and ?f = "field AND NOT (push_bit (builtin_ctz field) 1)"
    have r: "bit field ?r" using False by (rule builtin_ctz)
    have f: "bit ?f k \<longleftrightarrow> bit field k \<and> k \<noteq> ?r" for k
      using bit_imp_le_length[of field k] by (auto simp: bit_simps)
    have p: "field > 0" using False by (simp add: word_neq_0_conv)
    show ?thesis
    proof (cases "el_hasdata (data ! (target + ?r)) \<and> tp_equalfun P (el_elem (data ! (target + ?r))) key")
      case True
      then show ?thesis using p r 1(2) by (subst find_loop.simps) (auto simp: Let_def)
    next
      case no: False
      have "find_loop P data key target field = find_loop P data key target ?f"
        using p r 1(2) no by (subst find_loop.simps) (auto simp: Let_def simp del: push_bit_of_1)
      moreover have "\<forall>k. bit ?f k \<longrightarrow> target + k < length data" using 1(2) f by blast
      ultimately show ?thesis using 1(1)[OF p refl _ no] r 1(2) f no by (auto simp del: push_bit_of_1)
    qed
  qed (simp add: find_loop.simps)
qed

lemma find_loop_home:
  assumes "hop_wf home data" "h < length data"
  shows "\<exists>i. find_loop P data key h (ucast (el_field (data ! h))) = Inr i \<and>
    (i = length data \<and> (\<forall>j x. slot data j x \<and> home x = h \<longrightarrow> \<not> tp_equalfun P x key) \<or>
     (\<exists>x. slot data i x \<and> home x = h \<and> tp_equalfun P x key))"
proof -
  have b: "bit (ucast (el_field (data ! h)) :: u32) r \<longleftrightarrow>
     r < 31 \<and> h + r < length data \<and> el_hasdata (data ! (h + r)) \<and> home (el_elem (data ! (h + r))) = h" for r
    using hop_wf_bit[OF assms] by (simp add: bit_ucast_field)
  obtain i where i: "find_loop P data key h (ucast (el_field (data ! h))) = Inr i"
    "i = length data \<and> (\<forall>r. bit (ucast (el_field (data ! h)) :: u32) r \<longrightarrow> \<not> (el_hasdata (data ! (h + r)) \<and> tp_equalfun P (el_elem (data ! (h + r))) key)) \<or>
     (\<exists>r. i = h + r \<and> bit (ucast (el_field (data ! h)) :: u32) r \<and> el_hasdata (data ! i) \<and> tp_equalfun P (el_elem (data ! i)) key)"
    using find_loop_law[of "ucast (el_field (data ! h))" h data P key] b by blast
  from i(2) show ?thesis
  proof
    assume e: "i = length data \<and> (\<forall>r. bit (ucast (el_field (data ! h)) :: u32) r \<longrightarrow> \<not> (el_hasdata (data ! (h + r)) \<and> tp_equalfun P (el_elem (data ! (h + r))) key))"
    have "\<not> tp_equalfun P x key" if "slot data j x" "home x = h" for j x
      using e[THEN conjunct2, rule_format, of "j - h"] hop_wf_near[OF assms(1) that(1)] that by (auto simp: b slot_def less_diff_conv2)
    then show ?thesis using i(1) e by blast
  next
    assume "\<exists>r. i = h + r \<and> bit (ucast (el_field (data ! h)) :: u32) r \<and> el_hasdata (data ! i) \<and> tp_equalfun P (el_elem (data ! i)) key"
    then show ?thesis using i(1) by (auto simp: b slot_def)
  qed
qed

subsection \<open>Moving, placing and removing elements\<close>

lemma hop_move:
  fixes home :: "'a \<Rightarrow> nat" and dflt :: 'a
  assumes wf: "hop_wf home data" and s: "s < length data" "\<not> el_hasdata (data ! s)" and i: "0 < i" "i \<le> 30" "i \<le> s"
    and r: "bit (el_field (data ! (s - i))) r" "r \<le> i"
  defines "data' \<equiv> set_field (s - i) ((ucast (el_field (data ! (s - i))) AND NOT (push_bit r 1)) OR push_bit i 1)
    (move_elem dflt (s - i + r) s data)"
  shows "el_hasdata (data ! (s - i + r))" "s - i + r < s" "hop_wf home data'" "entries data' = entries data"
    "length data' = length data" "\<not> el_hasdata (data' ! (s - i + r))"
proof -
  let ?h = "s - i" and ?n = "s - i + r"
  have h: "?h < length data" using s by simp
  have x: "r < 31" "?n < length data" "el_hasdata (data ! ?n)" "home (el_elem (data ! ?n)) = ?h"
    using hop_wf_bit[OF wf h] r by auto
  show "el_hasdata (data ! ?n)" by (rule x(3))
  have "r \<noteq> i" using x(3) s(2) i by auto
  then show less: "?n < s" using r(2) i by simp
  show len: "length data' = length data" by (simp add: data'_def move_elem_def Let_def)
  define m where "m = move_elem dflt ?n s data"
  have d: "data' = set_field ?h ((ucast (el_field (data ! ?h)) AND NOT (push_bit r 1)) OR push_bit i 1) m"
    by (simp add: data'_def m_def)
  have m: "length m = length data" "k < length data \<Longrightarrow> m ! k =
      (if k = s then (data ! s)\<lparr>el_elem := el_elem (data ! ?n), el_hasdata := True\<rparr>
       else if k = ?n then (data ! ?n)\<lparr>el_hasdata := False, el_elem := dflt\<rparr> else data ! k)" for k
    using less s x(2) by (auto simp: m_def move_elem_def Let_def nth_list_update)
  have hd: "el_hasdata (data' ! k) \<longleftrightarrow> k = s \<or> k \<noteq> ?n \<and> el_hasdata (data ! k)" if "k < length data" for k
    using that less m h by (simp add: d nth_set_field)
  have el: "el_elem (data' ! k) = (if k = s then el_elem (data ! ?n) else if k = ?n then dflt else el_elem (data ! k))"
    if "k < length data" for k
    using that less m h by (simp add: d nth_set_field)
  have fl: "bit (el_field (data' ! k)) b \<longleftrightarrow>
      (if k = ?h then b = i \<or> b \<noteq> r \<and> bit (el_field (data ! k)) b else bit (el_field (data ! k)) b)" if "k < length data" for k b
    using that less m h i x(1) bit_imp_le_length[of "el_field (data ! k)" b]
    by (auto simp: d nth_set_field bit_simps)
  show "\<not> el_hasdata (data' ! ?n)" using hd[OF x(2)] less by simp
  show "hop_wf home data'"
    unfolding hop_wf_def len
  proof (intro conjI allI impI)
    fix k b assume k: "k < length data"
    show "bit (el_field (data' ! k)) b \<longleftrightarrow>
      b < 31 \<and> k + b < length data \<and> el_hasdata (data' ! (k + b)) \<and> home (el_elem (data' ! (k + b))) = k"
    proof -
      consider "k + b = s" | "k + b = ?n" | "k + b \<noteq> s" "k + b \<noteq> ?n" by blast
      then show ?thesis
      proof cases
        case 1
        then have "k = ?h \<longleftrightarrow> b = i" using i by arith
        moreover have "\<not> bit (el_field (data ! k)) b" using hop_wf_bit[OF wf k, of b] s(2) 1 by simp
        ultimately show ?thesis using fl[OF k, of b] hd[OF s(1)] el[OF s(1)] x(4) s(1) i(2) 1 by auto
      next
        case 2
        then have "k = ?h \<longleftrightarrow> b = r" by arith
        then show ?thesis using fl[OF k, of b] hd[OF x(2)] hop_wf_bit[OF wf k, of b] x(4) less \<open>r \<noteq> i\<close> 2 by auto
      next
        case 3
        then have "k = ?h \<Longrightarrow> b \<noteq> i \<and> b \<noteq> r" using i by auto
        then show ?thesis using fl[OF k, of b] hd[of "k + b"] el[of "k + b"] hop_wf_bit[OF wf k, of b] 3 by auto
      qed
    qed
  next
    fix k assume "k < length data" "el_hasdata (data' ! k)"
    then show "home (el_elem (data' ! k)) \<le> k" "k < home (el_elem (data' ! k)) + 31"
      using wf hd[of k] el[of k] x i by (auto simp: hop_wf_def)
  qed
  have "entries (data[s := (data ! s)\<lparr>el_elem := el_elem (data ! ?n), el_hasdata := True\<rparr>]) = entries data + {#el_elem (data ! ?n)#}"
    using entries_update[OF s(1), of "(data ! s)\<lparr>el_elem := el_elem (data ! ?n), el_hasdata := True\<rparr>"] s(2) by simp
  moreover have "entries m + {#el_elem (data ! ?n)#} = entries (data[s := (data ! s)\<lparr>el_elem := el_elem (data ! ?n), el_hasdata := True\<rparr>])"
    using entries_update[of ?n "data[s := (data ! s)\<lparr>el_elem := el_elem (data ! ?n), el_hasdata := True\<rparr>]"] x less
    by (simp add: m_def move_elem_def Let_def)
  ultimately show "entries data' = entries data" by (simp add: d)
qed

lemma hop_place:
  assumes wf: "hop_wf home data" and s: "s < length data" "\<not> el_hasdata (data ! s)" "home x \<le> s" "s < home x + 31"
  defines "data' \<equiv> place_elem x (home x) s data"
  shows "hop_wf home data'" "entries data' = add_mset x (entries data)" "length data' = length data" "slot data' s x"
proof -
  let ?h = "home x"
  let ?d = "data[s := (data ! s)\<lparr>el_elem := x\<rparr>]"
  let ?f = "ucast (el_field (?d ! ?h)) OR push_bit (s - ?h) 1 :: u32"
  let ?d1 = "set_field ?h ?f ?d"
  have h: "?h < length data" using s by simp
  have d: "data' = ?d1[s := (?d1 ! s)\<lparr>el_hasdata := True\<rparr>]" by (simp add: data'_def place_elem_def Let_def)
  show len: "length data' = length data" by (simp add: d)
  have hd: "el_hasdata (data' ! k) \<longleftrightarrow> k = s \<or> el_hasdata (data ! k)" if "k < length data" for k
    using that s by (simp add: d nth_set_field nth_list_update)
  have el: "el_elem (data' ! k) = (if k = s then x else el_elem (data ! k))" if "k < length data" for k
    using that s by (simp add: d nth_set_field nth_list_update)
  have fl: "bit (el_field (data' ! k)) b \<longleftrightarrow> bit (el_field (data ! k)) b \<or> k = ?h \<and> b = s - ?h" if "k < length data" for k b
    using that s bit_imp_le_length[of "el_field (data ! k)" b]
    by (auto simp: d nth_set_field nth_list_update bit_simps)
  show "slot data' s x" using s hd el by (simp add: slot_def len)
  show "hop_wf home data'"
    unfolding hop_wf_def len
  proof (intro conjI allI impI)
    fix k b assume k: "k < length data"
    show "bit (el_field (data' ! k)) b \<longleftrightarrow>
      b < 31 \<and> k + b < length data \<and> el_hasdata (data' ! (k + b)) \<and> home (el_elem (data' ! (k + b))) = k"
      using fl[OF k, of b] hop_wf_bit[OF wf k, of b] hd[of "k + b"] el[of "k + b"] s
      by (cases "k = ?h"; cases "k + b = s") auto
  next
    fix k assume "k < length data" "el_hasdata (data' ! k)"
    then show "home (el_elem (data' ! k)) \<le> k" "k < home (el_elem (data' ! k)) + 31"
      using wf hd[of k] el[of k] s by (auto simp: hop_wf_def)
  qed
  have "entries ?d1 = entries data" using entries_update[OF s(1), of "(data ! s)\<lparr>el_elem := x\<rparr>"] s(2) by simp
  moreover have "\<not> el_hasdata (?d1 ! s)" "el_elem (?d1 ! s) = x" using s by (auto simp: nth_set_field)
  moreover obtain d1 where "d1 = ?d1" by simp
  ultimately show "entries data' = add_mset x (entries data)"
    using entries_update[of s d1 "(d1 ! s)\<lparr>el_hasdata := True\<rparr>"] s(1) unfolding d by (simp del: entries_field push_bit_of_1)
qed

lemma hop_remove:
  fixes home :: "'a \<Rightarrow> nat" and dflt :: 'a
  assumes wf: "hop_wf home data" and s: "slot data s x"
  defines "data1 \<equiv> data[s := (data ! s)\<lparr>el_hasdata := False, el_elem := dflt\<rparr>]"
  defines "data' \<equiv> set_field (home x) (ucast (el_field (data1 ! home x)) AND NOT (push_bit (s - home x) 1)) data1"
  shows "hop_wf home data'" "add_mset x (entries data') = entries data" "length data' = length data"
proof -
  let ?h = "home x"
  have s': "s < length data" "el_hasdata (data ! s)" "el_elem (data ! s) = x" using s by (auto simp: slot_def)
  have near: "?h \<le> s" "s < ?h + 31" using hop_wf_near[OF wf s] by auto
  have h: "?h < length data" using s' near by simp
  show len: "length data' = length data" by (simp add: data'_def data1_def)
  have hd: "el_hasdata (data' ! k) \<longleftrightarrow> k \<noteq> s \<and> el_hasdata (data ! k)" if "k < length data" for k
    using that s' by (simp add: data'_def data1_def nth_set_field nth_list_update)
  have el: "k \<noteq> s \<Longrightarrow> el_elem (data' ! k) = el_elem (data ! k)" if "k < length data" for k
    using that s' by (simp add: data'_def data1_def nth_set_field nth_list_update)
  have fl: "bit (el_field (data' ! k)) b \<longleftrightarrow> bit (el_field (data ! k)) b \<and> \<not> (k = ?h \<and> b = s - ?h)" if "k < length data" for k b
    using that s' bit_imp_le_length[of "el_field (data ! k)" b]
    by (auto simp: data'_def data1_def nth_set_field nth_list_update bit_simps)
  show "hop_wf home data'"
    unfolding hop_wf_def len
  proof (intro conjI allI impI)
    fix k b assume k: "k < length data"
    show "bit (el_field (data' ! k)) b \<longleftrightarrow>
      b < 31 \<and> k + b < length data \<and> el_hasdata (data' ! (k + b)) \<and> home (el_elem (data' ! (k + b))) = k"
      using fl[OF k, of b] hop_wf_bit[OF wf k, of b] hd[of "k + b"] el[of "k + b"] s' near
      by (cases "k = ?h"; cases "k + b = s") auto
  next
    fix k assume "k < length data" "el_hasdata (data' ! k)"
    then show "home (el_elem (data' ! k)) \<le> k" "k < home (el_elem (data' ! k)) + 31"
      using wf hd[of k] el[of k] by (auto simp: hop_wf_def)
  qed
  show "add_mset x (entries data') = entries data"
    using entries_update[OF s'(1), of "(data ! s)\<lparr>el_hasdata := False, el_elem := dflt\<rparr>"] s'
    by (simp add: data'_def data1_def)
qed

lemma hop_overwrite:
  assumes wf: "hop_wf home data" and s: "slot data s x" and h: "home y = home x"
  defines "data' \<equiv> data[s := (data ! s)\<lparr>el_elem := y\<rparr>]"
  shows "hop_wf home data'" "add_mset x (entries data') = add_mset y (entries data)" "length data' = length data" "slot data' s y"
proof -
  have s': "s < length data" "el_hasdata (data ! s)" "el_elem (data ! s) = x" using s by (auto simp: slot_def)
  show "length data' = length data" "slot data' s y" using s' by (auto simp: data'_def slot_def)
  have same: "length data' = length data"
    "k < length data \<Longrightarrow> el_field (data' ! k) = el_field (data ! k) \<and> el_hasdata (data' ! k) = el_hasdata (data ! k) \<and>
       home (el_elem (data' ! k)) = home (el_elem (data ! k))" for k
    using s' h by (auto simp: data'_def nth_list_update)
  show "hop_wf home data'" using wf same unfolding hop_wf_def by (metis (no_types, lifting))
  show "add_mset x (entries data') = add_mset y (entries data)"
    using entries_update[OF s'(1), of "(data ! s)\<lparr>el_elem := y\<rparr>"] s' by (simp add: data'_def)
qed

lemma hop_back_law:
  assumes "hop_wf home data" "s < length data" "\<not> el_hasdata (data ! s)" "k \<le> 30" "k \<le> s"
  shows "hop_back dflt data s k = Inr None \<or>
    (\<exists>s' data'. hop_back dflt data s k = Inr (Some (s', data')) \<and> s - k \<le> s' \<and> s' < s \<and> hop_wf home data' \<and>
       entries data' = entries data \<and> length data' = length data \<and> \<not> el_hasdata (data' ! s'))"
  using assms(4,5)
proof (induction k)
  case (Suc k)
  let ?f = "ucast (el_field (data ! (s - Suc k))) :: u32"
  show ?case
  proof (cases "?f \<noteq> 0 \<and> builtin_ctz ?f \<le> Suc k")
    case True
    then have "bit ?f (builtin_ctz ?f)" using builtin_ctz(1) by blast
    then have "bit (el_field (data ! (s - Suc k))) (builtin_ctz ?f)" by (simp only: bit_ucast_field)
    from hop_move(1,2)[OF assms(1-3) _ Suc.prems this] hop_move(3-6)[OF assms(1-3) _ Suc.prems this, where dflt = dflt] True
    show ?thesis using assms(2) Suc.prems by (auto simp: Let_def)
  next
    case False
    then have "hop_back dflt data s (Suc k) = hop_back dflt data s k"
      using Suc.prems assms(2) by (auto simp: Let_def)
    then show ?thesis using Suc.IH Suc.prems by auto
  qed
qed simp

lemma hop_near_law:
  assumes "hop_wf home data" "target \<le> s" "s < length data" "\<not> el_hasdata (data ! s)"
  shows "\<exists>res data'. hop_near dflt target s data = Some (Inr (res, data')) \<and> hop_wf home data' \<and>
    entries data' = entries data \<and> length data' = length data \<and>
    (\<forall>s'. res = Some s' \<longrightarrow> target \<le> s' \<and> s' < target + 31 \<and> s' < length data \<and> \<not> el_hasdata (data' ! s'))"
  using assms
proof (induction s arbitrary: data rule: less_induct)
  case (less s)
  show ?case
  proof (cases "31 \<le> s - target")
    case True
    then have "30 \<le> s" by simp
    from hop_back_law[OF less.prems(1,3,4) _ this, of dflt]
    consider "hop_back dflt data s 30 = Inr None"
      | s' data' where "hop_back dflt data s 30 = Inr (Some (s', data'))" "s - 30 \<le> s'" "s' < s" "hop_wf home data'"
          "entries data' = entries data" "length data' = length data" "\<not> el_hasdata (data' ! s')" by auto
    then show ?thesis
    proof cases
      case 1
      then show ?thesis using True less.prems by (subst hop_near.simps) simp
    next
      case 2
      then have "hop_near dflt target s data = hop_near dflt target s' data'" using True by (subst hop_near.simps) simp
      moreover have "target \<le> s'" using 2(2) True by simp
      ultimately show ?thesis using less.IH[of s' data'] 2 less.prems(3) by simp
    qed
  next
    case False
    then show ?thesis using less.prems by (subst hop_near.simps) auto
  qed
qed

lemma find_empty_law:
  "find_empty data i limit = Some s \<Longrightarrow> limit \<le> length data \<Longrightarrow> i \<le> s \<and> s < limit \<and> \<not> el_hasdata (data ! s)"
proof (induction data i limit rule: find_empty.induct)
  case (1 data i limit)
  then show ?case using find_empty.simps[of data i limit] by (auto split: if_splits)
qed

section \<open>The table\<close>

text \<open>The contract of the functors: an equivalence, and equal elements have the same hash.\<close>

definition functors_ok :: "'a table_params \<Rightarrow> bool" where
  "functors_ok P \<longleftrightarrow> equivp (tp_equalfun P) \<and> (\<forall>a b. tp_equalfun P a b \<longrightarrow> tp_hashfun P a = tp_hashfun P b)"

text \<open>No two of the elements are equal.\<close>

definition apart :: "('a \<Rightarrow> 'a \<Rightarrow> bool) \<Rightarrow> 'a multiset \<Rightarrow> bool" where
  "apart eq M \<longleftrightarrow> (\<forall>x\<in>#M. size (filter_mset (eq x) M) = 1)"

abbreviation ht_entries :: "'a hopscotch_table \<Rightarrow> 'a multiset" where
  "ht_entries t \<equiv> entries (ht_data t)"

definition ht_wf :: "'a table_params \<Rightarrow> 'a hopscotch_table \<Rightarrow> bool" where
  "ht_wf P t \<longleftrightarrow> length (ht_data t) = unat (ht_mask t) + 33 \<and> hop_wf (ht_target P t) (ht_data t) \<and>
     apart (tp_equalfun P) (ht_entries t) \<and> ht_numel t = of_nat (size (ht_entries t))"

lemma ht_target_less: "ht_wf P t \<Longrightarrow> ht_target P t x < length (ht_data t)"
proof -
  have "unat (compute_hash P x AND ht_mask t) \<le> unat (ht_mask t)"
    by (simp add: word_le_nat_alt[symmetric] word_and_le1)
  then show "ht_wf P t \<Longrightarrow> ?thesis" by (simp add: ht_wf_def ht_target_def)
qed

lemma ht_target_mask: "ht_mask t' = ht_mask t \<Longrightarrow> ht_target P t' = ht_target P t"
  by (rule ext) (simp add: ht_target_def)

lemma ht_target_eq: "functors_ok P \<Longrightarrow> tp_equalfun P a b \<Longrightarrow> ht_target P t a = ht_target P t b"
  by (simp add: functors_ok_def ht_target_def compute_hash_def)

lemma apart_add:
  assumes "functors_ok P" "apart (tp_equalfun P) M" "\<forall>y\<in>#M. \<not> tp_equalfun P y x"
  shows "apart (tp_equalfun P) (add_mset x M)"
proof -
  have "tp_equalfun P x x" "\<forall>y\<in>#M. \<not> tp_equalfun P x y"
    using assms by (auto simp: functors_ok_def equivp_reflp dest: equivp_symp)
  then have "filter_mset (tp_equalfun P x) M = filter_mset (\<lambda>_. False) M" by (intro filter_mset_cong) auto
  then show ?thesis using assms \<open>tp_equalfun P x x\<close> by (auto simp: apart_def)
qed

lemma apart_remove:
  assumes "functors_ok P" "apart (tp_equalfun P) (add_mset x M)"
  shows "apart (tp_equalfun P) M" "\<forall>y\<in>#M. \<not> tp_equalfun P y x"
proof -
  have r: "tp_equalfun P y y" for y using assms(1) by (simp add: functors_ok_def equivp_reflp)
  have *: "\<not> tp_equalfun P y x" "size (filter_mset (tp_equalfun P y) M) = 1" if "y \<in># M" for y
  proof -
    have "y \<in># filter_mset (tp_equalfun P y) M" using that r by simp
    then have "size (filter_mset (tp_equalfun P y) M) \<noteq> 0" by auto
    moreover have "size (filter_mset (tp_equalfun P y) (add_mset x M)) = 1" using assms(2) that by (simp add: apart_def)
    ultimately show "\<not> tp_equalfun P y x" "size (filter_mset (tp_equalfun P y) M) = 1" by (auto split: if_splits)
  qed
  then show "apart (tp_equalfun P) M" "\<forall>y\<in>#M. \<not> tp_equalfun P y x" by (simp_all add: apart_def)
qed

lemma ht_find_law:
  assumes f: "functors_ok P" and wf: "ht_wf P t"
  shows "\<exists>i. ht_find P key t = Inr i \<and> find_impl P t key (ht_target P t key) = Inr i \<and>
    (i = length (ht_data t) \<and> (\<forall>x\<in>#ht_entries t. \<not> tp_equalfun P x key) \<or>
     i < length (ht_data t) \<and> (\<exists>x. slot (ht_data t) i x \<and> tp_equalfun P x key))"
proof -
  have h: "hop_wf (ht_target P t) (ht_data t)" using wf by (simp add: ht_wf_def)
  have "ht_find P key t = find_loop P (ht_data t) key (ht_target P t key) (ucast (el_field (ht_data t ! ht_target P t key)))"
    using ht_target_less[OF wf] by (simp add: ht_find_def find_impl_def)
  moreover obtain i where i: "find_loop P (ht_data t) key (ht_target P t key) (ucast (el_field (ht_data t ! ht_target P t key))) = Inr i"
    "i = length (ht_data t) \<and> (\<forall>j x. slot (ht_data t) j x \<and> ht_target P t x = ht_target P t key \<longrightarrow> \<not> tp_equalfun P x key) \<or>
     (\<exists>x. slot (ht_data t) i x \<and> ht_target P t x = ht_target P t key \<and> tp_equalfun P x key)"
    using find_loop_home[OF h ht_target_less[OF wf], of P key key] by blast
  ultimately have "ht_find P key t = Inr i" by simp
  moreover have "\<forall>x\<in>#ht_entries t. \<not> tp_equalfun P x key"
    if "\<forall>j x. slot (ht_data t) j x \<and> ht_target P t x = ht_target P t key \<longrightarrow> \<not> tp_equalfun P x key"
  proof
    fix x assume "x \<in># ht_entries t"
    then obtain j where "slot (ht_data t) j x" by (auto simp: entries_iff_slot)
    then show "\<not> tp_equalfun P x key" using that ht_target_eq[OF f, of x key t] by blast
  qed
  moreover have "slot (ht_data t) i x \<Longrightarrow> i < length (ht_data t)" for x by (simp add: slot_def)
  ultimately show ?thesis using i(2) by (auto simp: ht_find_def)
qed

lemma ht_insert_law:
  assumes f: "functors_ok P" and wf: "ht_wf P t"
  shows "\<exists>i t'. insert_impl P v over t = Some (Inr (i, t')) \<and> ht_wf P t' \<and> length (ht_data t') = length (ht_data t) \<and>
    ht_mask t' = ht_mask t \<and>
    ((\<exists>x M. tp_equalfun P x v \<and> ht_entries t = add_mset x M \<and>
        ht_entries t' = add_mset (if over then v else x) M \<and> slot (ht_data t') i (if over then v else x)) \<or>
     (\<forall>x\<in>#ht_entries t. \<not> tp_equalfun P x v) \<and> i = length (ht_data t) \<and> ht_entries t' = ht_entries t \<or>
     (\<forall>x\<in>#ht_entries t. \<not> tp_equalfun P x v) \<and> ht_entries t' = add_mset v (ht_entries t) \<and> slot (ht_data t') i v)"
proof -
  let ?d = "ht_data t" and ?h = "ht_target P t"
  have h: "hop_wf ?h ?d" "length ?d = unat (ht_mask t) + 33" "apart (tp_equalfun P) (entries ?d)"
    "ht_numel t = of_nat (size (entries ?d))" using wf by (simp_all add: ht_wf_def)
  obtain i where i: "find_impl P t v (?h v) = Inr i"
    "i = length ?d \<and> (\<forall>x\<in>#entries ?d. \<not> tp_equalfun P x v) \<or>
     i < length ?d \<and> (\<exists>x. slot ?d i x \<and> tp_equalfun P x v)" using ht_find_law[OF f wf, of v] by blast
  from i(2) show ?thesis
  proof (elim disjE conjE exE)
    fix x assume x: "i < length ?d" "slot ?d i x" "tp_equalfun P x v"
    obtain M where M: "entries ?d = add_mset x M" using x(2) by (meson entries_iff_slot mset_add)
    show ?thesis
    proof (cases over)
      case True
      let ?t = "t\<lparr>ht_data := ?d[i := (?d ! i)\<lparr>el_elem := v\<rparr>]\<rparr>"
      note o = hop_overwrite[OF h(1) x(2), of v, OF ht_target_eq[OF f x(3), symmetric]]
      have M': "entries (ht_data ?t) = add_mset v M" using o(2) M by simp
      have "\<forall>y\<in>#M. \<not> tp_equalfun P y v"
        using apart_remove(2)[OF f h(3)[unfolded M]] x(3) f by (metis equivp_symp equivp_transp functors_ok_def)
      then have "ht_wf P ?t"
        using o h M M' apart_add[OF f apart_remove(1)[OF f h(3)[unfolded M]]] ht_target_mask[of ?t t P] by (simp add: ht_wf_def)
      then show ?thesis using i(1) x M M' o(3,4) True by (auto simp: insert_impl_def Let_def)
    next
      case False
      then show ?thesis using i(1) x M wf by (auto simp: insert_impl_def Let_def)
    qed
  next
    assume e: "i = length ?d" and no: "\<forall>x\<in>#entries ?d. \<not> tp_equalfun P x v"
    show ?thesis
    proof (cases "find_empty ?d (?h v) (min (length ?d) (?h v + 31 * 20))")
      case None
      then show ?thesis using i(1) e no wf by (auto simp: insert_impl_def Let_def)
    next
      case (Some s)
      note s = find_empty_law[OF Some]
      obtain res d' where r: "hop_near (tp_default P) (?h v) s ?d = Some (Inr (res, d'))" "hop_wf ?h d'"
        "entries d' = entries ?d" "length d' = length ?d"
        "\<And>s'. res = Some s' \<Longrightarrow> ?h v \<le> s' \<and> s' < ?h v + 31 \<and> s' < length ?d \<and> \<not> el_hasdata (d' ! s')"
        using hop_near_law[OF h(1), of "?h v" s "tp_default P"] s by auto
      show ?thesis
      proof (cases res)
        case n: None
        have "ht_wf P (t\<lparr>ht_data := d'\<rparr>)" using r h ht_target_mask[of "t\<lparr>ht_data := d'\<rparr>" t P] by (simp add: ht_wf_def)
        then show ?thesis using i(1) e no r Some n by (auto simp: insert_impl_def Let_def)
      next
        case s': (Some s')
        let ?t = "t\<lparr>ht_data := place_elem v (?h v) s' d', ht_numel := ht_numel t + 1\<rparr>"
        note p = hop_place[OF r(2), of s' v]
        have "ht_wf P ?t"
          using p r s' h no apart_add[OF f h(3)] ht_target_mask[of ?t t P] by (simp add: ht_wf_def)
        then show ?thesis using i(1) e no r Some s' p by (auto simp: insert_impl_def Let_def)
      qed
    qed
  qed
qed

lemma ht_erase_law:
  assumes f: "functors_ok P" and wf: "ht_wf P t"
  shows "\<exists>b t'. ht_erase P key t = Inr (b, t') \<and> ht_wf P t' \<and> length (ht_data t') = length (ht_data t) \<and>
    ht_mask t' = ht_mask t \<and>
    (b \<and> (\<exists>x. tp_equalfun P x key \<and> ht_entries t = add_mset x (ht_entries t')) \<or>
     \<not> b \<and> t' = t \<and> (\<forall>x\<in>#ht_entries t. \<not> tp_equalfun P x key))"
proof -
  let ?d = "ht_data t" and ?h = "ht_target P t"
  have h: "hop_wf ?h ?d" "length ?d = unat (ht_mask t) + 33" "apart (tp_equalfun P) (entries ?d)"
    "ht_numel t = of_nat (size (entries ?d))" using wf by (simp_all add: ht_wf_def)
  obtain i where i: "ht_find P key t = Inr i"
    "i = length ?d \<and> (\<forall>x\<in>#entries ?d. \<not> tp_equalfun P x key) \<or>
     i < length ?d \<and> (\<exists>x. slot ?d i x \<and> tp_equalfun P x key)" using ht_find_law[OF f wf, of key] by blast
  from i(2) show ?thesis
  proof (elim disjE conjE exE)
    fix x assume x: "i < length ?d" "slot ?d i x" "tp_equalfun P x key"
    let ?d1 = "?d[i := (?d ! i)\<lparr>el_hasdata := False, el_elem := tp_default P\<rparr>]"
    let ?t = "t\<lparr>ht_numel := ht_numel t - 1,
      ht_data := set_field (?h x) (ucast (el_field (?d1 ! ?h x)) AND NOT (push_bit (i - ?h x) 1)) ?d1\<rparr>"
    have x': "el_hasdata (?d ! i)" "el_elem (?d ! i) = x" using x(2) by (auto simp: slot_def)
    have near: "?h x \<le> i" "i - ?h x < 31" using hop_wf_near[OF h(1) x(2)] by auto
    note r = hop_remove[OF h(1) x(2), of "tp_default P"]
    have e: "entries ?d = add_mset x (ht_entries ?t)" using r(2) by simp
    have n: "ht_numel ?t = of_nat (size (ht_entries ?t))" using h(4)[unfolded e] by simp
    have "ht_erase P key t = Inr (True, ?t)" using i(1) x(1) x' near by (simp add: ht_erase_def ht_erase_at_def Let_def)
    moreover have "ht_wf P ?t"
      using r(1,3) h(2) n apart_remove(1)[OF f h(3)[unfolded e]] ht_target_mask[of ?t t P] by (simp add: ht_wf_def)
    ultimately show ?thesis using x(3) r(3) e by auto
  qed (use i(1) wf in \<open>auto simp: ht_erase_def ht_erase_at_def\<close>)
qed

subsection \<open>Construction\<close>

definition smeared :: "nat \<Rightarrow> u64 \<Rightarrow> u64 \<Rightarrow> bool" where
  "smeared k v w \<longleftrightarrow> (\<forall>n. bit w n \<longleftrightarrow> (\<exists>j<k. bit v (n + j)))"

lemma smeared_step: "smeared k v w \<Longrightarrow> smeared (2 * k) v (w OR drop_bit k w)"
  unfolding smeared_def
proof (intro allI)
  fix n assume s: "\<forall>n. bit w n \<longleftrightarrow> (\<exists>j<k. bit v (n + j))"
  have "(\<exists>j<2 * k. bit v (n + j)) \<longleftrightarrow> (\<exists>j<k. bit v (n + j)) \<or> (\<exists>j<k. bit v (k + n + j))"
  proof (rule iffI)
    assume "\<exists>j<2 * k. bit v (n + j)"
    then obtain j where j: "j < 2 * k" "bit v (n + j)" by blast
    then show "(\<exists>j<k. bit v (n + j)) \<or> (\<exists>j<k. bit v (k + n + j))"
      by (cases "j < k") (auto intro: exI[of _ "j - k"])
  next
    assume "(\<exists>j<k. bit v (n + j)) \<or> (\<exists>j<k. bit v (k + n + j))"
    then show "\<exists>j<2 * k. bit v (n + j)"
    proof (elim disjE exE conjE)
      fix j assume "j < k" "bit v (k + n + j)"
      then show ?thesis by (intro exI[of _ "k + j"]) (simp add: add_ac)
    next
      fix j assume "j < k" "bit v (n + j)"
      then show ?thesis by (intro exI[of _ j]) simp
    qed
  qed
  then show "bit (w OR drop_bit k w) n \<longleftrightarrow> (\<exists>j<2 * k. bit v (n + j))" using s by (simp add: bit_simps)
qed

lemma smeared_top:
  assumes "smeared 64 v w"
  shows "\<exists>m\<le>64. w = mask m \<and> unat v < 2 ^ m \<and> (0 < m \<longrightarrow> 2 ^ (m - 1) \<le> unat v)"
proof -
  define m where "m = (if v = 0 then 0 else Suc (Max {j. bit v j}))"
  have fin: "finite {j. bit v j}" by (rule finite_subset[of _ "{..<64}"]) (auto dest: bit_imp_le_length)
  have top: "bit v (Max {j. bit v j})" if "v \<noteq> 0"
    using Max_in[OF fin] that by (auto simp: bit_eq_iff)
  have less: "n < m \<longleftrightarrow> (\<exists>j\<ge>n. bit v j)" for n
  proof (cases "v = 0")
    case False
    then show ?thesis using top Max_ge[OF fin] by (auto simp: m_def less_Suc_eq_le intro: order_trans)
  qed (simp add: m_def)
  have m: "m \<le> 64" using top bit_imp_le_length[of v "Max {j. bit v j}"] by (auto simp: m_def)
  have "bit w n \<longleftrightarrow> (\<exists>j\<ge>n. bit v j)" for n
  proof
    assume "\<exists>j\<ge>n. bit v j"
    then obtain j where j: "j \<ge> n" "bit v j" by blast
    then have "bit v (n + (j - n))" "j - n < 64" using bit_imp_le_length[of v j] by auto
    then show "bit w n" using assms by (auto simp: smeared_def)
  next
    assume "bit w n"
    then obtain j where "bit v (n + j)" using assms by (auto simp: smeared_def)
    then show "\<exists>j\<ge>n. bit v j" by (intro exI[of _ "n + j"]) simp
  qed
  then have "w = mask m" using less m by (intro bit_word_eqI) (auto simp: bit_simps)
  moreover have "v = take_bit m v" using less by (intro bit_word_eqI) (auto simp: bit_simps)
  then have "unat v < 2 ^ m" by (metis take_bit_nat_less_exp unsigned_take_bit_eq)
  moreover have "2 ^ (m - 1) \<le> unat v" if "0 < m"
  proof -
    have "bit v (m - 1)" using that top by (auto simp: m_def split: if_splits)
    then have "bit (unat v) (m - 1)" by (simp add: bit_unsigned_iff)
    then show ?thesis by (metis bit_iff_odd div_less even_zero not_le)
  qed
  ultimately show ?thesis using m by blast
qed

text \<open>The next power of two, for every length above 0 that has one.\<close>

lemma next_powerof2_law:
  assumes "0 < len" "unat len \<le> 2 ^ 63"
  shows "\<exists>m\<le>63. next_powerof2 len = 2 ^ m \<and> unat len \<le> 2 ^ m \<and> 2 ^ m < 2 * unat len"
proof -
  define w1 where "w1 = (len - 1) OR drop_bit 1 (len - 1)"
  define w2 where "w2 = w1 OR drop_bit 2 w1"
  define w3 where "w3 = w2 OR drop_bit 4 w2"
  define w4 where "w4 = w3 OR drop_bit 8 w3"
  define w5 where "w5 = w4 OR drop_bit 16 w4"
  define w6 where "w6 = w5 OR drop_bit 32 w5"
  have "smeared 1 (len - 1) (len - 1)" by (simp add: smeared_def)
  from smeared_step[OF this] have "smeared 2 (len - 1) w1" by (simp add: w1_def)
  from smeared_step[OF this] have "smeared 4 (len - 1) w2" by (simp add: w2_def)
  from smeared_step[OF this] have "smeared 8 (len - 1) w3" by (simp add: w3_def)
  from smeared_step[OF this] have "smeared 16 (len - 1) w4" by (simp add: w4_def)
  from smeared_step[OF this] have "smeared 32 (len - 1) w5" by (simp add: w5_def)
  from smeared_step[OF this] have "smeared 64 (len - 1) w6" by (simp add: w6_def)
  from smeared_top[OF this] obtain m where m: "w6 = mask m" "unat (len - 1) < 2 ^ m" "0 < m \<Longrightarrow> 2 ^ (m - 1) \<le> unat (len - 1)" by blast
  have l: "unat (len - 1) = unat len - 1" "0 < unat len" using assms(1) by (simp_all add: unat_minus_one unat_gt_0)
  have "m \<le> 63"
  proof (rule ccontr)
    assume "\<not> m \<le> 63"
    then have "2 ^ 63 \<le> (2 :: nat) ^ (m - 1)" by (intro power_increasing) auto
    then show False using m(3) l assms(2) \<open>\<not> m \<le> 63\<close> by auto
  qed
  moreover have "next_powerof2 len = w6 + 1"
    by (simp add: next_powerof2_def Let_def w1_def w2_def w3_def w4_def w5_def w6_def)
  then have "next_powerof2 len = 2 ^ m" using m(1) by (simp add: mask_eq_exp_minus_1)
  moreover have "(2 :: nat) ^ m < 2 * unat len" using m(3) l by (cases m) auto
  ultimately show ?thesis using m(2) l by auto
qed

lemma entries_empty [simp]: "entries (replicate n \<lparr>el_hasdata = False, el_field = f, el_elem = x\<rparr>) = {#}"
  by (simp add: entries_def)

lemma hop_wf_blank: "\<forall>el\<in>set data. \<not> el_hasdata el \<and> el_field el = 0 \<Longrightarrow> hop_wf home data"
  by (auto simp: hop_wf_def)

lemma hopscotch_table_new_law:
  assumes "0 < len" "unat len \<le> 2 ^ 63"
  shows "ht_wf P (hopscotch_table_new P len)" "ht_entries (hopscotch_table_new P len) = {#}"
    "unat len + 32 \<le> length (ht_data (hopscotch_table_new P len))"
    "length (ht_data (hopscotch_table_new P len)) < 2 * unat len + 32"
proof -
  obtain m where m: "m \<le> 63" "next_powerof2 len = 2 ^ m" "unat len \<le> 2 ^ m" "2 ^ m < 2 * unat len"
    using next_powerof2_law[OF assms] by blast
  have le: "(2 :: nat) ^ m \<le> 2 ^ 63" using m(1) by (intro power_increasing) auto
  have p: "unat (2 ^ m :: u64) = 2 ^ m" using unat_of_nat_u64[of "2 ^ m"] le by simp
  from le have n: "unat (2 ^ m + 32 :: u64) = 2 ^ m + 32" using p by (simp add: unat_word_ariths)
  have k: "unat (2 ^ m - 1 :: u64) = 2 ^ m - 1" using p by (metis unat_minus_one unat_0 power_not_zero zero_neq_numeral)
  show "ht_entries (hopscotch_table_new P len) = {#}" by (simp add: hopscotch_table_new_def Let_def)
  show "unat len + 32 \<le> length (ht_data (hopscotch_table_new P len))"
    "length (ht_data (hopscotch_table_new P len)) < 2 * unat len + 32"
    using m n by (simp_all add: hopscotch_table_new_def Let_def)
  show "ht_wf P (hopscotch_table_new P len)"
    using n k m by (simp add: ht_wf_def hopscotch_table_new_def Let_def hop_wf_blank apart_def)
qed

lemma ht_clear_law: "ht_wf P t \<Longrightarrow> ht_wf P (ht_clear P t) \<and> ht_entries (ht_clear P t) = {#}"
proof -
  have "ht_entries (ht_clear P t) = {#}" by (simp add: ht_clear_def entries_def)
  moreover have "hop_wf home (ht_data (ht_clear P t))" for home by (rule hop_wf_blank) (simp add: ht_clear_def)
  ultimately show "ht_wf P t \<Longrightarrow> ?thesis" by (simp add: ht_wf_def apart_def) (simp add: ht_clear_def)
qed

lemma slot_entries: "slot data i x \<Longrightarrow> x \<in># entries data \<and> el_hasdata (data ! i) \<and> el_elem (data ! i) = x"
  by (auto simp: entries_iff_slot) (simp_all add: slot_def)

lemma ht_count_law:
  assumes "functors_ok P" "ht_wf P t"
  shows "ht_count P v t = Inr (\<exists>x\<in>#ht_entries t. tp_equalfun P x v)"
  using ht_find_law[OF assms, of v] by (auto simp: ht_count_def dest!: slot_entries)

lemma ht_get_law:
  assumes "functors_ok P" "ht_wf P t"
  shows "if \<exists>x\<in>#ht_entries t. tp_equalfun P x v
    then \<exists>x\<in>#ht_entries t. tp_equalfun P x v \<and> ht_get P v t = Inr (True, x)
    else ht_get P v t = Inr (False, tp_default P)"
  using ht_find_law[OF assms, of v] by (auto simp: ht_get_def dest!: slot_entries)

subsection \<open>Iteration\<close>

text \<open>The elements an iterator at \<open>i\<close> passes until the end.\<close>

lemma skip_unused_ge: "i \<le> skip_unused data i"
  by (induction data i rule: skip_unused.induct) (subst skip_unused.simps, auto)

function visited :: "'a hopscotch_table \<Rightarrow> nat \<Rightarrow> 'a list" where
  "visited t i = (if i < length (ht_data t) then el_elem (ht_data t ! i) # visited t (ht_next t i) else [])"
  by pat_completeness auto
termination
  by (relation "measure (\<lambda>(t, i). length (ht_data t) - i)")
    (auto simp: ht_next_def intro!: diff_less_mono2 order.strict_trans2[OF _ skip_unused_ge])

declare visited.simps [simp del]

lemma visited_skip: "visited t (skip_unused (ht_data t) i) = map el_elem (filter el_hasdata (drop i (ht_data t)))"
proof (induction "length (ht_data t) - i" arbitrary: i rule: less_induct)
  case less
  let ?d = "ht_data t"
  show ?case
  proof (cases "i < length ?d")
    case True
    then have d: "drop i ?d = ?d ! i # drop (i + 1) ?d" by (simp add: Cons_nth_drop_Suc)
    show ?thesis
    proof (cases "el_hasdata (?d ! i)")
      case has: True
      then have "skip_unused ?d i = i" by (subst skip_unused.simps) simp
      moreover have "visited t i = el_elem (?d ! i) # visited t (skip_unused ?d (i + 1))"
        using True by (subst visited.simps) (simp add: ht_next_def)
      ultimately show ?thesis using less[of "i + 1"] True has by (simp add: d)
    next
      case False
      then have "skip_unused ?d i = skip_unused ?d (i + 1)" using True by (subst skip_unused.simps) simp
      then show ?thesis using less[of "i + 1"] True False by (simp add: d)
    qed
  qed (simp add: skip_unused.simps visited.simps)
qed

lemma visited_all: "visited t (ht_begin t) = map el_elem (filter el_hasdata (ht_data t))"
  using visited_skip[of t 0] by (simp add: ht_begin_def)

lemma mset_visited: "mset (visited t (ht_begin t)) = ht_entries t"
  by (simp add: visited_all entries_def)

section \<open>Runs of a table\<close>

definition ht_put :: "'a table_params \<Rightarrow> 'a \<Rightarrow> 'a hopscotch_table \<Rightarrow> (error + bool \<times> 'a hopscotch_table) option" where
  "ht_put P v t = run_bind (ht_insert P v t) (\<lambda>(i, t). Some (Inr (i \<noteq> length (ht_data t), t)))"

definition put_do_not_overwrite :: "'a table_params \<Rightarrow> 'a \<Rightarrow> 'a hopscotch_table \<Rightarrow> (error + bool \<times> 'a hopscotch_table) option" where
  "put_do_not_overwrite P v t =
     run_bind (insert_do_not_overwrite P v t) (\<lambda>(i, t). Some (Inr (i \<noteq> length (ht_data t), t)))"

datatype 'a table_op = Put 'a | Put_New 'a | Erase 'a | Clear

fun ht_apply :: "'a table_params \<Rightarrow> 'a table_op \<Rightarrow> 'a hopscotch_table \<Rightarrow> (error + bool \<times> 'a hopscotch_table) option" where
  "ht_apply P (Put v) t = ht_put P v t"
| "ht_apply P (Put_New v) t = put_do_not_overwrite P v t"
| "ht_apply P (Erase v) t = Some (ht_erase P v t)"
| "ht_apply P Clear t = Some (Inr (True, ht_clear P t))"

fun ht_run :: "'a table_params \<Rightarrow> 'a table_op list \<Rightarrow> 'a hopscotch_table \<Rightarrow> (error + bool list \<times> 'a hopscotch_table) option" where
  "ht_run P [] t = Some (Inr ([], t))"
| "ht_run P (op # ops) t = run_bind (ht_apply P op t) (\<lambda>(ok, t).
     run_bind (ht_run P ops t) (\<lambda>(oks, t). Some (Inr (ok # oks, t))))"

text \<open>
  The abstract state is a set of elements, and the result of an operation is part of the transition: an insertion
  may be refused, but only if no equal element is there.
\<close>

fun set_apply :: "('a \<Rightarrow> 'a \<Rightarrow> bool) \<Rightarrow> 'a table_op \<Rightarrow> bool \<Rightarrow> 'a set \<Rightarrow> 'a set option" where
  "set_apply eq (Put v) ok S =
     (if ok then Some (insert v {x \<in> S. \<not> eq x v}) else if \<exists>x\<in>S. eq x v then None else Some S)"
| "set_apply eq (Put_New v) ok S =
     (if \<exists>x\<in>S. eq x v then if ok then Some S else None else Some (if ok then insert v S else S))"
| "set_apply eq (Erase v) ok S = (if ok \<longleftrightarrow> (\<exists>x\<in>S. eq x v) then Some {x \<in> S. \<not> eq x v} else None)"
| "set_apply eq Clear ok S = (if ok then Some {} else None)"

fun set_run :: "('a \<Rightarrow> 'a \<Rightarrow> bool) \<Rightarrow> 'a table_op list \<Rightarrow> bool list \<Rightarrow> 'a set \<Rightarrow> 'a set option" where
  "set_run eq [] [] S = Some S"
| "set_run eq (op # ops) (ok # oks) S = Option.bind (set_apply eq op ok S) (set_run eq ops oks)"
| "set_run eq _ _ S = None"

lemma apart_replace:
  assumes f: "functors_ok P" and a: "apart (tp_equalfun P) (add_mset x M)" and e: "tp_equalfun P x v"
  shows "{y \<in> insert x (set_mset M). \<not> tp_equalfun P y v} = set_mset M" "\<exists>y\<in>#add_mset x M. tp_equalfun P y v"
proof -
  have "\<not> tp_equalfun P y v" if "y \<in># M" for y
    using apart_remove(2)[OF f a] that e f by (metis equivp_symp equivp_transp functors_ok_def)
  then show "{y \<in> insert x (set_mset M). \<not> tp_equalfun P y v} = set_mset M" using e by auto
qed (use e in simp)

lemma apart_size: "functors_ok P \<Longrightarrow> apart (tp_equalfun P) M \<Longrightarrow> size M = card (set_mset M)"
proof (induction M)
  case (add x M)
  then have "x \<notin># M" using apart_remove(2)[of P x M] by (auto simp: functors_ok_def equivp_reflp)
  then show ?case using add apart_remove(1)[of P x M] by simp
qed simp

lemma insert_refines:
  assumes f: "functors_ok P" and wf: "ht_wf P t"
  shows "\<exists>i t'. insert_impl P v over t = Some (Inr (i, t')) \<and> ht_wf P t' \<and>
    set_apply (tp_equalfun P) (if over then Put v else Put_New v) (i \<noteq> length (ht_data t')) (set_mset (ht_entries t)) =
      Some (set_mset (ht_entries t'))"
proof -
  have a: "apart (tp_equalfun P) (ht_entries t)" using wf by (simp add: ht_wf_def)
  obtain i t' where it: "insert_impl P v over t = Some (Inr (i, t'))" "ht_wf P t'" "length (ht_data t') = length (ht_data t)"
    and res: "(\<exists>x M. tp_equalfun P x v \<and> ht_entries t = add_mset x M \<and>
        ht_entries t' = add_mset (if over then v else x) M \<and> slot (ht_data t') i (if over then v else x)) \<or>
     (\<forall>x\<in>#ht_entries t. \<not> tp_equalfun P x v) \<and> i = length (ht_data t) \<and> ht_entries t' = ht_entries t \<or>
     (\<forall>x\<in>#ht_entries t. \<not> tp_equalfun P x v) \<and> ht_entries t' = add_mset v (ht_entries t) \<and> slot (ht_data t') i v"
    using ht_insert_law[OF f wf, of v over] by blast
  have sl: "slot (ht_data t') i y \<Longrightarrow> i \<noteq> length (ht_data t')" for y by (simp add: slot_def)
  from res show ?thesis
  proof (elim disjE exE conjE)
    fix x M assume "tp_equalfun P x v" and M: "ht_entries t = add_mset x M" "ht_entries t' = add_mset (if over then v else x) M"
      "slot (ht_data t') i (if over then v else x)"
    then show ?thesis using it sl[OF M(3)] apart_replace[OF f a[unfolded M(1)], of v] by (auto simp del: bex_simps)
  next
    assume no: "\<forall>x\<in>#ht_entries t. \<not> tp_equalfun P x v" and r: "ht_entries t' = add_mset v (ht_entries t)" "slot (ht_data t') i v"
    then have "{x \<in> set_mset (ht_entries t). \<not> tp_equalfun P x v} = set_mset (ht_entries t)" by auto
    then show ?thesis using it no r sl[OF r(2)] by auto
  qed (use it in auto)
qed

lemma ht_apply_refines:
  assumes f: "functors_ok P" and wf: "ht_wf P t"
  shows "\<exists>ok t'. ht_apply P op t = Some (Inr (ok, t')) \<and> ht_wf P t' \<and>
    set_apply (tp_equalfun P) op ok (set_mset (ht_entries t)) = Some (set_mset (ht_entries t'))"
proof (cases op)
  case (Put v)
  obtain i t' where "insert_impl P v True t = Some (Inr (i, t'))" "ht_wf P t'"
    "set_apply (tp_equalfun P) (Put v) (i \<noteq> length (ht_data t')) (set_mset (ht_entries t)) = Some (set_mset (ht_entries t'))"
    using insert_refines[OF f wf, of v True] by auto
  then show ?thesis
    by (intro exI[of _ "i \<noteq> length (ht_data t')"] exI[of _ t']) (simp add: Put ht_put_def ht_insert_def del: set_apply.simps)
next
  case (Put_New v)
  obtain i t' where "insert_impl P v False t = Some (Inr (i, t'))" "ht_wf P t'"
    "set_apply (tp_equalfun P) (Put_New v) (i \<noteq> length (ht_data t')) (set_mset (ht_entries t)) = Some (set_mset (ht_entries t'))"
    using insert_refines[OF f wf, of v False] by auto
  then show ?thesis
    by (intro exI[of _ "i \<noteq> length (ht_data t')"] exI[of _ t'])
      (simp add: Put_New put_do_not_overwrite_def insert_do_not_overwrite_def del: set_apply.simps)
next
  case (Erase v)
  obtain b t' where r: "ht_erase P v t = Inr (b, t')" "ht_wf P t'"
    "b \<and> (\<exists>x. tp_equalfun P x v \<and> ht_entries t = add_mset x (ht_entries t')) \<or>
     \<not> b \<and> t' = t \<and> (\<forall>x\<in>#ht_entries t. \<not> tp_equalfun P x v)" using ht_erase_law[OF f wf, of v] by blast
  have a: "apart (tp_equalfun P) (ht_entries t)" using wf by (simp add: ht_wf_def)
  from r(3) show ?thesis
  proof (elim disjE exE conjE)
    fix x assume b: b and x: "tp_equalfun P x v" "ht_entries t = add_mset x (ht_entries t')"
    then show ?thesis using Erase r(1,2) apart_replace[OF f a[unfolded x(2)] x(1)] by auto
  qed (use Erase r(1,2) in auto)
qed (use ht_clear_law[OF wf] in auto)

lemma ht_run_refines:
  assumes f: "functors_ok P" and wf: "ht_wf P t"
  shows "\<exists>oks t'. ht_run P ops t = Some (Inr (oks, t')) \<and> ht_wf P t' \<and>
    set_run (tp_equalfun P) ops oks (set_mset (ht_entries t)) = Some (set_mset (ht_entries t'))"
  using wf
proof (induction ops arbitrary: t)
  case (Cons op ops)
  obtain ok t1 where 1: "ht_apply P op t = Some (Inr (ok, t1))" "ht_wf P t1"
    "set_apply (tp_equalfun P) op ok (set_mset (ht_entries t)) = Some (set_mset (ht_entries t1))"
    using ht_apply_refines[OF f Cons.prems] by blast
  obtain oks t' where 2: "ht_run P ops t1 = Some (Inr (oks, t'))" "ht_wf P t'"
    "set_run (tp_equalfun P) ops oks (set_mset (ht_entries t1)) = Some (set_mset (ht_entries t'))"
    using Cons.IH[OF 1(2)] by blast
  show ?case using 1 2 by (intro exI[of _ "ok # oks"] exI[of _ t']) simp
qed simp

text \<open>C28. A hopscotch table constructed for a length above 0, with functors that keep their contract, is a set: every
  sequence of insertions, removals and clears returns without undefined behaviour and without failing an assertion,
  its results and its contents are those of a set of pairwise different elements in which an insertion may only be
  refused when no equal element is there, and a search, an iteration and the size see exactly that set.\<close>

theorem hopscotch_table_refines_set:
  assumes "functors_ok P" "0 < len" "unat len \<le> 2 ^ 63"
  shows "\<exists>oks t S. ht_run P ops (hopscotch_table_new P len) = Some (Inr (oks, t)) \<and>
    set_run (tp_equalfun P) ops oks {} = Some S \<and>
    (\<forall>key. ht_count P key t = Inr (\<exists>x\<in>S. tp_equalfun P x key)) \<and>
    set (visited t (ht_begin t)) = S \<and> distinct (visited t (ht_begin t)) \<and> ht_numel t = of_nat (card S)"
proof -
  note new = hopscotch_table_new_law(1,2)[OF assms(2,3), of P]
  obtain oks t where r: "ht_run P ops (hopscotch_table_new P len) = Some (Inr (oks, t))" "ht_wf P t"
    "set_run (tp_equalfun P) ops oks {} = Some (set_mset (ht_entries t))"
    using ht_run_refines[OF assms(1) new(1), of ops] new(2) by auto
  have v: "set (visited t (ht_begin t)) = set_mset (ht_entries t)" "length (visited t (ht_begin t)) = size (ht_entries t)"
    by (simp_all flip: mset_visited)
  have s: "size (ht_entries t) = card (set_mset (ht_entries t))"
    using apart_size[OF assms(1)] r(2) by (simp add: ht_wf_def)
  have "distinct (visited t (ht_begin t))" using v s by (simp add: card_distinct)
  then show ?thesis
    using r v s ht_count_law[OF assms(1) r(2)] by (auto simp: ht_wf_def intro!: exI[of _ oks] exI[of _ t])
qed

theorem hopscotch_table_refines_set_witness:
  defines "P \<equiv> \<lparr>tp_hashfun = (\<lambda>x :: u64. x), tp_equalfun = (=), tp_default = 0, tp_perturb = jenkins_mix\<rparr>"
  shows "\<exists>oks t S. ht_run P [Put 1, Put_New 34, Erase 1] (hopscotch_table_new P 32) = Some (Inr (oks, t)) \<and>
    set_run (tp_equalfun P) [Put 1, Put_New 34, Erase 1] oks {} = Some S \<and>
    (\<forall>key. ht_count P key t = Inr (\<exists>x\<in>S. tp_equalfun P x key)) \<and>
    set (visited t (ht_begin t)) = S \<and> distinct (visited t (ht_begin t)) \<and> ht_numel t = of_nat (card S)"
  by (rule hopscotch_table_refines_set) (simp_all add: P_def functors_ok_def identity_equivp)

end
