(* ===== verification/Hopscotch_Map.thy ===== *)
theory Hopscotch_Map
  imports Hopscotch_Table Archive
begin

text \<open>
  The hopscotch map (\<open>graphlab/util/hopscotch_map.hpp\<close>): a hopscotch table of pairs, and a map for the pairs the
  table refuses. The latter is a \<open>boost::unordered_map\<close>, here the list of its pairs in the order of its iterators;
  the order after an insertion is a parameter. \<open>KeyEqual\<close> is equality of the keys, as in every use of the class.
\<close>

section \<open>Definitions\<close>

text \<open>\<open>Hash\<close>, the perturbation of the hash by the table, the values \<open>Key()\<close> and \<open>Value()\<close>, and the order the
  elements of the \<open>unordered_map\<close> take when one is added.\<close>

record ('k, 'v) map_params =
  mp_hash :: "'k \<Rightarrow> u64"
  mp_perturb :: "u64 \<Rightarrow> u64"
  mp_key :: 'k
  mp_value :: 'v
  mp_order :: "('k \<times> 'v) list \<Rightarrow> ('k \<times> 'v) list"

text \<open>\<open>hash_redirect\<close> and \<open>key_equal_redirect\<close>.\<close>

definition container_params :: "('k, 'v) map_params \<Rightarrow> ('k \<times> 'v) table_params" where
  "container_params M = \<lparr>tp_hashfun = (\<lambda>v. mp_hash M (fst v)), tp_equalfun = (\<lambda>v v2. fst v = fst v2),
     tp_default = (mp_key M, mp_value M), tp_perturb = mp_perturb M\<rparr>"

record ('k, 'v) hopscotch_map =
  hm_container :: "('k \<times> 'v) hopscotch_table"
  hm_spill :: "('k \<times> 'v) list"

record hm_iterator =
  it_iter :: nat
  it_iter2 :: nat
  it_in_spill :: bool

abbreviation container_end :: "('k, 'v) hopscotch_map \<Rightarrow> nat" where
  "container_end m \<equiv> length (ht_data (hm_container m))"

subsection \<open>The spill map\<close>

definition spill_find :: "'k \<Rightarrow> ('k \<times> 'v) list \<Rightarrow> nat" where
  "spill_find k spill = length (takeWhile (\<lambda>kv. fst kv \<noteq> k) spill)"

text \<open>The new map, and the position of the element with the key inserted.\<close>

definition spill_insert :: "('k, 'v) map_params \<Rightarrow> 'k \<times> 'v \<Rightarrow> ('k \<times> 'v) list \<Rightarrow> ('k \<times> 'v) list \<times> nat" where
  "spill_insert M v spill =
     (if spill_find (fst v) spill < length spill then (spill, spill_find (fst v) spill)
      else let spill = mp_order M (v # spill) in (spill, spill_find (fst v) spill))"

definition spill_erase :: "'k \<Rightarrow> ('k \<times> 'v) list \<Rightarrow> bool \<times> ('k \<times> 'v) list" where
  "spill_erase k spill = (spill_find k spill < length spill, filter (\<lambda>kv. fst kv \<noteq> k) spill)"

subsection \<open>Iterators\<close>

definition hm_iter :: "('k, 'v) hopscotch_map \<Rightarrow> nat \<Rightarrow> nat \<Rightarrow> hm_iterator" where
  "hm_iter m iter iter2 = \<lparr>it_iter = iter, it_iter2 = iter2, it_in_spill = (iter = container_end m)\<rparr>"

definition hm_begin :: "('k, 'v) hopscotch_map \<Rightarrow> hm_iterator" where
  "hm_begin m = hm_iter m (ht_begin (hm_container m)) 0"

definition hm_end :: "('k, 'v) hopscotch_map \<Rightarrow> hm_iterator" where
  "hm_end m = hm_iter m (container_end m) (length (hm_spill m))"

definition it_eq :: "hm_iterator \<Rightarrow> hm_iterator \<Rightarrow> bool" where
  "it_eq a b \<longleftrightarrow> \<not> it_in_spill a \<and> it_iter a = it_iter b \<or> it_in_spill a \<and> it_iter2 a = it_iter2 b"

definition it_increment :: "('k, 'v) hopscotch_map \<Rightarrow> hm_iterator \<Rightarrow> hm_iterator" where
  "it_increment m it =
     (if \<not> it_in_spill it then
        let iter = ht_next (hm_container m) (it_iter it)
        in it\<lparr>it_iter := iter, it_in_spill := (iter = container_end m)\<rparr>
      else it\<lparr>it_iter2 := it_iter2 it + 1\<rparr>)"

definition it_deref :: "('k, 'v) hopscotch_map \<Rightarrow> hm_iterator \<Rightarrow> error + 'k \<times> 'v" where
  "it_deref m it =
     (if \<not> it_in_spill it then
        if it_iter it < container_end m then Inr (el_elem (ht_data (hm_container m) ! it_iter it)) else Inl Undefined_Behaviour
      else if it_iter2 it < length (hm_spill m) then Inr (hm_spill m ! it_iter2 it) else Inl Undefined_Behaviour)"

text \<open>The elements a loop \<open>while (iter != end()) { ... *iter ...; ++iter; }\<close> passes.\<close>

function hm_visit :: "('k, 'v) hopscotch_map \<Rightarrow> hm_iterator \<Rightarrow> error + ('k \<times> 'v) list" where
  "hm_visit m it =
     (if it_eq it (hm_end m) then Inr []
      else case it_deref m it of
        Inl e \<Rightarrow> Inl e
      | Inr v \<Rightarrow> result_bind (hm_visit m (it_increment m it)) (\<lambda>vs. Inr (v # vs)))"
  by pat_completeness auto
termination
proof (relation "measure (\<lambda>(m, it). (if it_in_spill it then 0 else 1 + container_end m - it_iter it) + (length (hm_spill m) - it_iter2 it))")
  fix m :: "('k, 'v) hopscotch_map" and it v
  assume "it_deref m it = Inr v"
  moreover have "it_iter it < ht_next (hm_container m) (it_iter it)"
    using skip_unused_ge[of "it_iter it + 1" "ht_data (hm_container m)"] by (simp add: ht_next_def)
  ultimately show "((m, it_increment m it), m, it) \<in> measure (\<lambda>(m, it).
      (if it_in_spill it then 0 else 1 + container_end m - it_iter it) + (length (hm_spill m) - it_iter2 it))"
    by (auto simp: it_deref_def it_increment_def Let_def split: if_splits)
qed simp

declare hm_visit.simps [simp del]

subsection \<open>Operations\<close>

definition hm_size :: "('k, 'v) hopscotch_map \<Rightarrow> u64" where
  "hm_size m = ht_numel (hm_container m) + of_nat (length (hm_spill m))"

definition hm_capacity :: "('k, 'v) hopscotch_map \<Rightarrow> u64" where
  "hm_capacity m = of_nat (container_end m) + of_nat (length (hm_spill m))"

text \<open>\<open>load_factor() > 0.8\<close>: the quotient is in single precision, the constant is the double
  \<open>3602879701896397 / 2 ^ 52\<close>.\<close>

definition load_above :: "('k, 'v) hopscotch_map \<Rightarrow> bool" where
  "load_above m =
     (let (q, k) = float_div (round24 (unat (hm_size m))) (round24 (unat (hm_capacity m)))
      in 3602879701896397 * 2 ^ k < q * 2 ^ 52)"

definition hopscotch_map_new :: "('k, 'v) map_params \<Rightarrow> ('k, 'v) hopscotch_map" where
  "hopscotch_map_new M = \<lparr>hm_container = hopscotch_table_new (container_params M) 32, hm_spill = []\<rparr>"

definition hm_clear :: "('k, 'v) map_params \<Rightarrow> ('k, 'v) hopscotch_map \<Rightarrow> ('k, 'v) hopscotch_map" where
  "hm_clear M m = m\<lparr>hm_spill := [], hm_container := hopscotch_table_new (container_params M) 128\<rparr>"

definition hm_find :: "('k, 'v) map_params \<Rightarrow> 'k \<Rightarrow> ('k, 'v) hopscotch_map \<Rightarrow> error + hm_iterator" where
  "hm_find M k m = result_bind (ht_find (container_params M) (k, mp_value M) (hm_container m)) (\<lambda>iter.
     Inr (hm_iter m iter (if iter \<noteq> container_end m then 0 else spill_find k (hm_spill m))))"

definition hm_count :: "('k, 'v) map_params \<Rightarrow> 'k \<Rightarrow> ('k, 'v) hopscotch_map \<Rightarrow> error + bool" where
  "hm_count M k m = result_bind (ht_count (container_params M) (k, mp_value M) (hm_container m)) (\<lambda>c.
     Inr (c \<or> spill_find k (hm_spill m) < length (hm_spill m)))"

text \<open>The loop of \<open>rehash_to_new_container\<close> over the elements.\<close>

fun reinsert :: "('k, 'v) map_params \<Rightarrow> ('k \<times> 'v) list \<Rightarrow> ('k \<times> 'v) hopscotch_table \<Rightarrow> ('k \<times> 'v) list \<Rightarrow>
    (error + ('k \<times> 'v) hopscotch_table \<times> ('k \<times> 'v) list) option" where
  "reinsert M [] newcontainer newspill = Some (Inr (newcontainer, newspill))"
| "reinsert M (v # vs) newcontainer newspill =
     run_bind (ht_insert (container_params M) v newcontainer) (\<lambda>(i, newcontainer).
       reinsert M vs newcontainer
         (if i = length (ht_data newcontainer) then fst (spill_insert M v newspill) else newspill))"

definition rehash_to_new_container ::
  "('k, 'v) map_params \<Rightarrow> u64 \<Rightarrow> ('k, 'v) hopscotch_map \<Rightarrow> (error + ('k, 'v) hopscotch_map) option" where
  "rehash_to_new_container M newsize m =
     (let newsize = (if newsize = - 1 then hm_size m * 2 else newsize);
          newcontainer = hopscotch_table_new (container_params M) newsize
      in case hm_visit m (hm_begin m) of
           Inl e \<Rightarrow> Some (Inl e)
         | Inr vs \<Rightarrow> run_bind (reinsert M vs newcontainer []) (\<lambda>(container, spill).
             Some (Inr (m\<lparr>hm_container := container, hm_spill := spill\<rparr>))))"

definition hm_rehash :: "('k, 'v) map_params \<Rightarrow> u64 \<Rightarrow> ('k, 'v) hopscotch_map \<Rightarrow> (error + ('k, 'v) hopscotch_map) option" where
  "hm_rehash M s m = (if s > hm_capacity m then rehash_to_new_container M s m else Some (Inr m))"

text \<open>\<open>container->insert(v)\<close>, and the spill map if the container refuses.\<close>

definition insert_or_spill ::
  "('k, 'v) map_params \<Rightarrow> 'k \<times> 'v \<Rightarrow> ('k, 'v) hopscotch_map \<Rightarrow> (error + hm_iterator \<times> ('k, 'v) hopscotch_map) option" where
  "insert_or_spill M v m =
     run_bind (ht_insert (container_params M) v (hm_container m)) (\<lambda>(iter, container).
       let m = m\<lparr>hm_container := container\<rparr>
       in if iter \<noteq> container_end m then Some (Inr (hm_iter m iter 0, m))
          else let (spill, iter2) = spill_insert M v (hm_spill m); m = m\<lparr>hm_spill := spill\<rparr>
               in Some (Inr (hm_iter m (container_end m) iter2, m)))"

definition do_insert ::
  "('k, 'v) map_params \<Rightarrow> 'k \<times> 'v \<Rightarrow> ('k, 'v) hopscotch_map \<Rightarrow> (error + hm_iterator \<times> ('k, 'v) hopscotch_map) option" where
  "do_insert M v m =
     run_bind (ht_insert (container_params M) v (hm_container m)) (\<lambda>(iter, container).
       let m = m\<lparr>hm_container := container\<rparr>
       in if iter \<noteq> container_end m then Some (Inr (hm_iter m iter 0, m))
          else if load_above m then run_bind (rehash_to_new_container M (- 1) m) (insert_or_spill M v)
          else let (spill, iter2) = spill_insert M v (hm_spill m); m = m\<lparr>hm_spill := spill\<rparr>
               in Some (Inr (hm_iter m (container_end m) iter2, m)))"

definition hm_insert ::
  "('k, 'v) map_params \<Rightarrow> 'k \<times> 'v \<Rightarrow> ('k, 'v) hopscotch_map \<Rightarrow>
     (error + (hm_iterator \<times> bool) \<times> ('k, 'v) hopscotch_map) option" where
  "hm_insert M v m =
     (case hm_find M (fst v) m of
        Inl e \<Rightarrow> Some (Inl e)
      | Inr i \<Rightarrow> if \<not> it_eq i (hm_end m) then Some (Inr ((i, False), m))
          else run_bind (do_insert M v m) (\<lambda>(i, m). Some (Inr ((i, True), m))))"

definition hm_erase :: "('k, 'v) map_params \<Rightarrow> 'k \<Rightarrow> ('k, 'v) hopscotch_map \<Rightarrow> error + bool \<times> ('k, 'v) hopscotch_map" where
  "hm_erase M k m = result_bind (ht_erase (container_params M) (k, mp_value M) (hm_container m)) (\<lambda>(b, container).
     if b then Inr (True, m\<lparr>hm_container := container\<rparr>)
     else let (b, spill) = spill_erase k (hm_spill m) in Inr (b, m\<lparr>hm_container := container, hm_spill := spill\<rparr>))"

text \<open>The iterator of the element \<open>operator[]\<close> refers to, and the assignment to it.\<close>

definition hm_index ::
  "('k, 'v) map_params \<Rightarrow> 'k \<Rightarrow> ('k, 'v) hopscotch_map \<Rightarrow> (error + hm_iterator \<times> ('k, 'v) hopscotch_map) option" where
  "hm_index M i m =
     (case hm_find M i m of
        Inl e \<Rightarrow> Some (Inl e)
      | Inr iter \<Rightarrow> if it_eq iter (hm_end m) then do_insert M (i, mp_value M) m else Some (Inr (iter, m)))"

definition it_assign :: "hm_iterator \<Rightarrow> 'v \<Rightarrow> ('k, 'v) hopscotch_map \<Rightarrow> error + ('k, 'v) hopscotch_map" where
  "it_assign it v m = result_bind (it_deref m it) (\<lambda>kv.
     if \<not> it_in_spill it
     then let data = ht_data (hm_container m)
          in Inr (m\<lparr>hm_container := (hm_container m)\<lparr>ht_data :=
               data[it_iter it := (data ! it_iter it)\<lparr>el_elem := (fst kv, v)\<rparr>]\<rparr>\<rparr>)
     else Inr (m\<lparr>hm_spill := (hm_spill m)[it_iter2 it := (fst kv, v)]\<rparr>))"

definition hm_put :: "('k, 'v) map_params \<Rightarrow> 'k \<Rightarrow> 'v \<Rightarrow> ('k, 'v) hopscotch_map \<Rightarrow> (error + ('k, 'v) hopscotch_map) option" where
  "hm_put M k v m = run_bind (hm_index M k m) (\<lambda>(it, m). Some (it_assign it v m))"

definition hm_get :: "('k, 'v) map_params \<Rightarrow> 'k \<Rightarrow> ('k, 'v) hopscotch_map \<Rightarrow> error + bool \<times> 'v" where
  "hm_get M k m = result_bind (hm_find M k m) (\<lambda>iter.
     result_bind (it_deref m iter) (\<lambda>kv. Inr (it_eq iter (hm_end m), snd kv)))"

text \<open>The copy constructor and the assignment.\<close>

definition hm_copy :: "('k, 'v) hopscotch_map \<Rightarrow> ('k, 'v) hopscotch_map" where
  "hm_copy h = \<lparr>hm_container = hm_container h, hm_spill = hm_spill h\<rparr>"

definition hm_assign :: "('k, 'v) hopscotch_map \<Rightarrow> ('k, 'v) hopscotch_map \<Rightarrow> ('k, 'v) hopscotch_map" where
  "hm_assign m other = m\<lparr>hm_container := hm_container other\<rparr>"

subsection \<open>Serialization\<close>

definition hm_save :: "(oarchive \<Rightarrow> 'k \<times> 'v \<Rightarrow> oarchive) \<Rightarrow> oarchive \<Rightarrow> ('k, 'v) hopscotch_map \<Rightarrow> error + oarchive" where
  "hm_save save oarc m = result_bind (hm_visit m (hm_begin m)) (\<lambda>vs.
     Inr (foldl save (direct_assign (direct_assign oarc (hm_size m)) (hm_capacity m)) vs))"

fun load_pairs ::
  "('k, 'v) map_params \<Rightarrow> (iarchive \<Rightarrow> (('k \<times> 'v) \<times> iarchive) option) \<Rightarrow> nat \<Rightarrow> iarchive \<Rightarrow> ('k, 'v) hopscotch_map \<Rightarrow>
     (error + ('k, 'v) hopscotch_map \<times> iarchive) option" where
  "load_pairs M load 0 iarc m = Some (Inr (m, iarc))"
| "load_pairs M load (Suc n) iarc m =
     (case load iarc of
        None \<Rightarrow> Some (Inl Io_Failure)
      | Some (v, iarc) \<Rightarrow> run_bind (hm_insert M v m) (\<lambda>(_, m). load_pairs M load n iarc m))"

definition hm_load ::
  "('k, 'v) map_params \<Rightarrow> (iarchive \<Rightarrow> (('k \<times> 'v) \<times> iarchive) option) \<Rightarrow> iarchive \<Rightarrow> ('k, 'v) hopscotch_map \<Rightarrow>
     (error + ('k, 'v) hopscotch_map \<times> iarchive) option" where
  "hm_load M load iarc m =
     (case read_into iarc of
        None \<Rightarrow> Some (Inl Io_Failure)
      | Some (s :: u64, iarc) \<Rightarrow>
          (case read_into iarc of
             None \<Rightarrow> Some (Inl Io_Failure)
           | Some (c :: u64, iarc) \<Rightarrow>
               load_pairs M load (unat s) iarc
                 (if hm_capacity m \<noteq> c then \<lparr>hm_container = hopscotch_table_new (container_params M) c, hm_spill = []\<rparr>
                  else m\<lparr>hm_container := ht_clear (container_params M) (hm_container m)\<rparr>)))"

section \<open>What a map holds\<close>

definition mp_ok :: "('k, 'v) map_params \<Rightarrow> bool" where
  "mp_ok M \<longleftrightarrow> (\<forall>xs. mset (mp_order M xs) = mset xs)"

abbreviation same_key :: "'k \<times> 'v \<Rightarrow> 'k \<times> 'v \<Rightarrow> bool" where
  "same_key v v2 \<equiv> fst v = fst v2"

definition hm_entries :: "('k, 'v) hopscotch_map \<Rightarrow> ('k \<times> 'v) multiset" where
  "hm_entries m = ht_entries (hm_container m) + mset (hm_spill m)"

definition hm_wf :: "('k, 'v) map_params \<Rightarrow> ('k, 'v) hopscotch_map \<Rightarrow> bool" where
  "hm_wf M m \<longleftrightarrow> ht_wf (container_params M) (hm_container m) \<and> apart same_key (hm_entries m)"

text \<open>The abstract value: a partial function from keys to values.\<close>

definition hm_map :: "('k, 'v) hopscotch_map \<Rightarrow> 'k \<Rightarrow> 'v option" where
  "hm_map m = map_of (visited (hm_container m) (ht_begin (hm_container m)) @ hm_spill m)"

lemma functors_ok_container [simp]: "functors_ok (container_params M)"
  by (simp add: functors_ok_def container_params_def equivp_def fun_eq_iff) metis

lemma container_params_sel [simp]:
  "tp_equalfun (container_params M) = same_key" "tp_default (container_params M) = (mp_key M, mp_value M)"
  by (simp_all add: container_params_def)

lemma apart_keys: "apart same_key (mset xs) \<longleftrightarrow> distinct (map fst xs)"
proof (induction xs)
  case (Cons x xs)
  have f: "functors_ok \<lparr>tp_hashfun = (\<lambda>_. 0), tp_equalfun = same_key, tp_default = x, tp_perturb = id\<rparr>"
    by (simp add: functors_ok_def equivp_def fun_eq_iff) metis
  have "apart same_key (mset (x # xs)) \<longleftrightarrow> apart same_key (mset xs) \<and> (\<forall>y\<in>set xs. fst y \<noteq> fst x)"
    using apart_add[OF f, of "mset xs" x] apart_remove[OF f, of x "mset xs"] by auto
  then show ?case using Cons by (auto simp: image_iff)
qed (simp add: apart_def)

lemma hm_entries_list: "hm_entries m = mset (visited (hm_container m) (ht_begin (hm_container m)) @ hm_spill m)"
  by (simp add: hm_entries_def mset_visited)

lemma hm_map_iff: "hm_wf M m \<Longrightarrow> hm_map m k = Some v \<longleftrightarrow> (k, v) \<in># hm_entries m"
  unfolding hm_wf_def hm_map_def hm_entries_list apart_keys by (simp only: set_mset_mset map_of_eq_Some_iff)

lemma hm_map_None: "hm_wf M m \<Longrightarrow> hm_map m k = None \<longleftrightarrow> (\<forall>v. (k, v) \<notin># hm_entries m)"
  by (metis hm_map_iff not_None_eq option.simps(3))

lemma fun_option_eqI: "(\<And>k v. f k = Some v \<longleftrightarrow> g k = Some v) \<Longrightarrow> f = g"
  by (rule ext) (metis not_None_eq)

lemma hm_map_cong: "hm_wf M m \<Longrightarrow> hm_wf M m' \<Longrightarrow> hm_entries m' = hm_entries m \<Longrightarrow> hm_map m' = hm_map m"
  by (rule fun_option_eqI) (simp add: hm_map_iff)

lemma apart_fresh: "apart same_key (add_mset (k, v) E) \<Longrightarrow> (k, w) \<notin># E"
proof -
  obtain xs where "E = mset xs" by (metis ex_mset)
  then show "apart same_key (add_mset (k, v) E) \<Longrightarrow> ?thesis"
    using apart_keys[of "(k, v) # xs"] by (force simp: image_iff)
qed

lemma hm_map_add:
  assumes "hm_wf M m" "hm_wf M m'" "hm_entries m' = add_mset (k, v) (hm_entries m)"
  shows "hm_map m' = (hm_map m)(k \<mapsto> v)" "hm_map m k = None"
proof -
  have n: "(k, w) \<notin># hm_entries m" for w using assms(2,3) by (auto simp: hm_wf_def dest: apart_fresh)
  then show "hm_map m k = None" using assms(1) by (simp add: hm_map_None)
  show "hm_map m' = (hm_map m)(k \<mapsto> v)"
    using n by (intro fun_option_eqI) (auto simp: hm_map_iff[OF assms(1)] hm_map_iff[OF assms(2)] assms(3))
qed

text \<open>Replacing the value of a key.\<close>

lemma hm_map_replace:
  assumes "hm_wf M m" "hm_wf M m'" "hm_entries m = add_mset (k, v) E" "hm_entries m' = add_mset (k, w) E"
  shows "hm_map m' = (hm_map m)(k \<mapsto> w)"
proof -
  have n: "(k, u) \<notin># E" for u using assms(2,4) by (auto simp: hm_wf_def dest: apart_fresh)
  show ?thesis
    using n by (intro fun_option_eqI) (auto simp: hm_map_iff[OF assms(1)] hm_map_iff[OF assms(2)] assms(3,4))
qed

subsection \<open>Iterators\<close>

text \<open>The iterator points to the pair.\<close>

definition hm_at :: "('k, 'v) hopscotch_map \<Rightarrow> hm_iterator \<Rightarrow> 'k \<times> 'v \<Rightarrow> bool" where
  "hm_at m it kv \<longleftrightarrow> (if it_in_spill it then it_iter2 it < length (hm_spill m) \<and> hm_spill m ! it_iter2 it = kv
     else slot (ht_data (hm_container m)) (it_iter it) kv)"

lemma hm_at: 
  assumes "hm_at m it kv"
  shows "it_deref m it = Inr kv" "\<not> it_eq it (hm_end m)" "kv \<in># hm_entries m"
  using assms by (auto simp: hm_at_def it_deref_def it_eq_def hm_end_def hm_iter_def slot_def hm_entries_def split: if_splits)
    (auto simp: entries_iff_slot slot_def)

lemma spill_find_less: "spill_find k spill < length spill \<longleftrightarrow> (\<exists>v. (k, v) \<in> set spill)"
proof -
  have "\<not> spill_find k spill < length spill \<longleftrightarrow> takeWhile (\<lambda>kv. fst kv \<noteq> k) spill = spill"
    unfolding spill_find_def
    by (metis length_takeWhile_le less_irrefl nat_less_le takeWhile_eq_take take_all order_refl)
  then show ?thesis by (force simp: takeWhile_eq_all_conv)
qed

lemma spill_find_nth: "spill_find k spill < length spill \<Longrightarrow> fst (spill ! spill_find k spill) = k"
  using nth_length_takeWhile[of "\<lambda>kv. fst kv \<noteq> k" spill] by (simp add: spill_find_def)

lemma spill_find_le: "spill_find k spill \<le> length spill"
  by (simp add: spill_find_def length_takeWhile_le)

lemma hm_find_law:
  assumes wf: "hm_wf M m"
  shows "\<exists>it. hm_find M k m = Inr it \<and>
    (it_eq it (hm_end m) \<and> hm_map m k = None \<or> (\<exists>v. hm_at m it (k, v) \<and> hm_map m k = Some v))"
proof -
  let ?c = "hm_container m" and ?P = "container_params M"
  have w: "ht_wf ?P ?c" using wf by (simp add: hm_wf_def)
  obtain i where i: "ht_find ?P (k, mp_value M) ?c = Inr i"
    "i = container_end m \<and> (\<forall>x\<in>#ht_entries ?c. fst x \<noteq> k) \<or> i < container_end m \<and> (\<exists>x. slot (ht_data ?c) i x \<and> fst x = k)"
    using ht_find_law[OF _ w, of "(k, mp_value M)"] by auto
  from i(2) show ?thesis
  proof (elim disjE conjE exE)
    fix x assume x: "i < container_end m" "slot (ht_data ?c) i x" "fst x = k"
    have at: "hm_at m (hm_iter m i 0) (k, snd x)" using x by (auto simp: hm_at_def hm_iter_def)
    then show ?thesis using i(1) x(1) hm_at(3)[OF at] by (auto simp: hm_find_def hm_map_iff[OF wf])
  next
    assume e: "i = container_end m" and no: "\<forall>x\<in>#ht_entries ?c. fst x \<noteq> k"
    let ?it = "hm_iter m i (spill_find k (hm_spill m))"
    show ?thesis
    proof (cases "spill_find k (hm_spill m) < length (hm_spill m)")
      case True
      then have at: "hm_at m ?it (k, snd (hm_spill m ! spill_find k (hm_spill m)))"
        using e spill_find_nth[OF True] by (simp add: hm_at_def hm_iter_def prod_eq_iff)
      then show ?thesis using i(1) e hm_at(3)[OF at] by (auto simp: hm_find_def hm_map_iff[OF wf])
    next
      case False
      then have "\<forall>v. (k, v) \<notin> set (hm_spill m)" "spill_find k (hm_spill m) = length (hm_spill m)"
        using spill_find_less[of k "hm_spill m"] spill_find_le[of k "hm_spill m"] by auto
      then show ?thesis
        using i(1) e no by (auto simp: hm_find_def it_eq_def hm_end_def hm_iter_def hm_map_None[OF wf] hm_entries_def)
    qed
  qed
qed

lemma visit_spill:
  "j \<le> length (hm_spill m) \<Longrightarrow> hm_visit m \<lparr>it_iter = i, it_iter2 = j, it_in_spill = True\<rparr> = Inr (drop j (hm_spill m))"
proof (induction "length (hm_spill m) - j" arbitrary: j)
  case 0
  then show ?case by (subst hm_visit.simps) (simp add: it_eq_def hm_end_def hm_iter_def)
next
  case (Suc n)
  then have "j < length (hm_spill m)" by simp
  moreover have "hm_visit m \<lparr>it_iter = i, it_iter2 = j + 1, it_in_spill = True\<rparr> = Inr (drop (j + 1) (hm_spill m))"
    using Suc by (intro Suc.hyps(1)) auto
  ultimately show ?case
    by (subst hm_visit.simps) (simp add: it_eq_def hm_end_def hm_iter_def it_deref_def it_increment_def Cons_nth_drop_Suc)
qed

lemma visit_container:
  "hm_visit m \<lparr>it_iter = skip_unused (ht_data (hm_container m)) i, it_iter2 = 0,
      it_in_spill = (skip_unused (ht_data (hm_container m)) i = container_end m)\<rparr> =
    Inr (visited (hm_container m) (skip_unused (ht_data (hm_container m)) i) @ hm_spill m)"
  if "i \<le> container_end m"
  using that
proof (induction "container_end m - i" arbitrary: i rule: less_induct)
  case less
  let ?t = "hm_container m" and ?n = "container_end m"
  let ?j = "skip_unused (ht_data ?t) i"
  have le: "skip_unused (ht_data ?t) k \<le> ?n" if "k \<le> ?n" for k
    using that by (induction "ht_data ?t" k rule: skip_unused.induct) (subst skip_unused.simps, auto)
  show ?case
  proof (cases "?j = ?n")
    case True
    then show ?thesis using visit_spill[of 0 m ?n] by (simp add: visited.simps)
  next
    case False
    then have j: "?j < ?n" using le[OF less.prems] by simp
    have "hm_visit m \<lparr>it_iter = skip_unused (ht_data ?t) (?j + 1), it_iter2 = 0,
        it_in_spill = (skip_unused (ht_data ?t) (?j + 1) = ?n)\<rparr> =
      Inr (visited ?t (skip_unused (ht_data ?t) (?j + 1)) @ hm_spill m)"
      using less.hyps[of "?j + 1"] j skip_unused_ge[of i "ht_data ?t"] by (simp add: diff_less_mono2)
    moreover have "visited ?t ?j = el_elem (ht_data ?t ! ?j) # visited ?t (skip_unused (ht_data ?t) (?j + 1))"
      using j by (subst visited.simps) (simp add: ht_next_def)
    ultimately show ?thesis
      using j by (subst hm_visit.simps) (simp add: it_eq_def hm_end_def hm_iter_def it_deref_def it_increment_def ht_next_def Let_def)
  qed
qed

lemma hm_visit_all: "hm_visit m (hm_begin m) = Inr (visited (hm_container m) (ht_begin (hm_container m)) @ hm_spill m)"
  using visit_container[of 0 m] by (simp add: hm_begin_def hm_iter_def ht_begin_def)

subsection \<open>Insertion\<close>

lemma spill_insert_law:
  assumes "mp_ok M" "\<forall>w. (fst v, w) \<notin> set spill"
  shows "mset (fst (spill_insert M v spill)) = add_mset v (mset spill)"
    "snd (spill_insert M v spill) < length (fst (spill_insert M v spill))"
    "fst (spill_insert M v spill) ! snd (spill_insert M v spill) = v"
proof -
  let ?s = "mp_order M (v # spill)"
  have i: "spill_insert M v spill = (?s, spill_find (fst v) ?s)"
    using assms(2) spill_find_less[of "fst v" spill] by (simp add: spill_insert_def Let_def)
  show m: "mset (fst (spill_insert M v spill)) = add_mset v (mset spill)" using assms(1) by (simp add: i mp_ok_def)
  then have s: "set ?s = insert v (set spill)" by (metis i fst_conv set_mset_add_mset_insert set_mset_mset)
  then have f: "spill_find (fst v) ?s < length ?s" unfolding spill_find_less by (metis insertI1 prod.collapse)
  then show "snd (spill_insert M v spill) < length (fst (spill_insert M v spill))" by (simp add: i)
  have "?s ! spill_find (fst v) ?s \<in> insert v (set spill)" using f s nth_mem by blast
  then show "fst (spill_insert M v spill) ! snd (spill_insert M v spill) = v"
    using spill_find_nth[OF f] assms(2) by (auto simp: i) (metis prod.collapse)
qed

text \<open>An insertion into the container of a key that is not there.\<close>

lemma container_insert:
  assumes "ht_wf (container_params M) t" "\<forall>x\<in>#ht_entries t. fst x \<noteq> fst v"
  obtains i t' where "ht_insert (container_params M) v t = Some (Inr (i, t'))" "ht_wf (container_params M) t'"
    "i = length (ht_data t') \<and> ht_entries t' = ht_entries t \<or>
     i \<noteq> length (ht_data t') \<and> ht_entries t' = add_mset v (ht_entries t) \<and> slot (ht_data t') i v"
proof -
  obtain i t' where r: "insert_impl (container_params M) v True t = Some (Inr (i, t'))" "ht_wf (container_params M) t'"
    "length (ht_data t') = length (ht_data t)" and
    "(\<exists>x E. fst x = fst v \<and> ht_entries t = add_mset x E \<and> ht_entries t' = add_mset v E \<and> slot (ht_data t') i v) \<or>
     i = length (ht_data t) \<and> ht_entries t' = ht_entries t \<or> ht_entries t' = add_mset v (ht_entries t) \<and> slot (ht_data t') i v"
    using ht_insert_law[OF functors_ok_container assms(1), of v True] by auto
  then have "i = length (ht_data t') \<and> ht_entries t' = ht_entries t \<or>
      ht_entries t' = add_mset v (ht_entries t) \<and> slot (ht_data t') i v" using assms(2) by auto
  then show ?thesis using that[of i t'] r(1,2) by (auto simp: ht_insert_def slot_def)
qed

lemma reinsert_law:
  assumes "mp_ok M" "ht_wf (container_params M) t" "apart same_key (ht_entries t + mset spill + mset vs)"
  shows "\<exists>t' spill'. reinsert M vs t spill = Some (Inr (t', spill')) \<and> ht_wf (container_params M) t' \<and>
    ht_entries t' + mset spill' = ht_entries t + mset spill + mset vs"
  using assms(2,3)
proof (induction vs arbitrary: t spill)
  case (Cons v vs)
  have fr: "(fst v, w) \<notin># ht_entries t + mset spill + mset vs" for w
    using Cons.prems(2) apart_fresh[of "fst v" "snd v" "ht_entries t + mset spill + mset vs" w] by simp
  have k: "\<forall>x\<in>#ht_entries t. fst x \<noteq> fst v" "\<forall>w. (fst v, w) \<notin> set spill" using fr by (force, force)
  obtain i t1 where 1: "ht_insert (container_params M) v t = Some (Inr (i, t1))" "ht_wf (container_params M) t1"
    "i = length (ht_data t1) \<and> ht_entries t1 = ht_entries t \<or>
     i \<noteq> length (ht_data t1) \<and> ht_entries t1 = add_mset v (ht_entries t) \<and> slot (ht_data t1) i v"
    using container_insert[OF Cons.prems(1) k(1)] by blast
  let ?s = "if i = length (ht_data t1) then fst (spill_insert M v spill) else spill"
  have s: "ht_entries t1 + mset ?s = add_mset v (ht_entries t + mset spill)"
    using 1(3) spill_insert_law(1)[OF assms(1) k(2)] by auto
  have "apart same_key (ht_entries t1 + mset ?s + mset vs)" unfolding s using Cons.prems(2) by simp
  from Cons.IH[OF 1(2) this] obtain t' spill' where 2: "reinsert M vs t1 ?s = Some (Inr (t', spill'))"
    "ht_wf (container_params M) t'" "ht_entries t' + mset spill' = ht_entries t1 + mset ?s + mset vs" by blast
  show ?case using 1(1) 2 s by auto
qed simp

lemma rehash_law:
  assumes "mp_ok M" "hm_wf M m" "newsize' = (if newsize = - 1 then hm_size m * 2 else newsize)"
    "0 < newsize'" "unat newsize' \<le> 2 ^ 63"
  shows "\<exists>m'. rehash_to_new_container M newsize m = Some (Inr m') \<and> hm_wf M m' \<and> hm_entries m' = hm_entries m"
proof -
  let ?vs = "visited (hm_container m) (ht_begin (hm_container m)) @ hm_spill m"
  note new = hopscotch_table_new_law(1,2)[OF assms(4,5), of "container_params M"]
  have "apart same_key (hm_entries m)" using assms(2) by (simp add: hm_wf_def)
  then obtain t spill where r: "reinsert M ?vs (hopscotch_table_new (container_params M) newsize') [] = Some (Inr (t, spill))"
    "ht_wf (container_params M) t" "ht_entries t + mset spill = hm_entries m"
    using reinsert_law[OF assms(1) new(1), of "[]" ?vs] new(2) by (auto simp: hm_entries_list)
  show ?thesis
    using r \<open>apart same_key (hm_entries m)\<close> assms(3)
    by (intro exI[of _ "m\<lparr>hm_container := t, hm_spill := spill\<rparr>"])
      (simp add: rehash_to_new_container_def hm_visit_all hm_wf_def hm_entries_def)
qed

lemma hm_size_entries: "hm_wf M m \<Longrightarrow> hm_size m = of_nat (size (hm_entries m))"
  by (simp add: hm_wf_def ht_wf_def hm_size_def hm_entries_def)

lemma load_above_size: "load_above m \<Longrightarrow> hm_size m \<noteq> 0"
  by (rule notI) (simp add: load_above_def float_div_def Let_def round24_def)

text \<open>The outcome of adding a pair with a new key.\<close>

definition added :: "('k, 'v) map_params \<Rightarrow> 'k \<times> 'v \<Rightarrow> ('k, 'v) hopscotch_map \<Rightarrow> (error + hm_iterator \<times> ('k, 'v) hopscotch_map) option \<Rightarrow> bool" where
  "added M v m res \<longleftrightarrow> (\<exists>it m'. res = Some (Inr (it, m')) \<and> hm_wf M m' \<and> hm_entries m' = add_mset v (hm_entries m) \<and> hm_at m' it v)"

lemma fresh_parts:
  assumes "hm_map m (fst v) = None" "hm_wf M m"
  shows "\<forall>x\<in>#ht_entries (hm_container m). fst x \<noteq> fst v" "\<forall>w. (fst v, w) \<notin> set (hm_spill m)"
    "apart same_key (add_mset v (hm_entries m))"
proof -
  have n: "\<forall>x\<in>#hm_entries m. fst x \<noteq> fst v" using assms by (auto simp: hm_map_None[OF assms(2)])
  then show "\<forall>x\<in>#ht_entries (hm_container m). fst x \<noteq> fst v" by (simp add: hm_entries_def)
  show "\<forall>w. (fst v, w) \<notin> set (hm_spill m)"
    using n unfolding hm_entries_def by (metis fst_conv set_mset_mset union_iff)
  show "apart same_key (add_mset v (hm_entries m))"
    using apart_add[OF functors_ok_container[of undefined], of "hm_entries m" v] n assms(2) by (simp add: hm_wf_def)
qed

lemma addedI: "hm_wf M m' \<Longrightarrow> hm_entries m' = add_mset v (hm_entries m) \<Longrightarrow> hm_at m' it v \<Longrightarrow> added M v m (Some (Inr (it, m')))"
  by (simp add: added_def)

lemma added_container:
  assumes "hm_wf M m" "hm_map m (fst v) = None" "ht_wf (container_params M) t'"
    "ht_entries t' = add_mset v (ht_entries (hm_container m))" "slot (ht_data t') i v"
  shows "added M v m (Some (Inr (hm_iter (m\<lparr>hm_container := t'\<rparr>) i 0, m\<lparr>hm_container := t'\<rparr>)))"
  using assms fresh_parts(3)[OF assms(2,1)] by (intro addedI) (auto simp: hm_wf_def hm_entries_def hm_at_def hm_iter_def slot_def)

lemma added_spill:
  assumes "mp_ok M" "hm_wf M m" "hm_map m (fst v) = None" "ht_wf (container_params M) t'"
    "ht_entries t' = ht_entries (hm_container m)"
  shows "added M v m (let m = m\<lparr>hm_container := t'\<rparr>; (spill, iter2) = spill_insert M v (hm_spill m); m = m\<lparr>hm_spill := spill\<rparr>
     in Some (Inr (hm_iter m (container_end m) iter2, m)))"
proof -
  obtain spill iter2 where s: "spill_insert M v (hm_spill m) = (spill, iter2)" by fastforce
  have "mset spill = add_mset v (mset (hm_spill m))" "iter2 < length spill" "spill ! iter2 = v"
    using spill_insert_law[OF assms(1) fresh_parts(2)[OF assms(3,2)]] s by simp_all
  then have "added M v m (Some (Inr (hm_iter (m\<lparr>hm_container := t', hm_spill := spill\<rparr>) (length (ht_data t')) iter2,
      m\<lparr>hm_container := t', hm_spill := spill\<rparr>)))"
    using assms(4,5) fresh_parts(3)[OF assms(3,2)] by (intro addedI) (simp_all add: hm_wf_def hm_entries_def hm_at_def hm_iter_def)
  then show ?thesis using s by (simp add: Let_def)
qed

lemma insert_or_spill_law:
  assumes "mp_ok M" "hm_wf M m" "hm_map m (fst v) = None"
  shows "added M v m (insert_or_spill M v m)"
proof -
  have w: "ht_wf (container_params M) (hm_container m)" using assms(2) by (simp add: hm_wf_def)
  obtain i t' where 1: "ht_insert (container_params M) v (hm_container m) = Some (Inr (i, t'))" "ht_wf (container_params M) t'"
    "i = length (ht_data t') \<and> ht_entries t' = ht_entries (hm_container m) \<or>
     i \<noteq> length (ht_data t') \<and> ht_entries t' = add_mset v (ht_entries (hm_container m)) \<and> slot (ht_data t') i v"
    using container_insert[OF w fresh_parts(1)[OF assms(3,2)]] by blast
  from 1(3) show ?thesis
    using 1(1) added_container[OF assms(2,3) 1(2)] added_spill[OF assms 1(2)]
    by (auto simp: insert_or_spill_def Let_def split: prod.splits)
qed

lemma do_insert_law:
  assumes "mp_ok M" "hm_wf M m" "hm_map m (fst v) = None" "size (hm_entries m) < 2 ^ 62"
  shows "added M v m (do_insert M v m)"
proof -
  have w: "ht_wf (container_params M) (hm_container m)" using assms(2) by (simp add: hm_wf_def)
  obtain i t' where 1: "ht_insert (container_params M) v (hm_container m) = Some (Inr (i, t'))" "ht_wf (container_params M) t'"
    "i = length (ht_data t') \<and> ht_entries t' = ht_entries (hm_container m) \<or>
     i \<noteq> length (ht_data t') \<and> ht_entries t' = add_mset v (ht_entries (hm_container m)) \<and> slot (ht_data t') i v"
    using container_insert[OF w fresh_parts(1)[OF assms(3,2)]] by blast
  let ?m = "m\<lparr>hm_container := t'\<rparr>"
  show ?thesis
  proof (cases "i \<noteq> length (ht_data t')")
    case True
    then show ?thesis using 1 added_container[OF assms(2,3) 1(2)] by (auto simp: do_insert_def Let_def)
  next
    case False
    then have same: "ht_entries t' = ht_entries (hm_container m)" using 1(3) by simp
    then have e: "hm_entries ?m = hm_entries m" by (simp add: hm_entries_def)
    have wf: "hm_wf M ?m" using 1(2) assms(2) e by (simp add: hm_wf_def)
    show ?thesis
    proof (cases "load_above ?m")
      case la: True
      have n: "unat (hm_size ?m) = size (hm_entries m)"
        using assms(4) e hm_size_entries[OF wf] by (simp add: unat_of_nat_u64)
      then have "unat (hm_size ?m * 2) = 2 * size (hm_entries m)" using assms(4) by (simp add: unat_word_ariths)
      moreover have "0 < size (hm_entries m)" using n load_above_size[OF la] by (metis gr0I unat_eq_0)
      ultimately have "0 < hm_size ?m * 2" "unat (hm_size ?m * 2) \<le> 2 ^ 63" using assms(4)
        by (metis nat_0_less_mult_iff unat_gt_0 word_gt_0 zero_less_numeral unat_0 neq0_conv, simp)
      then obtain m' where r: "rehash_to_new_container M (- 1) ?m = Some (Inr m')" "hm_wf M m'" "hm_entries m' = hm_entries m"
        using rehash_law[OF assms(1) wf refl, of "- 1"] e by auto
      have "added M v m' (insert_or_spill M v m')"
        using insert_or_spill_law[OF assms(1) r(2)] assms(3) hm_map_cong[OF assms(2) r(2,3)] by simp
      then show ?thesis using 1(1) False la r by (simp add: do_insert_def added_def)
    next
      case la: False
      then show ?thesis using 1(1) False added_spill[OF assms(1-3) 1(2) same]
        by (simp add: do_insert_def Let_def)
    qed
  qed
qed

subsection \<open>The operations on the abstract map\<close>

lemma apart_rekey: "apart same_key (add_mset (k, v) E) \<Longrightarrow> apart same_key (add_mset (k, w) E)"
proof -
  obtain xs where "E = mset xs" by (metis ex_mset)
  then show "apart same_key (add_mset (k, v) E) \<Longrightarrow> ?thesis"
    using apart_keys[of "(k, v) # xs"] apart_keys[of "(k, w) # xs"] by simp
qed

lemma it_assign_law:
  assumes wf: "hm_wf M m" and at: "hm_at m it (k, v)"
  shows "\<exists>m' E. it_assign it w m = Inr m' \<and> hm_wf M m' \<and> hm_entries m = add_mset (k, v) E \<and> hm_entries m' = add_mset (k, w) E"
proof (cases "it_in_spill it")
  case True
  let ?s = "hm_spill m" and ?i = "it_iter2 it"
  have i: "?i < length ?s" "?s ! ?i = (k, v)" using at True by (auto simp: hm_at_def)
  then have "(k, v) \<in># mset ?s" by (metis nth_mem set_mset_mset)
  then obtain F where F: "mset ?s = add_mset (k, v) F" by (meson mset_add)
  have "mset (?s[?i := (k, w)]) = add_mset (k, w) F" using i F by (simp add: mset_update)
  then have "hm_entries (m\<lparr>hm_spill := ?s[?i := (k, w)]\<rparr>) = add_mset (k, w) (ht_entries (hm_container m) + F)"
    "hm_entries m = add_mset (k, v) (ht_entries (hm_container m) + F)" using F by (simp_all add: hm_entries_def)
  moreover have "it_assign it w m = Inr (m\<lparr>hm_spill := ?s[?i := (k, w)]\<rparr>)"
    using hm_at(1)[OF at] True by (simp add: it_assign_def)
  ultimately show ?thesis using wf apart_rekey by (auto simp: hm_wf_def)
next
  case False
  let ?c = "hm_container m" and ?i = "it_iter it" and ?h = "ht_target (container_params M) (hm_container m)"
  have s: "slot (ht_data ?c) ?i (k, v)" using at False by (simp add: hm_at_def)
  have w: "ht_wf (container_params M) ?c" using wf by (simp add: hm_wf_def)
  then have h: "hop_wf ?h (ht_data ?c)" by (simp add: ht_wf_def)
  have "?h (k, w) = ?h (k, v)" by (rule ht_target_eq) simp_all
  note o = hop_overwrite[OF h s this]
  let ?c' = "?c\<lparr>ht_data := (ht_data ?c)[?i := (ht_data ?c ! ?i)\<lparr>el_elem := (k, w)\<rparr>]\<rparr>"
  obtain F where F: "ht_entries ?c = add_mset (k, v) F" using s by (meson entries_iff_slot mset_add)
  then have F': "ht_entries ?c' = add_mset (k, w) F" using o(2) by simp
  have "apart same_key (ht_entries ?c)" using w by (simp add: ht_wf_def)
  then have "ht_wf (container_params M) ?c'"
    using w o F F' apart_rekey ht_target_mask[of ?c' ?c "container_params M"] by (simp add: ht_wf_def)
  moreover have "hm_entries (m\<lparr>hm_container := ?c'\<rparr>) = add_mset (k, w) (F + mset (hm_spill m))"
    "hm_entries m = add_mset (k, v) (F + mset (hm_spill m))" using F F' by (simp_all add: hm_entries_def)
  moreover have "it_assign it w m = Inr (m\<lparr>hm_container := ?c'\<rparr>)"
    using hm_at(1)[OF at] False by (simp add: it_assign_def Let_def)
  ultimately show ?thesis using wf apart_rekey by (auto simp: hm_wf_def)
qed

lemma hm_put_law:
  assumes "mp_ok M" "hm_wf M m" "size (hm_entries m) < 2 ^ 62"
  shows "\<exists>m'. hm_put M k v m = Some (Inr m') \<and> hm_wf M m' \<and> hm_map m' = (hm_map m)(k \<mapsto> v)"
proof -
  obtain it where it: "hm_find M k m = Inr it"
    "it_eq it (hm_end m) \<and> hm_map m k = None \<or> (\<exists>v. hm_at m it (k, v) \<and> hm_map m k = Some v)"
    using hm_find_law[OF assms(2), of k] by blast
  from it(2) show ?thesis
  proof (elim disjE conjE exE)
    assume e: "it_eq it (hm_end m)" and n: "hm_map m k = None"
    from do_insert_law[OF assms(1,2) _ assms(3), of "(k, mp_value M)"] n
    obtain it' m1 where 1: "do_insert M (k, mp_value M) m = Some (Inr (it', m1))" "hm_wf M m1"
      "hm_entries m1 = add_mset (k, mp_value M) (hm_entries m)" "hm_at m1 it' (k, mp_value M)" by (auto simp: added_def)
    obtain m' E where 2: "it_assign it' v m1 = Inr m'" "hm_wf M m'" "hm_entries m1 = add_mset (k, mp_value M) E"
      "hm_entries m' = add_mset (k, v) E" using it_assign_law[OF 1(2,4)] by blast
    have "hm_entries m' = add_mset (k, v) (hm_entries m)" using 1(3) 2(3,4) by simp
    from hm_map_add(1)[OF assms(2) 2(2) this] show ?thesis using it(1) e 1(1) 2 by (simp add: hm_put_def hm_index_def)
  next
    fix u assume u: "hm_at m it (k, u)"
    obtain m' E where 2: "it_assign it v m = Inr m'" "hm_wf M m'" "hm_entries m = add_mset (k, u) E"
      "hm_entries m' = add_mset (k, v) E" using it_assign_law[OF assms(2) u] by blast
    from hm_map_replace[OF assms(2) 2(2-4)] show ?thesis using it(1) hm_at(2)[OF u] 2 by (simp add: hm_put_def hm_index_def)
  qed
qed

lemma hm_insert_law:
  assumes "mp_ok M" "hm_wf M m" "size (hm_entries m) < 2 ^ 62"
  shows "\<exists>it m'. hm_insert M (k, v) m = Some (Inr ((it, hm_map m k = None), m')) \<and> hm_wf M m' \<and>
    hm_map m' = (if hm_map m k = None then (hm_map m)(k \<mapsto> v) else hm_map m)"
proof -
  obtain it where it: "hm_find M k m = Inr it"
    "it_eq it (hm_end m) \<and> hm_map m k = None \<or> (\<exists>v. hm_at m it (k, v) \<and> hm_map m k = Some v)"
    using hm_find_law[OF assms(2), of k] by blast
  from it(2) show ?thesis
  proof (elim disjE conjE exE)
    assume e: "it_eq it (hm_end m)" and n: "hm_map m k = None"
    from do_insert_law[OF assms(1,2) _ assms(3), of "(k, v)"] n
    obtain it' m1 where 1: "do_insert M (k, v) m = Some (Inr (it', m1))" "hm_wf M m1"
      "hm_entries m1 = add_mset (k, v) (hm_entries m)" by (auto simp: added_def)
    from hm_map_add(1)[OF assms(2) 1(2,3)] show ?thesis using it(1) e n 1 by (simp add: hm_insert_def)
  next
    fix u assume u: "hm_at m it (k, u)" "hm_map m k = Some u"
    then show ?thesis using it(1) hm_at(2)[OF u(1)] assms(2) by (auto simp: hm_insert_def)
  qed
qed

lemma apart_filter: "apart same_key E \<Longrightarrow> apart same_key (filter_mset (\<lambda>kv. fst kv \<noteq> k) E)"
proof -
  obtain xs where "E = mset xs" by (metis ex_mset)
  then show "apart same_key E \<Longrightarrow> ?thesis" by (simp add: apart_keys distinct_map_filter flip: mset_filter)
qed

lemma hm_erase_law:
  assumes wf: "hm_wf M m"
  shows "\<exists>m'. hm_erase M k m = Inr (hm_map m k \<noteq> None, m') \<and> hm_wf M m' \<and> hm_map m' = (hm_map m)(k := None)"
proof -
  let ?c = "hm_container m" and ?P = "container_params M"
  have w: "ht_wf ?P ?c" using wf by (simp add: hm_wf_def)
  obtain b c' where r: "ht_erase ?P (k, mp_value M) ?c = Inr (b, c')" "ht_wf ?P c'"
    "b \<and> (\<exists>x. fst x = k \<and> ht_entries ?c = add_mset x (ht_entries c')) \<or> \<not> b \<and> c' = ?c \<and> (\<forall>x\<in>#ht_entries ?c. fst x \<noteq> k)"
    using ht_erase_law[OF functors_ok_container w, of "(k, mp_value M)"] by auto
  from r(3) show ?thesis
  proof (elim disjE conjE exE)
    fix x assume b: b and x: "fst x = k" "ht_entries ?c = add_mset x (ht_entries c')"
    let ?m = "m\<lparr>hm_container := c'\<rparr>"
    have e: "hm_entries m = add_mset (k, snd x) (hm_entries ?m)" using x by (auto simp: hm_entries_def)
    then have "hm_wf M ?m" using wf r(2) apart_remove(1)[OF functors_ok_container[of M], of "(k, snd x)" "hm_entries ?m"] by (simp add: hm_wf_def)
    from hm_map_add[OF this wf e] show ?thesis using r(1) b \<open>hm_wf M ?m\<close> by (auto simp: hm_erase_def fun_upd_idem)
  next
    assume b: "\<not> b" "c' = ?c" "\<forall>x\<in>#ht_entries ?c. fst x \<noteq> k"
    let ?m = "m\<lparr>hm_spill := filter (\<lambda>kv. fst kv \<noteq> k) (hm_spill m)\<rparr>"
    have e: "hm_entries ?m = filter_mset (\<lambda>kv. fst kv \<noteq> k) (hm_entries m)"
    proof -
      have "filter_mset (\<lambda>kv. fst kv \<noteq> k) (ht_entries ?c) = filter_mset (\<lambda>_. True) (ht_entries ?c)"
        using b(3) by (intro filter_mset_cong) auto
      then show ?thesis by (simp add: hm_entries_def)
    qed
    have wf': "hm_wf M ?m" using wf w apart_filter by (simp add: hm_wf_def e)
    have "hm_map ?m = (hm_map m)(k := None)"
      by (rule fun_option_eqI) (auto simp: hm_map_iff[OF wf'] hm_map_iff[OF wf] e)
    moreover have "hm_map m k \<noteq> None \<longleftrightarrow> spill_find k (hm_spill m) < length (hm_spill m)"
      using b(3) by (auto simp: spill_find_less hm_map_None[OF wf] hm_entries_def)
    ultimately show ?thesis using r(1) b wf' by (simp add: hm_erase_def spill_erase_def)
  qed
qed

lemma hm_fresh:
  assumes "ht_wf (container_params M) t" "ht_entries t = {#}"
  shows "hm_wf M \<lparr>hm_container = t, hm_spill = []\<rparr>" "hm_map \<lparr>hm_container = t, hm_spill = []\<rparr> = Map.empty"
proof -
  have e: "hm_entries \<lparr>hm_container = t, hm_spill = []\<rparr> = {#}" using assms by (simp add: hm_entries_def)
  then show wf: "hm_wf M \<lparr>hm_container = t, hm_spill = []\<rparr>" using assms by (simp add: hm_wf_def apart_def)
  show "hm_map \<lparr>hm_container = t, hm_spill = []\<rparr> = Map.empty" using e hm_map_None[OF wf] by auto
qed

lemma hm_new_law: "hm_wf M (hopscotch_map_new M)" "hm_map (hopscotch_map_new M) = Map.empty"
  "hm_wf M (hm_clear M m)" "hm_map (hm_clear M m) = Map.empty"
  using hm_fresh[OF hopscotch_table_new_law(1,2)[of 32 "container_params M"]]
    hm_fresh[OF hopscotch_table_new_law(1,2)[of 128 "container_params M"]]
  by (simp_all add: hopscotch_map_new_def) (cases m; simp add: hm_clear_def)+

lemma hm_rehash_law:
  assumes "mp_ok M" "hm_wf M m" "unat s \<le> 2 ^ 63"
  shows "\<exists>m'. hm_rehash M s m = Some (Inr m') \<and> hm_wf M m' \<and> hm_map m' = hm_map m"
proof (cases "s > hm_capacity m")
  case True
  then have "0 < s" using word_zero_le le_less_trans by blast
  moreover have "s \<noteq> - 1" using assms(3) by (auto simp: unsigned_minus_1_eq_mask mask_eq_exp_minus_1)
  ultimately show ?thesis
    using rehash_law[OF assms(1,2), of s s] assms(3) True hm_map_cong[OF assms(2)] by (auto simp: hm_rehash_def)
qed (use assms in \<open>simp add: hm_rehash_def\<close>)

lemma hm_entries_card: "hm_wf M m \<Longrightarrow> size (hm_entries m) = card (dom (hm_map m)) \<and> finite (dom (hm_map m))"
proof -
  assume wf: "hm_wf M m"
  let ?vs = "visited (hm_container m) (ht_begin (hm_container m)) @ hm_spill m"
  have "distinct (map fst ?vs)" using wf by (simp only: hm_wf_def hm_entries_list apart_keys)
  then have "card (dom (map_of ?vs)) = length ?vs"
    using distinct_card[of "map fst ?vs"] by (simp only: dom_map_of_conv_image_fst set_map length_map)
  then show ?thesis by (simp add: hm_entries_list hm_map_def finite_dom_map_of del: map_of_append)
qed

section \<open>The contract of a map\<close>

text \<open>Sequences of operations on a map, and what they do to a partial function.\<close>

datatype ('k, 'v) store_op = Assign 'k 'v | Add 'k 'v | Remove 'k | Reset

fun store_run ::
  "('k \<Rightarrow> 'v \<Rightarrow> 'm \<Rightarrow> (error + 'm) option) \<Rightarrow> ('k \<Rightarrow> 'v \<Rightarrow> 'm \<Rightarrow> (error + bool \<times> 'm) option) \<Rightarrow>
     ('k \<Rightarrow> 'm \<Rightarrow> error + bool \<times> 'm) \<Rightarrow> ('m \<Rightarrow> 'm) \<Rightarrow> ('k, 'v) store_op list \<Rightarrow> 'm \<Rightarrow> (error + bool list \<times> 'm) option" where
  "store_run asgn add rem rst [] m = Some (Inr ([], m))"
| "store_run asgn add rem rst (op # ops) m =
     run_bind
       (case op of
          Assign k v \<Rightarrow> run_bind (asgn k v m) (\<lambda>m. Some (Inr (True, m)))
        | Add k v \<Rightarrow> add k v m
        | Remove k \<Rightarrow> Some (rem k m)
        | Reset \<Rightarrow> Some (Inr (True, rst m)))
       (\<lambda>(ok, m). run_bind (store_run asgn add rem rst ops m) (\<lambda>(oks, m). Some (Inr (ok # oks, m))))"

fun map_step :: "('k, 'v) store_op \<Rightarrow> ('k \<Rightarrow> 'v option) \<Rightarrow> bool \<times> ('k \<Rightarrow> 'v option)" where
  "map_step (Assign k v) f = (True, f(k \<mapsto> v))"
| "map_step (Add k v) f = (f k = None, if f k = None then f(k \<mapsto> v) else f)"
| "map_step (Remove k) f = (f k \<noteq> None, f(k := None))"
| "map_step Reset f = (True, Map.empty)"

fun map_run :: "('k, 'v) store_op list \<Rightarrow> ('k \<Rightarrow> 'v option) \<Rightarrow> bool list \<times> ('k \<Rightarrow> 'v option)" where
  "map_run [] f = ([], f)"
| "map_run (op # ops) f = (let (ok, f) = map_step op f; (oks, f) = map_run ops f in (ok # oks, f))"

lemma card_dom_step: "finite (dom f) \<Longrightarrow> card (dom (snd (map_step op f))) \<le> card (dom f) + 1"
proof (cases op)
  case (Remove k)
  assume "finite (dom f)"
  then have "card (dom f - {k}) \<le> card (dom f)" by (intro card_mono) auto
  then show ?thesis using Remove by simp
qed (auto simp: card_insert_if)

locale map_store =
  fixes good :: "'m \<Rightarrow> bool"
    and content :: "'m \<Rightarrow> 'k \<Rightarrow> 'v option"
    and asgn :: "'k \<Rightarrow> 'v \<Rightarrow> 'm \<Rightarrow> (error + 'm) option"
    and add :: "'k \<Rightarrow> 'v \<Rightarrow> 'm \<Rightarrow> (error + bool \<times> 'm) option"
    and rem :: "'k \<Rightarrow> 'm \<Rightarrow> error + bool \<times> 'm"
    and rst :: "'m \<Rightarrow> 'm"
    and room :: nat
  assumes finite_content: "good m \<Longrightarrow> finite (dom (content m))"
    and assign_content: "good m \<Longrightarrow> card (dom (content m)) < room \<Longrightarrow>
          \<exists>m'. asgn k v m = Some (Inr m') \<and> good m' \<and> content m' = (content m)(k \<mapsto> v)"
    and add_content: "good m \<Longrightarrow> card (dom (content m)) < room \<Longrightarrow>
          \<exists>m'. add k v m = Some (Inr (content m k = None, m')) \<and> good m' \<and>
            content m' = (if content m k = None then (content m)(k \<mapsto> v) else content m)"
    and remove_content: "good m \<Longrightarrow> \<exists>m'. rem k m = Inr (content m k \<noteq> None, m') \<and> good m' \<and> content m' = (content m)(k := None)"
    and reset_content: "good m \<Longrightarrow> good (rst m) \<and> content (rst m) = Map.empty"
begin

lemma run_content:
  "good m \<Longrightarrow> card (dom (content m)) + length ops \<le> room \<Longrightarrow>
     \<exists>m'. store_run asgn add rem rst ops m = Some (Inr (fst (map_run ops (content m)), m')) \<and> good m' \<and>
       content m' = snd (map_run ops (content m))"
proof (induction ops arbitrary: m)
  case (Cons op ops)
  let ?res = "case op of
          Assign k v \<Rightarrow> run_bind (asgn k v m) (\<lambda>m. Some (Inr (True, m)))
        | Add k v \<Rightarrow> add k v m
        | Remove k \<Rightarrow> Some (rem k m)
        | Reset \<Rightarrow> Some (Inr (True, rst m))"
  have room: "card (dom (content m)) < room" using Cons.prems(2) by simp
  obtain m1 where 1: "?res = Some (Inr (fst (map_step op (content m)), m1))" "good m1" "content m1 = snd (map_step op (content m))"
  proof (cases op)
    case (Assign k v)
    then show ?thesis using that assign_content[OF Cons.prems(1) room, of k v] by auto
  next
    case (Add k v)
    then show ?thesis using that add_content[OF Cons.prems(1) room, of k v] by auto
  next
    case (Remove k)
    then show ?thesis using that remove_content[OF Cons.prems(1), of k] by auto
  next
    case Reset
    then show ?thesis using that reset_content[OF Cons.prems(1)] by auto
  qed
  have "card (dom (content m1)) + length ops \<le> room"
    using Cons.prems(2) card_dom_step[OF finite_content[OF Cons.prems(1)], of op] 1(3) by simp
  from Cons.IH[OF 1(2) this] obtain m' where 2: "store_run asgn add rem rst ops m1 = Some (Inr (fst (map_run ops (content m1)), m'))"
    "good m'" "content m' = snd (map_run ops (content m1))" by blast
  show ?case
    using 1 2 by (intro exI[of _ m']) (auto simp: split_beta Let_def)
qed simp

end

subsection \<open>The hopscotch map keeps it\<close>

definition hm_add :: "('k, 'v) map_params \<Rightarrow> 'k \<Rightarrow> 'v \<Rightarrow> ('k, 'v) hopscotch_map \<Rightarrow> (error + bool \<times> ('k, 'v) hopscotch_map) option" where
  "hm_add M k v m = run_bind (hm_insert M (k, v) m) (\<lambda>((_, b), m). Some (Inr (b, m)))"

text \<open>How clients look a key up: \<open>iter = find(k)\<close>, compared to \<open>end()\<close>, then \<open>iter->second\<close>.\<close>

definition hm_lookup :: "('k, 'v) map_params \<Rightarrow> 'k \<Rightarrow> ('k, 'v) hopscotch_map \<Rightarrow> error + 'v option" where
  "hm_lookup M k m = result_bind (hm_find M k m) (\<lambda>iter.
     if it_eq iter (hm_end m) then Inr None else result_bind (it_deref m iter) (\<lambda>kv. Inr (Some (snd kv))))"

lemma hm_lookup_law: "hm_wf M m \<Longrightarrow> hm_lookup M k m = Inr (hm_map m k)"
proof -
  assume "hm_wf M m"
  then obtain it where "hm_find M k m = Inr it"
    "it_eq it (hm_end m) \<and> hm_map m k = None \<or> (\<exists>v. hm_at m it (k, v) \<and> hm_map m k = Some v)"
    using hm_find_law[of M m k] by blast
  then show ?thesis using hm_at(1,2)[of m it "(k, _)"] by (auto simp: hm_lookup_def)
qed

interpretation hop_map: map_store "\<lambda>m. mp_ok M \<and> hm_wf M m" hm_map "hm_put M" "hm_add M" "hm_erase M" "hm_clear M" "2 ^ 62" for M
proof unfold_locales
  fix m :: "('a, 'b) hopscotch_map" and k v
  assume g: "mp_ok M \<and> hm_wf M m"
  show "finite (dom (hm_map m))" using hm_entries_card g by blast
  show "\<exists>m'. hm_erase M k m = Inr (hm_map m k \<noteq> None, m') \<and> (mp_ok M \<and> hm_wf M m') \<and> hm_map m' = (hm_map m)(k := None)"
    using hm_erase_law[of M m k] g by auto
  show "(mp_ok M \<and> hm_wf M (hm_clear M m)) \<and> hm_map (hm_clear M m) = Map.empty" using g hm_new_law by auto
  assume "card (dom (hm_map m)) < 2 ^ 62"
  then have s: "size (hm_entries m) < 2 ^ 62" using hm_entries_card[of M m] g by simp
  show "\<exists>m'. hm_put M k v m = Some (Inr m') \<and> (mp_ok M \<and> hm_wf M m') \<and> hm_map m' = (hm_map m)(k \<mapsto> v)"
    using hm_put_law[OF _ _ s, of M k v] g by auto
  show "\<exists>m'. hm_add M k v m = Some (Inr (hm_map m k = None, m')) \<and> (mp_ok M \<and> hm_wf M m') \<and>
      hm_map m' = (if hm_map m k = None then (hm_map m)(k \<mapsto> v) else hm_map m)"
    using hm_insert_law[OF _ _ s, of M k v] g by (auto simp: hm_add_def)
qed

text \<open>C29. A hopscotch map is a finite map, whatever hash it is given: every sequence of assignments, insertions,
  removals and clears from an empty map returns, with the results of the same sequence on a partial function; searches
  then see this function, and so does an iteration over the map, which passes every key once. This includes the moves
  between table and spill map and the growth of the table. The \<open>unordered_map\<close> is assumed to keep its elements when
  it reorders them.\<close>

theorem hopscotch_map_refines_map:
  assumes "mp_ok M" "length ops \<le> 2 ^ 62"
  shows "\<exists>m vs. store_run (hm_put M) (hm_add M) (hm_erase M) (hm_clear M) ops (hopscotch_map_new M) =
      Some (Inr (fst (map_run ops Map.empty), m)) \<and>
    (\<forall>k. hm_lookup M k m = Inr (snd (map_run ops Map.empty) k)) \<and>
    hm_visit m (hm_begin m) = Inr vs \<and> distinct (map fst vs) \<and> map_of vs = snd (map_run ops Map.empty) \<and>
    hm_size m = of_nat (length vs)"
proof -
  obtain m where m: "store_run (hm_put M) (hm_add M) (hm_erase M) (hm_clear M) ops (hopscotch_map_new M) =
      Some (Inr (fst (map_run ops Map.empty), m))" "hm_wf M m" "hm_map m = snd (map_run ops Map.empty)"
    using hop_map.run_content[of M "hopscotch_map_new M" ops] assms hm_new_law[of M] by auto
  let ?vs = "visited (hm_container m) (ht_begin (hm_container m)) @ hm_spill m"
  have "distinct (map fst ?vs)" using m(2) by (simp only: hm_wf_def hm_entries_list apart_keys)
  moreover have "hm_size m = of_nat (length ?vs)" unfolding hm_size_entries[OF m(2)] hm_entries_list by simp
  ultimately show ?thesis
    using m hm_lookup_law[OF m(2)] by (intro exI[of _ m] exI[of _ ?vs]) (simp only: hm_visit_all hm_map_def simp_thms)
qed

theorem hopscotch_map_refines_map_witness:
  defines "M \<equiv> \<lparr>mp_hash = (\<lambda>k :: u64. 0), mp_perturb = jenkins_mix, mp_key = 0, mp_value = (0 :: nat), mp_order = rev\<rparr>"
    and "ops \<equiv> [Assign (1 :: u64) (10 :: nat), Add 2 20, Remove 1]"
  shows "\<exists>m vs. store_run (hm_put M) (hm_add M) (hm_erase M) (hm_clear M) ops (hopscotch_map_new M) =
      Some (Inr (fst (map_run ops Map.empty), m)) \<and>
    (\<forall>k. hm_lookup M k m = Inr (snd (map_run ops Map.empty) k)) \<and>
    hm_visit m (hm_begin m) = Inr vs \<and> distinct (map fst vs) \<and> map_of vs = snd (map_run ops Map.empty) \<and>
    hm_size m = of_nat (length vs)"
  by (rule hopscotch_map_refines_map) (simp_all add: M_def ops_def mp_ok_def)

section \<open>Saving and loading\<close>

lemma load_pairs_law:
  assumes c: "codec save load wire ok" and M: "mp_ok M"
  shows "hm_wf M m \<Longrightarrow> i_wf iarc \<Longrightarrow> list_all ok vs \<Longrightarrow> i_rest iarc = concat (map wire vs) @ r \<Longrightarrow>
    distinct (map fst vs) \<Longrightarrow> \<forall>kv\<in>set vs. hm_map m (fst kv) = None \<Longrightarrow> card (dom (hm_map m)) + length vs \<le> 2 ^ 62 \<Longrightarrow>
    \<exists>m'. load_pairs M load (length vs) iarc m = Some (Inr (m', i_adv (length (concat (map wire vs))) iarc)) \<and>
      hm_wf M m' \<and> hm_map m' = hm_map m ++ map_of vs"
proof (induction vs arbitrary: m iarc)
  case (Cons v vs)
  have rest: "i_rest iarc = wire v @ (concat (map wire vs) @ r)" using Cons.prems by simp
  have l: "load iarc = Some (v, i_adv (length (wire v)) iarc)"
    using Cons.prems rest by (intro codec.load_wire[OF c]) auto
  note adv = i_adv_wf[OF Cons.prems(2) rest]
  have "size (hm_entries m) < 2 ^ 62" using hm_entries_card[OF Cons.prems(1)] Cons.prems(7) by simp
  from hm_insert_law[OF M Cons.prems(1) this, of "fst v" "snd v"] Cons.prems(6)
  obtain it m1 where 1: "hm_insert M v m = Some (Inr ((it, True), m1))" "hm_wf M m1"
    "hm_map m1 = (hm_map m)(fst v \<mapsto> snd v)" by auto
  have fin: "finite (dom (hm_map m))" using hm_entries_card[OF Cons.prems(1)] by blast
  have "card (dom (hm_map m1)) + length vs \<le> 2 ^ 62"
    using card_dom_step[OF fin, of "Assign (fst v) (snd v)"] Cons.prems(7) 1(3) by simp
  moreover have "\<forall>kv\<in>set vs. hm_map m1 (fst kv) = None" using Cons.prems(5,6) 1(3) by (force simp: image_iff)
  ultimately obtain m' where 2: "load_pairs M load (length vs) (i_adv (length (wire v)) iarc) m1 =
      Some (Inr (m', i_adv (length (concat (map wire vs))) (i_adv (length (wire v)) iarc)))" "hm_wf M m'" "hm_map m' = hm_map m1 ++ map_of vs"
    using Cons.IH[OF 1(2) adv(1), of] adv Cons.prems by auto
  have "fst v \<notin> dom (map_of vs)" using Cons.prems(5) by (auto simp: dom_map_of_conv_image_fst)
  then have "hm_map m' = hm_map m ++ map_of (v # vs)" using 2(3) 1(3) by (simp add: map_add_upd_left)
  moreover have "load_pairs M load (length (v # vs)) iarc m = Some (Inr (m', i_adv (length (concat (map wire (v # vs)))) iarc))"
    using l 1(1) 2(1) by simp
  ultimately show ?case using 2(2) by blast
qed simp

text \<open>C30. A hopscotch map is loaded back from what \<open>save\<close> writes, for serializers of the pairs that keep their
  contract: the loaded map has the keys and values of the saved one, whatever the target held before. The target must
  have an empty spill map or another capacity than the saved map: \<open>load\<close> does not clear the spill map otherwise.\<close>

theorem hopscotch_map_save_load:
  assumes "codec save load wire ok" "mp_ok M" "hm_wf M m" "hm_wf M m0" "\<forall>kv\<in>#hm_entries m. ok kv"
    "container_end m + length (hm_spill m) \<le> 2 ^ 62" "hm_spill m0 = [] \<or> hm_capacity m0 \<noteq> hm_capacity m"
  shows "\<exists>oarc m' iarc'. hm_save save oarchive_new m = Inr oarc \<and>
    hm_load M load (iarchive_new (o_data oarc) (o_off oarc)) m0 = Some (Inr (m', iarc')) \<and> hm_wf M m' \<and> hm_map m' = hm_map m"
proof -
  let ?vs = "visited (hm_container m) (ht_begin (hm_container m)) @ hm_spill m" and ?P = "container_params M"
  let ?oarc = "foldl save (direct_assign (direct_assign oarchive_new (hm_size m)) (hm_capacity m)) ?vs"
  have s: "hm_save save oarchive_new m = Inr ?oarc" by (simp add: hm_save_def hm_visit_all)
  have f: "o_wf ?oarc" "o_data ?oarc = bytes_of (hm_size m) @ bytes_of (hm_capacity m) @ concat (map wire ?vs)"
    using codec.foldl_save[OF assms(1), of "direct_assign (direct_assign oarchive_new (hm_size m)) (hm_capacity m)" ?vs]
    by (simp_all add: archive_simps)
  let ?i = "iarchive_new (o_data ?oarc) (o_off ?oarc)"
  have i: "i_wf ?i" "i_rest ?i = bytes_of (hm_size m) @ (bytes_of (hm_capacity m) @ concat (map wire ?vs))"
    using f length_o_data[OF f(1)] by (metis iarchive_new_wf(1), simp)
  have i1: "i_wf (i_adv 8 ?i)" "i_rest (i_adv 8 ?i) = bytes_of (hm_capacity m) @ concat (map wire ?vs)" using i_adv_wf[OF i] by simp_all
  have i2: "i_wf (i_adv 16 ?i)" "i_rest (i_adv 16 ?i) = concat (map wire ?vs) @ []" using i_adv_wf[OF i1] by simp_all
  have d: "distinct (map fst ?vs)" using assms(3) by (simp only: hm_wf_def hm_entries_list apart_keys)
  have len: "length ?vs \<le> container_end m + length (hm_spill m)" by (simp add: visited_all)
  have "hm_size m = of_nat (length ?vs)" unfolding hm_size_entries[OF assms(3)] hm_entries_list by (simp only: size_mset)
  moreover have "length ?vs < 2 ^ 64" using len assms(6) by simp
  ultimately have n: "unat (hm_size m) = length ?vs" by (simp only: unat_of_nat_u64)
  let ?m = "if hm_capacity m0 \<noteq> hm_capacity m then \<lparr>hm_container = hopscotch_table_new ?P (hm_capacity m), hm_spill = []\<rparr>
     else m0\<lparr>hm_container := ht_clear ?P (hm_container m0)\<rparr>"
  have cap: "unat (hm_capacity m) = container_end m + length (hm_spill m)"
    using assms(6) unat_of_nat_u64[of "container_end m + length (hm_spill m)"] by (simp add: hm_capacity_def)
  have e: "hm_wf M ?m \<and> hm_map ?m = Map.empty"
  proof (cases "hm_capacity m0 \<noteq> hm_capacity m")
    case True
    have "0 < container_end m" using assms(3) by (simp add: hm_wf_def ht_wf_def)
    then have "0 < hm_capacity m" "unat (hm_capacity m) \<le> 2 ^ 63" using cap assms(6) by (auto simp: word_gt_0_no word_less_nat_alt)
    from hm_fresh[OF hopscotch_table_new_law(1,2)[OF this, of ?P]] show ?thesis using True by simp
  next
    case False
    then have "m0\<lparr>hm_container := ht_clear ?P (hm_container m0)\<rparr> = \<lparr>hm_container = ht_clear ?P (hm_container m0), hm_spill = []\<rparr>"
      using assms(7) by (cases m0) simp
    moreover have "ht_wf ?P (ht_clear ?P (hm_container m0))" "ht_entries (ht_clear ?P (hm_container m0)) = {#}"
      using ht_clear_law[of ?P "hm_container m0"] assms(4) by (simp_all add: hm_wf_def)
    ultimately show ?thesis using False hm_fresh[of M "ht_clear ?P (hm_container m0)"] by simp
  qed
  have "list_all ok ?vs" using assms(5) unfolding hm_entries_list by (simp add: list_all_iff)
  then obtain m' where "load_pairs M load (length ?vs) (i_adv 16 ?i) ?m = Some (Inr (m', i_adv (length (concat (map wire ?vs))) (i_adv 16 ?i)))"
    "hm_wf M m'" "hm_map m' = hm_map ?m ++ map_of ?vs"
    using load_pairs_law[OF assms(1,2) _ i2(1) _ i2(2) d, of ?m] e len assms(6) by auto
  moreover have "hm_load M load ?i m0 = load_pairs M load (length ?vs) (i_adv 16 ?i) ?m"
    using read_into_app[OF i] read_into_app[OF i1] n by (simp add: hm_load_def)
  ultimately show ?thesis using s e by (auto simp: hm_map_def)
qed

theorem hopscotch_map_save_load_witness:
  defines "M \<equiv> \<lparr>mp_hash = (\<lambda>k :: u64. 0), mp_perturb = jenkins_mix, mp_key = 0, mp_value = (0 :: u64), mp_order = rev\<rparr>"
  defines "save \<equiv> pair_save (direct_assign :: oarchive \<Rightarrow> u64 \<Rightarrow> oarchive) (direct_assign :: oarchive \<Rightarrow> u64 \<Rightarrow> oarchive)"
    and "load \<equiv> pair_load read_into read_into :: iarchive \<Rightarrow> ((u64 \<times> u64) \<times> iarchive) option"
    and "t \<equiv> hopscotch_table_new (container_params M) 32"
  shows "\<exists>oarc m' iarc'. hm_save save oarchive_new \<lparr>hm_container = t, hm_spill = [(1, 10)]\<rparr> = Inr oarc \<and>
    hm_load M load (iarchive_new (o_data oarc) (o_off oarc)) \<lparr>hm_container = t, hm_spill = []\<rparr> = Some (Inr (m', iarc')) \<and>
    hm_wf M m' \<and> hm_map m' = hm_map \<lparr>hm_container = t, hm_spill = [(1, 10)]\<rparr>"
proof -
  have M: "mp_ok M" by (simp add: M_def mp_ok_def)
  have t: "ht_wf (container_params M) t" "ht_entries t = {#}" "length (ht_data t) < 96"
    using hopscotch_table_new_law[of 32 "container_params M"] by (simp_all add: t_def)
  have "hm_wf M \<lparr>hm_container = t, hm_spill = [(1, 10)]\<rparr>"
    using t apart_keys[of "[(1, 10)]"] by (simp add: hm_wf_def hm_entries_def)
  then show ?thesis
    unfolding save_def load_def
    using hopscotch_map_save_load[OF pair_codec[OF u64_codec.codec_axioms u64_codec.codec_axioms] M _ hm_fresh(1)[OF t(1,2)]] t(3)
    by simp
qed

section \<open>Two operations that do not do what they say\<close>

text \<open>The flag \<open>get\<close> returns is inverted, and it reads through the end iterator for a key that is not there.\<close>

lemma hm_get_law:
  assumes wf: "hm_wf M m"
  shows "hm_get M k m = (case hm_map m k of None \<Rightarrow> Inl Undefined_Behaviour | Some v \<Rightarrow> Inr (False, v))"
proof -
  obtain it where it: "hm_find M k m = Inr it"
    "it_eq it (hm_end m) \<and> hm_map m k = None \<or> (\<exists>v. hm_at m it (k, v) \<and> hm_map m k = Some v)"
    using hm_find_law[OF wf, of k] by blast
  have "it_deref m it = Inl Undefined_Behaviour" if "it_eq it (hm_end m)"
    using that by (auto simp: it_deref_def it_eq_def hm_end_def hm_iter_def)
  then show ?thesis using it hm_at(1,2)[of m it "(k, _)"] by (auto simp: hm_get_def)
qed

text \<open>The assignment leaves the spill map behind: what the other map had spilled is not copied.\<close>

lemma hm_assign_entries: "hm_entries (hm_assign m other) = ht_entries (hm_container other) + mset (hm_spill m)"
  by (simp add: hm_assign_def hm_entries_def)

lemma hm_copy_law: "hm_entries (hm_copy h) = hm_entries h" "hm_wf M (hm_copy h) \<longleftrightarrow> hm_wf M h"
  by (simp_all add: hm_copy_def hm_entries_def hm_wf_def)

end
