(* ===== verification/Space_Saving.thy ===== *)
theory Space_Saving
  imports Hopscotch_Map Complex_Main
begin

text \<open>
  The space saving sketch (\<open>sketches/space_saving.hpp\<close>): entries with a count and an error for a bounded number of
  items, in a binary heap of pointers with the least count at the top, and a hopscotch map from the hash of an item to
  a chain of entries. An entry is allocated with \<open>new\<close>: the store of a sketch maps addresses to entries, the address
  0 is \<open>NULL\<close>, and reading through any other pointer that is not allocated is undefined behaviour.
\<close>

section \<open>Definitions\<close>

record 'a heap_entry =
  he_element :: 'a
  he_count :: u64
  he_error :: u64
  he_heap_position :: nat
  he_next :: nat

record 'a space_saving =
  ss_entries :: "nat \<Rightarrow> 'a heap_entry option"
  ss_fresh :: nat
  ss_heap :: "nat list"
  ss_value_to_heap_element :: "(u64, nat) hopscotch_map"
  ss_max_capacity :: nat
  ss_size :: u64
  ss_epsilon :: real

text \<open>What the sketch is compiled with: \<open>std::hash\<close> of the items, the perturbation of hashes in the table, the order
  of the \<open>unordered_map\<close>, and the rounding of a real number to a \<open>double\<close>.\<close>

record 'a sketch_env =
  se_hash :: "'a \<Rightarrow> u64"
  se_perturb :: "u64 \<Rightarrow> u64"
  se_order :: "(u64 \<times> nat) list \<Rightarrow> (u64 \<times> nat) list"
  se_round :: "real \<Rightarrow> real"

text \<open>\<open>hopscotch_map<uint64_t, heap_entry*, identity_hash>\<close>.\<close>

definition index_params :: "'a sketch_env \<Rightarrow> (u64, nat) map_params" where
  "index_params V = \<lparr>mp_hash = (\<lambda>t. t), mp_perturb = se_perturb V, mp_key = 0, mp_value = 0, mp_order = se_order V\<rparr>"

definition deref :: "(nat \<Rightarrow> 'a heap_entry option) \<Rightarrow> nat \<Rightarrow> error + 'a heap_entry" where
  "deref E p = (case E p of None \<Rightarrow> Inl Undefined_Behaviour | Some e \<Rightarrow> Inr e)"

definition heap_at :: "nat list \<Rightarrow> nat \<Rightarrow> error + nat" where
  "heap_at heap i = (if i < length heap then Inr (heap ! i) else Inl Undefined_Behaviour)"

subsection \<open>The index\<close>

text \<open>The first entry of the chain from \<open>val\<close> on with the element \<open>t\<close>, or \<open>NULL\<close>. The fast path of the code is the
  first round of the loop.\<close>

partial_function (option) chain_find :: "(nat \<Rightarrow> 'a heap_entry option) \<Rightarrow> 'a \<Rightarrow> nat \<Rightarrow> (error + nat) option" where
  "chain_find E t val =
     (if val = 0 then Some (Inr 0)
      else case deref E val of
        Inl e \<Rightarrow> Some (Inl e)
      | Inr e \<Rightarrow> if he_element e = t then Some (Inr val) else chain_find E t (he_next e))"

declare chain_find.simps [code]

definition value_to_heap_element :: "'a sketch_env \<Rightarrow> 'a \<Rightarrow> 'a space_saving \<Rightarrow> (error + nat) option" where
  "value_to_heap_element V t ss =
     (case hm_lookup (index_params V) (se_hash V t) (ss_value_to_heap_element ss) of
        Inl e \<Rightarrow> Some (Inl e)
      | Inr None \<Rightarrow> Some (Inr 0)
      | Inr (Some val) \<Rightarrow> chain_find (ss_entries ss) t val)"

text \<open>The loop that takes the first entry satisfying \<open>is_it\<close> out of a chain.\<close>

partial_function (option) chain_unlink ::
  "'a sketch_env \<Rightarrow> (nat \<Rightarrow> 'a heap_entry \<Rightarrow> bool) \<Rightarrow> u64 \<Rightarrow> nat \<Rightarrow> nat \<Rightarrow> 'a space_saving \<Rightarrow> (error + 'a space_saving) option" where
  "chain_unlink V is_it hashval prev val ss =
     (if val = 0 then Some (Inr ss)
      else case deref (ss_entries ss) val of
        Inl e \<Rightarrow> Some (Inl e)
      | Inr e \<Rightarrow>
          if is_it val e then
            if prev = 0 then
              if he_next e = 0
              then Some (result_bind (hm_erase (index_params V) hashval (ss_value_to_heap_element ss)) (\<lambda>(_, m).
                     Inr (ss\<lparr>ss_value_to_heap_element := m\<rparr>)))
              else run_bind (hm_put (index_params V) hashval (he_next e) (ss_value_to_heap_element ss)) (\<lambda>m.
                     Some (Inr (ss\<lparr>ss_value_to_heap_element := m\<rparr>)))
            else Some (result_bind (deref (ss_entries ss) prev) (\<lambda>pe.
                   Inr (ss\<lparr>ss_entries := (ss_entries ss)(prev \<mapsto> pe\<lparr>he_next := he_next e\<rparr>)\<rparr>)))
          else chain_unlink V is_it hashval val (he_next e) ss)"

declare chain_unlink.simps [code]

definition unlink_hash ::
  "'a sketch_env \<Rightarrow> (nat \<Rightarrow> 'a heap_entry \<Rightarrow> bool) \<Rightarrow> u64 \<Rightarrow> 'a space_saving \<Rightarrow> (error + 'a space_saving) option" where
  "unlink_hash V is_it hashval ss =
     (case hm_lookup (index_params V) hashval (ss_value_to_heap_element ss) of
        Inl e \<Rightarrow> Some (Inl e)
      | Inr None \<Rightarrow> Some (Inr ss)
      | Inr (Some val) \<Rightarrow> chain_unlink V is_it hashval 0 val ss)"

text \<open>The two overloads of \<open>value_to_heap_element_erase\<close>, for an item and for an entry.\<close>

definition value_erase :: "'a sketch_env \<Rightarrow> 'a \<Rightarrow> 'a space_saving \<Rightarrow> (error + 'a space_saving) option" where
  "value_erase V t ss = unlink_hash V (\<lambda>_ e. he_element e = t) (se_hash V t) ss"

definition entry_erase :: "'a sketch_env \<Rightarrow> nat \<Rightarrow> 'a space_saving \<Rightarrow> (error + 'a space_saving) option" where
  "entry_erase V p ss = run_bind (Some (deref (ss_entries ss) p)) (\<lambda>e.
     unlink_hash V (\<lambda>q _. q = p) (se_hash V (he_element e)) ss)"

definition value_to_heap_element_insert :: "'a sketch_env \<Rightarrow> nat \<Rightarrow> 'a space_saving \<Rightarrow> (error + 'a space_saving) option" where
  "value_to_heap_element_insert V p ss = run_bind (Some (deref (ss_entries ss) p)) (\<lambda>e.
     let hashval = se_hash V (he_element e)
     in run_bind (Some (hm_lookup (index_params V) hashval (ss_value_to_heap_element ss))) (\<lambda>r.
        let ss = ss\<lparr>ss_entries := (ss_entries ss)(p \<mapsto> e\<lparr>he_next := (case r of None \<Rightarrow> 0 | Some q \<Rightarrow> q)\<rparr>)\<rparr>
        in run_bind (hm_put (index_params V) hashval p (ss_value_to_heap_element ss)) (\<lambda>m.
             Some (Inr (ss\<lparr>ss_value_to_heap_element := m\<rparr>)))))"

subsection \<open>The heap\<close>

text \<open>\<open>m_heap[i] = p\<close> together with \<open>p->heap_position = i\<close>.\<close>

definition put_heap :: "nat \<Rightarrow> nat \<Rightarrow> 'a heap_entry \<Rightarrow> 'a space_saving \<Rightarrow> 'a space_saving" where
  "put_heap i p e ss = ss\<lparr>ss_heap := (ss_heap ss)[i := p], ss_entries := (ss_entries ss)(p \<mapsto> e\<lparr>he_heap_position := i\<rparr>)\<rparr>"

text \<open>The loops of the two functions return the position \<open>cur\<close> goes to.\<close>

function bubble_up_loop :: "u64 \<Rightarrow> nat \<Rightarrow> 'a space_saving \<Rightarrow> error + nat \<times> 'a space_saving" where
  "bubble_up_loop cur_count idx ss =
     (if idx > 1 then
        let compareidx = idx div 2
        in result_bind (heap_at (ss_heap ss) compareidx) (\<lambda>parent.
           result_bind (deref (ss_entries ss) parent) (\<lambda>pe.
           if cur_count < he_count pe then bubble_up_loop cur_count compareidx (put_heap idx parent pe ss)
           else Inr (idx, ss)))
      else Inr (idx, ss))"
  by pat_completeness auto
termination
  by (relation "measure (\<lambda>(_, idx, _). idx)") auto

declare bubble_up_loop.simps [simp del]

definition heap_bubble_up :: "nat \<Rightarrow> 'a space_saving \<Rightarrow> error + 'a space_saving" where
  "heap_bubble_up idx ss =
     result_bind (heap_at (ss_heap ss) idx) (\<lambda>cur.
     result_bind (deref (ss_entries ss) cur) (\<lambda>e.
     result_bind (bubble_up_loop (he_count e) idx ss) (\<lambda>(idx, ss).
     result_bind (deref (ss_entries ss) cur) (\<lambda>e. Inr (put_heap idx cur e ss)))))"

text \<open>The child with the smaller count, and its entry.\<close>

definition smaller_child :: "'a space_saving \<Rightarrow> nat \<Rightarrow> error + nat \<times> 'a heap_entry" where
  "smaller_child ss idx =
     (let left_child_idx = idx * 2; right_child_idx = idx * 2 + 1
      in result_bind (heap_at (ss_heap ss) left_child_idx) (\<lambda>l.
         result_bind (deref (ss_entries ss) l) (\<lambda>le.
         if right_child_idx < length (ss_heap ss)
         then result_bind (deref (ss_entries ss) (ss_heap ss ! right_child_idx)) (\<lambda>re.
                if he_count le > he_count re then Inr (right_child_idx, re) else Inr (left_child_idx, le))
         else Inr (left_child_idx, le))))"

lemma smaller_child_idx: "smaller_child ss idx = Inr (c, ce) \<Longrightarrow> (c = idx * 2 \<or> c = idx * 2 + 1) \<and> c < length (ss_heap ss)"
  by (auto simp: smaller_child_def Let_def heap_at_def deref_def split: if_splits option.splits)

lemma result_bind_cong [fundef_cong]:
  "r = r' \<Longrightarrow> (\<And>x. r' = Inr x \<Longrightarrow> f x = g x) \<Longrightarrow> result_bind r f = result_bind r' g"
  by (cases r') auto

text \<open>The slot 0 of the heap is \<open>NULL\<close>: reading its count is undefined behaviour.\<close>

function bubble_down_loop :: "u64 \<Rightarrow> nat \<Rightarrow> 'a space_saving \<Rightarrow> error + nat \<times> 'a space_saving" where
  "bubble_down_loop cur_count idx ss =
     (if idx = 0 then Inl Undefined_Behaviour
      else if idx * 2 < length (ss_heap ss) then
        result_bind (smaller_child ss idx) (\<lambda>(child_idx, ce).
        if cur_count > he_count ce
        then bubble_down_loop cur_count child_idx (put_heap idx (ss_heap ss ! child_idx) ce ss)
        else Inr (idx, ss))
      else Inr (idx, ss))"
  by pat_completeness auto
termination
  by (relation "measure (\<lambda>(_, idx, ss). length (ss_heap ss) - idx)") (auto simp: put_heap_def dest!: smaller_child_idx)

declare bubble_down_loop.simps [simp del]

definition heap_bubble_down :: "nat \<Rightarrow> 'a space_saving \<Rightarrow> error + 'a space_saving" where
  "heap_bubble_down idx ss =
     result_bind (heap_at (ss_heap ss) idx) (\<lambda>cur.
     result_bind (deref (ss_entries ss) cur) (\<lambda>e.
     result_bind (bubble_down_loop (he_count e) idx ss) (\<lambda>(idx, ss).
     result_bind (deref (ss_entries ss) cur) (\<lambda>e. Inr (put_heap idx cur e ss)))))"

subsection \<open>The sketch\<close>

text \<open>\<open>m_heap.resize(1, NULL)\<close> keeps the first slot, if there is one. The capacity is computed in \<open>double\<close> and converted,
  which is undefined for a value that is not a \<open>size_t\<close>.\<close>

definition ss_capacity :: "'a sketch_env \<Rightarrow> real \<Rightarrow> real" where
  "ss_capacity V epsilon = se_round V (of_int \<lceil>se_round V (1 / epsilon)\<rceil> + 1)"

definition initialize :: "'a sketch_env \<Rightarrow> real \<Rightarrow> 'a space_saving \<Rightarrow> (error + 'a space_saving) option" where
  "initialize V epsilon ss =
     (if epsilon = 0 \<or> \<not> (0 \<le> ss_capacity V epsilon \<and> ss_capacity V epsilon < 2 ^ 64) then Some (Inl Undefined_Behaviour)
      else let ss = ss\<lparr>ss_entries := (\<lambda>p. if p \<in> set (ss_heap ss) then None else ss_entries ss p),
                      ss_value_to_heap_element := hm_clear (index_params V) (ss_value_to_heap_element ss),
                      ss_max_capacity := nat \<lfloor>ss_capacity V epsilon\<rfloor>,
                      ss_heap := (case ss_heap ss of [] \<Rightarrow> [0] | p # _ \<Rightarrow> [p])\<rparr>
           in run_bind (hm_rehash (index_params V) (of_nat (ss_max_capacity ss) * 2) (ss_value_to_heap_element ss)) (\<lambda>m.
                Some (Inr (ss\<lparr>ss_value_to_heap_element := m, ss_epsilon := epsilon, ss_size := 0\<rparr>))))"

text \<open>The constructor: the members have their initial values, then \<open>initialize\<close> is called.\<close>

definition space_saving_new :: "'a sketch_env \<Rightarrow> real \<Rightarrow> (error + 'a space_saving) option" where
  "space_saving_new V epsilon =
     initialize V epsilon \<lparr>ss_entries = Map.empty, ss_fresh = 1, ss_heap = [],
       ss_value_to_heap_element = hopscotch_map_new (index_params V), ss_max_capacity = 0, ss_size = 0, ss_epsilon = epsilon\<rparr>"

text \<open>The value is in the heap: its counts go up.\<close>

definition add_found :: "nat \<Rightarrow> u64 \<Rightarrow> u64 \<Rightarrow> 'a space_saving \<Rightarrow> error + 'a space_saving" where
  "add_found p cnt err ss =
     result_bind (deref (ss_entries ss) p) (\<lambda>e.
     let e = e\<lparr>he_count := he_count e + cnt, he_error := he_error e + err\<rparr>
     in heap_bubble_down (he_heap_position e) (ss\<lparr>ss_entries := (ss_entries ss)(p \<mapsto> e)\<rparr>))"

text \<open>The sketch is not full: a new entry.\<close>

definition add_new :: "'a sketch_env \<Rightarrow> 'a \<Rightarrow> u64 \<Rightarrow> u64 \<Rightarrow> 'a space_saving \<Rightarrow> (error + 'a space_saving) option" where
  "add_new V t cnt err ss =
     (let p = ss_fresh ss;
          e = \<lparr>he_element = t, he_count = cnt, he_error = err, he_heap_position = length (ss_heap ss), he_next = 0\<rparr>;
          ss = ss\<lparr>ss_fresh := p + 1, ss_entries := (ss_entries ss)(p \<mapsto> e), ss_heap := ss_heap ss @ [p]\<rparr>
      in run_bind (value_to_heap_element_insert V p ss) (\<lambda>ss. Some (heap_bubble_up (he_heap_position e) ss)))"

text \<open>The sketch is full: the entry with the smallest count is renamed.\<close>

definition add_replace :: "'a sketch_env \<Rightarrow> 'a \<Rightarrow> u64 \<Rightarrow> u64 \<Rightarrow> 'a space_saving \<Rightarrow> (error + 'a space_saving) option" where
  "add_replace V t cnt err ss =
     run_bind (Some (heap_at (ss_heap ss) 1)) (\<lambda>p.
     run_bind (entry_erase V p ss) (\<lambda>ss.
     run_bind (Some (deref (ss_entries ss) p)) (\<lambda>e.
     let e = e\<lparr>he_element := t, he_error := he_count e + err, he_count := he_count e + cnt\<rparr>
     in run_bind (value_to_heap_element_insert V p (ss\<lparr>ss_entries := (ss_entries ss)(p \<mapsto> e)\<rparr>)) (\<lambda>ss.
        Some (heap_bubble_down 1 ss)))))"

definition add_impl :: "'a sketch_env \<Rightarrow> 'a \<Rightarrow> u64 \<Rightarrow> u64 \<Rightarrow> 'a space_saving \<Rightarrow> (error + 'a space_saving) option" where
  "add_impl V t cnt err ss =
     run_bind (value_to_heap_element V t ss) (\<lambda>found_elem.
     run_bind
       (if found_elem \<noteq> 0 then Some (add_found found_elem cnt err ss)
        else if length (ss_heap ss) \<le> ss_max_capacity ss then add_new V t cnt err ss
        else add_replace V t cnt err ss) (\<lambda>ss.
     Some (Inr (ss\<lparr>ss_size := ss_size ss + cnt\<rparr>))))"

definition ss_add :: "'a sketch_env \<Rightarrow> 'a \<Rightarrow> u64 \<Rightarrow> 'a space_saving \<Rightarrow> (error + 'a space_saving) option" where
  "ss_add V t cnt = add_impl V t cnt 0"

definition delete_heap_top :: "'a sketch_env \<Rightarrow> 'a space_saving \<Rightarrow> (error + 'a space_saving) option" where
  "delete_heap_top V ss =
     (let n = length (ss_heap ss)
      in if n > 2 then
           let element_to_delete = ss_heap ss ! 1; p = ss_heap ss ! (n - 1);
               ss = ss\<lparr>ss_heap := (ss_heap ss)[n - 1 := element_to_delete, 1 := p]\<rparr>
           in run_bind (Some (deref (ss_entries ss) p)) (\<lambda>e.
              run_bind (entry_erase V element_to_delete
                (ss\<lparr>ss_entries := (ss_entries ss)(p \<mapsto> e\<lparr>he_heap_position := 1\<rparr>)\<rparr>)) (\<lambda>ss.
              Some (heap_bubble_down 1
                (ss\<lparr>ss_heap := butlast (ss_heap ss), ss_entries := (ss_entries ss)(element_to_delete := None)\<rparr>))))
         else if n = 2 then
           Some (Inr (ss\<lparr>ss_entries := (ss_entries ss)(ss_heap ss ! 1 := None), ss_heap := butlast (ss_heap ss),
             ss_value_to_heap_element := hm_clear (index_params V) (ss_value_to_heap_element ss)\<rparr>))
         else Some (Inr ss))"

fun add_entries :: "'a sketch_env \<Rightarrow> (nat \<Rightarrow> 'a heap_entry option) \<Rightarrow> nat list \<Rightarrow> 'a space_saving \<Rightarrow> (error + 'a space_saving) option" where
  "add_entries V E [] ss = Some (Inr ss)"
| "add_entries V E (p # ps) ss =
     (if p = 0 then add_entries V E ps ss
      else run_bind (Some (deref E p)) (\<lambda>e.
           run_bind (add_impl V (he_element e) (he_count e) (he_error e) ss) (add_entries V E ps)))"

fun delete_tops :: "'a sketch_env \<Rightarrow> nat \<Rightarrow> 'a space_saving \<Rightarrow> (error + 'a space_saving) option" where
  "delete_tops V 0 ss = Some (Inr ss)"
| "delete_tops V (Suc n) ss = run_bind (delete_heap_top V ss) (delete_tops V n)"

text \<open>\<open>other\<close> is another object than the sketch itself.\<close>

definition ss_combine :: "'a sketch_env \<Rightarrow> 'a space_saving \<Rightarrow> 'a space_saving \<Rightarrow> (error + 'a space_saving) option" where
  "ss_combine V other ss =
     run_bind (add_entries V (ss_entries other) (ss_heap other) (ss\<lparr>ss_max_capacity := ss_max_capacity ss + ss_max_capacity other\<rparr>)) (\<lambda>ss.
     let ss = ss\<lparr>ss_max_capacity := ss_max_capacity ss - ss_max_capacity other\<rparr>
     in if length (ss_heap ss) \<le> ss_max_capacity ss + 1 then Some (Inr ss)
        else delete_tops V (length (ss_heap ss) - ss_max_capacity ss) ss)"

text \<open>\<open>m_epsilon * m_size\<close> and the comparisons with it are in \<open>double\<close>.\<close>

definition ss_threshold :: "'a sketch_env \<Rightarrow> 'a space_saving \<Rightarrow> real" where
  "ss_threshold V ss = se_round V (ss_epsilon ss * se_round V (real (unat (ss_size ss))))"

fun collect_items :: "('a heap_entry \<Rightarrow> bool) \<Rightarrow> (nat \<Rightarrow> 'a heap_entry option) \<Rightarrow> nat list \<Rightarrow> error + ('a \<times> u64) list" where
  "collect_items P E [] = Inr []"
| "collect_items P E (p # ps) =
     (if p = 0 then collect_items P E ps
      else result_bind (deref E p) (\<lambda>e.
           result_bind (collect_items P E ps) (\<lambda>ret.
           Inr (if P e then (he_element e, he_count e) # ret else ret))))"

definition frequent_items :: "'a sketch_env \<Rightarrow> 'a space_saving \<Rightarrow> error + ('a \<times> u64) list" where
  "frequent_items V ss =
     collect_items (\<lambda>e. se_round V (real (unat (he_count e))) \<ge> ss_threshold V ss) (ss_entries ss) (ss_heap ss)"

definition guaranteed_frequent_items :: "'a sketch_env \<Rightarrow> 'a space_saving \<Rightarrow> error + ('a \<times> u64) list" where
  "guaranteed_frequent_items V ss =
     collect_items (\<lambda>e. se_round V (real (unat (he_count e - he_error e))) \<ge> ss_threshold V ss) (ss_entries ss) (ss_heap ss)"

section \<open>The index\<close>

text \<open>\<open>as\<close> are the entries of the chain that starts at \<open>p\<close>.\<close>

fun chain :: "(nat \<Rightarrow> 'a heap_entry option) \<Rightarrow> nat \<Rightarrow> nat list \<Rightarrow> bool" where
  "chain E p [] \<longleftrightarrow> p = 0"
| "chain E p (a # as) \<longleftrightarrow> p = a \<and> a \<noteq> 0 \<and> (\<exists>e. E a = Some e \<and> chain E (he_next e) as)"

definition bucket :: "'a sketch_env \<Rightarrow> (nat \<Rightarrow> 'a heap_entry option) \<Rightarrow> nat set \<Rightarrow> u64 \<Rightarrow> nat set" where
  "bucket V E A h = {a \<in> A. \<exists>e. E a = Some e \<and> se_hash V (he_element e) = h}"

text \<open>The map holds, for every hash, a chain of the entries among \<open>A\<close> whose element has that hash.\<close>

definition index_ok :: "'a sketch_env \<Rightarrow> (nat \<Rightarrow> 'a heap_entry option) \<Rightarrow> nat set \<Rightarrow> (u64, nat) hopscotch_map \<Rightarrow> bool" where
  "index_ok V E A m \<longleftrightarrow> hm_wf (index_params V) m \<and> finite A \<and> (\<forall>a\<in>A. a \<noteq> 0 \<and> E a \<noteq> None) \<and>
     (\<forall>h. \<exists>as. distinct as \<and> set as = bucket V E A h \<and> chain E (case hm_map m h of None \<Rightarrow> 0 | Some p \<Rightarrow> p) as \<and>
        (hm_map m h \<noteq> None \<longrightarrow> as \<noteq> []))"

definition env_ok :: "'a sketch_env \<Rightarrow> bool" where
  "env_ok V \<longleftrightarrow> (\<forall>xs. mset (se_order V xs) = mset xs)"

lemma mp_ok_index: "env_ok V \<Longrightarrow> mp_ok (index_params V)"
  by (simp add: env_ok_def mp_ok_def index_params_def)

lemma chain_cong:
  "chain E p as \<Longrightarrow> (\<And>a. a \<in> set as \<Longrightarrow> map_option he_next (E' a) = map_option he_next (E a)) \<Longrightarrow> chain E' p as"
proof (induction as arbitrary: p)
  case (Cons a as)
  then obtain e where e: "E a = Some e" "chain E (he_next e) as" "p = a" "a \<noteq> 0" by auto
  then obtain e' where "E' a = Some e'" "he_next e' = he_next e" using Cons.prems(2)[of a] by (auto simp: map_option_eq_Some)
  then show ?case using Cons e by auto
qed simp

lemma chain_zero: "chain E p as \<Longrightarrow> p = 0 \<longleftrightarrow> as = []"
  by (cases as) auto

lemma chain_alloc: "chain E p as \<Longrightarrow> a \<in> set as \<Longrightarrow> a \<noteq> 0 \<and> (\<exists>e. E a = Some e)"
  by (induction as arbitrary: p) auto

lemma index_ok_cong:
  assumes "index_ok V E A m" "\<And>a. a \<in> A \<Longrightarrow> map_option (\<lambda>e. (he_element e, he_next e)) (E' a) = map_option (\<lambda>e. (he_element e, he_next e)) (E a)"
  shows "index_ok V E' A m"
proof -
  have n: "map_option he_next (E' a) = map_option he_next (E a)" if "a \<in> A" for a
    using assms(2)[OF that] by (cases "E' a"; cases "E a") auto
  have b: "bucket V E' A h = bucket V E A h" for h
  proof -
    have "(\<exists>e. E' a = Some e \<and> se_hash V (he_element e) = h) \<longleftrightarrow> (\<exists>e. E a = Some e \<and> se_hash V (he_element e) = h)" if "a \<in> A" for a
      using assms(2)[OF that] by (cases "E' a"; cases "E a") auto
    then show ?thesis by (auto simp: bucket_def)
  qed
  have c: "chain E' p as" if "chain E p as" "set as = bucket V E A h" for p as h
    using that n by (intro chain_cong[OF that(1)]) (auto simp: bucket_def)
  have "E' a \<noteq> None" if "a \<in> A" for a
    using n[OF that] that assms(1) unfolding index_ok_def by (metis option.map_disc_iff)
  moreover have "\<exists>as. distinct as \<and> set as = bucket V E' A h \<and> chain E' (case hm_map m h of None \<Rightarrow> 0 | Some p \<Rightarrow> p) as \<and>
      (hm_map m h \<noteq> None \<longrightarrow> as \<noteq> [])" for h
  proof -
    obtain as where "distinct as" "set as = bucket V E A h" "chain E (case hm_map m h of None \<Rightarrow> 0 | Some p \<Rightarrow> p) as"
      "hm_map m h \<noteq> None \<longrightarrow> as \<noteq> []" using assms(1) unfolding index_ok_def by blast
    then show ?thesis using c unfolding b by blast
  qed
  ultimately show ?thesis using assms(1) by (simp add: index_ok_def)
qed

lemma index_room:
  assumes "index_ok V E A m"
  shows "card (dom (hm_map m)) \<le> card A"
proof -
  have "dom (hm_map m) \<subseteq> (\<lambda>a. se_hash V (he_element (the (E a)))) ` A"
  proof
    fix h assume "h \<in> dom (hm_map m)"
    then obtain as where "as \<noteq> []" "set as = bucket V E A h" using assms unfolding index_ok_def by blast
    then obtain a where "a \<in> bucket V E A h" by (metis list.set_intros(1) neq_Nil_conv)
    then show "h \<in> (\<lambda>a. se_hash V (he_element (the (E a)))) ` A" by (intro image_eqI[of _ _ a]) (auto simp: bucket_def)
  qed
  moreover have "finite A" using assms by (simp add: index_ok_def)
  ultimately show ?thesis by (meson card_image_le card_mono finite_imageI order_trans)
qed

subsection \<open>Searching\<close>

lemma chain_find_law:
  "chain E p as \<Longrightarrow> \<exists>q. chain_find E t p = Some (Inr q) \<and>
     (q = 0 \<and> (\<forall>a\<in>set as. \<forall>e. E a = Some e \<longrightarrow> he_element e \<noteq> t) \<or>
      q \<noteq> 0 \<and> q \<in> set as \<and> (\<exists>e. E q = Some e \<and> he_element e = t))"
proof (induction as arbitrary: p)
  case (Cons a as)
  then obtain e where e: "E a = Some e" "chain E (he_next e) as" "p = a" "a \<noteq> 0" by auto
  show ?case
  proof (cases "he_element e = t")
    case True
    then show ?thesis using e by (subst chain_find.simps) (auto simp: deref_def)
  next
    case False
    then have "chain_find E t p = chain_find E t (he_next e)" using e by (subst chain_find.simps) (simp add: deref_def)
    then show ?thesis using Cons.IH[OF e(2)] e False by auto
  qed
qed (simp add: chain_find.simps)

lemma value_to_heap_element_law:
  assumes "index_ok V (ss_entries ss) A (ss_value_to_heap_element ss)"
  shows "\<exists>q. value_to_heap_element V t ss = Some (Inr q) \<and>
    (q = 0 \<and> (\<forall>a\<in>A. \<forall>e. ss_entries ss a = Some e \<longrightarrow> he_element e \<noteq> t) \<or>
     q \<noteq> 0 \<and> q \<in> A \<and> (\<exists>e. ss_entries ss q = Some e \<and> he_element e = t))"
proof -
  let ?E = "ss_entries ss" and ?m = "ss_value_to_heap_element ss" and ?h = "se_hash V t"
  obtain as where as: "set as = bucket V ?E A ?h" "chain ?E (case hm_map ?m ?h of None \<Rightarrow> 0 | Some p \<Rightarrow> p) as"
    using assms unfolding index_ok_def by blast
  have l: "hm_lookup (index_params V) ?h ?m = Inr (hm_map ?m ?h)" using assms by (simp add: index_ok_def hm_lookup_law)
  have no: "\<forall>a\<in>A. \<forall>e. ?E a = Some e \<longrightarrow> he_element e \<noteq> t" if "\<forall>a\<in>set as. \<forall>e. ?E a = Some e \<longrightarrow> he_element e \<noteq> t"
    using that as(1) by (auto simp: bucket_def)
  show ?thesis
  proof (cases "hm_map ?m ?h")
    case None
    then have "as = []" using as(2) chain_zero by auto
    then show ?thesis using no None l by (auto simp: value_to_heap_element_def)
  next
    case (Some p)
    then have v: "value_to_heap_element V t ss = chain_find ?E t p" using l by (simp add: value_to_heap_element_def)
    have "set as \<subseteq> A" using as(1) by (auto simp: bucket_def)
    then show ?thesis unfolding v using chain_find_law[of ?E p as t] as(2) Some no by auto
  qed
qed

subsection \<open>Removal\<close>

text \<open>Only the \<open>next\<close> pointers of the entries in \<open>S\<close> have changed.\<close>

definition next_only :: "nat set \<Rightarrow> (nat \<Rightarrow> 'a heap_entry option) \<Rightarrow> (nat \<Rightarrow> 'a heap_entry option) \<Rightarrow> bool" where
  "next_only S E E' \<longleftrightarrow> (\<forall>a. (a \<notin> S \<longrightarrow> E' a = E a) \<and>
     map_option (\<lambda>e. e\<lparr>he_next := 0\<rparr>) (E' a) = map_option (\<lambda>e. e\<lparr>he_next := 0\<rparr>) (E a))"

lemma next_only_refl [simp]: "next_only S E E"
  by (simp add: next_only_def)

lemma next_only_mono: "next_only S E E' \<Longrightarrow> S \<subseteq> T \<Longrightarrow> next_only T E E'"
  by (auto simp: next_only_def)

lemma next_only_upd: "E a = Some e \<Longrightarrow> a \<in> S \<Longrightarrow> next_only S E (E(a \<mapsto> e\<lparr>he_next := n\<rparr>))"
  by (auto simp: next_only_def)

lemma next_onlyD:
  assumes "next_only S E E'"
  shows "a \<notin> S \<Longrightarrow> E' a = E a" "E a = Some e \<Longrightarrow> \<exists>n. E' a = Some (e\<lparr>he_next := n\<rparr>)" "E a = None \<Longrightarrow> E' a = None"
    "bucket V E' A h = bucket V E A h"
proof -
  show 1: "a \<notin> S \<Longrightarrow> E' a = E a" for a using assms by (simp add: next_only_def)
  have m: "map_option (\<lambda>e. e\<lparr>he_next := 0\<rparr>) (E' a) = map_option (\<lambda>e. e\<lparr>he_next := 0\<rparr>) (E a)" for a
    using assms by (simp add: next_only_def)
  show 2: "\<exists>n. E' a = Some (e\<lparr>he_next := n\<rparr>)" if s: "E a = Some e" for a e
  proof -
    obtain e' where e': "E' a = Some e'" "e'\<lparr>he_next := 0\<rparr> = e\<lparr>he_next := 0\<rparr>" using m[of a] s by (cases "E' a") auto
    then have "e' = e\<lparr>he_next := he_next e'\<rparr>" by (cases e; cases e') simp
    then show ?thesis using e'(1) by metis
  qed
  show 3: "E' a = None" if "E a = None" for a using m[of a] that by simp
  have "(\<exists>e. E' a = Some e \<and> se_hash V (he_element e) = h) \<longleftrightarrow> (\<exists>e. E a = Some e \<and> se_hash V (he_element e) = h)" for a
    using 2[of a] 3[of a] by (cases "E a") auto
  then show "bucket V E' A h = bucket V E A h" by (simp add: bucket_def)
qed

lemma unlink_inner:
  assumes "chain (ss_entries ss) prev (prev # as)" "a \<in> set as" "distinct (prev # as)" "ss_entries ss prev = Some pe" "he_next pe = val"
  shows "\<exists>E'. chain_unlink V (\<lambda>q _. q = a) h prev val ss = Some (Inr (ss\<lparr>ss_entries := E'\<rparr>)) \<and>
    chain E' prev (prev # remove1 a as) \<and> next_only (set (prev # as)) (ss_entries ss) E'"
  using assms
proof (induction as arbitrary: prev pe val)
  case (Cons x xs)
  let ?E = "ss_entries ss"
  have p: "prev \<noteq> 0" "val = x" "x \<noteq> 0" using Cons.prems by auto
  obtain e where e: "?E x = Some e" "chain ?E (he_next e) xs" using Cons.prems by auto
  show ?case
  proof (cases "x = a")
    case True
    let ?E' = "?E(prev \<mapsto> pe\<lparr>he_next := he_next e\<rparr>)"
    have "chain ?E' (he_next e) xs" using e(2) Cons.prems(3) by (elim chain_cong) auto
    then have "chain ?E' prev (prev # remove1 a (x # xs))" using True p(1) by simp
    moreover have "chain_unlink V (\<lambda>q _. q = a) h prev val ss = Some (Inr (ss\<lparr>ss_entries := ?E'\<rparr>))"
      using True p e(1) Cons.prems(4) by (subst chain_unlink.simps) (simp add: deref_def)
    moreover have "next_only (set (prev # x # xs)) ?E ?E'" using Cons.prems(4) by (intro next_only_upd) simp_all
    ultimately show ?thesis by blast
  next
    case False
    then have u: "chain_unlink V (\<lambda>q _. q = a) h prev val ss = chain_unlink V (\<lambda>q _. q = a) h x (he_next e) ss"
      using p e by (subst chain_unlink.simps) (simp add: deref_def)
    obtain E' where E': "chain_unlink V (\<lambda>q _. q = a) h x (he_next e) ss = Some (Inr (ss\<lparr>ss_entries := E'\<rparr>))"
      "chain E' x (x # remove1 a xs)" "next_only (set (x # xs)) ?E E'"
      using Cons.IH[of x e "he_next e"] Cons.prems False e p by auto
    have "E' prev = Some pe" using next_onlyD(1)[OF E'(3)] Cons.prems by simp
    then have "chain E' prev (prev # remove1 a (x # xs))" using E'(2) p False Cons.prems(5) by simp
    moreover have "next_only (set (prev # x # xs)) ?E E'" using E'(3) by (rule next_only_mono) auto
    ultimately show ?thesis using u E'(1) by auto
  qed
qed simp

lemma entry_erase_law:
  assumes V: "env_ok V" and ix: "index_ok V (ss_entries ss) A (ss_value_to_heap_element ss)" and a: "a \<in> A" and room: "card A < 2 ^ 62"
  shows "\<exists>E' m'. entry_erase V a ss = Some (Inr (ss\<lparr>ss_entries := E', ss_value_to_heap_element := m'\<rparr>)) \<and>
    index_ok V E' (A - {a}) m' \<and> next_only A (ss_entries ss) E'"
proof -
  let ?E = "ss_entries ss" and ?m = "ss_value_to_heap_element ss" and ?M = "index_params V"
  obtain e where e: "?E a = Some e" using ix a by (auto simp: index_ok_def)
  let ?h = "se_hash V (he_element e)"
  have wf: "hm_wf ?M ?m" "mp_ok ?M" using ix mp_ok_index[OF V] by (simp_all add: index_ok_def)
  have size: "size (hm_entries ?m) < 2 ^ 62" using hm_entries_card[OF wf(1)] index_room[OF ix] room by simp
  obtain as where as: "distinct as" "set as = bucket V ?E A ?h" "chain ?E (case hm_map ?m ?h of None \<Rightarrow> 0 | Some p \<Rightarrow> p) as"
    using ix unfolding index_ok_def by blast
  have mem: "a \<in> set as" using e a by (auto simp: as(2) bucket_def)
  then obtain p where p: "hm_map ?m ?h = Some p" "chain ?E p as" using as(3) chain_zero[OF as(3)] by (cases "hm_map ?m ?h") auto
  have er: "entry_erase V a ss = chain_unlink V (\<lambda>q _. q = a) ?h 0 p ss"
    using e p hm_lookup_law[OF wf(1)] by (simp add: entry_erase_def deref_def unlink_hash_def)
  have main: "index_ok V E' (A - {a}) m'" if m': "hm_wf ?M m'" "\<And>k. k \<noteq> ?h \<Longrightarrow> hm_map m' k = hm_map ?m k"
      "chain E' (case hm_map m' ?h of None \<Rightarrow> 0 | Some p \<Rightarrow> p) (remove1 a as)" "hm_map m' ?h \<noteq> None \<longrightarrow> remove1 a as \<noteq> []"
      "next_only (set as) ?E E'" for m' E'
  proof -
    have "\<exists>bs. distinct bs \<and> set bs = bucket V E' (A - {a}) k \<and> chain E' (case hm_map m' k of None \<Rightarrow> 0 | Some p \<Rightarrow> p) bs \<and>
      (hm_map m' k \<noteq> None \<longrightarrow> bs \<noteq> [])" for k
    proof (cases "k = ?h")
      case True
      have "bucket V E' (A - {a}) ?h = bucket V ?E A ?h - {a}" unfolding next_onlyD(4)[OF m'(5)] by (auto simp: bucket_def)
      then show ?thesis using True m'(3,4) as(1,2) by (intro exI[of _ "remove1 a as"]) auto
    next
      case False
      obtain bs where bs: "distinct bs" "set bs = bucket V ?E A k" "chain ?E (case hm_map ?m k of None \<Rightarrow> 0 | Some p \<Rightarrow> p) bs"
        "hm_map ?m k \<noteq> None \<longrightarrow> bs \<noteq> []" using ix unfolding index_ok_def by blast
      have "b \<notin> set as" if "b \<in> set bs" for b using that False as(2) bs(2) by (auto simp: bucket_def)
      then have nx: "E' b = ?E b" if "b \<in> set bs" for b using next_onlyD(1)[OF m'(5)] that by blast
      have "chain E' (case hm_map ?m k of None \<Rightarrow> 0 | Some p \<Rightarrow> p) bs" by (rule chain_cong[OF bs(3)]) (simp add: nx)
      then have "chain E' (case hm_map m' k of None \<Rightarrow> 0 | Some p \<Rightarrow> p) bs" unfolding m'(2)[OF False] .
      moreover have "bucket V E' (A - {a}) k = bucket V ?E A k" unfolding next_onlyD(4)[OF m'(5)] using False e by (auto simp: bucket_def)
      ultimately show ?thesis using bs m'(2)[OF False] by (intro exI[of _ bs]) auto
    qed
    moreover have "E' b \<noteq> None" if b: "b \<in> A" for b
    proof -
      obtain eb where "?E b = Some eb" using ix b by (auto simp: index_ok_def)
      then show ?thesis using next_onlyD(2)[OF m'(5), of b eb] by auto
    qed
    ultimately show ?thesis using ix m'(1) by (simp add: index_ok_def)
  qed
  obtain x xs where x: "as = x # xs" using mem by (cases as) auto
  then obtain ex where ex: "p = x" "x \<noteq> 0" "?E x = Some ex" "chain ?E (he_next ex) xs" using p(2) by auto
  show ?thesis
  proof (cases "x = a")
    case True
    then have r: "remove1 a as = xs" "ex = e" using x ex(3) e by auto
    show ?thesis
    proof (cases "he_next e = 0")
      case z: True
      obtain m' where m': "hm_erase ?M ?h ?m = Inr (True, m')" "hm_wf ?M m'" "hm_map m' = (hm_map ?m)(?h := None)"
        using hm_erase_law[OF wf(1), of ?h] p(1) by auto
      have "index_ok V ?E (A - {a}) m'" using m' r ex(4) z by (intro main) auto
      moreover have "entry_erase V a ss = Some (Inr (ss\<lparr>ss_entries := ?E, ss_value_to_heap_element := m'\<rparr>))"
        unfolding er using True ex z r(2) m'(1) by (subst chain_unlink.simps) (simp add: deref_def)
      ultimately show ?thesis using next_only_refl by blast
    next
      case z: False
      obtain m' where m': "hm_put ?M ?h (he_next e) ?m = Some (Inr m')" "hm_wf ?M m'" "hm_map m' = (hm_map ?m)(?h \<mapsto> he_next e)"
        using hm_put_law[OF wf(2,1) size, of ?h "he_next e"] by auto
      have "index_ok V ?E (A - {a}) m'" using m' r ex(4) z chain_zero[OF ex(4)] by (intro main) auto
      moreover have "entry_erase V a ss = Some (Inr (ss\<lparr>ss_entries := ?E, ss_value_to_heap_element := m'\<rparr>))"
        unfolding er using True ex z r(2) m'(1) by (subst chain_unlink.simps) (simp add: deref_def)
      ultimately show ?thesis using next_only_refl by blast
    qed
  next
    case False
    then have "chain_unlink V (\<lambda>q _. q = a) ?h 0 p ss = chain_unlink V (\<lambda>q _. q = a) ?h x (he_next ex) ss"
      using ex by (subst chain_unlink.simps) (simp add: deref_def)
    moreover obtain E' where E': "chain_unlink V (\<lambda>q _. q = a) ?h x (he_next ex) ss = Some (Inr (ss\<lparr>ss_entries := E'\<rparr>))"
      "chain E' x (x # remove1 a xs)" "next_only (set (x # xs)) ?E E'"
      using unlink_inner[of ss x xs a ex "he_next ex" V ?h] x ex p(2) mem as(1) False by auto
    moreover have "ss\<lparr>ss_entries := E', ss_value_to_heap_element := ?m\<rparr> = ss\<lparr>ss_entries := E'\<rparr>" by simp
    moreover have "index_ok V E' (A - {a}) ?m" using E'(2,3) x p(1) ex(1) wf(1) False by (intro main) auto
    moreover have "next_only A ?E E'" using E'(3) by (rule next_only_mono) (use as(2) x in \<open>auto simp: bucket_def\<close>)
    ultimately show ?thesis using er by metis
  qed
qed

subsection \<open>Insertion\<close>

lemma value_insert_law:
  assumes V: "env_ok V" and ix: "index_ok V (ss_entries ss) A (ss_value_to_heap_element ss)"
    and a: "a \<notin> A" "a \<noteq> 0" "ss_entries ss a = Some e" and room: "card A < 2 ^ 62"
  shows "\<exists>n m'. value_to_heap_element_insert V a ss =
      Some (Inr (ss\<lparr>ss_entries := (ss_entries ss)(a \<mapsto> e\<lparr>he_next := n\<rparr>), ss_value_to_heap_element := m'\<rparr>)) \<and>
    index_ok V ((ss_entries ss)(a \<mapsto> e\<lparr>he_next := n\<rparr>)) (insert a A) m'"
proof -
  let ?E = "ss_entries ss" and ?m = "ss_value_to_heap_element ss" and ?M = "index_params V" and ?h = "se_hash V (he_element e)"
  have wf: "hm_wf ?M ?m" "mp_ok ?M" using ix mp_ok_index[OF V] by (simp_all add: index_ok_def)
  have size: "size (hm_entries ?m) < 2 ^ 62" using hm_entries_card[OF wf(1)] index_room[OF ix] room by simp
  let ?n = "case hm_map ?m ?h of None \<Rightarrow> 0 | Some p \<Rightarrow> p"
  let ?E' = "?E(a \<mapsto> e\<lparr>he_next := ?n\<rparr>)"
  obtain m' where m': "hm_put ?M ?h a ?m = Some (Inr m')" "hm_wf ?M m'" "hm_map m' = (hm_map ?m)(?h \<mapsto> a)"
    using hm_put_law[OF wf(2,1) size, of ?h a] by auto
  have "value_to_heap_element_insert V a ss = Some (Inr (ss\<lparr>ss_entries := ?E', ss_value_to_heap_element := m'\<rparr>))"
    using a(3) m'(1) hm_lookup_law[OF wf(1)] by (simp add: value_to_heap_element_insert_def deref_def)
  moreover have "\<exists>bs. distinct bs \<and> set bs = bucket V ?E' (insert a A) k \<and> chain ?E' (case hm_map m' k of None \<Rightarrow> 0 | Some p \<Rightarrow> p) bs \<and>
      (hm_map m' k \<noteq> None \<longrightarrow> bs \<noteq> [])" for k
  proof -
    obtain bs where bs: "distinct bs" "set bs = bucket V ?E A k" "chain ?E (case hm_map ?m k of None \<Rightarrow> 0 | Some p \<Rightarrow> p) bs"
      "hm_map ?m k \<noteq> None \<longrightarrow> bs \<noteq> []" using ix unfolding index_ok_def by blast
    have n: "a \<notin> set bs" using bs(2) a(1) by (auto simp: bucket_def)
    then have c: "chain ?E' (case hm_map ?m k of None \<Rightarrow> 0 | Some p \<Rightarrow> p) bs" using bs(3) by (elim chain_cong) auto
    have b: "bucket V ?E' (insert a A) k = (if k = ?h then insert a (bucket V ?E A k) else bucket V ?E A k)"
      using a(1) by (auto simp: bucket_def)
    show ?thesis
    proof (cases "k = ?h")
      case True
      have "chain ?E' a (a # bs)" using c a(2) True by simp
      then show ?thesis using True bs b n m'(3) by (intro exI[of _ "a # bs"]) (simp del: chain.simps)
    next
      case False
      then show ?thesis using bs b c m'(3) by (intro exI[of _ bs]) simp
    qed
  qed
  moreover have "\<forall>b\<in>insert a A. b \<noteq> 0 \<and> ?E' b \<noteq> None" "finite (insert a A)" using ix a(2) by (auto simp: index_ok_def)
  ultimately show ?thesis using m'(2) unfolding index_ok_def by (intro exI[of _ ?n] exI[of _ m']) blast
qed

section \<open>The heap\<close>

subsection \<open>Order on an array\<close>

text \<open>The array is a heap for the keys \<open>c\<close>, from position 1 on; except between \<open>k\<close> and its parent; and except
  between \<open>k\<close> and its children.\<close>

definition heap_ordered :: "(nat \<Rightarrow> 'k::linorder) \<Rightarrow> nat list \<Rightarrow> bool" where
  "heap_ordered c H \<longleftrightarrow> (\<forall>i. 2 \<le> i \<and> i < length H \<longrightarrow> c (H ! (i div 2)) \<le> c (H ! i))"

definition up_heap :: "(nat \<Rightarrow> 'k::linorder) \<Rightarrow> nat list \<Rightarrow> nat \<Rightarrow> bool" where
  "up_heap c H k \<longleftrightarrow> (\<forall>i. 2 \<le> i \<and> i < length H \<and> i \<noteq> k \<longrightarrow> c (H ! (i div 2)) \<le> c (H ! i)) \<and>
     (\<forall>i. 2 \<le> k \<and> i < length H \<and> i div 2 = k \<longrightarrow> c (H ! (k div 2)) \<le> c (H ! i))"

definition down_heap :: "(nat \<Rightarrow> 'k::linorder) \<Rightarrow> nat list \<Rightarrow> nat \<Rightarrow> bool" where
  "down_heap c H k \<longleftrightarrow> (\<forall>i. 2 \<le> i \<and> i < length H \<and> i div 2 \<noteq> k \<longrightarrow> c (H ! (i div 2)) \<le> c (H ! i)) \<and>
     (\<forall>i. 2 \<le> k \<and> i < length H \<and> i div 2 = k \<longrightarrow> c (H ! (k div 2)) \<le> c (H ! i))"

definition swap :: "nat \<Rightarrow> nat \<Rightarrow> nat list \<Rightarrow> nat list" where
  "swap i j H = H[i := H ! j, j := H ! i]"

lemma length_swap [simp]: "length (swap i j H) = length H"
  by (simp add: swap_def)

lemma nth_swap: "i < length H \<Longrightarrow> j < length H \<Longrightarrow> n < length H \<Longrightarrow>
  swap i j H ! n = (if n = j then H ! i else if n = i then H ! j else H ! n)"
  by (simp add: swap_def nth_list_update)

lemma set_swap: "i < length H \<Longrightarrow> j < length H \<Longrightarrow> set (swap i j H) = set H \<and> distinct (swap i j H) = distinct H"
  by (simp add: swap_def)

lemma up_step:
  assumes "up_heap c H k" "2 \<le> k" "k < length H" "c (H ! k) < c (H ! (k div 2))"
  shows "up_heap c (swap k (k div 2) H) (k div 2)"
proof -
  let ?p = "k div 2" and ?S = "swap k (k div 2) H"
  have p: "?p < k" "1 \<le> ?p" using assms(2) by auto
  have S: "n < length H \<Longrightarrow> ?S ! n = (if n = ?p then H ! k else if n = k then H ! ?p else H ! n)" for n
    using assms(3) p by (simp add: nth_swap)
  have o: "2 \<le> i \<Longrightarrow> i < length H \<Longrightarrow> i \<noteq> k \<Longrightarrow> c (H ! (i div 2)) \<le> c (H ! i)" for i
    using assms(1) by (simp add: up_heap_def)
  have g: "i < length H \<Longrightarrow> i div 2 = k \<Longrightarrow> c (H ! ?p) \<le> c (H ! i)" for i
    using assms(1,2) by (simp add: up_heap_def)
  show ?thesis
    unfolding up_heap_def length_swap
  proof (intro conjI allI impI; elim conjE)
    fix i assume i: "2 \<le> i" "i < length H" "i \<noteq> ?p"
    have d: "i div 2 < length H" "i div 2 < i" using i by auto
    consider "i = k" | "i \<noteq> k" "i div 2 = k" | "i \<noteq> k" "i div 2 = ?p" | "i \<noteq> k" "i div 2 \<noteq> k" "i div 2 \<noteq> ?p" by blast
    then show "c (?S ! (i div 2)) \<le> c (?S ! i)"
    proof cases
      case 1
      then show ?thesis using S[OF i(2)] S[OF d(1)] assms(4) p by simp
    next
      case 2
      then show ?thesis using S[OF i(2)] S[OF d(1)] g[of i] i p by simp
    next
      case 3
      then show ?thesis using S[OF i(2)] S[OF d(1)] o[OF i(1,2)] assms(4) i by simp
    next
      case 4
      then show ?thesis using S[OF i(2)] S[OF d(1)] o[OF i(1,2)] i by simp
    qed
  next
    fix i assume i: "2 \<le> ?p" "i < length H" "i div 2 = ?p"
    have q: "?p div 2 < length H" "?p div 2 < ?p" using p assms(3) i(1) by auto
    have "c (H ! (?p div 2)) \<le> c (H ! ?p)" using o[of ?p] i p assms(3) by auto
    moreover have "i \<noteq> k \<Longrightarrow> c (H ! ?p) \<le> c (H ! i)" using o[of i] i by auto
    moreover have "i \<noteq> ?p" using i by auto
    ultimately show "c (?S ! (?p div 2)) \<le> c (?S ! i)"
      using S[OF i(2)] S[OF q(1)] q p by (auto intro: order_trans)
  qed
qed

lemma up_done:
  assumes "up_heap c H k" "2 \<le> k \<Longrightarrow> c (H ! (k div 2)) \<le> c (H ! k)"
  shows "heap_ordered c H"
  using assms by (auto simp: up_heap_def heap_ordered_def)

lemma down_step:
  assumes "down_heap c H k" "1 \<le> k" "j div 2 = k" "j < length H" "c (H ! j) < c (H ! k)"
    "\<And>i. i < length H \<Longrightarrow> i div 2 = k \<Longrightarrow> c (H ! j) \<le> c (H ! i)"
  shows "down_heap c (swap k j H) j"
proof -
  let ?S = "swap k j H"
  have p: "k < j" "2 \<le> j" using assms(2,3) by auto
  have S: "n < length H \<Longrightarrow> ?S ! n = (if n = j then H ! k else if n = k then H ! j else H ! n)" for n
    using assms(4) p by (simp add: nth_swap)
  have o: "2 \<le> i \<Longrightarrow> i < length H \<Longrightarrow> i div 2 \<noteq> k \<Longrightarrow> c (H ! (i div 2)) \<le> c (H ! i)" for i
    using assms(1) by (simp add: down_heap_def)
  have g: "2 \<le> k \<Longrightarrow> i < length H \<Longrightarrow> i div 2 = k \<Longrightarrow> c (H ! (k div 2)) \<le> c (H ! i)" for i
    using assms(1) by (simp add: down_heap_def)
  show ?thesis
    unfolding down_heap_def length_swap
  proof (intro conjI allI impI; elim conjE)
    fix i assume i: "2 \<le> i" "i < length H" "i div 2 \<noteq> j"
    have d: "i div 2 < length H" "i div 2 < i" using i by auto
    consider "i = j" | "i = k" | "i \<noteq> j" "i \<noteq> k" "i div 2 = k" | "i \<noteq> j" "i \<noteq> k" "i div 2 \<noteq> k" by blast
    then show "c (?S ! (i div 2)) \<le> c (?S ! i)"
    proof cases
      case 1
      then show ?thesis using S[OF i(2)] S[OF d(1)] assms(3,5) p by simp
    next
      case 2
      then show ?thesis using S[OF i(2)] S[OF d(1)] g[OF _ assms(4,3)] i p d by simp
    next
      case 3
      then show ?thesis using S[OF i(2)] S[OF d(1)] assms(6)[OF i(2)] i p by simp
    next
      case 4
      then show ?thesis using S[OF i(2)] S[OF d(1)] o[OF i(1,2)] i by simp
    qed
  next
    fix i assume i: "2 \<le> j" "i < length H" "i div 2 = j"
    then have "c (H ! j) \<le> c (H ! i)" using o[of i] p by auto
    moreover have "i \<noteq> j" "i \<noteq> k" using i p by auto
    ultimately show "c (?S ! (j div 2)) \<le> c (?S ! i)"
      using S[OF i(2)] S[of k] p assms(3,4) by simp
  qed
qed

lemma down_done:
  assumes "down_heap c H k" "\<And>i. 2 \<le> i \<Longrightarrow> i < length H \<Longrightarrow> i div 2 = k \<Longrightarrow> c (H ! k) \<le> c (H ! i)"
  shows "heap_ordered c H"
  using assms by (auto simp: down_heap_def heap_ordered_def)

lemma heap_top_least: "heap_ordered c H \<Longrightarrow> 1 \<le> i \<Longrightarrow> i < length H \<Longrightarrow> c (H ! 1) \<le> c (H ! i)"
proof (induction i rule: less_induct)
  case (less i)
  show ?case
  proof (cases "i = 1")
    case False
    then have "c (H ! 1) \<le> c (H ! (i div 2))" using less.prems by (intro less.IH) auto
    also have "\<dots> \<le> c (H ! i)" using less.prems False by (simp add: heap_ordered_def)
    finally show ?thesis .
  qed simp
qed

subsection \<open>The array of pointers\<close>

definition cnt :: "(nat \<Rightarrow> 'a heap_entry option) \<Rightarrow> nat \<Rightarrow> u64" where
  "cnt E a = (case E a of None \<Rightarrow> 0 | Some e \<Rightarrow> he_count e)"

text \<open>Only heap positions have changed.\<close>

definition position_only :: "(nat \<Rightarrow> 'a heap_entry option) \<Rightarrow> (nat \<Rightarrow> 'a heap_entry option) \<Rightarrow> bool" where
  "position_only E E' \<longleftrightarrow> (\<forall>a. map_option (\<lambda>e. e\<lparr>he_heap_position := 0\<rparr>) (E' a) = map_option (\<lambda>e. e\<lparr>he_heap_position := 0\<rparr>) (E a))"

lemma position_only_refl [simp]: "position_only E E"
  by (simp add: position_only_def)

lemma position_only_trans: "position_only E E' \<Longrightarrow> position_only E' E'' \<Longrightarrow> position_only E E''"
  by (simp add: position_only_def)

lemma position_only_upd: "E a = Some e \<Longrightarrow> position_only E (E(a \<mapsto> e\<lparr>he_heap_position := n\<rparr>))"
  by (simp add: position_only_def)

lemma position_onlyD:
  assumes "position_only E E'"
  shows "E a = Some e \<Longrightarrow> \<exists>n. E' a = Some (e\<lparr>he_heap_position := n\<rparr>)" "E a = None \<longleftrightarrow> E' a = None" "cnt E' = cnt E"
proof -
  have m: "map_option (\<lambda>e. e\<lparr>he_heap_position := 0\<rparr>) (E' a) = map_option (\<lambda>e. e\<lparr>he_heap_position := 0\<rparr>) (E a)" for a
    using assms by (simp add: position_only_def)
  show 1: "\<exists>n. E' a = Some (e\<lparr>he_heap_position := n\<rparr>)" if s: "E a = Some e" for a e
  proof -
    obtain e' where e': "E' a = Some e'" "e'\<lparr>he_heap_position := 0\<rparr> = e\<lparr>he_heap_position := 0\<rparr>"
      using m[of a] s by (cases "E' a") auto
    then have "e' = e\<lparr>he_heap_position := he_heap_position e'\<rparr>" by (cases e; cases e') simp
    then show ?thesis using e'(1) by metis
  qed
  show 2: "E a = None \<longleftrightarrow> E' a = None" for a using m[of a] by (cases "E a"; cases "E' a") auto
  have "cnt E' a = cnt E a" for a
  proof (cases "E a")
    case None
    then show ?thesis using 2[of a] by (simp add: cnt_def)
  next
    case (Some e)
    then show ?thesis using 1[OF Some] by (auto simp: cnt_def)
  qed
  then show "cnt E' = cnt E" by blast
qed

text \<open>The slots from 1 on hold different allocated entries, whose positions are right, except at \<open>k\<close>.\<close>

definition heap_mem :: "(nat \<Rightarrow> 'a heap_entry option) \<Rightarrow> nat list \<Rightarrow> nat \<Rightarrow> bool" where
  "heap_mem E H k \<longleftrightarrow> H \<noteq> [] \<and> H ! 0 = 0 \<and> distinct H \<and>
     (\<forall>i. 1 \<le> i \<and> i < length H \<longrightarrow> (\<exists>e. E (H ! i) = Some e \<and> (i \<noteq> k \<longrightarrow> he_heap_position e = i)))"

lemma heap_memD: "heap_mem E H k \<Longrightarrow> 1 \<le> i \<Longrightarrow> i < length H \<Longrightarrow> \<exists>e. E (H ! i) = Some e \<and> (i \<noteq> k \<longrightarrow> he_heap_position e = i)"
  by (simp add: heap_mem_def)

text \<open>Moving the entry at \<open>j\<close> into the gap \<open>k\<close>. The entry in hand, \<open>cur\<close>, goes to \<open>j\<close>.\<close>

lemma gap_step:
  assumes mem: "heap_mem E (H[k := cur]) k" and k: "1 \<le> k" "k < length H" and j: "1 \<le> j" "j < length H" "j \<noteq> k"
    and e: "E (H ! j) = Some e"
  shows "(H[k := H ! j])[j := cur] = swap k j (H[k := cur])"
    "heap_mem (E(H ! j \<mapsto> e\<lparr>he_heap_position := k\<rparr>)) ((H[k := H ! j])[j := cur]) j"
proof -
  let ?V = "H[k := cur]" and ?E = "E(H ! j \<mapsto> e\<lparr>he_heap_position := k\<rparr>)"
  show s: "(H[k := H ! j])[j := cur] = swap k j ?V" using k j by (simp add: swap_def)
  have v: "n < length H \<Longrightarrow> swap k j ?V ! n = (if n = j then cur else if n = k then H ! j else H ! n)" for n
    using k j nth_swap[of k ?V j n] by (auto simp: nth_list_update)
  have d: "distinct ?V" "?V ! 0 = 0" using mem by (auto simp: heap_mem_def)
  have inj: "n < length H \<Longrightarrow> n \<noteq> j \<Longrightarrow> ?V ! n \<noteq> H ! j" for n
    using d(1) j by (metis length_list_update nth_eq_iff_index_eq nth_list_update_neq)
  have "\<exists>e. ?E (swap k j ?V ! i) = Some e \<and> (i \<noteq> j \<longrightarrow> he_heap_position e = i)" if i: "1 \<le> i" "i < length H" for i
  proof -
    obtain ei where ei: "E (?V ! i) = Some ei" "i \<noteq> k \<longrightarrow> he_heap_position ei = i"
      using heap_memD[OF mem i(1)] i(2) by auto
    obtain ek where ek: "E cur = Some ek" using heap_memD[OF mem k(1)] k(2) by auto
    consider "i = j" | "i = k" "i \<noteq> j" | "i \<noteq> k" "i \<noteq> j" by blast
    then show ?thesis
    proof cases
      case 1
      then show ?thesis using v[OF i(2)] ek by auto
    next
      case 2
      then show ?thesis using v[OF i(2)] by simp
    next
      case 3
      then show ?thesis using v[OF i(2)] ei inj[OF i(2)] by auto
    qed
  qed
  moreover have "distinct (swap k j ?V)" "swap k j ?V \<noteq> []" using set_swap[of k ?V j] d k j by auto
  moreover have "0 < length H" using k by linarith
  then have "swap k j ?V ! 0 = 0" using v[of 0] d(2) k j by (simp add: nth_list_update)
  ultimately show "heap_mem ?E ((H[k := H ! j])[j := cur]) j" unfolding s heap_mem_def by simp
qed

lemma gap_close:
  assumes "heap_mem E (H[k := cur]) k" "1 \<le> k" "k < length H"
  obtains e where "E cur = Some e" "heap_mem (E(cur \<mapsto> e\<lparr>he_heap_position := k\<rparr>)) (H[k := cur]) 0"
proof -
  obtain e where e: "E cur = Some e" using heap_memD[OF assms(1,2)] assms(3) by auto
  have "distinct (H[k := cur])" using assms(1) by (simp add: heap_mem_def)
  then have "n < length H \<Longrightarrow> n \<noteq> k \<Longrightarrow> H[k := cur] ! n \<noteq> cur" for n
    using assms(3) by (metis length_list_update nth_eq_iff_index_eq nth_list_update_eq)
  then have "heap_mem (E(cur \<mapsto> e\<lparr>he_heap_position := k\<rparr>)) (H[k := cur]) 0"
    using assms unfolding heap_mem_def by (auto simp: nth_list_update)
  with e show ?thesis by (rule that)
qed

text \<open>What a loop has done when it stops with \<open>cur\<close> in hand: the array with \<open>cur\<close> in the gap is a heap of the same entries.\<close>

definition sifted :: "nat \<Rightarrow> nat list \<Rightarrow> 'a space_saving \<Rightarrow> error + nat \<times> 'a space_saving \<Rightarrow> bool" where
  "sifted cur V ss res \<longleftrightarrow> (\<exists>k H E. res = Inr (k, ss\<lparr>ss_heap := H, ss_entries := E\<rparr>) \<and> heap_mem E (H[k := cur]) k \<and>
     1 \<le> k \<and> k < length H \<and> length H = length V \<and> set (H[k := cur]) = set V \<and>
     heap_ordered (cnt (ss_entries ss)) (H[k := cur]) \<and> position_only (ss_entries ss) E)"

lemma sifted_stop:
  assumes "heap_mem (ss_entries ss) ((ss_heap ss)[k := cur]) k" "1 \<le> k" "k < length (ss_heap ss)"
    "heap_ordered (cnt (ss_entries ss)) ((ss_heap ss)[k := cur])"
  shows "sifted cur ((ss_heap ss)[k := cur]) ss (Inr (k, ss))"
proof -
  have "ss = ss\<lparr>ss_heap := ss_heap ss, ss_entries := ss_entries ss\<rparr>" by simp
  then show ?thesis unfolding sifted_def using assms
    by (intro exI[of _ k] exI[of _ "ss_heap ss"] exI[of _ "ss_entries ss"]) simp
qed

lemma sifted_step:
  assumes k: "1 \<le> k" "k < length (ss_heap ss)" and j: "1 \<le> j" "j < length (ss_heap ss)" "j \<noteq> k"
    and e: "ss_entries ss (ss_heap ss ! j) = Some e"
    and s: "sifted cur ((ss_heap (put_heap k (ss_heap ss ! j) e ss))[j := cur]) (put_heap k (ss_heap ss ! j) e ss) res"
    and mem: "heap_mem (ss_entries ss) ((ss_heap ss)[k := cur]) k"
  shows "sifted cur ((ss_heap ss)[k := cur]) ss res"
proof -
  let ?ss = "put_heap k (ss_heap ss ! j) e ss"
  have p: "position_only (ss_entries ss) (ss_entries ?ss)" using e by (simp add: put_heap_def position_only_upd)
  have v: "(ss_heap ?ss)[j := cur] = swap k j ((ss_heap ss)[k := cur])"
    using gap_step(1)[OF mem k j e] by (simp add: put_heap_def)
  have "set ((ss_heap ?ss)[j := cur]) = set ((ss_heap ss)[k := cur])" unfolding v using set_swap[of k "(ss_heap ss)[k := cur]" j] k j by simp
  moreover obtain k' H' E' where r: "res = Inr (k', ?ss\<lparr>ss_heap := H', ss_entries := E'\<rparr>)" "heap_mem E' (H'[k' := cur]) k'"
    "1 \<le> k'" "k' < length H'" "length H' = length ((ss_heap ?ss)[j := cur])" "set (H'[k' := cur]) = set ((ss_heap ?ss)[j := cur])"
    "heap_ordered (cnt (ss_entries ?ss)) (H'[k' := cur])" "position_only (ss_entries ?ss) E'"
    using s unfolding sifted_def by blast
  moreover have "?ss\<lparr>ss_heap := H', ss_entries := E'\<rparr> = ss\<lparr>ss_heap := H', ss_entries := E'\<rparr>" by (simp add: put_heap_def)
  moreover have "length ((ss_heap ?ss)[j := cur]) = length ((ss_heap ss)[k := cur])" by (simp add: put_heap_def)
  ultimately show ?thesis
    unfolding sifted_def using position_only_trans[OF p r(8)] position_onlyD(3)[OF p]
    by (intro exI[of _ k'] exI[of _ H'] exI[of _ E']) simp
qed

lemma bubble_up_loop_law:
  "heap_mem (ss_entries ss) ((ss_heap ss)[k := cur]) k \<Longrightarrow> 1 \<le> k \<Longrightarrow> k < length (ss_heap ss) \<Longrightarrow>
   up_heap (cnt (ss_entries ss)) ((ss_heap ss)[k := cur]) k \<Longrightarrow> cc = cnt (ss_entries ss) cur \<Longrightarrow>
   sifted cur ((ss_heap ss)[k := cur]) ss (bubble_up_loop cc k ss)"
proof (induction k arbitrary: ss rule: less_induct)
  case (less k)
  let ?H = "ss_heap ss" and ?E = "ss_entries ss" and ?j = "k div 2"
  let ?V = "?H[k := cur]"
  show ?case
  proof (cases "k > 1")
    case True
    then have j: "1 \<le> ?j" "?j < length ?H" "?j \<noteq> k" "?j < k" using less.prems(3) by auto
    obtain e where e: "?E (?H ! ?j) = Some e" using heap_memD[OF less.prems(1) j(1)] j by auto
    have c: "cnt ?E (?V ! ?j) = he_count e" "cnt ?E (?V ! k) = cc" using e j less.prems(3,5) by (simp_all add: cnt_def)
    show ?thesis
    proof (cases "cc < he_count e")
      case lt: True
      let ?ss = "put_heap k (?H ! ?j) e ss"
      have p: "position_only ?E (ss_entries ?ss)" using e by (simp add: put_heap_def position_only_upd)
      note gap = gap_step[OF less.prems(1,2,3) j(1-3) e]
      have v: "(ss_heap ?ss)[?j := cur] = swap k ?j ?V" using gap(1) by (simp add: put_heap_def)
      have "up_heap (cnt (ss_entries ?ss)) ((ss_heap ?ss)[?j := cur]) ?j"
        unfolding v position_onlyD(3)[OF p] using up_step[OF less.prems(4)] True lt c less.prems(3) by simp
      moreover have "heap_mem (ss_entries ?ss) ((ss_heap ?ss)[?j := cur]) ?j" "?j < length (ss_heap ?ss)"
        using gap(2) j(2) by (simp_all add: put_heap_def)
      moreover have "cc = cnt (ss_entries ?ss) cur" using less.prems(5) position_onlyD(3)[OF p] by simp
      ultimately have "sifted cur ((ss_heap ?ss)[?j := cur]) ?ss (bubble_up_loop cc ?j ?ss)" by (intro less.IH[OF j(4) _ j(1)])
      from sifted_step[OF less.prems(2,3) j(1-3) e this less.prems(1)]
      show ?thesis using True lt e j(2) by (subst bubble_up_loop.simps) (simp add: heap_at_def deref_def Let_def)
    next
      case False
      then have "cnt ?E (?V ! ?j) \<le> cnt ?E (?V ! k)" unfolding c by (simp only: not_less)
      then have "heap_ordered (cnt ?E) ?V" by (rule up_done[OF less.prems(4)])
      from sifted_stop[OF less.prems(1-3) this]
      show ?thesis using True False e j(2) by (subst bubble_up_loop.simps) (simp add: heap_at_def deref_def)
    qed
  next
    case False
    then have "heap_ordered (cnt ?E) ?V" using up_done[OF less.prems(4)] by simp
    from sifted_stop[OF less.prems(1-3) this] show ?thesis using False by (subst bubble_up_loop.simps) simp
  qed
qed

lemma smaller_child_law:
  assumes mem: "heap_mem (ss_entries ss) ((ss_heap ss)[k := cur]) k" and k: "1 \<le> k" "k * 2 < length (ss_heap ss)"
  obtains j e where "smaller_child ss k = Inr (j, e)" "j div 2 = k" "j < length (ss_heap ss)" "1 \<le> j" "j \<noteq> k"
    "ss_entries ss (ss_heap ss ! j) = Some e"
    "\<And>i. i < length (ss_heap ss) \<Longrightarrow> i div 2 = k \<Longrightarrow> he_count e \<le> cnt (ss_entries ss) (ss_heap ss ! i)"
proof -
  let ?H = "ss_heap ss" and ?E = "ss_entries ss"
  obtain l where l: "?E (?H ! (k * 2)) = Some l" using heap_memD[OF mem, of "k * 2"] k by auto
  have least: "x \<le> cnt ?E (?H ! i)"
    if "x \<le> he_count l" "k * 2 + 1 < length ?H \<Longrightarrow> x \<le> cnt ?E (?H ! (k * 2 + 1))" "i < length ?H" "i div 2 = k" for x i
  proof -
    have "i = k * 2 \<or> i = k * 2 + 1" using that(4) by auto
    then show ?thesis using that(1-3) l by (elim disjE) (simp_all add: cnt_def)
  qed
  show ?thesis
  proof (cases "k * 2 + 1 < length ?H")
    case True
    obtain r where r: "?E (?H ! (k * 2 + 1)) = Some r" using heap_memD[OF mem, of "k * 2 + 1"] k True by auto
    then have cr: "cnt ?E (?H ! (k * 2 + 1)) = he_count r" by (simp add: cnt_def)
    show ?thesis
    proof (cases "he_count l > he_count r")
      case lt: True
      have "smaller_child ss k = Inr (k * 2 + 1, r)" using l r k True lt by (simp add: smaller_child_def heap_at_def deref_def)
      then show ?thesis using r True lt k least[of "he_count r"] cr by (intro that) auto
    next
      case False
      have "smaller_child ss k = Inr (k * 2, l)" using l r k True False by (simp add: smaller_child_def heap_at_def deref_def)
      then show ?thesis using l False k least[of "he_count l"] cr by (intro that) auto
    qed
  next
    case False
    have "smaller_child ss k = Inr (k * 2, l)" using l k False by (simp add: smaller_child_def heap_at_def deref_def)
    then show ?thesis using l False k least[of "he_count l"] by (intro that) auto
  qed
qed

lemma bubble_down_loop_law:
  "heap_mem (ss_entries ss) ((ss_heap ss)[k := cur]) k \<Longrightarrow> 1 \<le> k \<Longrightarrow> k < length (ss_heap ss) \<Longrightarrow>
   down_heap (cnt (ss_entries ss)) ((ss_heap ss)[k := cur]) k \<Longrightarrow> cc = cnt (ss_entries ss) cur \<Longrightarrow>
   sifted cur ((ss_heap ss)[k := cur]) ss (bubble_down_loop cc k ss)"
proof (induction "length (ss_heap ss) - k" arbitrary: k ss rule: less_induct)
  case less
  let ?H = "ss_heap ss" and ?E = "ss_entries ss"
  let ?V = "?H[k := cur]"
  show ?case
  proof (cases "k * 2 < length ?H")
    case True
    obtain j e where j: "smaller_child ss k = Inr (j, e)" "j div 2 = k" "j < length ?H" "1 \<le> j" "j \<noteq> k" "?E (?H ! j) = Some e"
      "\<And>i. i < length ?H \<Longrightarrow> i div 2 = k \<Longrightarrow> he_count e \<le> cnt ?E (?H ! i)"
      using smaller_child_law[OF less.prems(1,2) True] by blast
    have c: "cnt ?E (?V ! j) = he_count e" "cnt ?E (?V ! k) = cc" using j less.prems(3,5) by (simp_all add: cnt_def)
    have ch: "he_count e \<le> cnt ?E (?V ! i)" if "i < length ?V" "i div 2 = k" for i
    proof -
      have "i \<noteq> k" using that less.prems(2) by auto
      then show ?thesis using j(7)[of i] that by simp
    qed
    show ?thesis
    proof (cases "cc > he_count e")
      case gt: True
      let ?ss = "put_heap k (?H ! j) e ss"
      have p: "position_only ?E (ss_entries ?ss)" using j(6) by (simp add: put_heap_def position_only_upd)
      note gap = gap_step[OF less.prems(1,2,3) j(4,3,5,6)]
      have v: "(ss_heap ?ss)[j := cur] = swap k j ?V" using gap(1) by (simp add: put_heap_def)
      have "down_heap (cnt (ss_entries ?ss)) ((ss_heap ?ss)[j := cur]) j"
        unfolding v position_onlyD(3)[OF p] using down_step[OF less.prems(4,2) j(2)] j(3) gt c ch by simp
      moreover have "length (ss_heap ?ss) - j < length ?H - k" using j(2,3) less.prems(2) by (auto simp: put_heap_def)
      moreover have "heap_mem (ss_entries ?ss) ((ss_heap ?ss)[j := cur]) j" "j < length (ss_heap ?ss)"
        using gap(2) j(3) by (simp_all add: put_heap_def)
      moreover have "cc = cnt (ss_entries ?ss) cur" using less.prems(5) position_onlyD(3)[OF p] by simp
      ultimately have "sifted cur ((ss_heap ?ss)[j := cur]) ?ss (bubble_down_loop cc j ?ss)" by (intro less.hyps j(4))
      from sifted_step[OF less.prems(2,3) j(4,3,5,6) this less.prems(1)]
      show ?thesis using True gt j(1) less.prems(2) by (subst bubble_down_loop.simps) simp
    next
      case False
      have "cnt ?E (?V ! k) \<le> cnt ?E (?V ! i)" if "i < length ?V" "i div 2 = k" for i
        using ch[OF that] c False by simp
      then have "heap_ordered (cnt ?E) ?V" using down_done[OF less.prems(4)] by blast
      from sifted_stop[OF less.prems(1-3) this]
      show ?thesis using True False j(1) less.prems(2) by (subst bubble_down_loop.simps) simp
    qed
  next
    case False
    then have "heap_ordered (cnt ?E) ?V" by (intro down_done[OF less.prems(4)]) auto
    from sifted_stop[OF less.prems(1-3) this] show ?thesis using False less.prems(2) by (subst bubble_down_loop.simps) simp
  qed
qed

text \<open>The outcome of bubbling: the array is a heap of the entries it had.\<close>

definition reheaped :: "'a space_saving \<Rightarrow> error + 'a space_saving \<Rightarrow> bool" where
  "reheaped ss res \<longleftrightarrow> (\<exists>H E. res = Inr (ss\<lparr>ss_heap := H, ss_entries := E\<rparr>) \<and> heap_mem E H 0 \<and> heap_ordered (cnt E) H \<and>
     set H = set (ss_heap ss) \<and> length H = length (ss_heap ss) \<and> position_only (ss_entries ss) E)"

lemma sifted_finish:
  assumes "sifted cur (ss_heap ss) ss res"
  shows "reheaped ss (result_bind res (\<lambda>(idx, ss). result_bind (deref (ss_entries ss) cur) (\<lambda>e. Inr (put_heap idx cur e ss))))"
proof -
  obtain k H E where r: "res = Inr (k, ss\<lparr>ss_heap := H, ss_entries := E\<rparr>)" "heap_mem E (H[k := cur]) k" "1 \<le> k" "k < length H"
    "length H = length (ss_heap ss)" "set (H[k := cur]) = set (ss_heap ss)"
    "heap_ordered (cnt (ss_entries ss)) (H[k := cur])" "position_only (ss_entries ss) E"
    using assms unfolding sifted_def by blast
  obtain e where e: "E cur = Some e" "heap_mem (E(cur \<mapsto> e\<lparr>he_heap_position := k\<rparr>)) (H[k := cur]) 0"
    using gap_close[OF r(2-4)] by blast
  let ?E = "E(cur \<mapsto> e\<lparr>he_heap_position := k\<rparr>)"
  have p: "position_only (ss_entries ss) ?E" using position_only_trans[OF r(8) position_only_upd[of E cur e k, OF e(1)]] .
  have "result_bind res (\<lambda>(idx, ss). result_bind (deref (ss_entries ss) cur) (\<lambda>e. Inr (put_heap idx cur e ss))) =
      Inr (ss\<lparr>ss_heap := H[k := cur], ss_entries := ?E\<rparr>)" using r(1) e(1) by (simp add: deref_def put_heap_def)
  moreover have "heap_ordered (cnt ?E) (H[k := cur])" unfolding position_onlyD(3)[OF p] by (rule r(7))
  moreover have "length (H[k := cur]) = length (ss_heap ss)" using r(5) by simp
  ultimately show ?thesis unfolding reheaped_def using e(2) r(6) p by blast
qed

lemma heap_bubble_up_law:
  assumes "heap_mem (ss_entries ss) (ss_heap ss) k" "1 \<le> k" "k < length (ss_heap ss)" "up_heap (cnt (ss_entries ss)) (ss_heap ss) k"
  shows "reheaped ss (heap_bubble_up k ss)"
proof -
  let ?cur = "ss_heap ss ! k"
  obtain e where e: "ss_entries ss ?cur = Some e" using heap_memD[OF assms(1-3)] by blast
  have "sifted ?cur (ss_heap ss) ss (bubble_up_loop (he_count e) k ss)"
    using bubble_up_loop_law[of ss k ?cur "he_count e"] assms e by (simp add: cnt_def)
  from sifted_finish[OF this] show ?thesis using assms(3) e by (simp add: heap_bubble_up_def heap_at_def deref_def)
qed

lemma heap_bubble_down_law:
  assumes "heap_mem (ss_entries ss) (ss_heap ss) k" "1 \<le> k" "k < length (ss_heap ss)" "down_heap (cnt (ss_entries ss)) (ss_heap ss) k"
  shows "reheaped ss (heap_bubble_down k ss)"
proof -
  let ?cur = "ss_heap ss ! k"
  obtain e where e: "ss_entries ss ?cur = Some e" using heap_memD[OF assms(1-3)] by blast
  have "sifted ?cur (ss_heap ss) ss (bubble_down_loop (he_count e) k ss)"
    using bubble_down_loop_law[of ss k ?cur "he_count e"] assms e by (simp add: cnt_def)
  from sifted_finish[OF this] show ?thesis using assms(3) e by (simp add: heap_bubble_down_def heap_at_def deref_def)
qed

section \<open>The sketch\<close>

subsection \<open>Invariant and abstract value\<close>

text \<open>The invariant, with a wrong heap position allowed at \<open>k\<close> and without the order of the heap. In particular the
  allocated entries are exactly the ones in the heap: nothing leaks and nothing dangles.\<close>

definition ss_base :: "'a sketch_env \<Rightarrow> 'a space_saving \<Rightarrow> nat \<Rightarrow> bool" where
  "ss_base V ss k \<longleftrightarrow> heap_mem (ss_entries ss) (ss_heap ss) k \<and>
     index_ok V (ss_entries ss) (set (tl (ss_heap ss))) (ss_value_to_heap_element ss) \<and>
     dom (ss_entries ss) = set (tl (ss_heap ss)) \<and>
     (\<forall>a b e f. ss_entries ss a = Some e \<longrightarrow> ss_entries ss b = Some f \<longrightarrow> he_element e = he_element f \<longrightarrow> a = b) \<and>
     (\<forall>a\<in>dom (ss_entries ss). a < ss_fresh ss) \<and> 0 < ss_fresh ss"

definition ss_wf :: "'a sketch_env \<Rightarrow> 'a space_saving \<Rightarrow> bool" where
  "ss_wf V ss \<longleftrightarrow> ss_base V ss 0 \<and> heap_ordered (cnt (ss_entries ss)) (ss_heap ss)"

text \<open>The abstract value: the items tracked, with their counts and errors.\<close>

definition ss_map :: "'a space_saving \<Rightarrow> 'a \<Rightarrow> (u64 \<times> u64) option" where
  "ss_map ss = map_of (map (\<lambda>a. case ss_entries ss a of Some e \<Rightarrow> (he_element e, he_count e, he_error e)) (tl (ss_heap ss)))"

lemma heap_mem_tl: "heap_mem E H k \<Longrightarrow> set (tl H) = set H - {0} \<and> 0 \<notin> set (tl H) \<and> distinct (tl H)"
  by (cases H) (auto simp: heap_mem_def)

lemma ss_map_iff:
  assumes "ss_base V ss k"
  shows "ss_map ss t = Some (c, r) \<longleftrightarrow> (\<exists>a e. ss_entries ss a = Some e \<and> he_element e = t \<and> he_count e = c \<and> he_error e = r)"
proof -
  let ?f = "\<lambda>a. case ss_entries ss a of Some e \<Rightarrow> (he_element e, he_count e, he_error e)" and ?A = "tl (ss_heap ss)"
  have al: "a \<in> set ?A \<longleftrightarrow> (\<exists>e. ss_entries ss a = Some e)" for a using assms by (auto simp: ss_base_def)
  have inj: "\<And>a b e f. ss_entries ss a = Some e \<Longrightarrow> ss_entries ss b = Some f \<Longrightarrow> he_element e = he_element f \<Longrightarrow> a = b"
    using assms unfolding ss_base_def by blast
  have "inj_on (fst \<circ> ?f) (set ?A)"
  proof (rule inj_onI)
    fix a b assume ab: "a \<in> set ?A" "b \<in> set ?A" "(fst \<circ> ?f) a = (fst \<circ> ?f) b"
    then obtain e f where "ss_entries ss a = Some e" "ss_entries ss b = Some f" using al by blast
    then show "a = b" using ab(3) inj by simp
  qed
  moreover have "distinct ?A" using assms heap_mem_tl by (auto simp: ss_base_def)
  ultimately have "distinct (map fst (map ?f ?A))" by (simp add: distinct_map)
  then have "ss_map ss t = Some (c, r) \<longleftrightarrow> (t, c, r) \<in> set (map ?f ?A)" unfolding ss_map_def by (rule map_of_eq_Some_iff)
  also have "\<dots> \<longleftrightarrow> (\<exists>a e. ss_entries ss a = Some e \<and> he_element e = t \<and> he_count e = c \<and> he_error e = r)"
    using al by (force simp: image_iff)
  finally show ?thesis .
qed

text \<open>Two sketches with the same items in their stores have the same abstract value.\<close>

lemma ss_map_eqI:
  assumes "ss_base V ss k" "ss_base V ss' k'"
    "\<And>a e. ss_entries ss a = Some e \<Longrightarrow> \<exists>e'. ss_entries ss' a = Some e' \<and> he_element e' = he_element e \<and> he_count e' = he_count e \<and> he_error e' = he_error e"
    "\<And>a e'. ss_entries ss' a = Some e' \<Longrightarrow> \<exists>e. ss_entries ss a = Some e"
  shows "ss_map ss' = ss_map ss"
proof (rule fun_option_eqI)
  fix t and x :: "u64 \<times> u64"
  obtain c r where x: "x = (c, r)" by (cases x)
  have "ss_map ss' t = Some (c, r) \<longleftrightarrow> ss_map ss t = Some (c, r)"
    unfolding ss_map_iff[OF assms(1)] ss_map_iff[OF assms(2)]
  proof (intro iffI; elim exE conjE)
    fix a e' assume e': "ss_entries ss' a = Some e'" "he_element e' = t" "he_count e' = c" "he_error e' = r"
    then obtain e where "ss_entries ss a = Some e" using assms(4) by blast
    then show "\<exists>a e. ss_entries ss a = Some e \<and> he_element e = t \<and> he_count e = c \<and> he_error e = r"
      using assms(3)[of a e] e' by auto
  next
    fix a e assume "ss_entries ss a = Some e" "he_element e = t" "he_count e = c" "he_error e = r"
    then show "\<exists>a e. ss_entries ss' a = Some e \<and> he_element e = t \<and> he_count e = c \<and> he_error e = r"
      using assms(3)[of a e] by auto
  qed
  then show "ss_map ss' t = Some x \<longleftrightarrow> ss_map ss t = Some x" using x by simp
qed

lemma ss_map_card:
  assumes "ss_base V ss k"
  shows "card (dom (ss_map ss)) + 1 = length (ss_heap ss)" "finite (dom (ss_map ss))"
proof -
  let ?f = "\<lambda>a. he_element (the (ss_entries ss a))" and ?A = "set (tl (ss_heap ss))"
  have al: "dom (ss_entries ss) = ?A" using assms by (simp add: ss_base_def)
  have "dom (ss_map ss) = ?f ` ?A"
  proof (intro set_eqI iffI)
    fix t assume "t \<in> dom (ss_map ss)"
    then obtain a e where "ss_entries ss a = Some e" "he_element e = t" using ss_map_iff[OF assms] by fastforce
    then show "t \<in> ?f ` ?A" using al by (intro image_eqI[of _ _ a]) auto
  next
    fix t assume "t \<in> ?f ` ?A"
    then obtain a where "a \<in> ?A" "t = ?f a" by blast
    moreover then obtain e where "ss_entries ss a = Some e" using al by blast
    ultimately show "t \<in> dom (ss_map ss)" using ss_map_iff[OF assms, of t "he_count e" "he_error e"] by auto
  qed
  moreover have "inj_on ?f ?A"
  proof (rule inj_onI)
    fix a b assume "a \<in> ?A" "b \<in> ?A" "?f a = ?f b"
    moreover then obtain e f where "ss_entries ss a = Some e" "ss_entries ss b = Some f" using al by blast
    ultimately show "a = b" using assms unfolding ss_base_def by (metis option.sel)
  qed
  moreover have "distinct (tl (ss_heap ss))" "ss_heap ss \<noteq> []"
    using assms heap_mem_tl[of "ss_entries ss" "ss_heap ss" k] by (auto simp: ss_base_def heap_mem_def)
  then have "card ?A + 1 = length (ss_heap ss)" by (cases "ss_heap ss") (simp_all add: distinct_card)
  ultimately show "card (dom (ss_map ss)) + 1 = length (ss_heap ss)" "finite (dom (ss_map ss))" by (simp_all add: card_image)
qed

text \<open>Bubbling restores the invariant and keeps the abstract value.\<close>

lemma reheaped_wf:
  assumes base: "ss_base V ss k" and r: "reheaped ss res"
  obtains H E where "res = Inr (ss\<lparr>ss_heap := H, ss_entries := E\<rparr>)" "ss_wf V (ss\<lparr>ss_heap := H, ss_entries := E\<rparr>)"
    "ss_map (ss\<lparr>ss_heap := H, ss_entries := E\<rparr>) = ss_map ss" "length H = length (ss_heap ss)"
proof -
  let ?E = "ss_entries ss"
  obtain H E where h: "res = Inr (ss\<lparr>ss_heap := H, ss_entries := E\<rparr>)" "heap_mem E H 0" "heap_ordered (cnt E) H"
    "set H = set (ss_heap ss)" "length H = length (ss_heap ss)" "position_only ?E E" using r unfolding reheaped_def by blast
  let ?ss = "ss\<lparr>ss_heap := H, ss_entries := E\<rparr>"
  have A: "set (tl H) = set (tl (ss_heap ss))"
    using heap_mem_tl[OF h(2)] heap_mem_tl[of ?E "ss_heap ss" k] base h(4) by (simp add: ss_base_def)
  note po = position_onlyD(1,2)[OF h(6)]
  have old: "\<exists>e n. ?E a = Some e \<and> e' = e\<lparr>he_heap_position := n\<rparr>" if "E a = Some e'" for a e'
    using po(1,2)[of a] that by (cases "?E a") auto
  have "map_option (\<lambda>e. (he_element e, he_next e)) (E a) = map_option (\<lambda>e. (he_element e, he_next e)) (?E a)" for a
    using po(1,2)[of a] by (cases "?E a") auto
  then have "index_ok V E (set (tl H)) (ss_value_to_heap_element ss)"
    using index_ok_cong[of V ?E "set (tl H)" "ss_value_to_heap_element ss" E] base A by (simp add: ss_base_def)
  moreover have "dom E = set (tl H)" using po(2) base A by (auto simp: ss_base_def dom_def)
  moreover have "a = b" if ab: "E a = Some e" "E b = Some f" "he_element e = he_element f" for a b e f
  proof -
    obtain e0 f0 n n' where "?E a = Some e0" "e = e0\<lparr>he_heap_position := n\<rparr>" "?E b = Some f0" "f = f0\<lparr>he_heap_position := n'\<rparr>"
      using old[OF ab(1)] old[OF ab(2)] by blast
    moreover from this have "he_element e0 = he_element f0" using ab(3) by simp
    ultimately show ?thesis using base unfolding ss_base_def by blast
  qed
  moreover have "dom E = dom ?E" using po(2) by (auto simp: dom_def)
  ultimately have b: "ss_base V ?ss 0" using h(2) base unfolding ss_base_def by simp
  moreover have "ss_map ?ss = ss_map ss"
    using po(1) old by (intro ss_map_eqI[OF base b]) fastforce+
  ultimately show ?thesis using that h by (simp add: ss_wf_def)
qed

subsection \<open>Adding an item\<close>

text \<open>What the abstract value sees of an entry.\<close>

definition item :: "(nat \<Rightarrow> 'a heap_entry option) \<Rightarrow> nat \<Rightarrow> ('a \<times> u64 \<times> u64) option" where
  "item E a = map_option (\<lambda>e. (he_element e, he_count e, he_error e)) (E a)"

lemma ss_map_item: "ss_base V ss k \<Longrightarrow> ss_map ss t = Some x \<longleftrightarrow> (\<exists>a. item (ss_entries ss) a = Some (t, x))"
  by (cases x) (auto simp: ss_map_iff item_def)

lemma item_inj: "ss_base V ss k \<Longrightarrow> item (ss_entries ss) a = Some (t, x) \<Longrightarrow> item (ss_entries ss) b = Some (t, y) \<Longrightarrow> a = b"
  unfolding ss_base_def item_def by auto

lemma others_than:
  assumes b: "ss_base V ss k" and p: "item (ss_entries ss) p = Some (t, x)"
  shows "(\<exists>a. a \<noteq> p \<and> item (ss_entries ss) a = Some (t', x')) \<longleftrightarrow> ((ss_map ss)(t := None)) t' = Some x'"
proof (cases "t' = t")
  case True
  then show ?thesis using item_inj[OF b _ p, of _ x'] by auto
next
  case False
  then have "(\<exists>a. a \<noteq> p \<and> item (ss_entries ss) a = Some (t', x')) \<longleftrightarrow> (\<exists>a. item (ss_entries ss) a = Some (t', x'))"
    using p by force
  then show ?thesis using ss_map_item[OF b, of t' x'] False by simp
qed

lemma ss_map_put:
  assumes b: "ss_base V ss k" "ss_base V ss' k'" and o: "\<And>a. a \<noteq> p \<Longrightarrow> item (ss_entries ss') a = item (ss_entries ss) a"
    and p: "item (ss_entries ss') p = Some (t, x)"
  shows "ss_map ss' = (case item (ss_entries ss) p of None \<Rightarrow> ss_map ss | Some (t0, _) \<Rightarrow> (ss_map ss)(t0 := None))(t \<mapsto> x)"
    (is "_ = ?M(t \<mapsto> x)")
proof (rule fun_option_eqI)
  fix t' x'
  let ?I = "item (ss_entries ss)" and ?J = "item (ss_entries ss')"
  show "ss_map ss' t' = Some x' \<longleftrightarrow> (?M(t \<mapsto> x)) t' = Some x'"
  proof (cases "t' = t")
    case True
    have "?J a = Some (t, x') \<Longrightarrow> x' = x" for a using item_inj[OF b(2) _ p, of a x'] p by auto
    then have "(\<exists>a. ?J a = Some (t, x')) \<longleftrightarrow> x' = x" using p by blast
    then show ?thesis unfolding ss_map_item[OF b(2)] using True by auto
  next
    case False
    then have "?J p \<noteq> Some (t', x')" using p by simp
    then have "ss_map ss' t' = Some x' \<longleftrightarrow> (\<exists>a. a \<noteq> p \<and> ?I a = Some (t', x'))"
      unfolding ss_map_item[OF b(2)] using o by metis
    also have "\<dots> \<longleftrightarrow> ?M t' = Some x'"
    proof (cases "?I p")
      case None
      then have "(\<exists>a. a \<noteq> p \<and> ?I a = Some (t', x')) \<longleftrightarrow> (\<exists>a. ?I a = Some (t', x'))" by (metis option.distinct(1))
      then show ?thesis using ss_map_item[OF b(1), of t' x'] None by simp
    next
      case (Some y)
      then obtain t0 x0 where y: "?I p = Some (t0, x0)" by (cases y) auto
      show ?thesis using others_than[OF b(1) y, of t' x'] y by simp
    qed
    finally show ?thesis using False by simp
  qed
qed

lemma ss_map_remove:
  assumes b: "ss_base V ss k" "ss_base V ss' k'" and o: "\<And>a. a \<noteq> p \<Longrightarrow> item (ss_entries ss') a = item (ss_entries ss) a"
    and p: "item (ss_entries ss') p = None" "item (ss_entries ss) p = Some (t, x)"
  shows "ss_map ss' = (ss_map ss)(t := None)"
proof (rule fun_option_eqI)
  fix t' x'
  let ?I = "item (ss_entries ss)" and ?J = "item (ss_entries ss')"
  have "ss_map ss' t' = Some x' \<longleftrightarrow> (\<exists>a. a \<noteq> p \<and> ?I a = Some (t', x'))"
    unfolding ss_map_item[OF b(2)] using p(1) o by (metis option.distinct(1))
  also have "\<dots> \<longleftrightarrow> ((ss_map ss)(t := None)) t' = Some x'"
    by (rule others_than[OF b(1) p(2)])
  finally show "ss_map ss' t' = Some x' \<longleftrightarrow> ((ss_map ss)(t := None)) t' = Some x'" .
qed

text \<open>Equal but for the links of the chains.\<close>

definition but_next :: "(nat \<Rightarrow> 'a heap_entry option) \<Rightarrow> nat \<Rightarrow> 'a heap_entry option" where
  "but_next E a = map_option (\<lambda>e. e\<lparr>he_next := 0\<rparr>) (E a)"

lemma but_nextD:
  assumes "but_next E' a = but_next E a"
  shows "item E' a = item E a" "E' a = Some e' \<Longrightarrow> \<exists>e. E a = Some e \<and> he_element e = he_element e'"
    "E a = Some e \<Longrightarrow> \<exists>e'. E' a = Some e' \<and> he_heap_position e' = he_heap_position e" "E' a = None \<longleftrightarrow> E a = None"
    "cnt E' a = cnt E a"
proof -
  have "item E' a = item E a \<and> (E' a = None \<longleftrightarrow> E a = None) \<and> cnt E' a = cnt E a \<and>
    map_option he_element (E' a) = map_option he_element (E a) \<and> map_option he_heap_position (E' a) = map_option he_heap_position (E a)"
  proof (cases "E a")
    case None
    then show ?thesis using assms by (auto simp: but_next_def item_def cnt_def)
  next
    case (Some e)
    then obtain e' where e': "E' a = Some e'" "e'\<lparr>he_next := 0\<rparr> = e\<lparr>he_next := 0\<rparr>" using assms by (auto simp: but_next_def)
    from e'(2) have "he_element e' = he_element e" "he_count e' = he_count e" "he_error e' = he_error e" "he_heap_position e' = he_heap_position e"
      by (cases e; cases e'; simp)+
    then show ?thesis using Some e'(1) by (simp add: item_def cnt_def)
  qed
  then show "item E' a = item E a" "E' a = Some e' \<Longrightarrow> \<exists>e. E a = Some e \<and> he_element e = he_element e'"
    "E a = Some e \<Longrightarrow> \<exists>e'. E' a = Some e' \<and> he_heap_position e' = he_heap_position e" "E' a = None \<longleftrightarrow> E a = None"
    "cnt E' a = cnt E a" by auto
qed

lemma next_only_but: "next_only A E E' \<Longrightarrow> but_next E' a = but_next E a"
  by (simp add: next_only_def but_next_def)

text \<open>Giving an entry of the heap another item or other counts.\<close>

lemma ss_base_put:
  assumes b: "ss_base V ss k" and o: "\<And>a. a \<noteq> p \<Longrightarrow> but_next (ss_entries ss') a = but_next (ss_entries ss) a"
    and p: "ss_entries ss p = Some e" "ss_entries ss' p = Some e'" "he_heap_position e' = he_heap_position e"
    and s: "ss_heap ss' = ss_heap ss" "ss_fresh ss' = ss_fresh ss"
    and ix: "index_ok V (ss_entries ss') (set (tl (ss_heap ss))) (ss_value_to_heap_element ss')"
    and new: "\<And>a f. a \<noteq> p \<Longrightarrow> ss_entries ss a = Some f \<Longrightarrow> he_element f \<noteq> he_element e'"
  shows "ss_base V ss' k"
proof -
  let ?E = "ss_entries ss" and ?E' = "ss_entries ss'"
  have m: "heap_mem ?E (ss_heap ss) k" using b by (simp add: ss_base_def)
  have "heap_mem ?E' (ss_heap ss) k"
    unfolding heap_mem_def
  proof (intro conjI allI impI; (elim conjE)?)
    fix i assume i: "1 \<le> i" "i < length (ss_heap ss)"
    then obtain f where f: "?E (ss_heap ss ! i) = Some f" "i \<noteq> k \<longrightarrow> he_heap_position f = i" using heap_memD[OF m] by blast
    show "\<exists>e. ?E' (ss_heap ss ! i) = Some e \<and> (i \<noteq> k \<longrightarrow> he_heap_position e = i)"
      using f p but_nextD(3)[OF o f(1)] by (cases "ss_heap ss ! i = p") auto
  qed (use m in \<open>simp_all add: heap_mem_def\<close>)
  moreover have d: "dom ?E' = dom ?E"
  proof (rule set_eqI)
    fix a show "a \<in> dom ?E' \<longleftrightarrow> a \<in> dom ?E" using p but_nextD(4)[OF o, of a] by (cases "a = p") auto
  qed
  moreover have "a = c" if ac: "?E' a = Some f" "?E' c = Some g" "he_element f = he_element g" for a c f g
  proof -
    have old: "\<exists>h. ?E z = Some h \<and> he_element h = he_element y" if "?E' z = Some y" "z \<noteq> p" for z y
      using but_nextD(2)[OF o] that by blast
    consider "a = p" "c = p" | "a = p" "c \<noteq> p" | "a \<noteq> p" "c = p" | "a \<noteq> p" "c \<noteq> p" by blast
    then show ?thesis
    proof cases
      case 2 then show ?thesis using old[OF ac(2)] new[of c] ac p(2) by auto
    next
      case 3 then show ?thesis using old[OF ac(1)] new[of a] ac p(2) by auto
    next
      case 4
      then obtain f' g' where "?E a = Some f'" "?E c = Some g'" "he_element f' = he_element g'"
        using old[OF ac(1)] old[OF ac(2)] ac(3) by auto
      then show ?thesis using b unfolding ss_base_def by blast
    qed simp
  qed
  ultimately show ?thesis using b ix s unfolding ss_base_def by simp
qed

lemma down_heap_raise:
  assumes "heap_ordered c H" "distinct H" "1 \<le> k" "k < length H" "c (H ! k) \<le> v"
  shows "down_heap (c(H ! k := v)) H k"
proof -
  have ne: "(H ! i = H ! k) = (i = k)" if "i < length H" for i using assms(2,4) that by (simp add: nth_eq_iff_index_eq)
  have o: "c (H ! (i div 2)) \<le> c (H ! i)" if "2 \<le> i" "i < length H" for i using assms(1) that by (simp add: heap_ordered_def)
  show ?thesis unfolding down_heap_def
  proof (intro conjI allI impI; elim conjE)
    fix i assume i: "2 \<le> i" "i < length H" "i div 2 \<noteq> k"
    then show "(c(H ! k := v)) (H ! (i div 2)) \<le> (c(H ! k := v)) (H ! i)"
      using o[of i] ne[of i] ne[of "i div 2"] assms(5) by (auto simp: fun_upd_def)
  next
    fix i assume i: "2 \<le> k" "i < length H" "i div 2 = k"
    then have "2 \<le> i" "i \<noteq> k" "k div 2 \<noteq> k" "k div 2 < length H" by auto
    moreover from this have "c (H ! (k div 2)) \<le> c (H ! k)" "c (H ! k) \<le> c (H ! i)" using o[of k] o[of i] i assms(4) by simp_all
    ultimately show "(c(H ! k := v)) (H ! (k div 2)) \<le> (c(H ! k := v)) (H ! i)"
      using i(2) ne[of i] ne[of "k div 2"] by (simp add: fun_upd_def)
  qed
qed

lemma up_heap_append:
  assumes "heap_ordered c H" "\<And>a. a \<in> set H \<Longrightarrow> c' a = c a" "H \<noteq> []"
  shows "up_heap c' (H @ [p]) (length H)"
proof -
  have o: "c (H ! (i div 2)) \<le> c (H ! i)" if "2 \<le> i" "i < length H" for i using assms(1) that by (simp add: heap_ordered_def)
  show ?thesis unfolding up_heap_def using o assms(2,3) by (auto simp: nth_append)
qed

text \<open>The call returns a well-formed sketch of the value \<open>M\<close>, and only the heap, the index and the store changed.\<close>

definition ss_to :: "'a sketch_env \<Rightarrow> 'a space_saving \<Rightarrow> ('a \<Rightarrow> (u64 \<times> u64) option) \<Rightarrow> error + 'a space_saving \<Rightarrow> bool" where
  "ss_to V ss M res \<longleftrightarrow> (\<exists>ss'. res = Inr ss' \<and> ss_wf V ss' \<and> ss_map ss' = M \<and> ss_max_capacity ss' = ss_max_capacity ss \<and>
     ss_size ss' = ss_size ss \<and> ss_epsilon ss' = ss_epsilon ss)"

lemma reheaped_to:
  assumes "ss_base V ss' k" "reheaped ss' res" "ss_max_capacity ss' = ss_max_capacity ss" "ss_size ss' = ss_size ss" "ss_epsilon ss' = ss_epsilon ss"
  shows "ss_to V ss (ss_map ss') res"
  by (rule reheaped_wf[OF assms(1,2)]) (use assms(3-) in \<open>auto simp: ss_to_def\<close>)

lemma cnt_upd: "cnt (E(p \<mapsto> e)) = (cnt E)(p := he_count e)"
  by (auto simp: cnt_def)

lemma ss_base_mem: "ss_base V ss 0 \<Longrightarrow> heap_mem (ss_entries ss) (ss_heap ss) k"
  unfolding ss_base_def heap_mem_def by (metis not_one_le_zero)

lemma ss_wf_entry:
  assumes "ss_wf V ss" "ss_entries ss p = Some e"
  shows "1 \<le> he_heap_position e" "he_heap_position e < length (ss_heap ss)" "ss_heap ss ! he_heap_position e = p" "p \<in> set (tl (ss_heap ss))"
    "p \<noteq> 0"
proof -
  have m: "heap_mem (ss_entries ss) (ss_heap ss) 0" and A: "p \<in> set (tl (ss_heap ss))"
    using assms by (auto simp: ss_wf_def ss_base_def)
  then obtain i where i: "i < length (tl (ss_heap ss))" "tl (ss_heap ss) ! i = p" by (auto simp: in_set_conv_nth)
  then have j: "1 \<le> Suc i" "Suc i < length (ss_heap ss)" "ss_heap ss ! Suc i = p" by (auto simp: nth_tl)
  then have "he_heap_position e = Suc i" using heap_memD[OF m j(1,2)] assms(2) by auto
  then show "1 \<le> he_heap_position e" "he_heap_position e < length (ss_heap ss)" "ss_heap ss ! he_heap_position e = p" "p \<in> set (tl (ss_heap ss))"
    "p \<noteq> 0" using j A heap_mem_tl[OF m] by auto
qed

lemma add_found_law:
  assumes wf: "ss_wf V ss" and e: "ss_entries ss p = Some e" and le: "he_count e \<le> he_count e + n"
  shows "ss_to V ss ((ss_map ss)(he_element e \<mapsto> (he_count e + n, he_error e + r))) (add_found p n r ss)"
proof -
  let ?e = "e\<lparr>he_count := he_count e + n, he_error := he_error e + r\<rparr>" and ?k = "he_heap_position e"
  let ?ss = "ss\<lparr>ss_entries := (ss_entries ss)(p \<mapsto> ?e)\<rparr>"
  have b: "ss_base V ss 0" and o: "heap_ordered (cnt (ss_entries ss)) (ss_heap ss)" using wf by (simp_all add: ss_wf_def)
  note pos = ss_wf_entry[OF wf e]
  have ix: "index_ok V (ss_entries ?ss) (set (tl (ss_heap ss))) (ss_value_to_heap_element ?ss)"
    using b e index_ok_cong[of V "ss_entries ss" _ _ "ss_entries ?ss"] by (simp add: ss_base_def)
  have inj: "he_element f \<noteq> he_element ?e" if "a \<noteq> p" "ss_entries ss a = Some f" for a f
    using b e that unfolding ss_base_def by auto
  have b': "ss_base V ?ss 0" by (rule ss_base_put[OF b _ e _ _ _ _ ix inj]) (auto simp: but_next_def)
  have m: "ss_map ?ss = (ss_map ss)(he_element e \<mapsto> (he_count e + n, he_error e + r))"
    using ss_map_put[OF b b', of p "he_element e" "(he_count e + n, he_error e + r)"] e by (simp add: item_def)
  have "down_heap (cnt (ss_entries ?ss)) (ss_heap ?ss) ?k"
    using down_heap_raise[OF o _ pos(1,2), of "he_count e + n"] pos(3) b e le by (simp add: cnt_upd ss_base_def heap_mem_def cnt_def)
  then have "reheaped ?ss (heap_bubble_down ?k ?ss)" using ss_base_mem[OF b'] pos(1,2) by (intro heap_bubble_down_law) simp_all
  then show ?thesis using reheaped_to[OF b', of _ ss] m e by (simp add: add_found_def deref_def Let_def)
qed

lemma ss_baseI:
  assumes "heap_mem (ss_entries ss) (ss_heap ss) k" "index_ok V (ss_entries ss) (set (tl (ss_heap ss))) (ss_value_to_heap_element ss)"
    "dom (ss_entries ss) = set (tl (ss_heap ss))"
    "\<And>a b e f. ss_entries ss a = Some e \<Longrightarrow> ss_entries ss b = Some f \<Longrightarrow> he_element e = he_element f \<Longrightarrow> a = b"
    "\<forall>a\<in>dom (ss_entries ss). a < ss_fresh ss" "0 < ss_fresh ss"
  shows "ss_base V ss k"
  using assms unfolding ss_base_def by blast

lemma heap_mem_append:
  assumes "heap_mem E H 0" "p \<notin> set H"
  shows "heap_mem (E(p \<mapsto> e\<lparr>he_heap_position := length H\<rparr>)) (H @ [p]) 0"
proof -
  have "\<exists>f. (E(p \<mapsto> e\<lparr>he_heap_position := length H\<rparr>)) ((H @ [p]) ! i) = Some f \<and> he_heap_position f = i"
    if i: "1 \<le> i" "i < length (H @ [p])" for i
  proof (cases "i = length H")
    case False
    then have "i < length H" using i by simp
    moreover from this have "H ! i \<noteq> p" using assms(2) nth_mem by blast
    ultimately show ?thesis using heap_memD[OF assms(1) i(1)] i by (auto simp: nth_append)
  qed simp
  then show ?thesis using assms unfolding heap_mem_def by (auto simp: nth_append)
qed

lemma add_new_law:
  assumes V: "env_ok V" and wf: "ss_wf V ss" and new: "ss_map ss t = None" and room: "length (ss_heap ss) < 2 ^ 62"
  shows "\<exists>res. add_new V t n r ss = Some res \<and> ss_to V ss ((ss_map ss)(t \<mapsto> (n, r))) res"
proof -
  let ?p = "ss_fresh ss" and ?H = "ss_heap ss" and ?E = "ss_entries ss"
  let ?e = "\<lparr>he_element = t, he_count = n, he_error = r, he_heap_position = length ?H, he_next = 0\<rparr>"
  let ?ss = "ss\<lparr>ss_fresh := ?p + 1, ss_entries := ?E(?p \<mapsto> ?e), ss_heap := ?H @ [?p]\<rparr>"
  have b: "ss_base V ss 0" and o: "heap_ordered (cnt ?E) ?H" using wf by (simp_all add: ss_wf_def)
  have m: "heap_mem ?E ?H 0" using b by (simp add: ss_base_def)
  have fr: "?E ?p = None" "?p \<noteq> 0" using b by (auto simp: ss_base_def)
  moreover have "dom ?E = set (tl ?H)" using b by (simp add: ss_base_def)
  ultimately have "?p \<notin> set (tl ?H)" by (metis domIff)
  then have pn: "?p \<notin> set (tl ?H)" "?p \<notin> set ?H" using heap_mem_tl[OF m] fr(2) by auto
  have ne: "?H \<noteq> []" using m by (simp add: heap_mem_def)
  have "index_ok V (ss_entries ?ss) (set (tl ?H)) (ss_value_to_heap_element ?ss)"
  proof (rule index_ok_cong)
    show "index_ok V ?E (set (tl ?H)) (ss_value_to_heap_element ?ss)" using b by (simp add: ss_base_def)
  qed (use pn(1) in auto)
  moreover have "card (set (tl ?H)) < 2 ^ 62" using room card_length[of "tl ?H"] by simp
  ultimately obtain l m' where ins: "value_to_heap_element_insert V ?p ?ss =
      Some (Inr (?ss\<lparr>ss_entries := (ss_entries ?ss)(?p \<mapsto> ?e\<lparr>he_next := l\<rparr>), ss_value_to_heap_element := m'\<rparr>))"
    and ix: "index_ok V ((ss_entries ?ss)(?p \<mapsto> ?e\<lparr>he_next := l\<rparr>)) (insert ?p (set (tl ?H))) m'"
    using value_insert_law[OF V, of ?ss "set (tl ?H)" ?p ?e] pn(1) fr(2) by auto
  let ?s2 = "?ss\<lparr>ss_entries := (ss_entries ?ss)(?p \<mapsto> ?e\<lparr>he_next := l\<rparr>), ss_value_to_heap_element := m'\<rparr>"
  have E: "ss_entries ?s2 = ?E(?p \<mapsto> ?e\<lparr>he_next := l\<rparr>)" "ss_heap ?s2 = ?H @ [?p]" by simp_all
  have tl: "set (tl (?H @ [?p])) = insert ?p (set (tl ?H))" using ne by (cases ?H) auto
  have t: "he_element f \<noteq> t" if "?E a = Some f" for a f
    using new ss_map_iff[OF b, of t "he_count f" "he_error f"] that by auto
  have inj: "a = c" if ac: "ss_entries ?s2 a = Some f" "ss_entries ?s2 c = Some g" "he_element f = he_element g" for a c f g
  proof -
    have inj: "\<And>a c f g. ?E a = Some f \<Longrightarrow> ?E c = Some g \<Longrightarrow> he_element f = he_element g \<Longrightarrow> a = c" using b unfolding ss_base_def by blast
    show ?thesis using ac t[of a f] t[of c g] inj[of a f c g] unfolding E by (cases "a = ?p"; cases "c = ?p") auto
  qed
  have b2: "ss_base V ?s2 0"
  proof (rule ss_baseI)
    show "heap_mem (ss_entries ?s2) (ss_heap ?s2) 0" using heap_mem_append[OF m pn(2), of "?e\<lparr>he_next := l\<rparr>"] by simp
    show "index_ok V (ss_entries ?s2) (set (tl (ss_heap ?s2))) (ss_value_to_heap_element ?s2)" using ix unfolding E tl by simp
    show "dom (ss_entries ?s2) = set (tl (ss_heap ?s2))" using b unfolding E tl by (simp add: ss_base_def)
    show "\<forall>a\<in>dom (ss_entries ?s2). a < ss_fresh ?s2" using b by (auto simp: ss_base_def less_Suc_eq)
    show "a = c" if "ss_entries ?s2 a = Some f" "ss_entries ?s2 c = Some g" "he_element f = he_element g" for a c f g
      using that by (rule inj)
  qed simp
  have mp: "ss_map ?s2 = (ss_map ss)(t \<mapsto> (n, r))"
    using ss_map_put[OF b b2, of ?p t "(n, r)"] fr by (simp add: item_def)
  have "up_heap (cnt (ss_entries ?s2)) (?H @ [?p]) (length ?H)"
    using pn(2) ne unfolding E by (intro up_heap_append[OF o]) (auto simp: cnt_def)
  then have "reheaped ?s2 (heap_bubble_up (length ?H) ?s2)"
    using ss_base_mem[OF b2, of "length ?H"] ne unfolding E by (intro heap_bubble_up_law) (auto simp: Suc_le_eq)
  then have "ss_to V ss (ss_map ?s2) (heap_bubble_up (length ?H) ?s2)" by (intro reheaped_to[OF b2]) simp_all
  then show ?thesis using ins mp by (simp add: add_new_def Let_def)
qed

text \<open>The entry at the top of the heap has the least count.\<close>

lemma ss_top:
  assumes "ss_wf V ss" "1 < length (ss_heap ss)"
  obtains p e where "ss_heap ss ! 1 = p" "ss_entries ss p = Some e" "he_heap_position e = 1"
    "\<And>t c r. ss_map ss t = Some (c, r) \<Longrightarrow> he_count e \<le> c"
proof -
  let ?E = "ss_entries ss" and ?H = "ss_heap ss"
  have b: "ss_base V ss 0" and o: "heap_ordered (cnt ?E) ?H" using assms(1) by (simp_all add: ss_wf_def)
  obtain e where e: "?E (?H ! 1) = Some e" "he_heap_position e = 1"
    using heap_memD[OF ss_base_mem[OF b, of 0], of 1] assms(2) by auto
  have "he_count e \<le> c" if m: "ss_map ss t = Some (c, r)" for t c r
  proof -
    obtain a f where f: "?E a = Some f" "he_count f = c" using m ss_map_iff[OF b] by blast
    note pos = ss_wf_entry[OF assms(1) f(1)]
    show ?thesis using heap_top_least[OF o pos(1,2)] pos(3) e f by (simp add: cnt_def)
  qed
  then show ?thesis using that e by blast
qed

lemma add_replace_law:
  assumes V: "env_ok V" and wf: "ss_wf V ss" and new: "ss_map ss t = None" and room: "length (ss_heap ss) < 2 ^ 62"
    and p: "ss_heap ss ! 1 = p" "1 < length (ss_heap ss)" "ss_entries ss p = Some e" "he_heap_position e = 1"
    and le: "he_count e \<le> he_count e + n"
  shows "\<exists>res. add_replace V t n r ss = Some res \<and>
    ss_to V ss ((ss_map ss)(he_element e := None, t \<mapsto> (he_count e + n, he_count e + r))) res"
proof -
  let ?E = "ss_entries ss" and ?H = "ss_heap ss" and ?A = "set (tl (ss_heap ss))"
  have b: "ss_base V ss 0" and o: "heap_ordered (cnt ?E) ?H" using wf by (simp_all add: ss_wf_def)
  have pA: "p \<in> ?A" "p \<noteq> 0" using ss_wf_entry[OF wf p(3)] by simp_all
  have ix: "index_ok V ?E ?A (ss_value_to_heap_element ss)" using b by (simp add: ss_base_def)
  have c: "card ?A < 2 ^ 62" using room card_length[of "tl ?H"] by simp
  obtain E1 m1 where e1: "entry_erase V p ss = Some (Inr (ss\<lparr>ss_entries := E1, ss_value_to_heap_element := m1\<rparr>))"
    "index_ok V E1 (?A - {p}) m1" "next_only ?A ?E E1" using entry_erase_law[OF V ix pA(1) c] by blast
  obtain l1 where l1: "E1 p = Some (e\<lparr>he_next := l1\<rparr>)" using next_onlyD(2)[OF e1(3) p(3)] by blast
  let ?e = "e\<lparr>he_next := l1, he_element := t, he_error := he_count e + r, he_count := he_count e + n\<rparr>"
  let ?s1 = "ss\<lparr>ss_value_to_heap_element := m1, ss_entries := E1(p \<mapsto> ?e)\<rparr>"
  have "index_ok V (ss_entries ?s1) (?A - {p}) (ss_value_to_heap_element ?s1)"
    using index_ok_cong[OF e1(2), of "ss_entries ?s1"] by simp
  moreover have "card (?A - {p}) < 2 ^ 62" using c card_Diff1_le[of ?A p] by linarith
  ultimately obtain l m' where ins: "value_to_heap_element_insert V p ?s1 =
      Some (Inr (?s1\<lparr>ss_entries := (ss_entries ?s1)(p \<mapsto> ?e\<lparr>he_next := l\<rparr>), ss_value_to_heap_element := m'\<rparr>))"
    and ix2: "index_ok V ((ss_entries ?s1)(p \<mapsto> ?e\<lparr>he_next := l\<rparr>)) (insert p (?A - {p})) m'"
    using value_insert_law[OF V, of ?s1 "?A - {p}" p ?e] pA(2) by auto
  let ?s2 = "?s1\<lparr>ss_entries := (ss_entries ?s1)(p \<mapsto> ?e\<lparr>he_next := l\<rparr>), ss_value_to_heap_element := m'\<rparr>"
  have E: "ss_entries ?s2 = E1(p \<mapsto> ?e\<lparr>he_next := l\<rparr>)" by simp
  have same: "but_next (ss_entries ?s2) a = but_next ?E a" if "a \<noteq> p" for a
    using next_only_but[OF e1(3), of a] that by (simp add: but_next_def)
  have ix3: "index_ok V (ss_entries ?s2) ?A (ss_value_to_heap_element ?s2)" using ix2 pA(1) by (simp add: insert_absorb)
  have t: "he_element f \<noteq> he_element (?e\<lparr>he_next := l\<rparr>)" if "a \<noteq> p" "?E a = Some f" for a f
    using new ss_map_iff[OF b, of t "he_count f" "he_error f"] that by auto
  have b2: "ss_base V ?s2 0" by (rule ss_base_put[OF b same p(3) _ _ _ _ ix3 t]) simp_all
  have mp: "ss_map ?s2 = (ss_map ss)(he_element e := None, t \<mapsto> (he_count e + n, he_count e + r))"
    using ss_map_put[OF b b2 but_nextD(1)[OF same], of p t "(he_count e + n, he_count e + r)"] p(3) by (simp add: item_def)
  have "cnt (ss_entries ?s2) = (cnt ?E)(p := he_count e + n)"
    using but_nextD(5)[OF same] by (intro ext) (auto simp: cnt_def)
  then have "down_heap (cnt (ss_entries ?s2)) ?H 1"
    using down_heap_raise[OF o _ _ p(2), of "he_count e + n"] p(1,3) b le by (simp add: ss_base_def heap_mem_def cnt_def)
  then have "reheaped ?s2 (heap_bubble_down 1 ?s2)" using ss_base_mem[OF b2, of 1] p(2) by (intro heap_bubble_down_law) simp_all
  then have "ss_to V ss (ss_map ?s2) (heap_bubble_down 1 ?s2)" by (intro reheaped_to[OF b2]) simp_all
  moreover have "add_replace V t n r ss = Some (heap_bubble_down 1 ?s2)"
    using p(1,2) e1(1) l1 ins by (simp add: add_replace_def heap_at_def deref_def Let_def)
  ultimately show ?thesis using mp by simp
qed

text \<open>What adding \<open>n\<close> occurrences of \<open>t\<close>, \<open>r\<close> of them in error, means for a sketch of \<open>cap\<close> items.\<close>

inductive add_spec ::
  "nat \<Rightarrow> 'a \<Rightarrow> u64 \<Rightarrow> u64 \<Rightarrow> ('a \<Rightarrow> (u64 \<times> u64) option) \<Rightarrow> ('a \<Rightarrow> (u64 \<times> u64) option) \<Rightarrow> bool" for cap t n r where
  found: "M t = Some (c, e) \<Longrightarrow> add_spec cap t n r M (M(t \<mapsto> (c + n, e + r)))"
| room: "M t = None \<Longrightarrow> card (dom M) < cap \<Longrightarrow> add_spec cap t n r M (M(t \<mapsto> (n, r)))"
| full: "M t = None \<Longrightarrow> cap \<le> card (dom M) \<Longrightarrow> M t0 = Some (c0, e0) \<Longrightarrow>
    (\<And>t' c e. M t' = Some (c, e) \<Longrightarrow> c0 \<le> c) \<Longrightarrow> add_spec cap t n r M (M(t0 := None, t \<mapsto> (c0 + n, c0 + r)))"

text \<open>The counts do not wrap around.\<close>

definition counts_fit :: "u64 \<Rightarrow> ('a \<Rightarrow> (u64 \<times> u64) option) \<Rightarrow> bool" where
  "counts_fit n M \<longleftrightarrow> (\<forall>t c e. M t = Some (c, e) \<longrightarrow> unat c + unat n < 2 ^ 64)"

lemma counts_fitD: "counts_fit n M \<Longrightarrow> M t = Some (c, e) \<Longrightarrow> c \<le> c + n"
proof -
  assume "counts_fit n M" "M t = Some (c, e)"
  then have "unat c + unat n < 2 ^ 64" unfolding counts_fit_def by blast
  then show ?thesis by (simp add: word_le_nat_alt unat_word_ariths)
qed

lemma add_impl_law:
  assumes V: "env_ok V" and wf: "ss_wf V ss" and room: "length (ss_heap ss) < 2 ^ 62" and cap: "1 \<le> ss_max_capacity ss"
    and fit: "counts_fit n (ss_map ss)"
  shows "\<exists>ss'. add_impl V t n r ss = Some (Inr ss') \<and> ss_wf V ss' \<and>
    add_spec (ss_max_capacity ss) t n r (ss_map ss) (ss_map ss') \<and>
    ss_max_capacity ss' = ss_max_capacity ss \<and> ss_size ss' = ss_size ss + n \<and> ss_epsilon ss' = ss_epsilon ss"
proof -
  have b: "ss_base V ss 0" using wf by (simp add: ss_wf_def)
  have dom: "dom (ss_entries ss) = set (tl (ss_heap ss))" using b by (simp add: ss_base_def)
  have len: "card (dom (ss_map ss)) + 1 = length (ss_heap ss)" by (rule ss_map_card(1)[OF b])
  have finish: ?thesis if r: "run_bind (Some (Inr q)) (\<lambda>found_elem. if found_elem \<noteq> 0 then Some (add_found found_elem n r ss)
        else if length (ss_heap ss) \<le> ss_max_capacity ss then add_new V t n r ss else add_replace V t n r ss) = Some res"
      "value_to_heap_element V t ss = Some (Inr q)" "ss_to V ss M res" "add_spec (ss_max_capacity ss) t n r (ss_map ss) M" for q res M
  proof -
    obtain s where s: "res = Inr s" "ss_wf V s" "ss_map s = M" "ss_max_capacity s = ss_max_capacity ss" "ss_size s = ss_size ss"
      "ss_epsilon s = ss_epsilon ss" using r(3) by (auto simp: ss_to_def)
    moreover have "ss_wf V (s\<lparr>ss_size := ss_size s + n\<rparr>)" "ss_map (s\<lparr>ss_size := ss_size s + n\<rparr>) = M"
      using s(2,3) by (simp_all add: ss_wf_def ss_base_def ss_map_def)
    ultimately show ?thesis using r(1,2,4) by (simp add: add_impl_def)
  qed
  obtain q where q: "value_to_heap_element V t ss = Some (Inr q)"
    "q = 0 \<and> (\<forall>a e. ss_entries ss a = Some e \<longrightarrow> he_element e \<noteq> t) \<or> q \<noteq> 0 \<and> (\<exists>e. ss_entries ss q = Some e \<and> he_element e = t)"
    using value_to_heap_element_law[of V ss "dom (ss_entries ss)" t] b dom unfolding ss_base_def by (metis domI)
  show ?thesis
  proof (cases "q = 0")
    case False
    then obtain e where e: "ss_entries ss q = Some e" "he_element e = t" using q(2) by blast
    then have m: "ss_map ss t = Some (he_count e, he_error e)" using ss_map_iff[OF b] by blast
    show ?thesis using add_found_law[OF wf e(1) counts_fitD[OF fit m], of r] add_spec.found[of "ss_map ss" t "he_count e" "he_error e"] m e(2) False
      by (intro finish[OF _ q(1)]) auto
  next
    case True
    then have new: "ss_map ss t = None" using q(2) ss_map_iff[OF b, of t] by (cases "ss_map ss t") fastforce+
    show ?thesis
    proof (cases "length (ss_heap ss) \<le> ss_max_capacity ss")
      case r: True
      obtain res where "add_new V t n r ss = Some res" "ss_to V ss ((ss_map ss)(t \<mapsto> (n, r))) res"
        using add_new_law[OF V wf new room] by blast
      then show ?thesis using True r len by (intro finish[OF _ q(1)]) (auto intro: add_spec.room new)
    next
      case f: False
      then have l: "1 < length (ss_heap ss)" using cap by simp
      obtain p e where p: "ss_heap ss ! 1 = p" "ss_entries ss p = Some e" "he_heap_position e = 1"
        "\<And>t c r. ss_map ss t = Some (c, r) \<Longrightarrow> he_count e \<le> c" using ss_top[OF wf l] by blast
      have m: "ss_map ss (he_element e) = Some (he_count e, he_error e)" using ss_map_iff[OF b] p(2) by blast
      obtain res where "add_replace V t n r ss = Some res"
        "ss_to V ss ((ss_map ss)(he_element e := None, t \<mapsto> (he_count e + n, he_count e + r))) res"
        using add_replace_law[OF V wf new room p(1) l p(2,3) counts_fitD[OF fit m]] by blast
      moreover have "add_spec (ss_max_capacity ss) t n r (ss_map ss) ((ss_map ss)(he_element e := None, t \<mapsto> (he_count e + n, he_count e + r)))"
        using f len by (intro add_spec.full[of "ss_map ss" t _ "he_element e" "he_count e" "he_error e"] new m p(4)) auto
      ultimately show ?thesis using True f by (intro finish[OF _ q(1)]) auto
    qed
  qed
qed

end
