(* ===== verification/Spec2Isabelle.thy ===== *)
theory Spec2Isabelle
  imports Sarray_Segments Sketches Csv Buffer_Pool Space_Saving
begin

text \<open>
  A verification library for the columnar storage of the repository: how a table of values is written to
  disk and read back, from bit packing up to reading ranges of rows through a cache, together with some of
  the data structures around it. File names are relative to \<open>src/src\<close>.

  \<^bold>\<open>The program.\<close> A column of values is cut into segments, one file each, and a segment into blocks. The
  group writer collects values per column and segment (\<open>sframe/sarray_file_format_v2.hpp\<close>) and passes full
  buffers to the segment writer (\<open>sframe/sarray_v2_block_writer.cpp\<close>), which encodes them
  (\<open>sframe/sarray_v2_type_encoding.cpp\<close>, on top of \<open>sframe/integer_pack.hpp\<close>, \<open>util/dense_bitset.hpp\<close> and the
  archives of \<open>serialization\<close>), compresses and pads them, and ends the file with a footer. The block
  manager (\<open>sframe/sarray_v2_block_manager.cpp\<close>) opens segment files, reads their footers and serves
  blocks through a pool of file handles. The column reader (\<open>sframe/sarray_file_format_v2.hpp\<close>) numbers the
  rows of all blocks of a column and serves ranges of rows from a cache, whose blocks stay encoded
  (\<open>sframe/sarray_v2_encoded_block.cpp\<close>) until a read goes backwards.

  \<^bold>\<open>Theories, definitions and what is shown.\<close>

  \<^item> \<open>Prelude\<close>: machine integers as words, their bytes, the kinds of failure. \<open>Archive\<close>: \<open>oarchive\<close> and
    \<open>iarchive\<close> over memory; the locale \<open>codec\<close> is the contract of a serializer, interpreted for integers,
    strings, pairs and vectors.
  \<^item> \<open>Bit_Pack\<close>, \<open>Integer_Pack\<close>, \<open>Frame_Of_Reference\<close>: the packers of each width, zig-zag and variable length
    integers, the frame of reference codec with its choice of a technique. Packing and encoding are
    inverted by unpacking and decoding; one of the techniques is never chosen.
  \<^item> \<open>Flexible_Type\<close>: the values, their types, names and serialization. \<open>Dense_Bitset\<close>: both bitsets refine
    sets of positions (locale \<open>bitset\<close>), including iteration, resizing, the operators and the transfer of
    bits, which is shown to return from some starting positions and to loop forever from others.
  \<^item> \<open>Type_Encoding\<close>, \<open>Typed_Block\<close>: \<open>typed_encode\<close>, \<open>typed_decode\<close> and the streaming decoder. The relation
    \<open>block_layout\<close> says which bytes a block has; the encoder writes them and both decoders read them.
  \<^item> \<open>Block_Writer\<close>: \<open>block_writer\<close>. The invariant \<open>writing\<close> says which blocks a segment file holds so far;
    blocks begin on pages. \<open>Block_Manager\<close>: \<open>block_manager\<close> as a state, its steps as the relation
    \<open>manager_step\<close>, its invariant in all reachable states, and that stored blocks are read back.
  \<^item> \<open>Encoded_Block\<close>: ranges over encoded blocks are cursors (locale \<open>row_cursor\<close>). \<open>Sarray_Reader\<close>: the
    column reader, the invariant of its cache under arbitrary eviction, and the locale \<open>block_visitor\<close> from
    which reading a range of rows follows. \<open>Column_Open\<close>: opening a column, for any kind of block (locale
    \<open>block_entries\<close>), and the contract \<open>column_reader\<close> of a reader.
  \<^item> \<open>Flex_Reader\<close>, \<open>Value_Reader\<close>: both instances of the reader satisfy it, for flexible columns and for
    columns of other types; the latter never frees a cached block.
  \<^item> \<open>Group_Writer\<close>: the group writer, proved for any call that writes a block (locale \<open>block_putter\<close>), with
    \<open>write_typed_block\<close> and the template \<open>write_block\<close> as instances.
  \<^item> \<open>Column_Store\<close>: the two meet in the locale \<open>column_store\<close>; the properties below state the result for
    both instances: what is written through the group writer is what the reader returns.
  \<^item> \<open>Sarray_Segments\<close> (\<open>sframe/sarray_reader.hpp\<close>, \<open>sframe/sarray_reader_buffer.hpp\<close>): the reader of an array,
    which divides the rows into segments, reads each through a buffer and gives out iterators. The contract of
    a format reader is the locale \<open>array_source\<close>, which every \<open>column_reader\<close> is; under it, iterators of
    different segments advanced in any order show the rows of their segments.
  \<^item> \<open>Buffer_Pool\<close> (\<open>util/buffer_pool.hpp\<close>): no buffer in use is handed out. \<open>Hash64\<close>
    (\<open>util/cityhash_gl.hpp\<close>) and \<open>Sketches\<close> (\<open>sketches/countmin.hpp\<close>, \<open>sketches/hyperloglog.hpp\<close>): the hash is
    a bijection, the estimate of count-min is bounded, combining sketches. \<open>String_Escape\<close>
    (\<open>flexible_type/string_escape.cpp\<close>, \<open>sframe/comma_escape_string.hpp\<close>): unescaping inverts escaping.
  \<^item> \<open>Csv\<close> (\<open>sframe/csv_writer.cpp\<close>, \<open>sframe/csv_line_tokenizer.cpp\<close>): the writer of rows and the state machine
    that splits a line into fields, with its callbacks as a record of functions. Rows of strings are read
    back, the tokenizer returns and keeps the types of the columns, and a delimiter of several characters is
    not kept inside quotes.

  \<^item> \<open>Hopscotch_Table\<close>, \<open>Hopscotch_Map\<close> (\<open>graphlab/util\<close>): the hash table that moves elements to keep them near
    their slot, and the map with growth and a spill map on top of it. Every sequence of operations returns and
    behaves as on a set or a partial function (locale \<open>map_store\<close>), and a saved map is loaded back.
    \<open>Space_Saving\<close> (\<open>sketches/space_saving.hpp\<close>): the sketch of the frequent items, a heap of pointers into a
    store of entries with such a map as the index.

  \<^bold>\<open>State and failure.\<close> A class is a record with the prefix of its name in the fields, and a method a
  function on it. Memory that is read uninitialised or reused (buffers of a pool, what \<open>realloc\<close> returns)
  is an argument. Codecs return an option, \<open>None\<close> being undefined behaviour or a failed assertion; other
  calls return \<open>error + 'a\<close>. The file system is a map from names to contents; \<open>good f n\<close> tells whether the
  stream of the file \<open>f\<close> is still good with \<open>n\<close> bytes written, and \<open>fs_sound good\<close> says that no file
  reaches \<open>2 ^ 64\<close> bytes. LZ4 is a pair of functions with the hypothesis \<open>lz4_inverse\<close> that decompression
  inverts compression. The draws of the random generator, the locks other threads hold and the order of
  eviction are arbitrary.

  \<^bold>\<open>Bounds.\<close> Sizes and row numbers are natural numbers where the code relies on them to fit \<open>size_t\<close>, with
  the bound as a hypothesis where it matters: a block has fewer than \<open>2 ^ 31\<close> values and at most
  \<open>LZ4_MAX_INPUT_SIZE\<close> encoded bytes, a column number is below \<open>2 ^ 63\<close>, as \<open>strtol\<close> parses it. Counters and
  offsets that are stored keep their width. Loops are structural recursions or have a termination proof;
  a loop that may run forever is a partial function whose value is \<open>None\<close> when it does, and where the code is
  to return, that is part of the statement.

  \<^bold>\<open>Not modelled.\<close> The vendored LZ4 library; file systems and streams, index files in JSON (Boost and
  libjson), threads (the modelled calls are atomic), reference counts of flexible types, floating point
  beyond the single precision arithmetic of the writer, the facades \<open>sframe\<close> and \<open>sarray\<close> and the
  relational operators on them, the reader of whole CSV files (threads), the grammars of single values
  (Boost.Spirit; the tokenizer has them as a record of functions with the contract \<open>typed_parser\<close>) and
  database import (ODBC), the other sketches, graphs, message passing, lazy evaluation and the server.
\<close>

text \<open>C1. A column written through the group writer is read back: unless a stream went bad, the values
  pushed to a column, segment after segment, are what a sequence of reads of ranges of rows returns,
  whatever the cache of the reader evicts and whichever blocks it decodes.\<close>

theorem written_columns_read_back:
  assumes law: "lz4_inverse lz4 unlz4" and fss: "fs_sound good" and good: "\<forall>s<nsegs. good (segment_filename index_file s) 0"
    and start: "index_file = [] \<or> \<not> isspace (hd index_file)"
    and req: "\<forall>(s, c, t)\<in>set reqs. s < nsegs \<and> c < ncols" "length reqs < 2 ^ 64"
    and ok: "\<forall>s<nsegs. \<forall>c<ncols. \<forall>data. sublist data (pushed (\<lambda>_ _. []) reqs s c) \<longrightarrow> data \<noteq> [] \<longrightarrow>
      block_ok data \<and> (\<forall>stale. block_fits stale data block_info_new)"
    and c: "c < ncols" "c < 2 ^ 63"
    and bm: "manager_step\<^sup>*\<^sup>* block_manager_new bm" "\<forall>s<nsegs. bm_file_to_segments bm (segment_filename index_file s) = None"
    and reads: "list_all (\<lambda>(_, _, ch, _). choices_ok ch) reads"
  shows "\<exists>r gw fs'. store_group (put_typed_block lz4 good stale) good index_file nsegs ncols reqs fs = (r, gw, fs') \<and>
    (r = Inl Io_Failure \<and> (\<exists>s<nsegs. \<not> stream_good good (segment_filename index_file s) fs') \<or>
     r = Inr () \<and> (\<exists>rd bm'. open_reader mem fs' (gi_columns (bw_index_info (gw_writer gw)) ! c) sarray_reader_new bm = Inr (rd, bm') \<and>
       read_sequence (read_rows_flex unlz4 fs') reads rd bm' =
         Inr (map (\<lambda>(a, b, _, _). slice_rows (column_values nsegs reqs c) a b) reads)))"
proof -
  have ok': "\<forall>s<nsegs. \<forall>c<ncols. \<forall>data. sublist data (pushed (\<lambda>_ _. []) reqs s c) \<longrightarrow> data \<noteq> [] \<longrightarrow>
      lz4_inverse lz4 unlz4 \<and> fs_sound good \<and> block_ok data \<and> (\<forall>stale. block_fits stale data block_info_new)"
    using law fss ok by blast
  from flex_store.columns_read_back[where stale = stale and fs = fs and mem = mem, OF fss good start req ok' c bm reads]
  show ?thesis by blast
qed

theorem written_columns_read_back_witness:
  defines "reqs \<equiv> [(0, 1, FlexList [FlexInt 5]), (1, 1, FlexList []), (0, 1, FlexList [])]"
    and "good \<equiv> \<lambda>f n. n < 2 ^ 64" and "ch \<equiv> \<lambda>i. \<lparr>ch_random = \<lambda>k m. 0, ch_locked = \<lambda>k. False, ch_stale = [], ch_moved = \<lambda>_. FlexUndefined\<rparr>"
  shows "\<exists>r gw fs'. store_group (put_typed_block (\<lambda>d. d) good (\<lambda>_. [7])) good [97] 2 2 reqs Map.empty = (r, gw, fs') \<and>
    (r = Inl Io_Failure \<and> (\<exists>s<2. \<not> stream_good good (segment_filename [97] s) fs') \<or>
     r = Inr () \<and> (\<exists>rd bm'. open_reader (\<lambda>_. 0) fs' (gi_columns (bw_index_info (gw_writer gw)) ! 1) sarray_reader_new block_manager_new = Inr (rd, bm') \<and>
       read_sequence (read_rows_flex (\<lambda>d n. d) fs') [(1, 9, ch, []), (0, 1, ch, [])] rd bm' =
         Inr [(2, [FlexList [], FlexList []]), (1, [FlexList [FlexInt 5]])]))"
proof -
  have v: "pushed (\<lambda>_ _. []) reqs = (\<lambda>s c. if c = 1 then if s = 0 then [FlexList [FlexInt 5], FlexList []] else if s = 1 then [FlexList []] else [] else [])"
    by (auto simp: reqs_def push_def fun_eq_iff)
  have ok: "block_ok data \<and> (\<forall>stale. block_fits stale data block_info_new)"
    if "sublist data [FlexList [FlexInt 5], FlexList []]" "data \<noteq> []" for data
  proof -
    have "data = [FlexList [FlexInt 5]] \<or> data = [FlexList []] \<or> data = [FlexList [FlexInt 5], FlexList []]"
      using that by (auto simp: sublist_Cons_right prefix_Cons)
    then show ?thesis by (auto simp: block_ok_def vec_total_def LZ4_MAX_INPUT_SIZE_def streamed_def
        intro!: block_fits_one_type[where t = LIST])
  qed
  have "sublist data [FlexList []] \<Longrightarrow> sublist data [FlexList [FlexInt 5], FlexList []]" for data
    by (auto simp: sublist_Cons_right)
  with ok have oks: "\<forall>s<2. \<forall>c<2. \<forall>data. sublist data (pushed (\<lambda>_ _. []) reqs s c) \<longrightarrow> data \<noteq> [] \<longrightarrow>
      block_ok data \<and> (\<forall>stale. block_fits stale data block_info_new)"
    by (auto simp: v)
  have "map (\<lambda>(a, b, _, _). slice_rows (column_values 2 reqs 1) a b) [(1, 9, ch, []), (0, 1, ch, [])] =
      [(2, [FlexList [], FlexList []]), (1, [FlexList [FlexInt 5]])]"
    by (simp add: v slice_rows_def column_values_def numeral_2_eq_2)
  moreover have "lz4_inverse (\<lambda>d. d) (\<lambda>d n. d)" "fs_sound good" "\<forall>s<2. good (segment_filename [97] s) 0"
    "[97 :: byte] = [] \<or> \<not> isspace (hd [97])" "\<forall>(s, c, t)\<in>set reqs. s < 2 \<and> c < 2" "length reqs < 2 ^ 64"
    "(1 :: nat) < 2" "(1 :: nat) < 2 ^ 63" "\<forall>s<2. bm_file_to_segments block_manager_new (segment_filename [97] s) = None"
    "list_all (\<lambda>(_, _, ch, _). choices_ok ch) [(1 :: nat, 9 :: nat, ch, [] :: flexible_type list), (0, 1, ch, [])]"
    by (simp_all add: lz4_inverse_def fs_sound_def good_def isspace_def reqs_def block_manager_new_def choices_ok_def ch_def word_le_def)
  note h = this
  ultimately show ?thesis
    using written_columns_read_back[OF h(1-6) oks h(7,8) rtranclp.rtrancl_refl h(9,10), of "\<lambda>_. [7]" Map.empty "\<lambda>_. 0"] by simp
qed

text \<open>C3. The same for the columns of another type: with a serializer and a deserializer that are inverse
  to each other, the values pushed to a column are what any sequence of reads of ranges of rows returns,
  although the reader moves the values of a block out of its cache as they are read in order.\<close>

theorem written_values_read_back:
  assumes law: "lz4_inverse lz4 unlz4" and codec: "codec save load wire vok" and fss: "fs_sound good"
    and good: "\<forall>s<nsegs. good (segment_filename index_file s) 0"
    and start: "index_file = [] \<or> \<not> isspace (hd index_file)"
    and req: "\<forall>(s, c, t)\<in>set reqs. s < nsegs \<and> c < ncols \<and> vok t" "length reqs < 2 ^ 64"
    and fits: "8 + sum_list (map (\<lambda>(s, c, t). length (wire t)) reqs) \<le> LZ4_MAX_INPUT_SIZE"
    and c: "c < ncols" "c < 2 ^ 63"
    and bm: "manager_step\<^sup>*\<^sup>* block_manager_new bm" "\<forall>s<nsegs. bm_file_to_segments bm (segment_filename index_file s) = None"
    and reads: "list_all (\<lambda>(_, _, ch, _). choices_ok ch) reads"
  shows "\<exists>r gw fs'. store_group (put_vector_block save lz4 good stale) good index_file nsegs ncols reqs fs = (r, gw, fs') \<and>
    (r = Inl Io_Failure \<and> (\<exists>s<nsegs. \<not> stream_good good (segment_filename index_file s) fs') \<or>
     r = Inr () \<and> (\<exists>rd bm'. open_reader mem fs' (gi_columns (bw_index_info (gw_writer gw)) ! c) sarray_reader_new bm = Inr (rd, bm') \<and>
       read_sequence (read_rows_values load init unlz4 fs') reads rd bm' =
         Inr (map (\<lambda>(a, b, _, _). slice_rows (column_values nsegs reqs c) a b) reads)))"
proof -
  have "vector_ok save load wire vok data" if "sublist data (pushed (\<lambda>_ _. []) reqs s c)" for data s c
  proof -
    have "subseq (pushed (\<lambda>_ _. []) reqs s c) (map (\<lambda>(s, c, t). t) reqs)" by (rule pushed_subseq)
    then have d: "subseq data (map (\<lambda>(s, c, t). t) reqs)" using that sublist_imp_subseq subseq_order.order_trans by blast
    have "list_all vok data" using req(1) list_emb_set[OF d] by (fastforce simp: list_all_iff)
    moreover have "length data < 2 ^ 64" using list_emb_length[OF d] req(2) by simp
    moreover have "length (concat (map wire data)) \<le> sum_list (map (\<lambda>(s, c, t). length (wire t)) reqs)"
      using subseq_size[OF d, of "\<lambda>t. length (wire t)"] by (simp add: length_concat comp_def case_prod_unfold)
    ultimately show ?thesis using codec fits by (simp add: vector_ok_def)
  qed
  then have ok: "\<forall>s<nsegs. \<forall>c<ncols. \<forall>data. sublist data (pushed (\<lambda>_ _. []) reqs s c) \<longrightarrow> data \<noteq> [] \<longrightarrow>
      lz4_inverse lz4 unlz4 \<and> fs_sound good \<and> vector_ok save load wire vok data"
    using law fss by blast
  have req': "\<forall>(s, c, t)\<in>set reqs. s < nsegs \<and> c < ncols" using req(1) by fastforce
  from value_store.columns_read_back[where stale = stale and fs = fs and mem = mem and init = init, OF fss good start req' req(2) ok c bm reads]
  show ?thesis by blast
qed

theorem written_values_read_back_witness:
  defines "reqs \<equiv> [(0, 0, 5), (0, 0, 6), (1, 0, 7 :: u64)]" and "good \<equiv> \<lambda>f n. n < 2 ^ 64"
    and "ch \<equiv> \<lambda>i. \<lparr>ch_random = \<lambda>k m. 0, ch_locked = \<lambda>k. False, ch_stale = [3], ch_moved = \<lambda>_. 0\<rparr>"
  shows "\<exists>r gw fs'. store_group (put_vector_block direct_assign (\<lambda>d. d) good (\<lambda>_. [7])) good [97] 2 1 reqs Map.empty = (r, gw, fs') \<and>
    (r = Inl Io_Failure \<and> (\<exists>s<2. \<not> stream_good good (segment_filename [97] s) fs') \<or>
     r = Inr () \<and> (\<exists>rd bm'. open_reader (\<lambda>_. 0) fs' (gi_columns (bw_index_info (gw_writer gw)) ! 0) sarray_reader_new block_manager_new = Inr (rd, bm') \<and>
       read_sequence (read_rows_values read_into (0 :: u64) (\<lambda>d n. d) fs') [(0, 2, ch, []), (0, 1, ch, [1, 1]), (1, 9, ch, [])] rd bm' =
         Inr [(2, [5, 6]), (1, [5]), (2, [6, 7])]))"
proof -
  have "column_values 2 reqs 0 = [5, 6, 7]" by (simp add: reqs_def column_values_def push_def numeral_2_eq_2)
  then have v: "map (\<lambda>(a, b, _, _). slice_rows (column_values 2 reqs 0) a b) [(0, 2, ch, []), (0, 1, ch, [1, 1]), (1, 9, ch, [])] =
      [(2, [5, 6]), (1, [5]), (2, [6, 7])]" by (simp add: slice_rows_def)
  have h: "lz4_inverse (\<lambda>d. d) (\<lambda>d n. d)" "codec (direct_assign :: oarchive \<Rightarrow> u64 \<Rightarrow> oarchive) read_into bytes_of (\<lambda>_. True)" "fs_sound good"
    "\<forall>s<2. good (segment_filename [97] s) 0" "[97 :: byte] = [] \<or> \<not> isspace (hd [97])"
    "\<forall>(s, c, t)\<in>set reqs. s < 2 \<and> c < 1 \<and> True" "length reqs < 2 ^ 64"
    "8 + sum_list (map (\<lambda>(s, c, t). length (bytes_of t)) reqs) \<le> LZ4_MAX_INPUT_SIZE"
    "(0 :: nat) < 1" "(0 :: nat) < 2 ^ 63" "\<forall>s<2. bm_file_to_segments block_manager_new (segment_filename [97] s) = None"
    "list_all (\<lambda>(_, _, ch, _). choices_ok ch) [(0 :: nat, 2 :: nat, ch, [] :: u64 list), (0, 1, ch, [1, 1]), (1, 9, ch, [])]"
    by (simp_all add: lz4_inverse_def fs_sound_def good_def isspace_def reqs_def block_manager_new_def choices_ok_def ch_def word_le_def
        LZ4_MAX_INPUT_SIZE_def u64_codec.codec_axioms)
  show ?thesis
    using written_values_read_back[where vok = "\<lambda>_. True", OF h(1-10) rtranclp.rtrancl_refl h(11,12), of "\<lambda>_. [7]" Map.empty "\<lambda>_. 0" 0] unfolding v .
qed

text \<open>C4. Iterating over an array gives what was written: unless a stream went bad, the reader of an array made from
  the index of a written column, with the segments of the files or with any number of segments of about equal
  length, divides the column into consecutive ranges of rows; iterators to the beginning of every segment,
  incremented in any order, each show the rows of their segment one after the other, whatever the order of the
  others, and become equal to the end iterator exactly after as many increments as the segment has rows.\<close>

theorem segment_iterators_show_column:
  assumes sizes: "sizes = map (\<lambda>s. length (pushed (\<lambda>_ _. []) reqs s c)) [0..<nsegs]" and rows: "rows = column_values nsegs reqs c"
    and law: "lz4_inverse lz4 unlz4" and fss: "fs_sound good" and good: "\<forall>s<nsegs. good (segment_filename index_file s) 0"
    and start: "index_file = [] \<or> \<not> isspace (hd index_file)"
    and req: "\<forall>(s, c, t)\<in>set reqs. s < nsegs \<and> c < ncols" "length reqs < 2 ^ 64"
    and ok: "\<forall>s<nsegs. \<forall>c<ncols. \<forall>data. sublist data (pushed (\<lambda>_ _. []) reqs s c) \<longrightarrow> data \<noteq> [] \<longrightarrow>
      block_ok data \<and> (\<forall>stale. block_fits stale data block_info_new)"
    and c: "c < ncols" "c < 2 ^ 63"
    and bm: "manager_step\<^sup>*\<^sup>* block_manager_new bm" "\<forall>s<nsegs. bm_file_to_segments bm (segment_filename index_file s) = None"
    and num: "\<forall>k. num = Some k \<longrightarrow> 0 < k \<and> k * length rows < 2 ^ 64"
    and ch: "\<forall>s. choices_ok (ch s)" and ops: "list_all (\<lambda>(s, ch). s < length (array_ranges num sizes) \<and> choices_ok ch) ops"
  shows "concat (map (range_rows rows) (array_ranges num sizes)) = rows \<and>
    (\<exists>r gw fs'. store_group (put_typed_block lz4 good stale) good index_file nsegs ncols reqs fs = (r, gw, fs') \<and>
      (r = Inl Io_Failure \<and> (\<exists>s<nsegs. \<not> stream_good good (segment_filename index_file s) fs') \<or>
       r = Inr () \<and> (\<exists>sg bm' its sg1 bm1 its' sg2 bm2.
         array_init (\<lambda>_ ix. open_reader mem fs' ix sarray_reader_new) sr_index_info (gi_columns (bw_index_info (gw_writer gw)) ! c) num
           segment_reader_new bm = Inr (sg, bm') \<and>
         begin_segments (\<lambda>ch. read_rows_flex unlz4 fs' ch False) moved init (map (\<lambda>s. (s, ch s)) [0..<sg_num_segments sg]) sg bm' =
           Inr (its, sg1, bm1) \<and>
         increments (\<lambda>ch. read_rows_flex unlz4 fs' ch False) moved ops its sg1 bm1 = Inr (its', sg2, bm2) \<and>
         iterators_show rows init (array_ranges num sizes) (count_list (map fst ops)) its' sg2)))"
proof -
  have "sum_list sizes = length rows" by (simp add: sizes rows column_values_def length_concat comp_def)
  from array_ranges_cover[OF this num] have cover: "concat (map (range_rows rows) (array_ranges num sizes)) = rows"
    by (simp add: ranges_cover_def)
  have ok': "\<forall>s<nsegs. \<forall>c<ncols. \<forall>data. sublist data (pushed (\<lambda>_ _. []) reqs s c) \<longrightarrow> data \<noteq> [] \<longrightarrow>
      lz4_inverse lz4 unlz4 \<and> fs_sound good \<and> block_ok data \<and> (\<forall>stale. block_fits stale data block_info_new)"
    using law fss ok by blast
  from flex_store.columns_iterated[where stale = stale and fs = fs and mem = mem and moved = moved and init = init,
      OF fss good start req ok' c bm num[unfolded rows] ch ops[unfolded sizes]]
  show ?thesis using cover unfolding rows sizes by blast
qed

theorem segment_iterators_show_column_witness:
  defines "reqs \<equiv> [(0, 0, FlexList [FlexInt 5]), (1, 0, FlexList []), (0, 0, FlexList [])]"
    and "good \<equiv> \<lambda>f n. n < 2 ^ 64"
    and "ch \<equiv> \<lambda>(i :: nat). \<lparr>ch_random = \<lambda>k m. 0, ch_locked = \<lambda>k. False, ch_stale = [], ch_moved = \<lambda>_. FlexUndefined\<rparr>"
  shows "concat (map (range_rows [FlexList [FlexInt 5], FlexList [], FlexList []]) (array_ranges (Some 2) [2, 1])) =
      [FlexList [FlexInt 5], FlexList [], FlexList []] \<and>
    (\<exists>r gw fs'. store_group (put_typed_block (\<lambda>d. d) good (\<lambda>_. [7])) good [97] 2 1 reqs Map.empty = (r, gw, fs') \<and>
      (r = Inl Io_Failure \<and> (\<exists>s<2. \<not> stream_good good (segment_filename [97] s) fs') \<or>
       r = Inr () \<and> (\<exists>sg bm' its sg1 bm1 its' sg2 bm2.
         array_init (\<lambda>_ ix. open_reader (\<lambda>_. 0) fs' ix sarray_reader_new) sr_index_info (gi_columns (bw_index_info (gw_writer gw)) ! 0) (Some 2)
           segment_reader_new block_manager_new = Inr (sg, bm') \<and>
         begin_segments (\<lambda>ch. read_rows_flex (\<lambda>d n. d) fs' ch False) (\<lambda>_. FlexUndefined) FlexUndefined
           (map (\<lambda>s. (s, ch)) [0..<sg_num_segments sg]) sg bm' = Inr (its, sg1, bm1) \<and>
         increments (\<lambda>ch. read_rows_flex (\<lambda>d n. d) fs' ch False) (\<lambda>_. FlexUndefined) [(1, ch), (0, ch), (1, ch)] its sg1 bm1 =
           Inr (its', sg2, bm2) \<and>
         iterators_show [FlexList [FlexInt 5], FlexList [], FlexList []] FlexUndefined (array_ranges (Some 2) [2, 1])
           (count_list (map fst [(1, ch), (0, ch), (1, ch)])) its' sg2)))"
proof -
  have v: "pushed (\<lambda>_ _. []) reqs = (\<lambda>s c. if c = 0 then if s = 0 then [FlexList [FlexInt 5], FlexList []] else if s = 1 then [FlexList []] else [] else [])"
    by (auto simp: reqs_def push_def fun_eq_iff)
  have ok: "block_ok data \<and> (\<forall>stale. block_fits stale data block_info_new)"
    if "sublist data [FlexList [FlexInt 5], FlexList []]" "data \<noteq> []" for data
  proof -
    have "data = [FlexList [FlexInt 5]] \<or> data = [FlexList []] \<or> data = [FlexList [FlexInt 5], FlexList []]"
      using that by (auto simp: sublist_Cons_right prefix_Cons)
    then show ?thesis by (auto simp: block_ok_def vec_total_def LZ4_MAX_INPUT_SIZE_def streamed_def
        intro!: block_fits_one_type[where t = LIST])
  qed
  have "sublist data [FlexList []] \<Longrightarrow> sublist data [FlexList [FlexInt 5], FlexList []]" for data
    by (auto simp: sublist_Cons_right)
  with ok have oks: "\<forall>s<2. \<forall>c<1. \<forall>data. sublist data (pushed (\<lambda>_ _. []) reqs s c) \<longrightarrow> data \<noteq> [] \<longrightarrow>
      block_ok data \<and> (\<forall>stale. block_fits stale data block_info_new)"
    by (auto simp: v)
  have sz: "[2, 1] = map (\<lambda>s. length (pushed (\<lambda>_ _. []) reqs s 0)) [0..<2]"
    and rw: "[FlexList [FlexInt 5], FlexList [], FlexList []] = column_values 2 reqs 0"
    by (simp_all add: v column_values_def numeral_2_eq_2)
  have h: "lz4_inverse (\<lambda>d. d) (\<lambda>d n. d)" "fs_sound good" "\<forall>s<2. good (segment_filename [97] s) 0" "[97] = [] \<or> \<not> isspace (hd [97])"
    "\<forall>(s, c, t)\<in>set reqs. s < 2 \<and> c < 1" "length reqs < 2 ^ 64"
    "\<forall>s<2. bm_file_to_segments block_manager_new (segment_filename [97] s) = None"
    "\<forall>k. Some 2 = Some k \<longrightarrow> 0 < k \<and> k * length [FlexList [FlexInt 5], FlexList [], FlexList []] < 2 ^ 64"
    "\<forall>s. choices_ok ch" "list_all (\<lambda>(s, ch). s < length (array_ranges (Some 2) [2, 1]) \<and> choices_ok ch) [(1, ch), (0, ch), (1, ch)]"
    by (simp_all add: lz4_inverse_def fs_sound_def good_def isspace_def reqs_def block_manager_new_def choices_ok_def ch_def word_le_def
        array_ranges_def even_ranges_def)
  show ?thesis
    by (rule segment_iterators_show_column[OF sz rw h(1-6) oks _ _ rtranclp.rtrancl_refl h(7-10)]) simp_all
qed

text \<open>C36. The cache of a column whose values are not flexible never gives a block back: after reading the
  column once, every block of the column is still held decoded, however many there are. The limit
  \<open>SFRAME_MAX_BLOCKS_IN_CACHE\<close> has no effect, since \<open>has_data\<close> is never set for such columns.\<close>

theorem value_cache_never_frees:
  assumes "column_opened (vector_entry load) unlz4 fs blocks rd bm" and "choices_ok ch"
  shows "\<exists>rd' bm'. read_rows_values load init unlz4 fs ch False 0 (length (concat blocks)) out rd bm =
      Inr (length (concat blocks), concat blocks, rd', bm') \<and>
    length (sr_cache rd') = length blocks \<and> list_all (\<lambda>e. ce_buffer e \<noteq> None \<and> \<not> ce_has_data e) (sr_cache rd')"
  by (rule whole_column_cached[OF assms])

theorem value_cache_never_frees_witness:
  defines "raw \<equiv> bytes_of (1 :: u64) @ bytes_of (5 :: u64)"
    and "info \<equiv> block_info_new\<lparr>bi_offset := 0, bi_length := 16, bi_block_size := 16, bi_num_elem := 1\<rparr>"
  defines "bm \<equiv> block_manager_new\<lparr>bm_segment_id_counter := 1, bm_file_to_segments := [[102] \<mapsto> 0],
      bm_segments := [0 \<mapsto> segment_new\<lparr>seg_segment_file := [102], seg_blocks := [[info]]\<rparr>]\<rparr>"
    and "rd \<equiv> sarray_reader_new\<lparr>sr_index_info := index_file_information_new\<lparr>ifi_segment_sizes := [1]\<rparr>, sr_num_rows := 1, sr_block_list := [(0, 0, 0)], sr_start_row := [0, 1],
      sr_cache := [cache_entry_new], sr_used_cache_entries := db_clear (db_resize (\<lambda>_. 0) db_new 1)\<rparr>"
    and "ch \<equiv> \<lambda>i. \<lparr>ch_random = \<lambda>k m. 0, ch_locked = \<lambda>k. False, ch_stale = [3], ch_moved = \<lambda>_. 0\<rparr>"
  shows "\<exists>rd' bm'. read_rows_values read_into (0 :: u64) (\<lambda>d n. d) [[102] \<mapsto> raw] ch False 0 1 [] rd bm = Inr (1, [5], rd', bm') \<and>
    length (sr_cache rd') = 1 \<and> list_all (\<lambda>e. ce_buffer e \<noteq> None \<and> \<not> ce_has_data e) (sr_cache rd')"
proof -
  have raw: "length raw = 16" by (simp add: raw_def)
  have "vector_load read_into (iarchive_new raw (length raw)) = Some ([5 :: u64], i_adv 16 (iarchive_new raw (length raw)))"
    using codec.load_wire[OF u64_codec.vector_codec iarchive_new_wf(1)[of raw], of "[5]" "[]"] by (simp add: raw_def)
  then have ve: "vector_entry read_into [5 :: u64] (info, raw)" by (simp add: vector_entry_def info_def)
  have "bm_inv bm" by (auto simp: bm_inv_def bm_def segment_known_def block_manager_new_def segment_new_def)
  moreover have "block_at (\<lambda>d n. d) raw info (info, raw)"
    using raw by (simp add: block_at_def info_def block_info_new_def)
  ultimately have "stored_block (vector_entry read_into [5 :: u64]) (\<lambda>d n. d) [[102] \<mapsto> raw] bm (0, 0, 0)"
    using ve by (auto simp: stored_block_def bm_def segment_new_def)
  moreover have "db_wf (db_resize (\<lambda>_. 0) db_new 1)" "db_size (db_resize (\<lambda>_. 0) db_new 1) = 1"
    using db_resize_wf[OF db_new_wf(1)] by auto
  ultimately have "column_opened (vector_entry read_into) (\<lambda>d n. d) [[102] \<mapsto> raw] [[5 :: u64]] rd bm"
    using db_clear_wf[of "db_resize (\<lambda>_. 0) db_new 1"]
    by (simp add: column_opened_def column_of_def rd_def row_starts_def first_row_of_def sarray_reader_new_def)
  from value_cache_never_frees[OF this, of ch 0 "[]"] show ?thesis by (simp add: choices_ok_def ch_def)
qed

end
